(* ===== verification/Prelude.thy ===== *)
theory Prelude
  imports Main "HOL-Library.Word"
begin

text \<open>
  Shared vocabulary of the development: the machine types of \<open>kernel/stdint.h\<close>, the
  collections of rewrite rules the component theories fill, and the generic lemmas on lists,
  function updates and words that several components use.
\<close>

unbundle bit_operations_syntax

subsection \<open>Machine types\<close>

text \<open>
  \<open>kernel/stdint.h\<close> on the i386 target: \<open>uint8_t\<close>, \<open>uint16_t\<close>, \<open>uint32_t\<close>
  and \<open>uint64_t\<close> are words that wrap. A C \<open>int\<close> or \<open>long\<close> is an \<open>int\<close>; where
  a value crosses between the two, \<open>sint\<close> and \<open>word_of_int\<close> write the conversion out.
\<close>

type_synonym u8 = "8 word"
type_synonym u16 = "16 word"
type_synonym u32 = "32 word"
type_synonym u64 = "64 word"

named_theorems c_defs \<open>definitions of small C helpers, unfolded together\<close>
named_theorems paint_simps \<open>drawing operations as paint jobs over point lists\<close>

subsection \<open>Lists and folds\<close>

lemma fold_invariant_step:
  assumes "I s" and "\<And>x t. x \<in> set xs \<Longrightarrow> I t \<Longrightarrow> I (f x t)"
  shows "I (fold f xs s)"
  using assms by (induction xs arbitrary: s) auto

lemma fold_const_field:
  assumes "\<And>x t. x \<in> set xs \<Longrightarrow> h (f x t) = h t"
  shows "h (fold f xs s) = h s"
  using assms by (induction xs arbitrary: s) auto

lemma upt_Suc_shift: "[0..<Suc n] = 0 # map Suc [0..<n]"
  by (simp add: upt_conv_Cons map_Suc_upt del: upt_Suc)

text \<open>How many elements satisfy \<open>P\<close> after an update.\<close>

lemma filter_update:
  assumes "t < length xs"
  shows "length (filter P (xs[t := y])) + (if P (xs ! t) then 1 else 0) = length (filter P xs) + (if P y then 1 else 0)"
proof -
  have "xs = take t xs @ xs ! t # drop (Suc t) xs" by (rule id_take_nth_drop[OF assms])
  then have "length (filter P xs) = length (filter P (take t xs @ xs ! t # drop (Suc t) xs))" by simp
  then show ?thesis using assms by (simp add: upd_conv_take_nth_drop)
qed

subsection \<open>Words\<close>

lemma unat_lt_2p [simp]: "unat (w :: 'a::len word) < 2 ^ LENGTH('a)"
  by (rule unsigned_less)

lemma unat_add_no_wrap:
  fixes a b :: u32
  assumes "unat a + unat b < 2 ^ 32"
  shows "unat (a + b) = unat a + unat b"
  using assms by (simp add: unat_word_ariths)

lemma unat_add_of_nat:
  fixes a :: u32
  assumes "unat a + k < 2 ^ 32"
  shows "unat (a + of_nat k) = unat a + k"
  using assms by (simp add: unat_word_ariths unsigned_of_nat take_bit_nat_eq_self)

lemma unat_mod_u32: "unat (a mod b :: u32) = unat a mod unat b"
  by (simp add: unat_mod)

lemma row_col_unique:
  fixes a b w :: nat
  assumes "a < w" "a' < w" "a + w * b = a' + w * b'"
  shows "a = a' \<and> b = b'"
proof
  from assms(3) have "(a + w * b) mod w = (a' + w * b') mod w" by simp
  with assms(1,2) show "a = a'" by simp
  with assms show "b = b'" by simp
qed

text \<open>Masks with low ones and logical shifts, read as arithmetic on naturals.\<close>

lemma unat_and_mask: "unat (w AND mask n :: 'a::len word) = unat w mod 2 ^ n"
  unfolding take_bit_eq_mask [symmetric] unsigned_take_bit_eq by (rule take_bit_eq_mod)

lemma mask_u32:
  "(3 :: u32) = mask 2" "(255 :: u32) = mask 8" "(1023 :: u32) = mask 10"
  "(4095 :: u32) = mask 12" "(65535 :: u32) = mask 16"
  by (simp_all add: mask_eq_exp_minus_1)

lemma unat_shiftr: "unat (drop_bit n w :: 'a::len word) = unat w div 2 ^ n"
  unfolding unat_drop_bit_eq by (rule drop_bit_eq_div)

lemma sint_small: "n < 2 ^ 31 \<Longrightarrow> sint (of_nat n :: u32) = int n"
  by (simp add: signed_of_nat signed_take_bit_int_eq_self)

end
