(* ===== verification/Graphics.thy ===== *)
theory Graphics
  imports Prelude
begin

text \<open>
  The mode-13h graphics layer: \<open>kernel/graphics.h\<close>, \<open>kernel/graphics.cc\<close> and
  \<open>kernel/mathfncs.h\<close>. A frame is the memory behind the VGA window or behind the game's
  double buffer, a function from the linear index computed by \<open>offset\<close>. Both hold
  \<open>WIDTH * HEIGHT\<close> bytes; an access past that size is memory the code does not own, and
  the model records it in the sticky flag \<open>fault\<close>.

  Every primitive is shown to be a paint job: it writes one colour to a list of points. The
  locale \<open>painter\<close> states that contract and derives the memory effect once.
\<close>

subsection \<open>Colours, dimensions and the two frames\<close>

text \<open>
  \<open>enum Color : uint8_t\<close>: the code casts any byte to it, so a colour is a byte with names.
\<close>

type_synonym color = u8

definition Black :: color where [c_defs]: "Black = 0"
definition Blue :: color where [c_defs]: "Blue = 1"
definition Green :: color where [c_defs]: "Green = 2"
definition Cyan :: color where [c_defs]: "Cyan = 3"
definition Red :: color where [c_defs]: "Red = 4"
definition Magenta :: color where [c_defs]: "Magenta = 5"
definition Brown :: color where [c_defs]: "Brown = 6"
definition LightGray :: color where [c_defs]: "LightGray = 7"
definition DarkGray :: color where [c_defs]: "DarkGray = 8"
definition LightBlue :: color where [c_defs]: "LightBlue = 9"
definition LightGreen :: color where [c_defs]: "LightGreen = 10"
definition LightCyan :: color where [c_defs]: "LightCyan = 11"
definition LightRed :: color where [c_defs]: "LightRed = 12"
definition LightMagenta :: color where [c_defs]: "LightMagenta = 13"
definition Yellow :: color where [c_defs]: "Yellow = 14"
definition White :: color where [c_defs]: "White = 15"

definition NUM_COLORS :: u32 where "NUM_COLORS = 256"
definition WIDTH :: u32 where "WIDTH = 320"
definition HEIGHT :: u32 where "HEIGHT = 200"

text \<open>The \<open>uint8_t *double_buffer\<close> argument: \<open>nullptr\<close> selects the screen.\<close>

datatype target = Nullptr | DoubleBuffer

record gfx =
  vga :: "u32 \<Rightarrow> u8"
  dbuf :: "u32 \<Rightarrow> u8"
  fault :: bool

subsection \<open>Pixels\<close>

definition offset :: "u32 \<Rightarrow> u32 \<Rightarrow> u32" where
  "offset x y = x + push_bit 8 y + push_bit 6 y"

definition in_frame :: "u32 \<Rightarrow> bool" where
  "in_frame a \<longleftrightarrow> a < WIDTH * HEIGHT"

definition store :: "target \<Rightarrow> u32 \<Rightarrow> u8 \<Rightarrow> gfx \<Rightarrow> gfx" where
  "store b a c s =
     (if \<not> in_frame a then s\<lparr>fault := True\<rparr>
      else case b of
        DoubleBuffer \<Rightarrow> s\<lparr>dbuf := (dbuf s)(a := c)\<rparr>
      | Nullptr \<Rightarrow> s\<lparr>vga := (vga s)(a := c)\<rparr>)"

definition plot :: "u32 \<Rightarrow> u32 \<Rightarrow> color \<Rightarrow> target \<Rightarrow> gfx \<Rightarrow> gfx" where
  "plot x y c b s = store b (offset x y) c s"

definition clear_screen :: "gfx \<Rightarrow> gfx" where
  "clear_screen s = fold (\<lambda>i. store Nullptr (of_nat i) Black) [0..<unat (WIDTH * HEIGHT)] s"

definition buffer_to_screen :: "gfx \<Rightarrow> gfx" where
  "buffer_to_screen s = s\<lparr>vga := (\<lambda>a. if in_frame a then dbuf s a else vga s a)\<rparr>"

subsection \<open>Lines\<close>

text \<open>\<open>abs\<close> and \<open>sgn\<close> of \<open>kernel/mathfncs.h\<close>, branch by branch.\<close>

definition abs_c :: "int \<Rightarrow> int" where
  "abs_c x = (if x < 0 then - x else x)"

definition sgn_c :: "int \<Rightarrow> int" where
  "sgn_c x = (if x < 0 then - 1 else if x = 0 then 0 else 1)"

text \<open>
  The two loops of \<open>draw_line\<close>. The counter \<open>i\<close> only bounds the number of rounds, so it
  is the structural argument; \<open>px\<close>, \<open>py\<close> and the error accumulator are threaded
  through.
\<close>

primrec line_rows :: "nat \<Rightarrow> int \<Rightarrow> int \<Rightarrow> int \<Rightarrow> int \<Rightarrow> color \<Rightarrow> target
    \<Rightarrow> int \<Rightarrow> int \<Rightarrow> int \<Rightarrow> gfx \<Rightarrow> gfx" where
  "line_rows 0 dxabs dyabs sdx sdy c b y px py s = s"
| "line_rows (Suc n) dxabs dyabs sdx sdy c b y px py s =
     (let y1 = y + dyabs;
          y2 = (if y1 \<ge> dxabs then y1 - dxabs else y1);
          py' = (if y1 \<ge> dxabs then py + sdy else py);
          px' = px + sdx
      in line_rows n dxabs dyabs sdx sdy c b y2 px' py'
           (plot (word_of_int px') (word_of_int py') c b s))"

primrec line_cols :: "nat \<Rightarrow> int \<Rightarrow> int \<Rightarrow> int \<Rightarrow> int \<Rightarrow> color \<Rightarrow> target
    \<Rightarrow> int \<Rightarrow> int \<Rightarrow> int \<Rightarrow> gfx \<Rightarrow> gfx" where
  "line_cols 0 dxabs dyabs sdx sdy c b x px py s = s"
| "line_cols (Suc n) dxabs dyabs sdx sdy c b x px py s =
     (let x1 = x + dxabs;
          x2 = (if x1 \<ge> dyabs then x1 - dyabs else x1);
          px' = (if x1 \<ge> dyabs then px + sdx else px);
          py' = py + sdy
      in line_cols n dxabs dyabs sdx sdy c b x2 px' py'
           (plot (word_of_int px') (word_of_int py') c b s))"

definition draw_line :: "u32 \<Rightarrow> u32 \<Rightarrow> u32 \<Rightarrow> u32 \<Rightarrow> color \<Rightarrow> target \<Rightarrow> gfx \<Rightarrow> gfx" where
  "draw_line x1 y1 x2 y2 c b s =
     (let dx = sint (x2 - x1);
          dy = sint (y2 - y1);
          dxabs = abs_c dx;
          dyabs = abs_c dy;
          sdx = sgn_c dx;
          sdy = sgn_c dy;
          x = drop_bit 1 dyabs;
          y = drop_bit 1 dxabs;
          px = sint x1;
          py = sint y1;
          s0 = plot (word_of_int px) (word_of_int py) c b s
      in if dxabs \<ge> dyabs
         then line_rows (nat dxabs) dxabs dyabs sdx sdy c b y px py s0
         else line_cols (nat dyabs) dxabs dyabs sdx sdy c b x px py s0)"

text \<open>
  \<open>polygon\<close>: the vertices are a flat list of coordinates; the loop joins consecutive ones and
  a last line joins the first to the last. Reading past the vertex array is a fault.
\<close>

definition polygon :: "int \<Rightarrow> int list \<Rightarrow> color \<Rightarrow> target \<Rightarrow> gfx \<Rightarrow> gfx" where
  "polygon num vs c b s =
     (if num < 1 \<or> length vs < nat (2 * num) then s\<lparr>fault := True\<rparr>
      else
       (let v = (\<lambda>k. word_of_int (vs ! k));
            s1 = fold (\<lambda>i. draw_line (v (2 * i)) (v (2 * i + 1)) (v (2 * i + 2)) (v (2 * i + 3)) c b)
                   [0..<nat (num - 1)] s;
            l = nat (2 * num)
        in draw_line (v 0) (v 1) (v (l - 2)) (v (l - 1)) c b s1))"

subsection \<open>Paint jobs\<close>

definition paint :: "target \<Rightarrow> color \<Rightarrow> (u32 \<times> u32) list \<Rightarrow> gfx \<Rightarrow> gfx" where
  "paint b c pts = fold (\<lambda>(x, y). plot x y c b) pts"

definition frame :: "target \<Rightarrow> gfx \<Rightarrow> u32 \<Rightarrow> u8" where
  "frame b s = (case b of DoubleBuffer \<Rightarrow> dbuf s | Nullptr \<Rightarrow> vga s)"

definition addrs :: "(u32 \<times> u32) list \<Rightarrow> u32 set" where
  "addrs pts = (\<lambda>(x, y). offset x y) ` set pts"

lemma addrs_simps [simp]:
  "addrs [] = {}" "addrs (p # ps) = insert (offset (fst p) (snd p)) (addrs ps)"
  "addrs (ps @ qs) = addrs ps \<union> addrs qs"
  by (auto simp: addrs_def split: prod.splits)

lemma paint_Nil [simp]: "paint b c [] s = s"
  by (simp add: paint_def)

lemma paint_Cons [simp]: "paint b c (p # ps) s = paint b c ps (plot (fst p) (snd p) c b s)"
  by (simp add: paint_def case_prod_beta)

lemma paint_append [simp]: "paint b c (ps @ qs) s = paint b c qs (paint b c ps s)"
  by (simp add: paint_def)

lemma paint_concat:
  "fold (\<lambda>i. paint b c (f i)) is s = paint b c (concat (map f is)) s"
  by (induction "is" arbitrary: s) auto

lemma frame_plot:
  "frame b' (plot x y c b s) a =
     (if b' = b \<and> a = offset x y \<and> in_frame a then c else frame b' s a)"
  by (cases b; cases b') (auto simp: plot_def store_def frame_def)

lemma fault_plot: "fault (plot x y c b s) \<longleftrightarrow> fault s \<or> \<not> in_frame (offset x y)"
  by (cases b) (auto simp: plot_def store_def)

lemma frame_paint:
  "frame b' (paint b c pts s) a =
     (if b' = b \<and> a \<in> addrs pts \<and> in_frame a then c else frame b' s a)"
  by (induction pts arbitrary: s) (auto simp: frame_plot)

lemma fault_paint: "fault (paint b c pts s) \<longleftrightarrow> fault s \<or> (\<exists>a \<in> addrs pts. \<not> in_frame a)"
  by (induction pts arbitrary: s) (auto simp: fault_plot)

lemma gfx_eqI:
  fixes s t :: gfx
  assumes "\<And>b a. frame b s a = frame b t a" and "fault s = fault t"
  shows "s = t"
proof -
  from assms(1)[of DoubleBuffer] assms(1)[of Nullptr] have "dbuf s = dbuf t" "vga s = vga t"
    by (auto simp: frame_def)
  with assms(2) show ?thesis by simp
qed

lemma paint_cong_addrs:
  assumes "addrs ps = addrs qs"
  shows "paint b c ps s = paint b c qs s"
  by (rule gfx_eqI) (simp_all add: frame_paint fault_paint assms)

text \<open>
  The contract of a drawing primitive: whatever it does, it does it by painting the points
  \<open>pts\<close> in its colour. Clients only use the memory effect below.
\<close>

locale painter =
  fixes draw :: "color \<Rightarrow> target \<Rightarrow> gfx \<Rightarrow> gfx"
    and pts :: "(u32 \<times> u32) list"
  assumes draw_paint: "draw c b s = paint b c pts s"
begin

lemma draw_frame:
  "frame b' (draw c b s) a = (if b' = b \<and> a \<in> addrs pts \<and> in_frame a then c else frame b' s a)"
  by (simp add: draw_paint frame_paint)

lemma draw_fault: "fault (draw c b s) \<longleftrightarrow> fault s \<or> (\<exists>a \<in> addrs pts. \<not> in_frame a)"
  by (simp add: draw_paint fault_paint)

lemma draw_other_frame: "b' \<noteq> b \<Longrightarrow> frame b' (draw c b s) = frame b' s"
  by (rule ext) (simp add: draw_frame)

lemma draw_idem: "draw c b (draw c' b s) = draw c b s"
  by (rule gfx_eqI) (auto simp: draw_frame draw_fault)

end

subsection \<open>Bresenham's line is the rounded ideal line\<close>

text \<open>
  The \<open>k\<close>-th point of a mostly horizontal line: \<open>k\<close> columns on, and as many rows on as the
  exact slope \<open>dyabs / dxabs\<close> gives, rounded to nearest. Lines that are more vertical swap
  the roles.
\<close>

definition line_pts :: "u32 \<Rightarrow> u32 \<Rightarrow> u32 \<Rightarrow> u32 \<Rightarrow> (u32 \<times> u32) list" where
  "line_pts x1 y1 x2 y2 =
     (let dx = sint (x2 - x1); dy = sint (y2 - y1); n = \<bar>dx\<bar>; m = \<bar>dy\<bar>
      in if m \<le> n
         then map (\<lambda>k. (x1 + word_of_int (sgn dx * int k),
                        y1 + word_of_int (sgn dy * ((n div 2 + int k * m) div n)))) [0..<Suc (nat n)]
         else map (\<lambda>k. (x1 + word_of_int (sgn dx * ((m div 2 + int k * n) div m)),
                        y1 + word_of_int (sgn dy * int k))) [0..<Suc (nat m)])"

lemma abs_c_abs [simp]: "abs_c x = \<bar>x\<bar>"
  by (simp add: abs_c_def)

lemma sgn_c_sgn [simp]: "sgn_c x = sgn x"
  by (simp add: sgn_c_def sgn_if)

lemma error_step:
  fixes e d n :: int and k :: nat
  assumes "0 < n"
  shows "(e + int (Suc k) * d) div n
       = (if e + d \<ge> n then 1 + ((e + d - n) + int k * d) div n else ((e + d) + int k * d) div n)"
proof -
  have "(e + int (Suc k) * d) = (e + d - n) + int k * d + 1 * n" by (simp add: algebra_simps)
  then have "(e + int (Suc k) * d) div n = 1 + ((e + d - n) + int k * d) div n"
    using assms by (metis add.commute div_mult_self1 less_irrefl)
  then show ?thesis by (simp add: algebra_simps)
qed

text \<open>
  One round of a loop, seen from the point list: stepping the accumulator and then taking \<open>k\<close>
  more steps lands on the same coordinates as \<open>k + 1\<close> steps from the start.
\<close>

lemma round_major: "p + sx + sx * int (Suc k) = p + sx * int (Suc (Suc k))" for sx :: int
  by (simp add: algebra_simps)

lemma round_minor:
  fixes e d n p sy :: int
  assumes "0 < n"
  shows "(if n \<le> e + d then p + sy else p)
           + sy * (((if n \<le> e + d then e + d - n else e + d) + int (Suc k) * d) div n)
         = p + sy * ((e + int (Suc (Suc k)) * d) div n)"
  using error_step[OF assms, of e "Suc k" d] by (simp add: distrib_left)

lemma first_minor:
  fixes e d n p sy :: int
  assumes "0 \<le> e" "e < n" "0 \<le> d" "d \<le> n"
  shows "(if n \<le> e + d then p + sy else p) = p + sy * ((e + int (Suc 0) * d) div n)"
proof (cases "n \<le> e + d")
  case True
  then have "(e + d - n) div n = 0" using assms by (intro div_pos_pos_trivial) auto
  with True show ?thesis using assms error_step[of n e 0 d] by simp
next
  case False
  then have "(e + d) div n = 0" using assms by (intro div_pos_pos_trivial) auto
  with False show ?thesis by simp
qed

lemma line_rows_paint:
  assumes "0 \<le> e" "e < n" "0 \<le> d" "d \<le> n"
  shows "line_rows j n d sx sy c b e px py s =
     paint b c (map (\<lambda>k. (word_of_int (px + sx * int (Suc k)),
                          word_of_int (py + sy * ((e + int (Suc k) * d) div n)))) [0..<j]) s"
  using assms
proof (induction j arbitrary: e px py s)
  case 0
  then show ?case by simp
next
  case (Suc j)
  let ?e = "if n \<le> e + d then e + d - n else e + d"
  have e: "0 \<le> ?e" "?e < n" using Suc.prems by auto
  have n: "0 < n" using Suc.prems by simp
  have "line_rows (Suc j) n d sx sy c b e px py s =
      paint b c (map (\<lambda>k. (word_of_int (px + sx * int (Suc (Suc k))), word_of_int (py + sy * ((e + int (Suc (Suc k)) * d) div n)))) [0..<j])
        (plot (word_of_int (px + sx)) (word_of_int (if n \<le> e + d then py + sy else py)) c b s)"
    by (simp only: line_rows.simps Let_def Suc.IH[OF e Suc.prems(3,4)] round_major round_minor[OF n])
  also have "plot (word_of_int (px + sx)) (word_of_int (if n \<le> e + d then py + sy else py)) c b s =
      plot (word_of_int (px + sx * int (Suc 0))) (word_of_int (py + sy * ((e + int (Suc 0) * d) div n))) c b s"
    by (simp only: first_minor[OF Suc.prems]) simp
  finally show ?case
    by (simp only: upt_Suc_shift list.map map_map comp_def paint_Cons fst_conv snd_conv)
qed

lemma line_cols_paint:
  assumes "0 \<le> e" "e < m" "0 \<le> d" "d \<le> m"
  shows "line_cols j d m sx sy c b e px py s =
     paint b c (map (\<lambda>k. (word_of_int (px + sx * ((e + int (Suc k) * d) div m)),
                          word_of_int (py + sy * int (Suc k)))) [0..<j]) s"
  using assms
proof (induction j arbitrary: e px py s)
  case 0
  then show ?case by simp
next
  case (Suc j)
  let ?e = "if m \<le> e + d then e + d - m else e + d"
  have e: "0 \<le> ?e" "?e < m" using Suc.prems by auto
  have m: "0 < m" using Suc.prems by simp
  have "line_cols (Suc j) d m sx sy c b e px py s =
      paint b c (map (\<lambda>k. (word_of_int (px + sx * ((e + int (Suc (Suc k)) * d) div m)), word_of_int (py + sy * int (Suc (Suc k))))) [0..<j])
        (plot (word_of_int (if m \<le> e + d then px + sx else px)) (word_of_int (py + sy)) c b s)"
    by (simp only: line_cols.simps Let_def Suc.IH[OF e Suc.prems(3,4)] round_major round_minor[OF m])
  also have "plot (word_of_int (if m \<le> e + d then px + sx else px)) (word_of_int (py + sy)) c b s =
      plot (word_of_int (px + sx * ((e + int (Suc 0) * d) div m))) (word_of_int (py + sy * int (Suc 0))) c b s"
    by (simp only: first_minor[OF Suc.prems]) simp
  finally show ?case
    by (simp only: upt_Suc_shift list.map map_map comp_def paint_Cons fst_conv snd_conv)
qed

lemma drop_bit_1_int: "drop_bit (Suc 0) (i :: int) = i div 2"
  by (simp add: drop_bit_eq_div)

theorem draw_line_paints: "draw_line x1 y1 x2 y2 c b s = paint b c (line_pts x1 y1 x2 y2) s"
proof -
  let ?dx = "sint (x2 - x1)" and ?dy = "sint (y2 - y1)"
  let ?n = "\<bar>?dx\<bar>" and ?m = "\<bar>?dy\<bar>"
  consider (flat) "?m \<le> ?n" "?n = 0" | (rows) "?m \<le> ?n" "0 < ?n" | (cols) "?n < ?m" by linarith
  then show ?thesis
  proof cases
    case flat
    then show ?thesis
      by (simp add: draw_line_def line_pts_def Let_def)
  next
    case rows
    then have "0 \<le> ?n div 2" "?n div 2 < ?n" by auto
    with rows show ?thesis
      unfolding draw_line_def line_pts_def Let_def upt_Suc_shift
      by (simp add: line_rows_paint drop_bit_1_int comp_def)
  next
    case cols
    then have "0 \<le> ?m div 2" "?m div 2 < ?m" by auto
    with cols show ?thesis
      unfolding draw_line_def line_pts_def Let_def upt_Suc_shift
      by (simp add: line_cols_paint drop_bit_1_int comp_def)
  qed
qed

interpretation line: painter "\<lambda>c b. draw_line x1 y1 x2 y2 c b" "line_pts x1 y1 x2 y2"
  for x1 y1 x2 y2
  by unfold_locales (rule draw_line_paints)

text \<open>How far a point may be from the ideal line: half a pixel, measured along the minor axis.\<close>

definition near_line :: "u32 \<Rightarrow> u32 \<Rightarrow> u32 \<Rightarrow> u32 \<Rightarrow> u32 \<times> u32 \<Rightarrow> bool" where
  "near_line x1 y1 x2 y2 p \<longleftrightarrow>
     (let dx = sint (x2 - x1); dy = sint (y2 - y1)
      in \<exists>i j. p = (x1 + word_of_int (sgn dx * i), y1 + word_of_int (sgn dy * j))
            \<and> 0 \<le> i \<and> i \<le> \<bar>dx\<bar> \<and> 0 \<le> j \<and> j \<le> \<bar>dy\<bar>
            \<and> 2 * \<bar>j * \<bar>dx\<bar> - i * \<bar>dy\<bar>\<bar> \<le> max \<bar>dx\<bar> \<bar>dy\<bar>)"

lemma half_bound:
  fixes a h n r :: int
  assumes "a = h - r" "2 * h \<le> n" "n \<le> 2 * h + 1" "0 \<le> r" "r < n"
  shows "2 * \<bar>a\<bar> \<le> n"
  using assms by (cases "h < r") auto

lemma mid_div:
  fixes n m :: int
  assumes "0 \<le> m" "m \<le> n"
  shows "(n div 2 + n * m) div n = m"
proof (cases "n = 0")
  case False
  with assms have "0 < n" by simp
  then have "n div 2 div n = 0" by (intro div_pos_pos_trivial) auto
  with False show ?thesis by (simp add: add.commute)
qed (use assms in simp)

lemma rounding:
  fixes n m k :: int
  assumes n: "0 < n" and m: "0 \<le> m" and k: "0 \<le> k" "k \<le> n"
  defines "q \<equiv> (n div 2 + k * m) div n"
  shows "2 * \<bar>q * n - k * m\<bar> \<le> n" and "0 \<le> q" and "q \<le> m"
proof -
  let ?r = "(n div 2 + k * m) mod n"
  have split: "n div 2 + k * m = q * n + ?r"
    unfolding q_def by (simp add: mult.commute)
  have r: "0 \<le> ?r" "?r < n" using n by auto
  have h: "2 * (n div 2) \<le> n" "n \<le> 2 * (n div 2) + 1" by auto
  show "2 * \<bar>q * n - k * m\<bar> \<le> n"
    by (rule half_bound[OF _ h r]) (use split in simp)
  show "0 \<le> q" unfolding q_def using assms(1,2,3) by (simp add: pos_imp_zdiv_nonneg_iff)
  have "k * m \<le> n * m" using k m by (simp add: mult_right_mono)
  then have "q \<le> (n div 2 + n * m) div n" unfolding q_def using n by (intro zdiv_mono1) auto
  show "q \<le> m"
  proof (cases "m \<le> n")
    case True
    with m \<open>q \<le> (n div 2 + n * m) div n\<close> show ?thesis by (simp add: mid_div)
  next
    case False
    have "(n div 2 + n * m) div n = m"
      using n by (simp add: div_pos_pos_trivial)
    with \<open>q \<le> (n div 2 + n * m) div n\<close> show ?thesis by simp
  qed
qed

lemma near_lineI:
  assumes "0 \<le> i" "i \<le> \<bar>sint (x2 - x1)\<bar>" "0 \<le> j" "j \<le> \<bar>sint (y2 - y1)\<bar>"
    and "2 * \<bar>j * \<bar>sint (x2 - x1)\<bar> - i * \<bar>sint (y2 - y1)\<bar>\<bar>
         \<le> max \<bar>sint (x2 - x1)\<bar> \<bar>sint (y2 - y1)\<bar>"
  shows "near_line x1 y1 x2 y2
    (x1 + word_of_int (sgn (sint (x2 - x1)) * i), y1 + word_of_int (sgn (sint (y2 - y1)) * j))"
  unfolding near_line_def Let_def
  by (rule exI[of _ i], rule exI[of _ j]) (rule conjI[OF refl], intro conjI; rule assms)

lemma near_line_row:
  assumes "\<bar>sint (y2 - y1)\<bar> \<le> \<bar>sint (x2 - x1)\<bar>" and "0 \<le> k" "k \<le> \<bar>sint (x2 - x1)\<bar>"
  shows "near_line x1 y1 x2 y2
     (x1 + word_of_int (sgn (sint (x2 - x1)) * k),
      y1 + word_of_int (sgn (sint (y2 - y1)) *
        ((\<bar>sint (x2 - x1)\<bar> div 2 + k * \<bar>sint (y2 - y1)\<bar>) div \<bar>sint (x2 - x1)\<bar>)))"
proof (cases "sint (x2 - x1) = 0")
  case True
  with assms show ?thesis
    unfolding near_line_def Let_def by (intro exI[of _ 0] conjI) auto
next
  case False
  let ?n = "\<bar>sint (x2 - x1)\<bar>" and ?m = "\<bar>sint (y2 - y1)\<bar>"
  let ?q = "(?n div 2 + k * ?m) div ?n"
  have n: "0 < ?n" using False by simp
  note r = rounding[OF n abs_ge_zero assms(2,3), of "sint (y2 - y1)"]
  from r(1) have "2 * \<bar>?q * ?n - k * ?m\<bar> \<le> max ?n ?m" by (rule order_trans[OF _ max.cobounded1])
  then show ?thesis by (rule near_lineI[OF assms(2,3) r(2,3)])
qed

lemma near_line_col:
  assumes "\<bar>sint (x2 - x1)\<bar> < \<bar>sint (y2 - y1)\<bar>" and "0 \<le> k" "k \<le> \<bar>sint (y2 - y1)\<bar>"
  shows "near_line x1 y1 x2 y2
     (x1 + word_of_int (sgn (sint (x2 - x1)) *
        ((\<bar>sint (y2 - y1)\<bar> div 2 + k * \<bar>sint (x2 - x1)\<bar>) div \<bar>sint (y2 - y1)\<bar>)),
      y1 + word_of_int (sgn (sint (y2 - y1)) * k))"
proof -
  let ?n = "\<bar>sint (x2 - x1)\<bar>" and ?m = "\<bar>sint (y2 - y1)\<bar>"
  let ?q = "(?m div 2 + k * ?n) div ?m"
  have m: "0 < ?m" using assms(1) by (rule le_less_trans[OF abs_ge_zero])
  note r = rounding[OF m abs_ge_zero assms(2,3), of "sint (x2 - x1)"]
  from r(1) have "2 * \<bar>k * ?n - ?q * ?m\<bar> \<le> max ?n ?m"
    by (subst abs_minus_commute) (rule order_trans[OF _ max.cobounded2])
  then show ?thesis by (rule near_lineI[OF r(2,3) assms(2,3)])
qed

lemma line_pts_near: "list_all (near_line x1 y1 x2 y2) (line_pts x1 y1 x2 y2)"
proof (cases "\<bar>sint (y2 - y1)\<bar> \<le> \<bar>sint (x2 - x1)\<bar>")
  case True
  then show ?thesis
    using near_line_row[OF True of_nat_0_le_iff]
    by (auto simp: line_pts_def Let_def list_all_iff less_Suc_eq_le le_nat_iff
        simp del: upt_Suc of_int_mult of_int_of_nat_eq)
next
  case False
  then have "\<bar>sint (x2 - x1)\<bar> < \<bar>sint (y2 - y1)\<bar>" by simp
  with False show ?thesis
    using near_line_col[OF _ of_nat_0_le_iff]
    by (auto simp: line_pts_def Let_def list_all_iff less_Suc_eq_le le_nat_iff
        simp del: upt_Suc of_int_mult of_int_of_nat_eq)
qed

lemma line_pts_ends:
  "line_pts x1 y1 x2 y2 \<noteq> []" "hd (line_pts x1 y1 x2 y2) = (x1, y1)"
  "last (line_pts x1 y1 x2 y2) = (x2, y2)"
  "length (line_pts x1 y1 x2 y2) = Suc (nat (max \<bar>sint (x2 - x1)\<bar> \<bar>sint (y2 - y1)\<bar>))"
proof -
  let ?dx = "sint (x2 - x1)" and ?dy = "sint (y2 - y1)"
  let ?n = "\<bar>?dx\<bar>" and ?m = "\<bar>?dy\<bar>"
  have half: "\<bar>d\<bar> div 2 div \<bar>d\<bar> = 0" for d :: int
    by (cases "d = 0") (auto intro: div_pos_pos_trivial)
  show "line_pts x1 y1 x2 y2 \<noteq> []" by (simp add: line_pts_def Let_def)
  show "hd (line_pts x1 y1 x2 y2) = (x1, y1)"
    by (simp add: line_pts_def Let_def upt_Suc_shift half del: upt_Suc)
  show "last (line_pts x1 y1 x2 y2) = (x2, y2)"
    using mid_div[of ?m ?n] mid_div[of ?n ?m]
    by (simp add: line_pts_def Let_def sgn_mult_abs flip: of_int_mult)
  show "length (line_pts x1 y1 x2 y2) = Suc (nat (max ?n ?m))"
  proof (cases "?m \<le> ?n")
    case True
    then have "max ?n ?m = ?n" by (rule max.absorb1)
    with True show ?thesis by (simp only: line_pts_def Let_def if_True length_map length_upt diff_zero)
  next
    case False
    then have "max ?n ?m = ?m" by (intro max.absorb2) (rule linear[THEN disjE]; simp only: simp_thms)
    with False show ?thesis by (simp only: line_pts_def Let_def if_False length_map length_upt diff_zero)
  qed
qed


subsection \<open>Addresses\<close>

definition on_screen :: "u32 \<Rightarrow> u32 \<Rightarrow> bool" where
  "on_screen x y \<longleftrightarrow> x < WIDTH \<and> y < HEIGHT"

lemma unat_offset:
  assumes "unat x < 2 ^ 16" "unat y < 2 ^ 16"
  shows "unat (offset x y) = unat x + 320 * unat y"
proof -
  have "offset x y = x + 320 * y"
    by (simp add: offset_def push_bit_eq_mult algebra_simps)
  also have "unat \<dots> = (unat x + 320 * unat y) mod 2 ^ 32"
    by (simp add: unat_word_ariths mod_simps)
  finally show ?thesis using assms by simp
qed

lemma offset_linear: "offset x y = x + 320 * y"
  by (simp add: offset_def push_bit_eq_mult algebra_simps)

lemma in_frame_nat: "in_frame a \<longleftrightarrow> unat a < 64000"
  by (simp add: in_frame_def WIDTH_def HEIGHT_def word_less_nat_alt)

lemma on_screen_nat: "on_screen x y \<longleftrightarrow> unat x < 320 \<and> unat y < 200"
  by (simp add: on_screen_def WIDTH_def HEIGHT_def word_less_nat_alt)

lemma on_screen_in_frame: "on_screen x y \<Longrightarrow> in_frame (offset x y)"
  by (simp add: on_screen_nat in_frame_nat unat_offset)

lemma offset_inj:
  assumes "on_screen x y" "on_screen x' y'" and "offset x y = offset x' y'"
  shows "x = x' \<and> y = y'"
proof -
  from assms have "unat x + 320 * unat y = unat x' + 320 * unat y'"
    by (simp add: on_screen_nat flip: unat_offset)
  with assms(1,2) have "unat x = unat x' \<and> unat y = unat y'"
    by (intro row_col_unique[of _ 320]) (auto simp: on_screen_nat)
  then show ?thesis by (simp add: word_unat_eq_iff)
qed

text \<open>
  On the screen, \<open>offset\<close> is a bijection: distinct pixels have distinct addresses, every
  address is inside the frame, and every frame byte is the address of a pixel.
\<close>

theorem offset_bij:
  "bij_betw (\<lambda>(x, y). offset x y) {(x, y). on_screen x y} {a. in_frame a}"
proof (rule bij_betw_imageI)
  show "inj_on (\<lambda>(x, y). offset x y) {(x, y). on_screen x y}"
    by (auto intro!: inj_onI dest: offset_inj)
  show "(\<lambda>(x, y). offset x y) ` {(x, y). on_screen x y} = {a. in_frame a}"
  proof (intro set_eqI iffI)
    fix a assume "a \<in> (\<lambda>(x, y). offset x y) ` {(x, y). on_screen x y}"
    then show "a \<in> {a. in_frame a}" by (auto simp: on_screen_in_frame)
  next
    fix a assume "a \<in> {a. in_frame a}"
    then have "unat a < 64000" by (simp add: in_frame_nat)
    then have "on_screen (a mod 320) (a div 320)"
      by (simp add: on_screen_nat unat_mod unat_div less_mult_imp_div_less)
    moreover have "offset (a mod 320) (a div 320) = a"
      using word_mod_div_equality[of a 320] by (simp add: offset_linear add.commute mult.commute)
    ultimately show "a \<in> (\<lambda>(x, y). offset x y) ` {(x, y). on_screen x y}"
      by (metis (mono_tags, lifting) case_prod_conv imageI mem_Collect_eq)
  qed
qed

subsection \<open>Lines between points of the screen\<close>

lemma sint_word_of_int_u32: "- 0x80000000 \<le> v \<Longrightarrow> v < 0x80000000 \<Longrightarrow> sint (word_of_int v :: u32) = v"
  by (simp only: signed_of_int) (simp add: signed_take_bit_int_eq_self)

lemma between_on_axis:
  fixes a b :: u32
  assumes "unat a < m" "unat b < m" "m \<le> 2 ^ 16" "0 \<le> i" "i \<le> \<bar>sint (b - a)\<bar>"
  shows "unat (a + word_of_int (sgn (sint (b - a)) * i)) < m"
proof -
  let ?A = "int (unat a)" and ?B = "int (unat b)"
  have "unat a < 65536" "unat b < 65536" using assms(1-3) by simp_all
  then have r: "?A < 65536" "?B < 65536" by linarith+
  have "b - a = word_of_int (?B - ?A)" by simp
  then have d: "sint (b - a) = ?B - ?A"
    by (subst \<open>b - a = word_of_int (?B - ?A)\<close>, intro sint_word_of_int_u32) (use r in linarith)+
  let ?z = "?A + sgn (?B - ?A) * i"
  have move: "0 \<le> A + sgn (B - A) * i \<and> A + sgn (B - A) * i < n"
    if "0 \<le> A" "A < n" "0 \<le> B" "B < n" "i \<le> \<bar>B - A\<bar>" for A B n :: int
    using that assms(4) by (cases "A < B"; cases "A = B") (auto simp: sgn_if)
  have z: "0 \<le> ?z \<and> ?z < int m"
    by (rule move) (use assms(1,2,5) d in linarith)+
  have "a + word_of_int (sgn (sint (b - a)) * i) = word_of_int ?z"
    unfolding d by simp
  moreover have "unat (word_of_int ?z :: u32) = nat ?z"
    using z assms(3) by (simp only: unat_eq_nat_uint unsigned_of_int) (simp add: take_bit_int_eq_self)
  moreover have "nat ?z < m" using z by linarith
  ultimately show ?thesis by (simp only:)
qed

lemma line_pts_on_screen:
  assumes "on_screen x1 y1" "on_screen x2 y2"
  shows "list_all (\<lambda>(x, y). on_screen x y) (line_pts x1 y1 x2 y2)"
proof -
  have "on_screen x y" if "near_line x1 y1 x2 y2 (x, y)" for x y
    using that assms unfolding near_line_def Let_def on_screen_nat
    by (auto simp del: of_int_mult intro!: between_on_axis)
  with line_pts_near[of x1 y1 x2 y2] show ?thesis by (auto simp: list_all_iff)
qed

lemma draw_line_fault:
  assumes "on_screen x1 y1" "on_screen x2 y2"
  shows "fault (draw_line x1 y1 x2 y2 c b s) = fault s"
proof -
  have "in_frame a" if "a \<in> addrs (line_pts x1 y1 x2 y2)" for a
    using that line_pts_on_screen[OF assms] on_screen_in_frame by (auto simp: addrs_def list_all_iff)
  then show ?thesis by (auto simp: draw_line_paints fault_paint)
qed

text \<open>
  A line between two points of the screen stays on the screen: it writes only bytes of the frame.
\<close>

theorem draw_line_in_frame:
  assumes "on_screen x1 y1" "on_screen x2 y2"
  shows "fault (draw_line x1 y1 x2 y2 c b s) = fault s"
  by (rule draw_line_fault[OF assms])

definition blank :: gfx where
  "blank = \<lparr>vga = \<lambda>_. 0, dbuf = \<lambda>_. 0, fault = False\<rparr>"

theorem draw_line_in_frame_witness: "\<not> fault (draw_line 176 10 303 193 Red Nullptr blank)"
proof -
  have "on_screen 176 10" "on_screen 303 193" by (simp_all add: on_screen_nat)
  from draw_line_in_frame[OF this, of Red Nullptr blank] show ?thesis by (simp add: blank_def)
qed

subsection \<open>Horizontal strokes\<close>

lemma line_pts_stroke: "line_pts x y (x + 4) y = map (\<lambda>k. (x + of_nat k, y)) [0..<5]"
  by (simp add: line_pts_def Let_def upt_rec)

end
