(* ===== verification/Rng.thy ===== *)
theory Rng
  imports Prelude
begin

text \<open>
  \<open>kernel/random.h\<close>: Marsaglia's multiply-with-carry generator, two 32-bit registers that
  each multiply their low half by a constant and add the high half. Each register has two
  absorbing values (zero and the all-carry value); the constructor steers the seeds away from
  them. The theory shows for which seeds that is enough.
\<close>

record rng =
  rng_w :: u32
  rng_z :: u32

definition rng_init :: "u32 \<Rightarrow> rng" where
  "rng_init seed =
     (let w = seed;
          z = NOT seed;
          w' = (if w = 0 \<or> w = 0x464fffff then w + 1 else w);
          z' = (if z = 0 \<or> z = 0x9068ffff then z + 1 else z)
      in \<lparr>rng_w = w', rng_z = z'\<rparr>)"

definition rng_next :: "rng \<Rightarrow> rng \<times> u32" where
  "rng_next r =
     (let z = 36969 * (rng_z r AND 65535) + drop_bit 16 (rng_z r);
          w = 18000 * (rng_w r AND 65535) + drop_bit 16 (rng_w r);
          res = push_bit 16 z + w
      in (\<lparr>rng_w = w, rng_z = z\<rparr>, res))"

primrec rng_run :: "nat \<Rightarrow> rng \<Rightarrow> rng" where
  "rng_run 0 r = r"
| "rng_run (Suc n) r = rng_run n (fst (rng_next r))"

subsection \<open>One step as arithmetic\<close>

definition mwc :: "nat \<Rightarrow> nat \<Rightarrow> nat" where
  "mwc m v = m * (v mod 65536) + v div 65536"

lemma mwc_word:
  fixes v :: u32 and m :: nat
  assumes "m < 65535"
  shows "unat (of_nat m * (v AND 65535) + drop_bit 16 v) = mwc m (unat v)"
proof -
  have hi: "unat v div 65536 < 65536"
    using unat_lt_2p[of v] by (simp add: less_mult_imp_div_less)
  have "m * (unat v mod 65536) \<le> 65534 * 65535"
    using assms by (intro mult_le_mono) (auto simp: less_Suc_eq_le dest: Suc_leI)
  with hi have "m * (unat v mod 65536) + unat v div 65536 < 2 ^ 32" by simp
  moreover have "unat (of_nat m :: u32) = m" using assms by (simp add: unsigned_of_nat take_bit_nat_eq_self)
  ultimately show ?thesis
    by (simp add: mwc_def unat_word_ariths mask_u32(5) unat_and_mask unat_shiftr)
qed

lemma rng_next_regs:
  "unat (rng_w (fst (rng_next r))) = mwc 18000 (unat (rng_w r))"
  "unat (rng_z (fst (rng_next r))) = mwc 36969 (unat (rng_z r))"
  using mwc_word[of 18000 "rng_w r"] mwc_word[of 36969 "rng_z r"]
  by (simp_all add: rng_next_def Let_def)

subsection \<open>Absorbing values and their predecessors\<close>

text \<open>
  A register with multiplier \<open>m\<close> is stuck at \<open>0\<close> and at \<open>m * 2^16 - 1\<close>. For
  \<open>z\<close> no other value leads there; for \<open>w\<close> two more do, and the constructor does not
  exclude them.
\<close>

definition w_bad :: "u32 set" where "w_bad = {0, 0x464fffff, 0x8C9FFFFE, 0xD2EFFFFD}"
definition z_bad :: "u32 set" where "z_bad = {0, 0x9068ffff}"

definition rng_ok :: "rng \<Rightarrow> bool" where
  "rng_ok r \<longleftrightarrow> rng_w r \<notin> w_bad \<and> rng_z r \<notin> z_bad"

lemma mwc_zero: "0 < m \<Longrightarrow> mwc m v = 0 \<Longrightarrow> v = 0"
  using div_mult_mod_eq[of v 65536] by (simp add: mwc_def)

lemma mwc_w_cases:
  assumes "v < 2 ^ 32" "mwc 18000 v = 0x464fffff"
  shows "v \<in> {0x464fffff, 0x8C9FFFFE, 0xD2EFFFFD}"
proof -
  let ?lo = "v mod 65536" and ?hi = "v div 65536"
  have hi: "?hi < 65536" using assms(1) by (simp add: less_mult_imp_div_less)
  have lo: "?lo < 65536" by simp
  have e: "18000 * ?lo + ?hi = 0x464fffff" using assms(2) by (simp add: mwc_def)
  with hi lo have "65533 \<le> ?lo" by linarith
  with lo consider "?lo = 65533" | "?lo = 65534" | "?lo = 65535" by linarith
  then show ?thesis using e div_mult_mod_eq[of v 65536] by cases auto
qed

lemma mwc_z_cases:
  assumes "v < 2 ^ 32" "mwc 36969 v = 0x9068ffff"
  shows "v = 0x9068ffff"
proof -
  let ?lo = "v mod 65536" and ?hi = "v div 65536"
  have hi: "?hi < 65536" using assms(1) by (simp add: less_mult_imp_div_less)
  have lo: "?lo < 65536" by simp
  have e: "36969 * ?lo + ?hi = 0x9068ffff" using assms(2) by (simp add: mwc_def)
  with hi lo have "?lo = 65535" by linarith
  then show ?thesis using e div_mult_mod_eq[of v 65536] by auto
qed

lemma mwc_w_bound: "v < 2 ^ 32 \<Longrightarrow> mwc 18000 v \<le> 1179695535"
  using mod_less_divisor[of 65536 v] less_mult_imp_div_less[of v 65536 65536]
  by (simp add: mwc_def)

lemma unat_eq_numeral_u32: "v = numeral k \<longleftrightarrow> unat v = unat (numeral k :: u32)" for v :: u32
  by (rule word_unat_eq_iff)

lemma rng_ok_next: "rng_ok r \<Longrightarrow> rng_ok (fst (rng_next r))"
proof -
  assume ok: "rng_ok r"
  let ?w = "unat (rng_w r)" and ?z = "unat (rng_z r)"
  have b: "?w < 2 ^ 32" "?z < 2 ^ 32" using unat_lt_2p[of "rng_w r"] unat_lt_2p[of "rng_z r"] by simp_all
  have w: "?w \<notin> {0, 0x464fffff, 0x8C9FFFFE, 0xD2EFFFFD}"
    and z: "?z \<notin> {0, 0x9068ffff}"
    using ok by (auto simp: rng_ok_def w_bad_def z_bad_def word_unat_eq_iff)
  have "mwc 18000 ?w \<notin> {0, 0x464fffff, 0x8C9FFFFE, 0xD2EFFFFD}"
    using mwc_zero[of 18000 ?w] mwc_w_cases[OF b(1)] mwc_w_bound[OF b(1)] w by auto
  moreover have "mwc 36969 ?z \<notin> {0, 0x9068ffff}"
    using mwc_zero[of 36969 ?z] mwc_z_cases[OF b(2)] z by auto
  ultimately show ?thesis
    by (auto simp: rng_ok_def w_bad_def z_bad_def word_unat_eq_iff rng_next_regs)
qed

lemma rng_ok_run: "rng_ok r \<Longrightarrow> rng_ok (rng_run n r)"
  by (induction n arbitrary: r) (auto simp: rng_ok_next)

text \<open>
  Except for two seeds, neither register of the generator ever reaches one of its absorbing
  values, however many numbers are drawn. The game's seed 0 is one of the good ones.
\<close>

theorem rng_never_absorbed:
  assumes "seed \<notin> {0x8C9FFFFE, 0xD2EFFFFD}"
  shows "rng_ok (rng_run n (rng_init seed))"
proof (rule rng_ok_run)
  have "NOT seed + 1 \<noteq> 0" if "NOT seed = 0 \<or> NOT seed = 0x9068ffff"
    using that by auto
  with assms show "rng_ok (rng_init seed)"
    by (auto simp: rng_ok_def rng_init_def w_bad_def z_bad_def Let_def)
qed

theorem rng_never_absorbed_witness: "rng_ok (rng_run 5 (rng_init 0))"
  by (rule rng_never_absorbed) simp

text \<open>
  The two excluded seeds pass the constructor's checks and still drive \<open>w\<close> into its
  absorbing value with the first number drawn, where it stays.
\<close>

theorem rng_init_misses_seeds:
  "rng_w (rng_run (Suc n) (rng_init 0x8C9FFFFE)) = 0x464fffff
   \<and> rng_w (rng_run (Suc n) (rng_init 0xD2EFFFFD)) = 0x464fffff"
proof -
  have stuck: "rng_w (rng_run n r) = 0x464fffff" if "rng_w r = 0x464fffff" for n r
    using that by (induction n arbitrary: r) (auto simp: rng_next_def Let_def)
  show ?thesis
    unfolding rng_run.simps by (intro conjI stuck) (simp_all add: rng_init_def rng_next_def Let_def)
qed

end
