(* ===== verification/Shapes.thy ===== *)
theory Shapes
  imports Graphics "HOL-Library.Multiset"
begin

text \<open>
  The falling pieces: \<open>kernel/shapes.h\<close> and \<open>kernel/shapes.cc\<close>. A piece is a 4 x 4 grid
  of 4-pixel blocks; a table gives, per orientation, the four blocks that are on. Drawing and
  clearing paint both the double buffer and the screen. The seven subclasses differ only in
  their table, so one record models \<open>Shape\<close> and seven definitions model the constructors.
\<close>

datatype shape_type = Ty_SQUARE | Ty_I | Ty_L | Ty_REVERSE_L | Ty_Z | Ty_REVERSE_Z | Ty_T

record shape =
  stype :: shape_type
  orientation :: u8
  num_blocks :: u32
  on_blocks :: "u32 list list"
  pos_x :: u32
  pos_y :: u32
  color :: color

definition BLOCK_SIZE :: u32 where "BLOCK_SIZE = 4"
definition NUM_ORIENTATIONS :: u32 where "NUM_ORIENTATIONS = 4"

subsection \<open>Block coordinates\<close>

definition to_x :: "u32 \<Rightarrow> u32 \<Rightarrow> u32" where
  "to_x global_x block_num = global_x + push_bit 2 (block_num mod 4)"

definition to_y :: "u32 \<Rightarrow> u32 \<Rightarrow> u32" where
  "to_y global_y block_num = global_y + push_bit 2 (drop_bit 2 block_num)"

definition Shape_to_x :: "shape \<Rightarrow> u32 \<Rightarrow> u32" where
  "Shape_to_x sh block_num = to_x (pos_x sh) block_num"

definition Shape_to_y :: "shape \<Rightarrow> u32 \<Rightarrow> u32" where
  "Shape_to_y sh block_num = to_y (pos_y sh) block_num"

text \<open>\<open>on_blocks[orientation][block_index]\<close>.\<close>

definition block_at :: "shape \<Rightarrow> nat \<Rightarrow> u32" where
  "block_at sh i = on_blocks sh ! unat (orientation sh) ! i"

subsection \<open>Operations\<close>

definition rotate_templ :: "shape \<Rightarrow> shape" where
  "rotate_templ sh = sh\<lparr>orientation := ucast ((ucast (orientation sh) + 1) mod NUM_ORIENTATIONS)\<rparr>"

definition fill_block :: "u32 \<Rightarrow> u32 \<Rightarrow> color \<Rightarrow> target \<Rightarrow> gfx \<Rightarrow> gfx" where
  "fill_block x_start y_start c b s =
     fold (\<lambda>line. draw_line x_start (y_start + of_nat line) (x_start + 4) (y_start + of_nat line) c b)
       [0..<unat BLOCK_SIZE] s"

definition clear_shape :: "shape \<Rightarrow> target \<Rightarrow> gfx \<Rightarrow> gfx" where
  "clear_shape sh b s =
     fold (\<lambda>i s.
        let x_cor = Shape_to_x sh (block_at sh i);
            y_cor = Shape_to_y sh (block_at sh i)
        in fill_block x_cor y_cor Black Nullptr (fill_block x_cor y_cor Black b s))
       [0..<unat (num_blocks sh)] s"

definition draw_shape :: "shape \<Rightarrow> target \<Rightarrow> gfx \<Rightarrow> gfx" where
  "draw_shape sh b s =
     fold (\<lambda>i s.
        let x_cor = Shape_to_x sh (block_at sh i);
            y_cor = Shape_to_y sh (block_at sh i)
        in fill_block x_cor y_cor (color sh) Nullptr (fill_block x_cor y_cor (color sh) b s))
       [0..<unat (num_blocks sh)] s"

definition move_down :: "target \<Rightarrow> shape \<times> gfx \<Rightarrow> shape \<times> gfx" where
  "move_down b = (\<lambda>(sh, s).
     let s1 = clear_shape sh b s;
         sh1 = sh\<lparr>pos_y := pos_y sh + BLOCK_SIZE\<rparr>
     in (sh1, draw_shape sh1 b s1))"

definition move_right :: "target \<Rightarrow> shape \<times> gfx \<Rightarrow> shape \<times> gfx" where
  "move_right b = (\<lambda>(sh, s).
     let s1 = clear_shape sh b s;
         sh1 = sh\<lparr>pos_x := pos_x sh + BLOCK_SIZE\<rparr>
     in (sh1, draw_shape sh1 b s1))"

definition move_left :: "target \<Rightarrow> shape \<times> gfx \<Rightarrow> shape \<times> gfx" where
  "move_left b = (\<lambda>(sh, s).
     let s1 = clear_shape sh b s;
         sh1 = sh\<lparr>pos_x := pos_x sh - BLOCK_SIZE\<rparr>
     in (sh1, draw_shape sh1 b s1))"

definition rotate_shape :: "target \<Rightarrow> shape \<times> gfx \<Rightarrow> shape \<times> gfx" where
  "rotate_shape b = (\<lambda>(sh, s).
     let s1 = clear_shape sh b s;
         sh1 = rotate_templ sh
     in (sh1, draw_shape sh1 b s1))"

subsection \<open>Constructors\<close>

text \<open>
  Every subclass constructor takes a colour and does not pass it on: it delegates to the
  five-argument base constructor, which takes the colour from the tick counter, and it passes
  the type \<open>SQUARE\<close> whatever the piece. The model keeps both.
\<close>

definition Shape_new :: "shape_type \<Rightarrow> u8 \<Rightarrow> u32 \<Rightarrow> u32 \<Rightarrow> u32 \<Rightarrow> color \<Rightarrow> shape" where
  "Shape_new ty orient n x y c =
     \<lparr>stype = ty, orientation = orient, num_blocks = n, on_blocks = replicate 4 (replicate 4 0),
      pos_x = x, pos_y = y, color = c\<rparr>"

definition Shape_new_jiffies :: "u32 \<Rightarrow> shape_type \<Rightarrow> u8 \<Rightarrow> u32 \<Rightarrow> u32 \<Rightarrow> u32 \<Rightarrow> shape" where
  "Shape_new_jiffies jiffies ty orient n x y =
     Shape_new ty orient n x y (ucast (jiffies mod NUM_COLORS))"

text \<open>The copy loop \<open>on_blocks[i][j] = P[i][j]\<close> shared by the constructors.\<close>

definition copy_blocks :: "u32 list list \<Rightarrow> shape \<Rightarrow> shape" where
  "copy_blocks P sh =
     fold (\<lambda>i. fold (\<lambda>j sh. sh\<lparr>on_blocks := (on_blocks sh)[i := (on_blocks sh ! i)[j := P ! i ! j]]\<rparr>)
                 [0..<unat (num_blocks sh)])
       [0..<unat NUM_ORIENTATIONS] sh"

definition SQUARE_P :: "u32 list list" where
  "SQUARE_P = [[5, 6, 9, 10], [5, 6, 9, 10], [5, 6, 9, 10], [5, 6, 9, 10]]"
definition I_P :: "u32 list list" where
  "I_P = [[1, 5, 9, 13], [4, 5, 6, 7], [1, 5, 9, 13], [4, 5, 6, 7]]"
definition L_P :: "u32 list list" where
  "L_P = [[4, 8, 12, 13], [4, 5, 6, 8], [5, 6, 10, 14], [6, 8, 9, 10]]"
definition REV_L_P :: "u32 list list" where
  "REV_L_P = [[5, 9, 12, 13], [4, 8, 9, 10], [4, 5, 8, 12], [8, 9, 10, 14]]"
definition Z_P :: "u32 list list" where
  "Z_P = [[8, 9, 13, 14], [5, 8, 9, 12], [8, 9, 13, 14], [5, 8, 9, 12]]"
definition REV_Z_P :: "u32 list list" where
  "REV_Z_P = [[9, 10, 12, 13], [5, 9, 10, 14], [9, 10, 12, 13], [5, 9, 10, 14]]"
definition T_P :: "u32 list list" where
  "T_P = [[4, 5, 6, 9], [6, 9, 10, 14], [9, 12, 13, 14], [4, 8, 9, 12]]"

definition SquareShape :: "u32 \<Rightarrow> u32 \<Rightarrow> u32 \<Rightarrow> color \<Rightarrow> shape" where
  "SquareShape jiffies x y c = copy_blocks SQUARE_P (Shape_new_jiffies jiffies Ty_SQUARE 0 4 x y)"
definition IShape :: "u32 \<Rightarrow> u32 \<Rightarrow> u32 \<Rightarrow> color \<Rightarrow> shape" where
  "IShape jiffies x y c = copy_blocks I_P (Shape_new_jiffies jiffies Ty_SQUARE 0 4 x y)"
definition LShape :: "u32 \<Rightarrow> u32 \<Rightarrow> u32 \<Rightarrow> color \<Rightarrow> shape" where
  "LShape jiffies x y c = copy_blocks L_P (Shape_new_jiffies jiffies Ty_SQUARE 0 4 x y)"
definition ReverseLShape :: "u32 \<Rightarrow> u32 \<Rightarrow> u32 \<Rightarrow> color \<Rightarrow> shape" where
  "ReverseLShape jiffies x y c = copy_blocks REV_L_P (Shape_new_jiffies jiffies Ty_SQUARE 0 4 x y)"
definition ZShape :: "u32 \<Rightarrow> u32 \<Rightarrow> u32 \<Rightarrow> color \<Rightarrow> shape" where
  "ZShape jiffies x y c = copy_blocks Z_P (Shape_new_jiffies jiffies Ty_SQUARE 0 4 x y)"
definition ReverseZShape :: "u32 \<Rightarrow> u32 \<Rightarrow> u32 \<Rightarrow> color \<Rightarrow> shape" where
  "ReverseZShape jiffies x y c = copy_blocks REV_Z_P (Shape_new_jiffies jiffies Ty_SQUARE 0 4 x y)"
definition TShape :: "u32 \<Rightarrow> u32 \<Rightarrow> u32 \<Rightarrow> color \<Rightarrow> shape" where
  "TShape jiffies x y c = copy_blocks T_P (Shape_new_jiffies jiffies Ty_SQUARE 0 4 x y)"

subsection \<open>The cells of a piece\<close>

definition block_pts :: "u32 \<Rightarrow> u32 \<Rightarrow> (u32 \<times> u32) list" where
  "block_pts x y =
     concat (map (\<lambda>line. map (\<lambda>k. (x + of_nat k, y + of_nat line)) [0..<5]) [0..<4])"

definition shape_pts :: "shape \<Rightarrow> (u32 \<times> u32) list" where
  "shape_pts sh =
     concat (map (\<lambda>i. block_pts (Shape_to_x sh (block_at sh i)) (Shape_to_y sh (block_at sh i)))
       [0..<unat (num_blocks sh)])"

definition cells :: "shape \<Rightarrow> u32 set" where
  "cells sh = addrs (shape_pts sh)"

lemma fill_block_paints: "fill_block x y c b s = paint b c (block_pts x y) s"
  by (simp add: fill_block_def block_pts_def BLOCK_SIZE_def ext [OF draw_line_paints] line_pts_stroke
      flip: paint_concat)

interpretation block: painter "\<lambda>c b. fill_block x y c b" "block_pts x y" for x y
  by unfold_locales (rule fill_block_paints)

text \<open>
  The loop over the blocks of a piece, which fills each block in the buffer and then on the
  screen: both frames get the colour on all blocks.
\<close>

lemma frame_fill_loop:
  "frame b' (fold (\<lambda>i s. fill_block (X i) (Y i) c Nullptr (fill_block (X i) (Y i) c b s)) is s) a =
     (if (b' = b \<or> b' = Nullptr) \<and> a \<in> addrs (concat (map (\<lambda>i. block_pts (X i) (Y i)) is)) \<and> in_frame a
      then c else frame b' s a)"
  by (induction "is" arbitrary: s) (auto simp: block.draw_frame)

lemma fault_fill_loop:
  "fault (fold (\<lambda>i s. fill_block (X i) (Y i) c Nullptr (fill_block (X i) (Y i) c b s)) is s) \<longleftrightarrow>
     fault s \<or> (\<exists>a \<in> addrs (concat (map (\<lambda>i. block_pts (X i) (Y i)) is)). \<not> in_frame a)"
  by (induction "is" arbitrary: s) (auto simp: block.draw_fault)

lemma frame_draw_shape:
  "frame b' (draw_shape sh b s) a =
     (if (b' = b \<or> b' = Nullptr) \<and> a \<in> cells sh \<and> in_frame a then color sh else frame b' s a)"
  by (simp add: draw_shape_def Let_def frame_fill_loop cells_def shape_pts_def)

lemma fault_draw_shape:
  "fault (draw_shape sh b s) \<longleftrightarrow> fault s \<or> (\<exists>a \<in> cells sh. \<not> in_frame a)"
  by (simp add: draw_shape_def Let_def fault_fill_loop cells_def shape_pts_def)

lemma frame_clear_shape:
  "frame b' (clear_shape sh b s) a =
     (if (b' = b \<or> b' = Nullptr) \<and> a \<in> cells sh \<and> in_frame a then Black else frame b' s a)"
  by (simp add: clear_shape_def Let_def frame_fill_loop cells_def shape_pts_def)

lemma fault_clear_shape:
  "fault (clear_shape sh b s) \<longleftrightarrow> fault s \<or> (\<exists>a \<in> cells sh. \<not> in_frame a)"
  by (simp add: clear_shape_def Let_def fault_fill_loop cells_def shape_pts_def)

lemmas shape_effects = frame_draw_shape fault_draw_shape frame_clear_shape fault_clear_shape

lemma cells_color [simp]: "cells (sh\<lparr>color := c\<rparr>) = cells sh"
  by (simp add: cells_def shape_pts_def Shape_to_x_def Shape_to_y_def block_at_def)

text \<open>A shape is drawn in a frame when each of its cells inside the frame has its colour.\<close>

definition drawn :: "target \<Rightarrow> shape \<Rightarrow> gfx \<Rightarrow> bool" where
  "drawn b sh s \<longleftrightarrow> (\<forall>a \<in> cells sh. in_frame a \<longrightarrow> frame b s a = color sh)"

lemma drawn_draw_shape: "b' = b \<or> b' = Nullptr \<Longrightarrow> drawn b' sh (draw_shape sh b s)"
  by (auto simp: drawn_def frame_draw_shape)

lemma redraw: "drawn b sh s \<Longrightarrow> drawn Nullptr sh s \<Longrightarrow> \<forall>a \<in> cells sh. in_frame a \<Longrightarrow>
    draw_shape sh b (clear_shape sh b s) = s"
  by (rule gfx_eqI) (auto simp: shape_effects drawn_def)

subsection \<open>What a move does to the two frames\<close>

definition after_move :: "target \<Rightarrow> target \<Rightarrow> shape \<Rightarrow> shape \<Rightarrow> gfx \<Rightarrow> u32 \<Rightarrow> u8" where
  "after_move b' b sh sh1 s a =
     (if (b' = b \<or> b' = Nullptr) \<and> in_frame a
      then if a \<in> cells sh1 then color sh1 else if a \<in> cells sh then Black else frame b' s a
      else frame b' s a)"

lemma frame_move:
  "frame b' (draw_shape sh1 b (clear_shape sh b s)) a = after_move b' b sh sh1 s a"
  by (simp add: after_move_def shape_effects)

text \<open>
  Each of the four moves changes exactly its own field of the piece and, in the buffer and on
  the screen alike, paints the new cells in the piece's colour, blackens the old ones that are
  not new, and leaves every other byte alone.
\<close>

theorem move_effects:
  "fst (move_down b (sh, s)) = sh\<lparr>pos_y := pos_y sh + 4\<rparr>
   \<and> fst (move_right b (sh, s)) = sh\<lparr>pos_x := pos_x sh + 4\<rparr>
   \<and> fst (move_left b (sh, s)) = sh\<lparr>pos_x := pos_x sh - 4\<rparr>
   \<and> fst (rotate_shape b (sh, s)) = rotate_templ sh
   \<and> frame b' (snd (move_down b (sh, s))) a = after_move b' b sh (sh\<lparr>pos_y := pos_y sh + 4\<rparr>) s a
   \<and> frame b' (snd (move_right b (sh, s))) a = after_move b' b sh (sh\<lparr>pos_x := pos_x sh + 4\<rparr>) s a
   \<and> frame b' (snd (move_left b (sh, s))) a = after_move b' b sh (sh\<lparr>pos_x := pos_x sh - 4\<rparr>) s a
   \<and> frame b' (snd (rotate_shape b (sh, s))) a = after_move b' b sh (rotate_templ sh) s a"
  by (simp add: move_down_def move_right_def move_left_def rotate_shape_def Let_def frame_move
      BLOCK_SIZE_def)

subsection \<open>Orientations and tables\<close>

lemma unat_rotate:
  "unat (orientation (rotate_templ sh)) = (unat (orientation sh) + 1) mod 4"
proof -
  have "unat (orientation sh) < 256" using unat_lt_2p[of "orientation sh"] by simp
  then show ?thesis
    by (simp add: rotate_templ_def NUM_ORIENTATIONS_def unsigned_ucast_eq take_bit_eq_mod unat_mod
        unat_word_ariths)
qed

definition templates :: "u32 list list list" where
  "templates = [SQUARE_P, I_P, L_P, REV_L_P, Z_P, REV_Z_P, T_P]"

definition shape_ok :: "shape \<Rightarrow> bool" where
  "shape_ok sh \<longleftrightarrow> on_blocks sh \<in> set templates \<and> num_blocks sh = 4 \<and> unat (orientation sh) < 4"

lemma shape_ok_rotate: "shape_ok sh \<Longrightarrow> shape_ok (rotate_templ sh)"
  by (simp add: shape_ok_def unat_rotate) (simp add: rotate_templ_def)

lemma copy_row:
  assumes "n \<le> length r" "i < length (on_blocks sh)" "length (on_blocks sh ! i) = length r"
  shows "fold (\<lambda>j sh. sh\<lparr>on_blocks := (on_blocks sh)[i := (on_blocks sh ! i)[j := r ! j]]\<rparr>) [0..<n] sh
       = sh\<lparr>on_blocks := (on_blocks sh)[i := take n r @ drop n (on_blocks sh ! i)]\<rparr>"
  using assms(1)
proof (induction n)
  case 0
  then show ?case by simp
next
  case (Suc n)
  have "(take n r @ drop n (on_blocks sh ! i))[n := r ! n] = take (Suc n) r @ drop (Suc n) (on_blocks sh ! i)"
    using Suc.prems assms(3)
    by (simp add: list_update_append take_Suc_conv_app_nth upd_conv_take_nth_drop Cons_nth_drop_Suc [symmetric])
  with Suc assms(2) show ?case by simp
qed

lemma copy_rows:
  assumes "n \<le> length P" "length (on_blocks sh) = length P" "num_blocks sh = 4"
    and "\<forall>r \<in> set P. length r = 4" "\<forall>r \<in> set (on_blocks sh). length r = 4"
  shows "fold (\<lambda>i. fold (\<lambda>j sh. sh\<lparr>on_blocks := (on_blocks sh)[i := (on_blocks sh ! i)[j := P ! i ! j]]\<rparr>)
           [0..<unat (num_blocks sh)]) [0..<n] sh
       = sh\<lparr>on_blocks := take n P @ drop n (on_blocks sh)\<rparr>"
  using assms(1)
proof (induction n)
  case 0
  then show ?case by simp
next
  case (Suc n)
  have l: "length (P ! n) = 4" "length (on_blocks sh ! n) = 4"
    using Suc.prems assms by simp_all
  let ?sh = "sh\<lparr>on_blocks := take n P @ drop n (on_blocks sh)\<rparr>"
  have "on_blocks ?sh ! n = on_blocks sh ! n" using Suc.prems assms(2) by (simp add: nth_append)
  then have "fold (\<lambda>j sh. sh\<lparr>on_blocks := (on_blocks sh)[n := (on_blocks sh ! n)[j := P ! n ! j]]\<rparr>)
      [0..<4] ?sh = ?sh\<lparr>on_blocks := (on_blocks ?sh)[n := P ! n]\<rparr>"
    using Suc.prems assms(2) l by (subst copy_row) auto
  moreover have "(take n P @ drop n (on_blocks sh))[n := P ! n] = take (Suc n) P @ drop (Suc n) (on_blocks sh)"
    using Suc.prems assms(2)
    by (simp add: list_update_append take_Suc_conv_app_nth upd_conv_take_nth_drop Cons_nth_drop_Suc [symmetric])
  ultimately show ?case using Suc assms(3) by simp
qed

lemma templates_dims: "P \<in> set templates \<Longrightarrow> length P = 4 \<and> (\<forall>r \<in> set P. length r = 4)"
  by (auto simp: templates_def SQUARE_P_def I_P_def L_P_def REV_L_P_def Z_P_def REV_Z_P_def T_P_def)

lemma copy_blocks_eq:
  assumes "P \<in> set templates"
  shows "copy_blocks P (Shape_new_jiffies j ty 0 4 x y)
       = (Shape_new_jiffies j ty 0 4 x y)\<lparr>on_blocks := P\<rparr>"
  unfolding copy_blocks_def NUM_ORIENTATIONS_def
  using templates_dims[OF assms]
  by (subst copy_rows) (auto simp: Shape_new_jiffies_def Shape_new_def)

lemma constructors:
  "SquareShape j x y c = (Shape_new_jiffies j Ty_SQUARE 0 4 x y)\<lparr>on_blocks := SQUARE_P\<rparr>"
  "IShape j x y c = (Shape_new_jiffies j Ty_SQUARE 0 4 x y)\<lparr>on_blocks := I_P\<rparr>"
  "LShape j x y c = (Shape_new_jiffies j Ty_SQUARE 0 4 x y)\<lparr>on_blocks := L_P\<rparr>"
  "ReverseLShape j x y c = (Shape_new_jiffies j Ty_SQUARE 0 4 x y)\<lparr>on_blocks := REV_L_P\<rparr>"
  "ZShape j x y c = (Shape_new_jiffies j Ty_SQUARE 0 4 x y)\<lparr>on_blocks := Z_P\<rparr>"
  "ReverseZShape j x y c = (Shape_new_jiffies j Ty_SQUARE 0 4 x y)\<lparr>on_blocks := REV_Z_P\<rparr>"
  "TShape j x y c = (Shape_new_jiffies j Ty_SQUARE 0 4 x y)\<lparr>on_blocks := T_P\<rparr>"
  by (simp_all add: SquareShape_def IShape_def LShape_def ReverseLShape_def ZShape_def
      ReverseZShape_def TShape_def copy_blocks_eq templates_def)

lemma new_shape_ok:
  "P \<in> set templates \<Longrightarrow> shape_ok ((Shape_new_jiffies j ty 0 4 x y)\<lparr>on_blocks := P\<rparr>)"
  by (simp add: shape_ok_def Shape_new_jiffies_def Shape_new_def)

lemma constructors_ok:
  "shape_ok (SquareShape j x y c)" "shape_ok (IShape j x y c)" "shape_ok (LShape j x y c)"
  "shape_ok (ReverseLShape j x y c)" "shape_ok (ZShape j x y c)" "shape_ok (ReverseZShape j x y c)"
  "shape_ok (TShape j x y c)"
  unfolding constructors by (rule new_shape_ok, simp add: templates_def)+

subsection \<open>The tables are tetrominoes and turn clockwise\<close>

text \<open>
  Row and column of a block number; a piece moved to the top left corner of its grid; and a
  clockwise quarter turn.
\<close>

definition cell_rc :: "u32 \<Rightarrow> nat \<times> nat" where
  "cell_rc b = (unat b div 4, unat b mod 4)"

definition corner :: "(nat \<times> nat) list \<Rightarrow> (nat \<times> nat) list" where
  "corner ps =
     (let r = fold min (map fst ps) 4; c = fold min (map snd ps) 4
      in map (\<lambda>(i, j). (i - r, j - c)) ps)"

definition quarter :: "(nat \<times> nat) list \<Rightarrow> (nat \<times> nat) list" where
  "quarter ps = (let m = fold max (map fst ps) 0 in map (\<lambda>(i, j). (j, m - i)) ps)"

definition adjacent :: "nat \<times> nat \<Rightarrow> nat \<times> nat \<Rightarrow> bool" where
  "adjacent p q \<longleftrightarrow>
     (fst p = fst q \<and> (snd p = Suc (snd q) \<or> snd q = Suc (snd p)))
     \<or> (snd p = snd q \<and> (fst p = Suc (fst q) \<or> fst q = Suc (fst p)))"

text \<open>Connectedness: grow a list of reached cells until nothing is left.\<close>

fun grow :: "nat \<Rightarrow> (nat \<times> nat) list \<Rightarrow> (nat \<times> nat) list \<Rightarrow> bool" where
  "grow _ _ [] = True"
| "grow 0 _ _ = False"
| "grow (Suc n) reached rest =
     grow n (reached @ filter (\<lambda>p. list_ex (adjacent p) reached) rest)
            (filter (\<lambda>p. \<not> list_ex (adjacent p) reached) rest)"

definition tetromino :: "(nat \<times> nat) list \<Rightarrow> bool" where
  "tetromino ps \<longleftrightarrow> length ps = 4 \<and> distinct ps \<and> list_all (\<lambda>(i, j). i < 4 \<and> j < 4) ps
     \<and> grow 4 (take 1 ps) (drop 1 ps)"

definition grid :: "shape \<Rightarrow> (nat \<times> nat) list" where
  "grid sh = map cell_rc (map (block_at sh) [0..<unat (num_blocks sh)])"

definition orientation_ok :: "u32 list list \<Rightarrow> nat \<Rightarrow> bool" where
  "orientation_ok P k \<longleftrightarrow>
     tetromino (map cell_rc (P ! k))
     \<and> mset (corner (quarter (map cell_rc (P ! k)))) = mset (corner (map cell_rc (P ! ((k + 1) mod 4))))"

lemma templates_ok: "list_all (\<lambda>P. list_all (orientation_ok P) [0..<4]) templates"
  by code_simp

lemma grid_template:
  assumes "shape_ok sh"
  shows "grid sh = map cell_rc (on_blocks sh ! unat (orientation sh))"
proof -
  have "length (on_blocks sh ! unat (orientation sh)) = 4"
    using assms templates_dims[of "on_blocks sh"] by (simp add: shape_ok_def)
  then have "map (block_at sh) [0..<4] = on_blocks sh ! unat (orientation sh)"
    by (intro nth_equalityI) (simp_all add: block_at_def)
  with assms show ?thesis by (simp add: grid_def shape_ok_def)
qed

lemma shape_ok_orientation: "shape_ok sh \<Longrightarrow> orientation_ok (on_blocks sh) (unat (orientation sh))"
  using templates_ok by (auto simp: list_all_iff shape_ok_def)

lemma rotate_templ_fields:
  "on_blocks (rotate_templ sh) = on_blocks sh" "num_blocks (rotate_templ sh) = num_blocks sh"
  "pos_x (rotate_templ sh) = pos_x sh" "pos_y (rotate_templ sh) = pos_y sh"
  "color (rotate_templ sh) = color sh" "stype (rotate_templ sh) = stype sh"
  by (simp_all add: rotate_templ_def)

lemma rotate_templ_eq:
  "rotate_templ sh = sh\<lparr>orientation := word_of_nat ((unat (orientation sh) + 1) mod 4)\<rparr>"
proof -
  have "orientation (rotate_templ sh) = word_of_nat ((unat (orientation sh) + 1) mod 4)"
    by (rule word_unat_eq_iff[THEN iffD2]) (simp add: unat_rotate unsigned_of_nat take_bit_nat_eq_self)
  moreover have "rotate_templ sh = sh\<lparr>orientation := orientation (rotate_templ sh)\<rparr>"
    by (simp add: rotate_templ_def)
  ultimately show ?thesis by simp
qed

lemma rotate_four:
  assumes "shape_ok sh"
  shows "rotate_templ (rotate_templ (rotate_templ (rotate_templ sh))) = sh"
proof -
  have "unat (orientation sh) < 4" using assms by (simp add: shape_ok_def)
  then show ?thesis
    by (simp add: rotate_templ_eq unsigned_of_nat take_bit_nat_eq_self mod_simps)
qed

lemma tetromino_grid: "shape_ok sh \<Longrightarrow> tetromino (grid sh)"
  using shape_ok_orientation[of sh] by (simp add: orientation_ok_def grid_template)

text \<open>
  C36. In every orientation a piece is a tetromino: four distinct, edge-connected cells of its
  4 x 4 grid. Rotating turns it clockwise by a quarter (up to where it sits in the grid), keeps it
  well formed, and four rotations give the piece back.
\<close>

theorem rotation_is_quarter_turn:
  assumes "shape_ok sh"
  shows "tetromino (grid sh) \<and> shape_ok (rotate_templ sh)
     \<and> mset (corner (quarter (grid sh))) = mset (corner (grid (rotate_templ sh)))
     \<and> rotate_templ (rotate_templ (rotate_templ (rotate_templ sh))) = sh"
  using shape_ok_orientation[OF assms] shape_ok_rotate[OF assms] rotate_four[OF assms] assms
  by (simp add: orientation_ok_def grid_template unat_rotate rotate_templ_fields)

theorem rotation_is_quarter_turn_witness:
  "tetromino (grid (LShape 7 240 10 Blue)) \<and> shape_ok (rotate_templ (LShape 7 240 10 Blue))"
proof -
  have "shape_ok (LShape 7 240 10 Blue)"
    by (rule constructors_ok)
  from rotation_is_quarter_turn[OF this] show ?thesis by blast
qed

subsection \<open>Where the cells are\<close>

lemma block_lt_16: "shape_ok sh \<Longrightarrow> i < 4 \<Longrightarrow> unat (block_at sh i) < 16"
proof -
  assume ok: "shape_ok sh" and i: "i < 4"
  then have "tetromino (grid sh)" using tetromino_grid by blast
  then have "\<forall>b \<in> set (map (block_at sh) [0..<4]). unat b div 4 < 4"
    using ok by (auto simp: tetromino_def grid_def list_all_iff cell_rc_def shape_ok_def)
  with i have "unat (block_at sh i) div 4 < 4" by simp
  then show ?thesis by linarith
qed

lemma unat_to_y:
  assumes "unat y < 2 ^ 31" "unat b < 16"
  shows "unat (to_y y b) = unat y + 4 * (unat b div 4)"
proof -
  have "unat b div 4 < 4" using assms(2) by linarith
  with assms show ?thesis
    by (simp add: to_y_def push_bit_eq_mult unat_word_ariths unat_shiftr)
qed

lemma unat_to_x:
  assumes "unat x < 2 ^ 31"
  shows "unat (to_x x b) = unat x + 4 * (unat b mod 4)"
proof -
  have "unat b mod 4 < 4" by simp
  with assms show ?thesis
    by (simp add: to_x_def push_bit_eq_mult unat_word_ariths unat_mod)
qed

lemma in_cells:
  assumes "shape_ok sh"
  shows "a \<in> cells sh \<longleftrightarrow>
    (\<exists>i < 4. \<exists>l < 4. \<exists>k < 5.
       a = offset (Shape_to_x sh (block_at sh i) + of_nat k) (Shape_to_y sh (block_at sh i) + of_nat l))"
proof -
  have "cells sh = (\<Union>i \<in> {..<4}. \<Union>l \<in> {..<4}. (\<lambda>k. offset (Shape_to_x sh (block_at sh i) + of_nat k)
      (Shape_to_y sh (block_at sh i) + of_nat l)) ` {..<5})"
    using assms by (simp add: cells_def shape_pts_def block_pts_def addrs_def shape_ok_def
        image_UN image_image atLeast0LessThan)
  then show ?thesis by auto
qed

text \<open>
  The pixel rows and columns a piece touches, and when that keeps it inside the frame. A block
  is four rows high and, because a line includes both of its end points, five columns wide.
\<close>

definition within_rows :: "nat \<Rightarrow> shape \<Rightarrow> bool" where
  "within_rows n sh \<longleftrightarrow> (\<forall>i < 4. unat (Shape_to_y sh (block_at sh i)) + 4 \<le> n)"

lemma cells_in_frame:
  assumes "shape_ok sh" "within_rows 200 sh" "unat (pos_x sh) + 16 < 320" "a \<in> cells sh"
  shows "in_frame a"
proof -
  from assms(1,4) obtain i k l where i: "i < 4" "k < 5" "l < 4"
    and a: "a = offset (Shape_to_x sh (block_at sh i) + of_nat k) (Shape_to_y sh (block_at sh i) + of_nat l)"
    by (auto simp: in_cells)
  let ?x = "Shape_to_x sh (block_at sh i)" and ?y = "Shape_to_y sh (block_at sh i)"
  have x: "unat ?x \<le> unat (pos_x sh) + 12"
    using assms(3) by (simp add: Shape_to_x_def unat_to_x)
  have "unat (?x + of_nat k) = unat ?x + k" "unat (?y + of_nat l) = unat ?y + l"
    using x assms(2,3) i by (intro unat_add_of_nat, auto simp: within_rows_def)+
  with x i assms(2,3) have "unat (?x + of_nat k) < 320" "unat (?y + of_nat l) < 200"
    by (auto simp: within_rows_def)
  then show ?thesis
    unfolding a by (intro on_screen_in_frame) (simp add: on_screen_nat)
qed

end
