(* ===== verification/Fonts.thy ===== *)
theory Fonts
  imports Graphics
begin

text \<open>
  PSF1 text rendering: \<open>kernel/fonts.h\<close> and \<open>kernel/fonts.cc\<close>. The font file is linked
  into the kernel as a binary object; its bytes are the parameter \<open>font\<close>, read at offsets from
  \<open>_binary_Uni1_VGA16_psf_start\<close>. The globals set by \<open>psf_init\<close> are a record. The
  unicode-table loop sits under \<open>if (0)\<close> and never runs.
\<close>

type_synonym font = "nat \<Rightarrow> u8"

record psf =
  header_size :: nat
  num_glyphs :: nat
  bytes_per_glyph :: nat
  char_height :: nat
  char_width :: nat

definition PSF1_MODE512 :: u8 where "PSF1_MODE512 = 0x01"

definition psf_init :: "font \<Rightarrow> psf" where
  "psf_init font =
     (let mode = font 2; height = unat (font 3)
      in \<lparr>header_size = 4,
          num_glyphs = (if mode AND PSF1_MODE512 \<noteq> 0 then 512 else 256),
          bytes_per_glyph = height, char_height = height, char_width = 8\<rparr>)"

definition glyph_offset :: "psf \<Rightarrow> u16 \<Rightarrow> nat" where
  "glyph_offset p index =
     header_size p + (if 0 < unat index \<and> unat index < num_glyphs p then unat index else 0)
       * bytes_per_glyph p"

definition pixel_mask :: "u8 list" where
  "pixel_mask = [128, 64, 32, 16, 8, 4, 2, 1]"

definition put_char :: "font \<Rightarrow> psf \<Rightarrow> u16 \<Rightarrow> u32 \<Rightarrow> u32 \<Rightarrow> color \<Rightarrow> color \<Rightarrow> target \<Rightarrow> gfx \<Rightarrow> gfx" where
  "put_char font p index cx cy fg bg b s =
     (let glyph = (\<lambda>i. font (glyph_offset p index + i));
          x = cx * of_nat (char_width p);
          y = cy * of_nat (char_height p)
      in fold (\<lambda>py. fold (\<lambda>px.
             plot (of_nat px + x) (of_nat py + y)
               (if glyph py AND pixel_mask ! px \<noteq> 0 then fg else bg) b)
           [0..<char_width p]) [0..<char_height p] s)"

definition put_char_transparent :: "font \<Rightarrow> psf \<Rightarrow> u16 \<Rightarrow> u32 \<Rightarrow> u32 \<Rightarrow> color \<Rightarrow> target \<Rightarrow> gfx \<Rightarrow> gfx" where
  "put_char_transparent font p index cx cy fg b s =
     (let glyph = (\<lambda>i. font (glyph_offset p index + i));
          x = cx * of_nat (char_width p);
          y = cy * of_nat (char_height p)
      in fold (\<lambda>py. fold (\<lambda>px s.
             if glyph py AND pixel_mask ! px \<noteq> 0 then plot (of_nat px + x) (of_nat py + y) fg b s else s)
           [0..<char_width p]) [0..<char_height p] s)"

text \<open>The overloads: buffer with default colours, screen with colours, screen with defaults.\<close>

definition put_char_buf :: "font \<Rightarrow> psf \<Rightarrow> u16 \<Rightarrow> u32 \<Rightarrow> u32 \<Rightarrow> target \<Rightarrow> gfx \<Rightarrow> gfx" where
  "put_char_buf font p index cx cy b = put_char font p index cx cy White Black b"

definition put_char_colors :: "font \<Rightarrow> psf \<Rightarrow> u16 \<Rightarrow> u32 \<Rightarrow> u32 \<Rightarrow> color \<Rightarrow> color \<Rightarrow> gfx \<Rightarrow> gfx" where
  "put_char_colors font p index cx cy fg bg = put_char font p index cx cy fg bg Nullptr"

definition put_char_screen :: "font \<Rightarrow> psf \<Rightarrow> u16 \<Rightarrow> u32 \<Rightarrow> u32 \<Rightarrow> gfx \<Rightarrow> gfx" where
  "put_char_screen font p index cx cy = put_char font p index cx cy White Black Nullptr"

text \<open>\<open>char\<close> is signed on the target: the conversion to \<open>uint16_t\<close> extends the sign.\<close>

definition char_index :: "char \<Rightarrow> u16" where
  "char_index c = scast (of_char c :: u8)"

text \<open>
  The loop of \<open>put_string\<close>; \<open>cx_offset\<close> and \<open>cy\<close> change per character. A string is the
  list of its bytes; a NUL ends it.
\<close>

primrec put_string_loop :: "font \<Rightarrow> psf \<Rightarrow> string \<Rightarrow> u32 \<Rightarrow> u32 \<Rightarrow> u32 \<Rightarrow> color \<Rightarrow> color \<Rightarrow> target \<Rightarrow> gfx \<Rightarrow> gfx" where
  "put_string_loop font p [] cx cx_offset cy fg bg b s = s"
| "put_string_loop font p (ch # str) cx cx_offset cy fg bg b s =
     (if ch = CHR 0x00 then s
      else if ch = CHR 0x0A then put_string_loop font p str cx cx (cy + 1) fg bg b s
      else put_string_loop font p str cx (cx_offset + 1) cy fg bg b
             (put_char font p (char_index ch) cx_offset cy fg bg b s))"

definition put_string :: "font \<Rightarrow> psf \<Rightarrow> string \<Rightarrow> u32 \<Rightarrow> u32 \<Rightarrow> color \<Rightarrow> color \<Rightarrow> target \<Rightarrow> gfx \<Rightarrow> gfx" where
  "put_string font p str cx cy fg bg b s = put_string_loop font p str cx cx cy fg bg b s"

text \<open>
  The overload without colours has its own loop, which calls the three-argument \<open>put_char\<close>: its
  \<open>double_buffer\<close> argument is not used.
\<close>

primrec put_string_buf_loop :: "font \<Rightarrow> psf \<Rightarrow> string \<Rightarrow> u32 \<Rightarrow> u32 \<Rightarrow> u32 \<Rightarrow> gfx \<Rightarrow> gfx" where
  "put_string_buf_loop font p [] cx cx_offset cy s = s"
| "put_string_buf_loop font p (ch # str) cx cx_offset cy s =
     (if ch = CHR 0x00 then s
      else if ch = CHR 0x0A then put_string_buf_loop font p str cx cx (cy + 1) s
      else put_string_buf_loop font p str cx (cx_offset + 1) cy
             (put_char_screen font p (char_index ch) cx_offset cy s))"

definition put_string_buf :: "font \<Rightarrow> psf \<Rightarrow> string \<Rightarrow> u32 \<Rightarrow> u32 \<Rightarrow> target \<Rightarrow> gfx \<Rightarrow> gfx" where
  "put_string_buf font p str cx cy b s = put_string_buf_loop font p str cx cx cy s"

definition put_string_colors :: "font \<Rightarrow> psf \<Rightarrow> string \<Rightarrow> u32 \<Rightarrow> u32 \<Rightarrow> color \<Rightarrow> color \<Rightarrow> gfx \<Rightarrow> gfx" where
  "put_string_colors font p str cx cy fg bg s = put_string font p str cx cy fg bg Nullptr s"

definition put_string_screen :: "font \<Rightarrow> psf \<Rightarrow> string \<Rightarrow> u32 \<Rightarrow> u32 \<Rightarrow> gfx \<Rightarrow> gfx" where
  "put_string_screen font p str cx cy s = put_string_buf font p str cx cy Nullptr s"

subsection \<open>A glyph on the screen\<close>

text \<open>Plots with individual colours; the last one at an address wins.\<close>

definition plots :: "target \<Rightarrow> ((u32 \<times> u32) \<times> color) list \<Rightarrow> gfx \<Rightarrow> gfx" where
  "plots b ps = fold (\<lambda>((x, y), c). plot x y c b) ps"

lemma plots_Nil [simp]: "plots b [] s = s" by (simp add: plots_def)
lemma plots_Cons [simp]: "plots b (((x, y), c) # ps) s = plots b ps (plot x y c b s)"
  by (simp add: plots_def)
lemma plots_append [simp]: "plots b (ps @ qs) s = plots b qs (plots b ps s)"
  by (simp add: plots_def)

lemma fold_plots: "fold (\<lambda>i. plots b (f i)) is s = plots b (concat (map f is)) s"
  by (induction "is" arbitrary: s) simp_all

lemma frame_plots_other:
  "b' \<noteq> b \<or> a \<notin> addrs (map fst ps) \<Longrightarrow> frame b' (plots b ps s) a = frame b' s a"
  by (induction ps arbitrary: s) (auto simp: frame_plot)

lemma fault_plots: "fault (plots b ps s) \<longleftrightarrow> fault s \<or> (\<exists>a \<in> addrs (map fst ps). \<not> in_frame a)"
  by (induction ps arbitrary: s) (auto simp: fault_plot)

lemma frame_plots_at:
  assumes "a \<in> addrs (map fst ps)" "in_frame a"
    and "\<And>x y d. ((x, y), d) \<in> set ps \<Longrightarrow> offset x y = a \<Longrightarrow> d = c"
  shows "frame b (plots b ps s) a = c"
  using assms
proof (induction ps arbitrary: s)
  case Nil
  then show ?case by simp
next
  case (Cons q ps)
  obtain x y d where q: "q = ((x, y), d)" by (metis surj_pair)
  show ?case
  proof (cases "a \<in> addrs (map fst ps)")
    case True
    with Cons q show ?thesis by (auto simp: plots_Cons)
  next
    case False
    with Cons.prems q have "offset x y = a" "d = c" by auto
    with False Cons.prems(2) q show ?thesis by (simp add: frame_plots_other frame_plot)
  qed
qed

text \<open>The pixels of the character cell \<open>(cx, cy)\<close>, as natural coordinates.\<close>

definition char_pixels :: "font \<Rightarrow> psf \<Rightarrow> u16 \<Rightarrow> u32 \<Rightarrow> u32 \<Rightarrow> color \<Rightarrow> color \<Rightarrow> ((u32 \<times> u32) \<times> color) list" where
  "char_pixels font p index cx cy fg bg =
     concat (map (\<lambda>py. map (\<lambda>px.
        ((of_nat px + cx * of_nat (char_width p), of_nat py + cy * of_nat (char_height p)),
         if font (glyph_offset p index + py) AND pixel_mask ! px \<noteq> 0 then fg else bg))
       [0..<char_width p]) [0..<char_height p])"

lemma put_char_plots:
  "put_char font p index cx cy fg bg b s = plots b (char_pixels font p index cx cy fg bg) s"
proof -
  have row: "fold (\<lambda>px. plot (f px) y (col px) b) ks = plots b (map (\<lambda>px. ((f px, y), col px)) ks)"
    for f y col and ks :: "nat list"
    by (rule ext) (induction ks, simp_all add: plots_def fold_map comp_def)
  show ?thesis
    by (simp add: put_char_def char_pixels_def Let_def row flip: fold_plots)
qed

lemma mask_bit:
  assumes "px < 8"
  shows "w AND pixel_mask ! px \<noteq> 0 \<longleftrightarrow> bit w (7 - px)"
proof -
  have "pixel_mask ! px = push_bit (7 - px) 1"
    using assms by (auto simp: pixel_mask_def less_Suc_eq numeral_eq_Suc nth_Cons')
  then show ?thesis by (simp add: bit_iff_and_push_bit_not_eq_0)
qed

definition fits :: "psf \<Rightarrow> u32 \<Rightarrow> u32 \<Rightarrow> bool" where
  "fits p cx cy \<longleftrightarrow> char_width p = 8 \<and> 8 * (unat cx + 1) \<le> 320 \<and> char_height p * (unat cy + 1) \<le> 200"

lemma cell_coords:
  assumes "fits p cx cy" "px < 8" "py < char_height p"
  shows "unat (of_nat px + cx * of_nat (char_width p)) = px + 8 * unat cx"
    and "unat (of_nat py + cy * of_nat (char_height p)) = py + char_height p * unat cy"
proof -
  have h: "char_height p \<le> 200"
    using assms(1) unfolding fits_def by (metis add.commute le_trans mult.right_neutral mult_le_mono2 le_add1)
  have hc: "char_height p * unat cy + char_height p \<le> 200"
    using assms(1) by (simp add: fits_def)
  show "unat (of_nat px + cx * of_nat (char_width p)) = px + 8 * unat cx"
    using assms by (simp add: fits_def unat_word_ariths unsigned_of_nat take_bit_nat_eq_self mult.commute)
  show "unat (of_nat py + cy * of_nat (char_height p)) = py + char_height p * unat cy"
    using assms h hc
    by (simp add: unat_word_ariths unsigned_of_nat take_bit_nat_eq_self mult.commute)
qed

lemma cell_on_screen:
  assumes "fits p cx cy" "px < 8" "py < char_height p"
  shows "on_screen (of_nat px + cx * of_nat (char_width p)) (of_nat py + cy * of_nat (char_height p))"
proof -
  have "char_height p * unat cy + char_height p \<le> 200" "8 * unat cx + 8 \<le> 320"
    using assms(1) by (simp_all add: fits_def)
  with assms(2,3) show ?thesis
    unfolding on_screen_nat cell_coords[OF assms] by linarith
qed

lemma set_char_pixels:
  "set (char_pixels font p index cx cy fg bg) =
     (\<Union>py \<in> {..<char_height p}. (\<lambda>px.
        ((of_nat px + cx * of_nat (char_width p), of_nat py + cy * of_nat (char_height p)),
         if font (glyph_offset p index + py) AND pixel_mask ! px \<noteq> 0 then fg else bg)) ` {..<char_width p})"
  by (simp add: char_pixels_def atLeast0LessThan)

lemma addrs_char_pixels:
  "addrs (map fst (char_pixels font p index cx cy fg bg)) =
     (\<Union>py \<in> {..<char_height p}. (\<lambda>px.
        offset (of_nat px + cx * of_nat (char_width p)) (of_nat py + cy * of_nat (char_height p))) ` {..<char_width p})"
  by (simp add: addrs_def set_char_pixels image_UN image_image)

text \<open>
  A character that fits on the screen is drawn exactly: the pixel in row \<open>py\<close>, column
  \<open>px\<close> of its cell gets the foreground where the glyph's bit (most significant first) is
  set and the background elsewhere; bytes outside the cell keep their value and nothing is
  written outside the frame.
\<close>

theorem put_char_renders:
  assumes "fits p cx cy" "px < 8" "py < char_height p"
  shows "frame b (put_char font p index cx cy fg bg b s)
           (offset (of_nat px + cx * of_nat (char_width p)) (of_nat py + cy * of_nat (char_height p)))
         = (if bit (font (glyph_offset p index + py)) (7 - px) then fg else bg)
     \<and> (b' \<noteq> b \<or> a \<notin> addrs (map fst (char_pixels font p index cx cy fg bg))
         \<longrightarrow> frame b' (put_char font p index cx cy fg bg b s) a = frame b' s a)
     \<and> fault (put_char font p index cx cy fg bg b s) = fault s"
proof (intro conjI)
  have w: "char_width p = 8" using assms(1) by (simp add: fits_def)
  let ?ps = "char_pixels font p index cx cy fg bg"
  let ?X = "\<lambda>px. of_nat px + cx * of_nat (char_width p) :: u32"
  let ?Y = "\<lambda>py. of_nat py + cy * of_nat (char_height p) :: u32"
  have uniq: "px' = px \<and> py' = py"
    if "px' < 8" "py' < char_height p" "offset (?X px') (?Y py') = offset (?X px) (?Y py)" for px' py'
  proof -
    have "?X px' = ?X px" "?Y py' = ?Y py"
      using offset_inj[OF cell_on_screen[OF assms(1) that(1,2)] cell_on_screen[OF assms] that(3)] by auto
    then have "unat (?X px') = unat (?X px)" "unat (?Y py') = unat (?Y py)" by (simp_all only:)
    then show ?thesis
      unfolding cell_coords[OF assms] cell_coords[OF assms(1) that(1,2)] by simp
  qed
  show "frame b (put_char font p index cx cy fg bg b s) (offset (?X px) (?Y py))
      = (if bit (font (glyph_offset p index + py)) (7 - px) then fg else bg)"
    unfolding put_char_plots
  proof (rule frame_plots_at)
    show "offset (?X px) (?Y py) \<in> addrs (map fst ?ps)"
      unfolding addrs_char_pixels w using assms(2,3) by (intro UN_I[of py] imageI) auto
    show "in_frame (offset (?X px) (?Y py))"
      by (rule on_screen_in_frame[OF cell_on_screen[OF assms]])
    show "d = (if bit (font (glyph_offset p index + py)) (7 - px) then fg else bg)"
      if "((x, y), d) \<in> set ?ps" "offset x y = offset (?X px) (?Y py)" for x y d
    proof -
      from that(1) obtain px' py' where c: "px' < 8" "py' < char_height p" "x = ?X px'" "y = ?Y py'"
        "d = (if font (glyph_offset p index + py') AND pixel_mask ! px' \<noteq> 0 then fg else bg)"
        unfolding set_char_pixels w by auto
      from uniq[OF c(1,2)] that(2) have "px' = px" "py' = py" unfolding c(3,4) by simp_all
      with c(5) mask_bit[OF assms(2)] show ?thesis by simp
    qed
  qed
  show "b' \<noteq> b \<or> a \<notin> addrs (map fst ?ps)
      \<longrightarrow> frame b' (put_char font p index cx cy fg bg b s) a = frame b' s a"
    unfolding put_char_plots using frame_plots_other by blast
  show "fault (put_char font p index cx cy fg bg b s) = fault s"
    unfolding put_char_plots fault_plots addrs_char_pixels
    using on_screen_in_frame[OF cell_on_screen[OF assms(1)]] unfolding w by auto
qed

definition demo_psf :: psf where
  "demo_psf = psf_init (\<lambda>i. if i = 3 then 16 else if i = 2 then 1 else 0)"

theorem put_char_renders_witness:
  "frame DoubleBuffer (put_char (\<lambda>i. 0x38) demo_psf 65 2 1 White Black DoubleBuffer blank)
     (offset (of_nat 3 + 2 * of_nat (char_width demo_psf)) (of_nat 4 + 1 * of_nat (char_height demo_psf)))
   = White"
proof -
  have f: "fits demo_psf 2 1" "4 < char_height demo_psf" "bit (0x38 :: u8) (7 - 3)"
    by (simp_all add: fits_def demo_psf_def psf_init_def Let_def)
  from put_char_renders[OF f(1) _ f(2), of 3 DoubleBuffer "\<lambda>i. 0x38" 65 White Black blank] f(3)
  show ?thesis by simp
qed

text \<open>
  The overload \<open>put_string(str, cx, cy, double_buffer)\<close> draws on the screen whatever buffer
  it is given: the double buffer is never written.
\<close>

theorem put_string_buf_ignores_buffer:
  "put_string_buf font p str cx cy b s = put_string font p str cx cy White Black Nullptr s
   \<and> dbuf (put_string_buf font p str cx cy DoubleBuffer s) = dbuf s"
proof -
  have loop: "put_string_buf_loop font p str cx cxo cy s
      = put_string_loop font p str cx cxo cy White Black Nullptr s" for cxo cy s
    by (induction str arbitrary: cxo cy s) (simp_all add: put_char_screen_def)
  have keep: "dbuf (put_string_loop font p str cx cxo cy White Black Nullptr s) = dbuf s" for cxo cy s
  proof (induction str arbitrary: cxo cy s)
    case (Cons ch str)
    have "frame DoubleBuffer (put_char font p (char_index ch) cxo cy White Black Nullptr s) = frame DoubleBuffer s"
      by (rule ext) (simp add: put_char_plots frame_plots_other)
    with Cons show ?case by (simp add: frame_def)
  qed simp
  show ?thesis by (simp add: put_string_buf_def put_string_def loop keep)
qed

end
