(* ===== verification/Fifo.thy ===== *)
theory Fifo
  imports Prelude
begin

text \<open>
  The interface of a first-in first-out buffer, stated once for the kernel's queues: the
  keyboard ring, the linked \<open>Queue\<close> and the bounded buffer. A provider gives its
  representation invariant, an abstraction to a list and two operations; the clients get the
  refinement of every sequence of operations by the list queue.
\<close>

datatype 'a fifo_op = Put 'a | Get

text \<open>The list queue: the results of the \<open>Get\<close> operations, in order, and the rest.\<close>

primrec list_queue :: "'a fifo_op list \<Rightarrow> 'a list \<Rightarrow> 'a option list \<times> 'a list" where
  "list_queue [] q = ([], q)"
| "list_queue (oper # opers) q =
     (case oper of
        Put a \<Rightarrow> list_queue opers (q @ [a])
      | Get \<Rightarrow>
          (case q of
             [] \<Rightarrow> (let (rs, q') = list_queue opers [] in (None # rs, q'))
           | x # q1 \<Rightarrow> (let (rs, q') = list_queue opers q1 in (Some x # rs, q'))))"

text \<open>The contents after each prefix of the operations, which an implementation must be able to hold.\<close>

primrec queue_trace :: "'a fifo_op list \<Rightarrow> 'a list \<Rightarrow> 'a list list" where
  "queue_trace [] q = [q]"
| "queue_trace (oper # opers) q =
     q # queue_trace opers (case oper of Put a \<Rightarrow> q @ [a] | Get \<Rightarrow> tl q)"

lemma queue_trace_hd: "q \<in> set (queue_trace opers q)"
  by (cases opers) auto

locale fifo =
  fixes repr_ok :: "'s \<Rightarrow> bool"
    and contents :: "'s \<Rightarrow> 'a list"
    and admissible :: "'a list \<Rightarrow> bool"
    and put :: "'a \<Rightarrow> 's \<Rightarrow> 's"
    and get :: "'s \<Rightarrow> 'a option \<times> 's"
  assumes put_law: "repr_ok s \<Longrightarrow> admissible (contents s @ [a]) \<Longrightarrow>
      repr_ok (put a s) \<and> contents (put a s) = contents s @ [a]"
    and get_empty: "repr_ok s \<Longrightarrow> contents s = [] \<Longrightarrow> get s = (None, s)"
    and get_law: "repr_ok s \<Longrightarrow> contents s = x # xs \<Longrightarrow>
      fst (get s) = Some x \<and> repr_ok (snd (get s)) \<and> contents (snd (get s)) = xs"
begin

primrec run :: "'a fifo_op list \<Rightarrow> 's \<Rightarrow> 'a option list \<times> 's" where
  "run [] s = ([], s)"
| "run (oper # opers) s =
     (case oper of
        Put a \<Rightarrow> run opers (put a s)
      | Get \<Rightarrow> (let (r, s1) = get s; (rs, s2) = run opers s1 in (r # rs, s2)))"

lemma run_refines:
  assumes "repr_ok s" and "list_all admissible (queue_trace opers (contents s))"
  shows "fst (run opers s) = fst (list_queue opers (contents s))
    \<and> contents (snd (run opers s)) = snd (list_queue opers (contents s))
    \<and> repr_ok (snd (run opers s))"
  using assms
proof (induction opers arbitrary: s)
  case Nil
  then show ?case by simp
next
  case (Cons oper opers)
  show ?case
  proof (cases oper)
    case (Put a)
    then have "admissible (contents s @ [a])"
      using Cons.prems(2) queue_trace_hd[of "contents s @ [a]" opers] by (auto simp: list_all_iff)
    with Cons.prems(1) have "repr_ok (put a s)" "contents (put a s) = contents s @ [a]"
      using put_law by auto
    with Cons.IH[of "put a s"] Cons.prems(2) Put show ?thesis by simp
  next
    case Get
    show ?thesis
    proof (cases "contents s")
      case Nil
      with Get Cons.IH[of s] Cons.prems show ?thesis
        by (simp add: get_empty case_prod_beta)
    next
      case (Cons x xs)
      with get_law Cons.prems(1) have "fst (get s) = Some x" "repr_ok (snd (get s))" "contents (snd (get s)) = xs"
        by auto
      with Cons Get Cons.IH[of "snd (get s)"] Cons.prems(2) show ?thesis
        by (simp add: case_prod_beta)
    qed
  qed
qed

text \<open>Whatever is put in comes out once, in order.\<close>

primrec drain :: "nat \<Rightarrow> 's \<Rightarrow> 'a option list" where
  "drain 0 s = []"
| "drain (Suc n) s = fst (get s) # drain n (snd (get s))"

lemma drain_all: "repr_ok s \<Longrightarrow> drain (length (contents s)) s = map Some (contents s)"
proof (induction "contents s" arbitrary: s)
  case Nil
  then show ?case by simp
next
  case (Cons x xs)
  from get_law[OF Cons.prems Cons(2)[symmetric]] Cons(1)[of "snd (get s)"] Cons(2)[symmetric]
  show ?case by simp
qed

end

end
