(* ===== verification/Keyboard.thy ===== *)
theory Keyboard
  imports Fonts Fifo
begin

text \<open>
  The PS/2 keyboard driver: \<open>kernel/keyboard.h\<close> and \<open>kernel/keyboard.cc\<close> (class
  \<open>Keyboard\<close>) with the tables of \<open>kernel/scancode.h\<close>. The interrupt handler decodes a
  scan code and pushes its ASCII code into a ring of 128 bytes, \<open>last_press\<close> pops one. The
  status text goes through the font code, so the handler also takes and returns the frames.
\<close>

definition BUFF_LEN :: nat where "BUFF_LEN = 128"

record kbd =
  caps :: bool
  scroll :: bool
  num_lock :: bool
  shift :: u8
  ctrl :: u8
  keys :: "u8 list"
  kb_queue :: "u8 list"
  head :: u8
  tail :: u8
  display :: bool

definition kbd_initial :: kbd where
  "kbd_initial = \<lparr>caps = False, scroll = False, num_lock = False, shift = 0, ctrl = 0,
     keys = replicate 256 0, kb_queue = replicate BUFF_LEN 0, head = 0, tail = 0, display = False\<rparr>"

subsection \<open>Scan codes\<close>

definition ESC :: u8 where [c_defs]: "ESC = 0x1B"
definition BS :: u8 where [c_defs]: "BS = 0x08"
definition LSHIFT :: u8 where [c_defs]: "LSHIFT = 0x2A"
definition RSHIFT :: u8 where [c_defs]: "RSHIFT = 0x36"
definition CTRL :: u8 where [c_defs]: "CTRL = 0x1D"
definition CAPS :: u8 where [c_defs]: "CAPS = 0x3A"

definition ascii :: "string \<Rightarrow> u8 list" where
  "ascii = map of_char"

definition lower_ascii_codes :: "u8 list" where
  "lower_ascii_codes =
     [0x00, ESC] @ ascii ''1234567890-='' @ [BS, 0x09]
     @ ascii ''qwertyuiop[]'' @ [0x0A, 0x00]
     @ ascii ''asdfghjkl;'' @ [0x27, 0x60, 0x00, 0x5C]
     @ ascii ''zxcvbnm,./'' @ [0x00] @ ascii ''*'' @ [0x00] @ ascii '' '' @ replicate 13 0x00
     @ ascii ''789-456+1230.'' @ replicate 172 0x00"

definition upper_ascii_codes :: "u8 list" where
  "upper_ascii_codes =
     [0x00, ESC] @ ascii ''!@#$%^&*()_+'' @ [BS, 0x09]
     @ ascii ''QWERTYUIOP{}'' @ [0x0A, 0x00]
     @ ascii ''ASDFGHJKL:'' @ [0x22, 0x7E, 0x00, 0x7C]
     @ ascii ''ZXCVBNM<>?'' @ [0x00] @ ascii ''*'' @ [0x00] @ ascii '' '' @ replicate 13 0x00
     @ ascii ''789-456+1230.'' @ replicate 172 0x00"

subsection \<open>Operations\<close>

text \<open>\<open>(i + 1) % BUFF_LEN\<close>, computed as an \<open>int\<close> and stored in a byte.\<close>

definition ring_next :: "u8 \<Rightarrow> u8" where
  "ring_next i = of_nat ((unat i + 1) mod BUFF_LEN)"

definition last_press :: "kbd \<Rightarrow> u8 \<times> kbd" where
  "last_press k =
     (if tail k = head k then (0, k)
      else let c_tail = tail k
           in (kb_queue k ! unat c_tail, k\<lparr>tail := ring_next (tail k)\<rparr>))"

definition toggle_display :: "font \<Rightarrow> psf \<Rightarrow> target \<Rightarrow> kbd \<times> gfx \<Rightarrow> kbd \<times> gfx" where
  "toggle_display font p b = (\<lambda>(k, g).
     let g1 =
       (if display k
        then fold (\<lambda>line. draw_line 1 line 30 line Black b) [1, 2, 3, 4, 5] g
        else put_string font p ''Key: '' 2 5 White Black b
              (put_string font p ''Holding: '' 2 4 White Black b
                (put_string font p ''Toggled: '' 2 3 White Black b
                  (put_string font p ''--------------'' 2 2 White Black b
                    (put_string font p ''Keyboard State:'' 2 1 White Black b g)))))
     in (k\<lparr>display := \<not> display k\<rparr>, g1))"

definition display_str :: "font \<Rightarrow> psf \<Rightarrow> string \<Rightarrow> u32 \<Rightarrow> u32 \<Rightarrow> kbd \<Rightarrow> gfx \<Rightarrow> gfx" where
  "display_str font p str cx cy k g =
     (if display k then put_string_colors font p str cx cy White Black g else g)"

definition display_ascii :: "font \<Rightarrow> psf \<Rightarrow> u8 \<Rightarrow> u32 \<Rightarrow> u32 \<Rightarrow> kbd \<Rightarrow> gfx \<Rightarrow> gfx" where
  "display_ascii font p a cx cy k g =
     (if display k then put_char_colors font p (ucast a) cx cy White Black g else g)"

text \<open>\<open>handle_interrupt\<close>: \<open>byte\<close> is what \<open>inb(0x60)\<close> returned.\<close>

definition handle_interrupt :: "font \<Rightarrow> psf \<Rightarrow> u8 \<Rightarrow> kbd \<times> gfx \<Rightarrow> kbd \<times> gfx" where
  "handle_interrupt font p byte = (\<lambda>(k, g).
     let nhead = ring_next (head k)
     in if byte AND 0x80 \<noteq> 0 then
          let pressed_byte = byte AND 0x7F;
              (k1, g1) =
                (if pressed_byte = LSHIFT then
                   (k\<lparr>shift := shift k AND 0x02\<rparr>, display_str font p ''        '' 11 4 k g)
                 else if pressed_byte = RSHIFT then
                   (k\<lparr>shift := shift k AND 0x01\<rparr>, display_str font p ''        '' 11 4 k g)
                 else if pressed_byte = CTRL then
                   (k\<lparr>ctrl := 0\<rparr>, display_str font p ''      '' 11 4 k g)
                 else (k, display_str font p '' '' 7 5 k g))
          in (k1\<lparr>keys := (keys k1)[unat pressed_byte := 0]\<rparr>, g1)
        else if keys k ! unat byte < 10 \<and> keys k ! unat byte > 0 then
          (k\<lparr>keys := (keys k)[unat byte := keys k ! unat byte + 1]\<rparr>, g)
        else
          let k0 = k\<lparr>keys := (keys k)[unat byte := keys k ! unat byte + 1]\<rparr>;
              changed = caps k0;
              (k1, g1) =
                (if byte = LSHIFT then
                   (k0\<lparr>shift := shift k0 OR 0x01\<rparr>, display_str font p ''LSHIFT +'' 11 4 k0 g)
                 else if byte = RSHIFT then
                   (k0\<lparr>shift := shift k0 OR 0x02\<rparr>, display_str font p ''RSHIFT +'' 11 4 k0 g)
                 else if byte = CTRL then
                   (k0\<lparr>ctrl := 1\<rparr>, display_str font p ''CTRL +'' 11 4 k0 g)
                 else if byte = CAPS then (k0\<lparr>caps := \<not> caps k0\<rparr>, g)
                 else (k0, g));
              codes = (if (shift k1 \<noteq> 0 \<and> \<not> caps k1) \<or> (shift k1 = 0 \<and> caps k1)
                       then upper_ascii_codes else lower_ascii_codes);
              g2 = (if caps k1 \<noteq> changed
                    then display_str font p (if caps k1 then ''CAPSLOCK'' else ''        '') 11 3 k1 g1
                    else g1);
              a = codes ! unat byte
          in if a \<noteq> 0
             then (k1\<lparr>kb_queue := (kb_queue k1)[unat (head k1) := a], head := nhead\<rparr>,
                   display_ascii font p a 7 5 k1 g2)
             else (k1, g2))"

subsection \<open>The ring as a queue\<close>

definition kb_list :: "kbd \<Rightarrow> u8 list" where
  "kb_list k = map (\<lambda>i. kb_queue k ! ((unat (tail k) + i) mod BUFF_LEN))
     [0..<(unat (head k) + BUFF_LEN - unat (tail k)) mod BUFF_LEN]"

definition kb_wf :: "kbd \<Rightarrow> bool" where
  "kb_wf k \<longleftrightarrow> length (keys k) = 256 \<and> length (kb_queue k) = BUFF_LEN
     \<and> unat (head k) < BUFF_LEN \<and> unat (tail k) < BUFF_LEN \<and> 0 \<notin> set (kb_list k)"

definition enqueue :: "u8 \<Rightarrow> kbd \<Rightarrow> kbd" where
  "enqueue a k = k\<lparr>kb_queue := (kb_queue k)[unat (head k) := a], head := ring_next (head k)\<rparr>"

definition press_option :: "kbd \<Rightarrow> u8 option \<times> kbd" where
  "press_option k = (case last_press k of (c, k') \<Rightarrow> (if c = 0 then None else Some c, k'))"

definition kb_admissible :: "u8 list \<Rightarrow> bool" where
  "kb_admissible q \<longleftrightarrow> length q < BUFF_LEN \<and> 0 \<notin> set q"

lemma unat_ring_next: "unat (ring_next i) = (unat i + 1) mod BUFF_LEN"
  by (simp add: ring_next_def BUFF_LEN_def unsigned_of_nat take_bit_nat_eq_self)

lemma ring_next_lt: "unat (ring_next i) < BUFF_LEN"
  unfolding unat_ring_next by (simp add: BUFF_LEN_def)

text \<open>How many entries lie between two ring positions, as either one moves.\<close>

lemma ring_count:
  assumes "h < 128" "t < (128 :: nat)"
  shows "(h + 128 - t) mod 128 = (if t \<le> h then h - t else h + 128 - t)"
proof (cases "t \<le> h")
  case True
  then have "h + 128 - t = (h - t) + 128" by linarith
  moreover have "h - t < 128" using assms(1) by linarith
  ultimately show ?thesis using True by (simp only: mod_add_self2 mod_less if_True)
next
  case False
  with assms have "h + 128 - t < 128" by linarith
  with False show ?thesis by (simp only: mod_less if_False)
qed

lemma ring_wrap:
  assumes "i < 256"
  shows "i mod 128 = (if i < 128 then i else i - (128 :: nat))"
proof (cases "i < 128")
  case True
  then show ?thesis by (simp only: mod_less if_True)
next
  case False
  then have "i = (i - 128) + 128" "i - 128 < 128" using assms by linarith+
  with False show ?thesis by (metis mod_add_self2 mod_less)
qed

lemma ring_step: "h < 128 \<Longrightarrow> (h + 1) mod 128 = (if h = 127 then 0 else h + (1 :: nat))"
  using ring_wrap[of "h + 1"] by (cases "h = 127") simp_all

lemma ring_count_put:
  assumes "h < 128" "t < (128 :: nat)" "(h + 128 - t) mod 128 < 127"
  shows "((h + 1) mod 128 + 128 - t) mod 128 = Suc ((h + 128 - t) mod 128)"
proof -
  have "(h + 1) mod 128 < 128" by (rule mod_less_divisor) simp
  note counts = ring_count[OF this assms(2)] ring_count[OF assms(1,2)]
  show ?thesis
    using assms unfolding counts unfolding ring_step[OF assms(1)] by (cases "h = 127"; cases "t \<le> h"; cases "t = h + 1"; linarith?) (auto split: if_splits)
qed

lemma ring_count_get:
  assumes "h < 128" "t < (128 :: nat)" "(h + 128 - t) mod 128 = Suc n"
  shows "(h + 128 - (t + 1) mod 128) mod 128 = n"
proof -
  have "(t + 1) mod 128 < 128" by (rule mod_less_divisor) simp
  note counts = ring_count[OF assms(1) this] ring_count[OF assms(1,2)]
  show ?thesis
    using assms unfolding counts unfolding ring_step[OF assms(2)] by (cases "t = 127"; cases "t \<le> h"; cases "t = h") (auto split: if_splits)
qed

lemma ring_count_zero:
  assumes "h < 128" "t < (128 :: nat)"
  shows "(h + 128 - t) mod 128 = 0 \<longleftrightarrow> t = h"
  unfolding ring_count[OF assms] using assms by (cases "t \<le> h") auto

lemma ring_last:
  assumes "h < 128" "t < (128 :: nat)"
  shows "(t + (h + 128 - t) mod 128) mod 128 = h"
proof (cases "t \<le> h")
  case True
  with assms show ?thesis unfolding ring_count[OF assms] by simp
next
  case False
  then have "t + (h + 128 - t) = h + 128" using assms(2) by linarith
  with False assms show ?thesis unfolding ring_count[OF assms] by simp
qed

lemma ring_before:
  assumes "h < 128" "t < (128 :: nat)" "i < (h + 128 - t) mod 128"
  shows "(t + i) mod 128 \<noteq> h"
proof -
  from assms have "t + i < 256" by simp
  then show ?thesis
    using assms(1,3) unfolding ring_count[OF assms(1,2)] ring_wrap[OF \<open>t + i < 256\<close>]
    by (cases "t \<le> h"; cases "t + i < 128") simp_all
qed

lemma length_kb_list: "length (kb_list k) = (unat (head k) + BUFF_LEN - unat (tail k)) mod BUFF_LEN"
  by (simp add: kb_list_def)

lemma kb_list_enqueue:
  assumes "kb_wf k" "length (kb_list k) < 127"
  shows "kb_list (enqueue a k) = kb_list k @ [a]"
proof -
  let ?h = "unat (head k)" and ?t = "unat (tail k)"
  let ?n = "(?h + 128 - ?t) mod 128"
  from assms have h: "?h < 128" "?t < 128" "?n < 127" and q: "length (kb_queue k) = 128"
    by (auto simp: kb_wf_def length_kb_list BUFF_LEN_def)
  have "kb_list (enqueue a k)
      = map (\<lambda>i. (kb_queue k)[?h := a] ! ((?t + i) mod 128)) [0..<((?h + 1) mod 128 + 128 - ?t) mod 128]"
    by (simp add: kb_list_def enqueue_def unat_ring_next BUFF_LEN_def)
  also have "\<dots> = map (\<lambda>i. (kb_queue k)[?h := a] ! ((?t + i) mod 128)) [0..<?n] @ [a]"
    using q h(1) ring_last[OF h(1,2)]
    by (simp only: ring_count_put[OF h] upt.simps(2) le0 if_True map_append list.map nth_list_update_eq)
  also have "map (\<lambda>i. (kb_queue k)[?h := a] ! ((?t + i) mod 128)) [0..<?n] = kb_list k"
    unfolding kb_list_def BUFF_LEN_def
    by (rule map_cong[OF refl]) (metis ring_before[OF h(1,2)] atLeastLessThan_iff nth_list_update_neq set_upt)
  finally show ?thesis .
qed

lemma enqueue_wf:
  assumes "kb_wf k" "length (kb_list k) < 127" "a \<noteq> 0"
  shows "kb_wf (enqueue a k)"
  using assms kb_list_enqueue[OF assms(1,2), of a] ring_next_lt[of "head k"]
  by (simp add: kb_wf_def) (simp add: enqueue_def)

lemma kb_list_last_press:
  assumes "kb_wf k" "kb_list k = x # xs"
  shows "fst (last_press k) = x" "kb_list (snd (last_press k)) = xs"
proof -
  let ?h = "unat (head k)" and ?t = "unat (tail k)"
  from assms(1) have h: "?h < 128" "?t < 128" by (auto simp: kb_wf_def BUFF_LEN_def)
  from assms(2) have n: "(?h + 128 - ?t) mod 128 = Suc (length xs)"
    using length_kb_list[of k] by (simp add: BUFF_LEN_def)
  then have ne: "tail k \<noteq> head k" by auto
  have l: "kb_queue k ! ?t # map (\<lambda>i. kb_queue k ! ((?t + Suc i) mod 128)) [0..<length xs] = x # xs"
    using assms(2) h n by (simp add: kb_list_def BUFF_LEN_def n upt_Suc_shift comp_def del: upt_Suc)
  then show "fst (last_press k) = x" using ne by (simp add: last_press_def Let_def)
  show "kb_list (snd (last_press k)) = xs"
    using l ne ring_count_get[OF h n]
    by (simp add: last_press_def Let_def kb_list_def unat_ring_next BUFF_LEN_def mod_simps)
qed

lemma last_press_wf: "kb_wf k \<Longrightarrow> kb_wf (snd (last_press k))"
proof (cases "kb_list k")
  case Nil
  assume wf: "kb_wf k"
  with Nil have "tail k = head k"
    using ring_count_zero[of "unat (head k)" "unat (tail k)"] length_kb_list[of k]
    by (simp add: kb_wf_def BUFF_LEN_def word_unat_eq_iff)
  with wf show ?thesis by (simp add: last_press_def)
next
  case (Cons x xs)
  assume wf: "kb_wf k"
  then have "0 \<notin> set xs" using Cons by (simp add: kb_wf_def)
  moreover have "unat (tail (snd (last_press k))) < BUFF_LEN" "keys (snd (last_press k)) = keys k"
    "head (snd (last_press k)) = head k" "kb_queue (snd (last_press k)) = kb_queue k"
    using wf ring_next_lt[of "tail k"] by (auto simp: last_press_def Let_def kb_wf_def)
  ultimately show ?thesis
    using wf kb_list_last_press(2)[OF wf Cons] by (simp add: kb_wf_def)
qed

lemma last_press_empty: "kb_wf k \<Longrightarrow> kb_list k = [] \<Longrightarrow> last_press k = (0, k)"
  using ring_count_zero[of "unat (head k)" "unat (tail k)"] length_kb_list[of k]
  by (simp add: kb_wf_def BUFF_LEN_def word_unat_eq_iff last_press_def)

interpretation ring: fifo kb_wf kb_list kb_admissible enqueue press_option
proof
  show "kb_wf (enqueue a k) \<and> kb_list (enqueue a k) = kb_list k @ [a]"
    if "kb_wf k" "kb_admissible (kb_list k @ [a])" for k a
    using that kb_list_enqueue[of k a] enqueue_wf[of k a] by (auto simp: kb_admissible_def BUFF_LEN_def)
  show "press_option k = (None, k)" if "kb_wf k" "kb_list k = []" for k
    using that by (simp add: press_option_def last_press_empty)
  show "fst (press_option k) = Some x \<and> kb_wf (snd (press_option k)) \<and> kb_list (snd (press_option k)) = xs"
    if "kb_wf k" "kb_list k = x # xs" for k x xs
  proof -
    have "x \<noteq> 0" using that by (auto simp: kb_wf_def)
    with that show ?thesis
      using kb_list_last_press[OF that] last_press_wf[OF that(1)]
      by (simp add: press_option_def case_prod_beta)
  qed
qed

subsection \<open>What a scan code does\<close>

text \<open>
  The handler without its queue and its display: the modifier and key state after a scan code,
  and the character it types (0 for none).
\<close>

definition suppressed :: "u8 \<Rightarrow> kbd \<Rightarrow> bool" where
  "suppressed byte k \<longleftrightarrow> 0 < keys k ! unat byte \<and> keys k ! unat byte < 10"

definition released :: "u8 \<Rightarrow> bool" where
  "released byte \<longleftrightarrow> byte AND 0x80 \<noteq> 0"

definition mods :: "u8 \<Rightarrow> kbd \<Rightarrow> kbd" where
  "mods byte k =
     (if released byte then
        k\<lparr>shift := (if byte AND 0x7F = LSHIFT then shift k AND 2
                   else if byte AND 0x7F = RSHIFT then shift k AND 1 else shift k),
          ctrl := (if byte AND 0x7F = CTRL then 0 else ctrl k),
          keys := (keys k)[unat (byte AND 0x7F) := 0]\<rparr>
      else if suppressed byte k then k\<lparr>keys := (keys k)[unat byte := keys k ! unat byte + 1]\<rparr>
      else
        k\<lparr>shift := (if byte = LSHIFT then shift k OR 1 else if byte = RSHIFT then shift k OR 2 else shift k),
          ctrl := (if byte = CTRL then 1 else ctrl k),
          caps := (if byte = CAPS then \<not> caps k else caps k),
          keys := (keys k)[unat byte := keys k ! unat byte + 1]\<rparr>)"

definition typed :: "u8 \<Rightarrow> kbd \<Rightarrow> u8" where
  "typed byte k =
     (if released byte \<or> suppressed byte k then 0
      else (if (shift (mods byte k) \<noteq> 0) \<noteq> caps (mods byte k)
            then upper_ascii_codes else lower_ascii_codes) ! unat byte)"

lemma handle_interrupt_state:
  "fst (handle_interrupt font p byte (k, g)) =
     (if typed byte k = 0 then mods byte k else enqueue (typed byte k) (mods byte k))"
proof -
  consider (rel) "released byte" | (sup) "\<not> released byte" "suppressed byte k"
    | (press) "\<not> released byte" "\<not> suppressed byte k" by blast
  then show ?thesis
  proof cases
    case rel
    then show ?thesis
      by (simp add: handle_interrupt_def typed_def mods_def released_def Let_def LSHIFT_def RSHIFT_def CTRL_def)
  next
    case sup
    then show ?thesis
      by (simp add: handle_interrupt_def typed_def mods_def released_def suppressed_def Let_def)
  next
    case press
    have codes: "(sh \<noteq> 0 \<and> \<not> cp \<or> sh = 0 \<and> cp) = ((sh \<noteq> 0) \<noteq> cp)" for sh :: u8 and cp by blast
    from press have g: "(byte AND 0x80 \<noteq> 0) = False" "(keys k ! unat byte < 10 \<and> 0 < keys k ! unat byte) = False"
      by (auto simp: released_def suppressed_def)
    consider "byte = LSHIFT" | "byte = RSHIFT" "byte \<noteq> LSHIFT" | "byte = CTRL" "byte \<noteq> LSHIFT" "byte \<noteq> RSHIFT"
      | "byte = CAPS" "byte \<noteq> LSHIFT" "byte \<noteq> RSHIFT" "byte \<noteq> CTRL"
      | "byte \<noteq> LSHIFT" "byte \<noteq> RSHIFT" "byte \<noteq> CTRL" "byte \<noteq> CAPS" by blast
    then show ?thesis
      unfolding handle_interrupt_def typed_def mods_def Let_def prod.case g codes enqueue_def
      using press by cases (simp_all add: c_defs)
  qed
qed

lemma mods_ring [simp]:
  "head (mods byte k) = head k" "tail (mods byte k) = tail k" "kb_queue (mods byte k) = kb_queue k"
  "display (mods byte k) = display k" "length (keys (mods byte k)) = length (keys k)"
  by (auto simp: mods_def)

lemma kb_list_mods [simp]: "kb_list (mods byte k) = kb_list k"
  by (simp add: kb_list_def)

lemma kb_wf_mods [simp]: "kb_wf (mods byte k) \<longleftrightarrow> kb_wf k"
  by (simp add: kb_wf_def)

lemma handle_interrupt_list:
  assumes "kb_wf k" "length (kb_list k) < 127"
  shows "kb_wf (fst (handle_interrupt font p byte (k, g)))"
    and "kb_list (fst (handle_interrupt font p byte (k, g)))
         = kb_list k @ (if typed byte k = 0 then [] else [typed byte k])"
  unfolding handle_interrupt_state
  using assms kb_list_enqueue[of "mods byte k"] enqueue_wf[of "mods byte k"] by simp_all

subsection \<open>Sessions: interrupts and reads in any order\<close>

datatype kb_event = Scan u8 | Read_press

primrec kb_run :: "font \<Rightarrow> psf \<Rightarrow> kb_event list \<Rightarrow> kbd \<times> gfx \<Rightarrow> u8 list \<times> kbd \<times> gfx" where
  "kb_run font p [] s = ([], s)"
| "kb_run font p (ev # evs) s =
     (case ev of
        Scan byte \<Rightarrow> kb_run font p evs (handle_interrupt font p byte s)
      | Read_press \<Rightarrow>
          (let (c, k) = last_press (fst s); (cs, s') = kb_run font p evs (k, snd s) in (c # cs, s')))"

text \<open>The same session as operations of a list queue; only the modifiers matter for \<open>typed\<close>.\<close>

primrec kb_ops :: "kb_event list \<Rightarrow> kbd \<Rightarrow> u8 fifo_op list" where
  "kb_ops [] k = []"
| "kb_ops (ev # evs) k =
     (case ev of
        Scan byte \<Rightarrow>
          (if typed byte k = 0 then [] else [Put (typed byte k)]) @ kb_ops evs (mods byte k)
      | Read_press \<Rightarrow> Get # kb_ops evs k)"

lemma mods_cong:
  assumes "caps k = caps k'" "shift k = shift k'" "keys k = keys k'"
  shows "caps (mods b k) = caps (mods b k')" "shift (mods b k) = shift (mods b k')"
    "keys (mods b k) = keys (mods b k')" "typed b k = typed b k'"
  using assms by (auto simp: mods_def typed_def suppressed_def)

lemma kb_ops_cong:
  assumes "caps k = caps k'" "shift k = shift k'" "keys k = keys k'"
  shows "kb_ops evs k = kb_ops evs k'"
  using assms
proof (induction evs arbitrary: k k')
  case (Cons ev evs)
  note m = mods_cong[OF Cons.prems]
  from Cons.IH[OF Cons.prems] Cons.IH[OF m(1-3)] m(4) show ?case by (simp split: kb_event.splits)
qed simp

lemma enqueue_fields [simp]:
  "caps (enqueue a k) = caps k" "shift (enqueue a k) = shift k" "keys (enqueue a k) = keys k"
  by (simp_all add: enqueue_def)

lemma last_press_fields [simp]:
  "caps (snd (last_press k)) = caps k" "shift (snd (last_press k)) = shift k"
  "keys (snd (last_press k)) = keys k"
  by (simp_all add: last_press_def Let_def)

primrec char_or_0 :: "u8 option \<Rightarrow> u8" where
  "char_or_0 None = 0"
| "char_or_0 (Some c) = c"

lemma press_option_last_press:
  "fst (last_press k) = char_or_0 (fst (press_option k))"
  "snd (press_option k) = snd (last_press k)"
  by (auto simp: press_option_def case_prod_beta)

definition same_ring :: "kbd \<Rightarrow> kbd \<Rightarrow> bool" where
  "same_ring k k' \<longleftrightarrow> kb_queue k = kb_queue k' \<and> head k = head k' \<and> tail k = tail k'"

lemma same_ring_step:
  assumes "same_ring k k'"
  shows "same_ring (enqueue a k) (enqueue a k')" "fst (last_press k) = fst (last_press k')"
    "same_ring (snd (last_press k)) (snd (last_press k'))"
  using assms by (auto simp: same_ring_def enqueue_def last_press_def Let_def)

lemma kb_run_ring:
  "same_ring k k' \<Longrightarrow> fst (kb_run font p evs (k, g)) = map char_or_0 (fst (ring.run (kb_ops evs k) k'))"
proof (induction evs arbitrary: k k' g)
  case (Cons ev evs)
  show ?case
  proof (cases ev)
    case (Scan byte)
    obtain k1 g1 where h: "handle_interrupt font p byte (k, g) = (k1, g1)" by (metis surj_pair)
    with handle_interrupt_state[of font p byte k g]
    have k1: "k1 = (if typed byte k = 0 then mods byte k else enqueue (typed byte k) (mods byte k))"
      by simp
    have ops: "kb_ops evs k1 = kb_ops evs (mods byte k)" by (rule kb_ops_cong) (simp_all add: k1)
    have "same_ring (mods byte k) k'" using Cons.prems by (simp add: same_ring_def)
    then have "same_ring k1 (if typed byte k = 0 then k' else enqueue (typed byte k) k')"
      using same_ring_step(1) by (simp add: k1)
    from Cons.IH[OF this, of g1] show ?thesis by (simp add: Scan h ops)
  next
    case Read_press
    have ops: "kb_ops evs (snd (last_press k)) = kb_ops evs k" by (rule kb_ops_cong) simp_all
    from Cons.IH[OF same_ring_step(3)[OF Cons.prems]] show ?thesis
      using press_option_last_press(1)[of k] press_option_last_press(1)[of k'] same_ring_step(2)[OF Cons.prems]
      by (simp add: Read_press case_prod_beta ops press_option_last_press(2))
  qed
qed simp

text \<open>
  C10. As long as fewer than 128 characters wait, any session of scan codes and reads returns
  what a first-in first-out list of the typed characters returns, 0 standing for an empty one.
\<close>

theorem keyboard_session_is_fifo:
  assumes "kb_wf k" "list_all kb_admissible (queue_trace (kb_ops evs k) (kb_list k))"
  shows "fst (kb_run font p evs (k, g))
       = map char_or_0 (fst (list_queue (kb_ops evs k) (kb_list k)))"
  using kb_run_ring[of k k] ring.run_refines[OF assms] by (simp add: same_ring_def)

text \<open>Left shift, the B key, release of left shift, the B key again while held, the N key, three reads.\<close>

lemma kbd_initial_wf: "kb_wf kbd_initial" "kb_list kbd_initial = []"
  by (simp_all add: kb_wf_def kbd_initial_def kb_list_def BUFF_LEN_def)

definition demo_session :: "kb_event list" where
  "demo_session = [Scan 0x2A, Scan 0x30, Scan 0xAA, Scan 0x30, Scan 0x31, Read_press, Read_press, Read_press]"

lemma demo_ops: "kb_ops demo_session kbd_initial = [Put 66, Put 110, Get, Get, Get]"
  by code_simp

theorem keyboard_session_is_fifo_witness:
  "fst (kb_run (\<lambda>_. 0) (psf_init (\<lambda>_. 0)) demo_session (kbd_initial, blank)) = [66, 110, 0]"
  using keyboard_session_is_fifo[OF kbd_initial_wf(1), of demo_session "\<lambda>_. 0" "psf_init (\<lambda>_. 0)" blank]
  by (simp add: kbd_initial_wf(2) demo_ops kb_admissible_def BUFF_LEN_def)

definition plain_key :: "u8 \<Rightarrow> bool" where
  "plain_key b \<longleftrightarrow> \<not> released b \<and> b \<noteq> LSHIFT \<and> b \<noteq> RSHIFT \<and> b \<noteq> CTRL \<and> b \<noteq> CAPS"

lemma mods_plain: "plain_key b \<Longrightarrow> mods b k = k\<lparr>keys := (keys k)[unat b := keys k ! unat b + 1]\<rparr>"
  by (simp add: mods_def plain_key_def)

lemma typed_plain:
  "plain_key b \<Longrightarrow> typed b k = (if suppressed b k then 0
     else (if (shift k \<noteq> 0) \<noteq> caps k then upper_ascii_codes else lower_ascii_codes) ! unat b)"
  by (simp add: typed_def mods_plain) (simp add: plain_key_def)

lemma held_key:
  assumes "plain_key b" "keys k ! unat b = of_nat j" "0 < j" "j + m \<le> 10" "unat b < length (keys k)"
  shows "kb_ops (replicate m (Scan b) @ evs) k = kb_ops evs (k\<lparr>keys := (keys k)[unat b := of_nat (j + m)]\<rparr>)"
  using assms(2-)
proof (induction m arbitrary: j k)
  case 0
  then show ?case by (metis append_Nil list_update_id replicate_0 add_0_right surjective kbd.update_convs(6))
next
  case (Suc m)
  have "unat (of_nat j :: u8) = j" using Suc.prems by (simp add: unsigned_of_nat take_bit_nat_eq_self)
  then have "suppressed b k" using Suc.prems by (simp add: suppressed_def word_less_nat_alt)
  moreover from this have "typed b k = 0" by (simp add: typed_plain[OF assms(1)])
  ultimately show ?case
    using Suc.IH[of "mods b k" "Suc j"] Suc.prems by (simp add: mods_plain[OF assms(1)] add.commute)
qed

primrec puts :: "'a fifo_op list \<Rightarrow> 'a list" where
  "puts [] = []"
| "puts (oper # opers) = (case oper of Put a \<Rightarrow> a # puts opers | Get \<Rightarrow> puts opers)"

lemma fold_handle_list:
  assumes "kb_wf k" "length (kb_list k) + length (puts (kb_ops (map Scan bs) k)) \<le> 127"
  shows "kb_list (fst (fold (handle_interrupt font p) bs (k, g))) = kb_list k @ puts (kb_ops (map Scan bs) k)"
  using assms
proof (induction bs arbitrary: k g)
  case (Cons b bs)
  obtain k1 g1 where h: "handle_interrupt font p b (k, g) = (k1, g1)" by (metis surj_pair)
  with handle_interrupt_state[of font p b k g]
  have k1: "k1 = (if typed b k = 0 then mods b k else enqueue (typed b k) (mods b k))" by simp
  have ops: "kb_ops evs k1 = kb_ops evs (mods b k)" for evs by (rule kb_ops_cong) (simp_all add: k1)
  show ?case
  proof (cases "typed b k = 0")
    case True
    with Cons.prems Cons.IH[of k1 g1] show ?thesis by (simp add: h ops k1)
  next
    case False
    with Cons.prems have l: "length (kb_list k) < 127" by simp
    note step = handle_interrupt_list[OF Cons.prems(1) l, of font p b g]
    from False step have "kb_list k1 = kb_list k @ [typed b k]" "kb_wf k1" by (simp_all add: h)
    with False Cons.prems Cons.IH[of k1 g1] show ?thesis by (simp add: h ops)
  qed
qed simp

lemma held_ops:
  assumes "plain_key b" "keys k ! unat b = 0" "unat b < length (keys k)" "typed b k \<noteq> 0"
  shows "n < 10 \<Longrightarrow> kb_ops (replicate (Suc n) (Scan b)) k = [Put (typed b k)]"
    and "kb_ops (replicate 11 (Scan b)) k = [Put (typed b k), Put (typed b k)]"
proof -
  let ?k = "\<lambda>j :: nat. k\<lparr>keys := (keys k)[unat b := of_nat j]\<rparr>"
  have m: "mods b k = ?k 1" using assms(2) by (simp add: mods_plain[OF assms(1)])
  have held: "kb_ops (replicate l (Scan b) @ evs) (?k 1) = kb_ops evs (?k (1 + l))" if "l < 10" for l evs
    using held_key[OF assms(1), of "?k 1" 1 l evs] that assms(3) by simp
  have "\<not> suppressed b k" using assms(2) by (simp add: suppressed_def)
  moreover have "\<not> suppressed b (?k 10)" using assms(3) by (simp add: suppressed_def)
  ultimately have again: "typed b (?k 10) = typed b k"
    by (simp add: typed_plain[OF assms(1)])
  show "kb_ops (replicate (Suc n) (Scan b)) k = [Put (typed b k)]" if "n < 10"
    using held[of n "[]"] that assms(4) by (simp add: m)
  have "kb_ops (replicate 9 (Scan b) @ [Scan b]) (mods b k) = [Put (typed b k)]"
    using held[of 9 "[Scan b]"] again assms(4) unfolding m by simp
  moreover have "replicate 11 (Scan b) = Scan b # (replicate 9 (Scan b) @ [Scan b])"
    by (simp add: numeral_eq_Suc)
  ultimately show "kb_ops (replicate 11 (Scan b)) k = [Put (typed b k), Put (typed b k)]"
    using assms(4) by simp
qed

text \<open>
  A key that is held down types once for its first ten make codes and again with the eleventh.
\<close>

theorem key_repeat:
  assumes "kb_wf k" "length (kb_list k) < 126" "plain_key b" "keys k ! unat b = 0" "typed b k \<noteq> 0" "n < 10"
  shows "kb_list (fst (fold (handle_interrupt font p) (replicate (Suc n) b) (k, g))) = kb_list k @ [typed b k]
    \<and> kb_list (fst (fold (handle_interrupt font p) (replicate 11 b) (k, g))) = kb_list k @ [typed b k, typed b k]"
proof -
  have "unat b < length (keys k)" using assms(1) unat_lt_2p[of b] by (simp add: kb_wf_def)
  note ops = held_ops[OF assms(3,4) this assms(5)]
  have "puts (kb_ops (map Scan (replicate (Suc n) b)) k) = [typed b k]"
    "puts (kb_ops (map Scan (replicate 11 b)) k) = [typed b k, typed b k]"
    unfolding map_replicate ops(1)[OF assms(6)] ops(2) by simp_all
  with assms(2) fold_handle_list[OF assms(1), of "replicate (Suc n) b" font p g]
    fold_handle_list[OF assms(1), of "replicate 11 b" font p g]
  show ?thesis by (simp only: length_Cons list.size)
qed

theorem key_repeat_witness:
  "kb_list (fst (fold (handle_interrupt (\<lambda>_. 0) demo_psf) (replicate (Suc 4) 0x10) (kbd_initial, blank))) = [113]"
proof -
  have t: "typed 0x10 kbd_initial = 113" by code_simp
  have "plain_key 0x10" "keys kbd_initial ! unat (0x10 :: u8) = 0"
    by (simp_all add: plain_key_def released_def c_defs kbd_initial_def)
  from key_repeat[OF kbd_initial_wf(1) _ this, of 4 "\<lambda>_. 0" demo_psf blank] show ?thesis
    unfolding t kbd_initial_wf(2) by simp
qed

subsection \<open>Letters\<close>

definition letter_codes :: "u8 list" where
  "letter_codes = [0x10, 0x11, 0x12, 0x13, 0x14, 0x15, 0x16, 0x17, 0x18, 0x19,
     0x1E, 0x1F, 0x20, 0x21, 0x22, 0x23, 0x24, 0x25, 0x26,
     0x2C, 0x2D, 0x2E, 0x2F, 0x30, 0x31, 0x32]"

definition letters :: "u8 list" where "letters = ascii ''qwertyuiopasdfghjklzxcvbnm''"

lemma letter_tables:
  "list_all (\<lambda>(b, l). plain_key b \<and> unat b < 256 \<and> l \<noteq> 0 \<and> l \<noteq> 32
     \<and> lower_ascii_codes ! unat b = l \<and> upper_ascii_codes ! unat b = l - 32) (zip letter_codes letters)"
  by code_simp

text \<open>
  A letter key that is not held types its letter, in upper case exactly when one of shift and
  caps lock is active but not both.
\<close>

theorem letter_case:
  assumes "kb_wf k" "length (kb_list k) < 127" "(b, l) \<in> set (zip letter_codes letters)"
    and "keys k ! unat b = 0"
  shows "kb_list (fst (handle_interrupt font p b (k, g)))
       = kb_list k @ [if (shift k \<noteq> 0) \<noteq> caps k then l - 32 else l]"
proof -
  have "plain_key b" "l \<noteq> 0" "l \<noteq> 32" "lower_ascii_codes ! unat b = l" "upper_ascii_codes ! unat b = l - 32"
    using letter_tables assms(3) by (auto simp: list_all_iff)
  moreover have "\<not> suppressed b k" using assms(4) by (simp add: suppressed_def)
  ultimately show ?thesis
    by (simp add: handle_interrupt_list(2)[OF assms(1,2)] typed_plain)
qed

theorem letter_case_witness:
  "kb_list (fst (handle_interrupt (\<lambda>_. 0) demo_psf 0x10 (kbd_initial\<lparr>caps := True\<rparr>, blank))) = [81]"
proof -
  let ?k = "kbd_initial\<lparr>caps := True\<rparr>"
  have "kb_list ?k = []" "kb_wf ?k"
    using kbd_initial_wf by (simp_all add: kb_list_def kb_wf_def)
  moreover have "(0x10, 113) \<in> set (zip letter_codes letters)" by code_simp
  moreover have "keys ?k ! unat (0x10 :: u8) = 0" "shift ?k = 0" "caps ?k"
    by (simp_all add: kbd_initial_def)
  ultimately show ?thesis using letter_case[of ?k "0x10" 113 "\<lambda>_. 0" demo_psf blank] by simp
qed

subsection \<open>The full ring\<close>

lemma full_ring_next:
  assumes "kb_wf k" "length (kb_list k) = 127"
  shows "ring_next (head k) = tail k"
proof -
  let ?h = "unat (head k)" and ?t = "unat (tail k)"
  have h: "?h < 128" "?t < 128" using assms(1) by (auto simp: kb_wf_def BUFF_LEN_def)
  have "(?h + 128 - ?t) mod 128 = 127" using assms(2) by (simp add: length_kb_list BUFF_LEN_def)
  then have "(?h + 1) mod 128 = ?t"
    using h unfolding ring_count[OF h] ring_step[OF h(1)]
    by (cases "?h = 127"; cases "?t \<le> ?h") auto
  then show ?thesis by (simp add: word_unat_eq_iff unat_ring_next BUFF_LEN_def)
qed

lemma full_ring_empty:
  assumes "kb_wf k" "length (kb_list k) = 127"
  shows "kb_list (enqueue a (mods b k)) = []"
  by (simp add: enqueue_def kb_list_def full_ring_next[OF assms] BUFF_LEN_def)

text \<open>
  When 127 characters wait, the next one makes the head meet the tail: the ring then counts as
  empty and all 128 characters are lost.
\<close>

theorem full_ring_loses_all:
  assumes "kb_wf k" "length (kb_list k) = 127" "typed b k \<noteq> 0"
  shows "kb_list (fst (handle_interrupt font p b (k, g))) = []
    \<and> fst (last_press (fst (handle_interrupt font p b (k, g)))) = 0"
  using assms(3) full_ring_empty[OF assms(1,2)] full_ring_next[OF assms(1,2)]
  by (simp add: handle_interrupt_state) (simp add: enqueue_def last_press_def)

definition full_kbd :: kbd where
  "full_kbd = kbd_initial\<lparr>kb_queue := replicate 128 65, head := 127\<rparr>"

theorem full_ring_loses_all_witness:
  "kb_list full_kbd = replicate 127 65
   \<and> kb_list (fst (handle_interrupt (\<lambda>_. 0) demo_psf 0x30 (full_kbd, blank))) = []"
proof -
  have q: "kb_list full_kbd = replicate 127 65"
    by (intro nth_equalityI) (auto simp: kb_list_def full_kbd_def kbd_initial_def BUFF_LEN_def)
  then have "kb_wf full_kbd" by (simp add: kb_wf_def) (simp add: full_kbd_def kbd_initial_def BUFF_LEN_def)
  moreover have "typed 0x30 full_kbd \<noteq> 0" by code_simp
  ultimately show ?thesis
    using full_ring_loses_all[of full_kbd "0x30" "\<lambda>_. 0" demo_psf blank] q by simp
qed

subsection \<open>What the handler draws\<close>

text \<open>
  The status text lies to the left of pixel column 152 and goes to the screen only: the
  double buffer, the right part of the screen and the fault flag are untouched.
\<close>

lemma put_char_right:
  assumes "fits p cx cy" "on_screen x y" "8 * (unat cx + 1) \<le> unat x"
  shows "frame b' (put_char font p index cx cy fg bg b s) (offset x y) = frame b' s (offset x y)"
proof -
  have w: "char_width p = 8" using assms(1) by (simp add: fits_def)
  let ?X = "\<lambda>px. of_nat px + cx * of_nat (char_width p) :: u32"
  let ?Y = "\<lambda>py. of_nat py + cy * of_nat (char_height p) :: u32"
  have "offset (?X px) (?Y py) \<noteq> offset x y" if "px < 8" "py < char_height p" for px py
  proof
    assume "offset (?X px) (?Y py) = offset x y"
    from offset_inj[OF cell_on_screen[OF assms(1) that] assms(2) this]
    have "unat x = px + 8 * unat cx" using cell_coords(1)[OF assms(1) that] by auto
    with that(1) assms(3) show False by simp
  qed
  then have "offset x y \<notin> addrs (map fst (char_pixels font p index cx cy fg bg))"
    unfolding addrs_char_pixels w by (auto dest: sym)
  then show "frame b' (put_char font p index cx cy fg bg b s) (offset x y) = frame b' s (offset x y)"
    unfolding put_char_plots using frame_plots_other by blast
qed

lemma put_char_fault:
  assumes "fits p cx cy"
  shows "fault (put_char font p index cx cy fg bg b s) = fault s"
proof -
  have w: "char_width p = 8" using assms by (simp add: fits_def)
  show ?thesis
    unfolding put_char_plots fault_plots addrs_char_pixels
    using on_screen_in_frame[OF cell_on_screen[OF assms]] unfolding w by auto
qed

lemma put_char_dbuf: "dbuf (put_char font p index cx cy fg bg Nullptr s) = dbuf s"
proof -
  have "frame DoubleBuffer (put_char font p index cx cy fg bg Nullptr s) = frame DoubleBuffer s"
    by (rule ext) (simp add: put_char_plots frame_plots_other)
  then show ?thesis by (simp add: frame_def)
qed

lemma fits_left: "fits p cx cy \<Longrightarrow> unat cx' \<le> unat cx \<Longrightarrow> unat cy' \<le> unat cy \<Longrightarrow> fits p cx' cy'"
proof -
  assume f: "fits p cx cy" "unat cx' \<le> unat cx" "unat cy' \<le> unat cy"
  then have "char_height p * (unat cy' + 1) \<le> char_height p * (unat cy + 1)" by (intro mult_le_mono2) simp
  also have "\<dots> \<le> 200" using f(1) by (simp add: fits_def)
  finally show ?thesis using f by (simp add: fits_def)
qed

definition touches_left :: "nat \<Rightarrow> (gfx \<Rightarrow> gfx) \<Rightarrow> bool" where
  "touches_left n f \<longleftrightarrow> (\<forall>s. dbuf (f s) = dbuf s \<and> fault (f s) = fault s
     \<and> (\<forall>x y. on_screen x y \<and> n \<le> unat x \<longrightarrow> vga (f s) (offset x y) = vga s (offset x y)))"

lemma touches_left_put_char:
  assumes "fits p cx cy" "8 * (unat cx + 1) \<le> n"
  shows "touches_left n (put_char font p index cx cy fg bg Nullptr)"
  unfolding touches_left_def
proof (intro allI conjI impI)
  fix s
  show "dbuf (put_char font p index cx cy fg bg Nullptr s) = dbuf s" by (rule put_char_dbuf)
  show "fault (put_char font p index cx cy fg bg Nullptr s) = fault s" by (rule put_char_fault[OF assms(1)])
  fix x y assume "on_screen x y \<and> n \<le> unat x"
  then have "on_screen x y" "8 * (unat cx + 1) \<le> unat x" using assms(2) by auto
  from put_char_right[OF assms(1) this, of Nullptr font index fg bg Nullptr s]
  show "vga (put_char font p index cx cy fg bg Nullptr s) (offset x y) = vga s (offset x y)"
    by (simp add: frame_def)
qed

lemma touches_left_comp: "touches_left n f \<Longrightarrow> touches_left n g \<Longrightarrow> touches_left n (\<lambda>s. f (g s))"
  by (simp add: touches_left_def)

lemma touches_left_string:
  assumes "fits p (cx + of_nat (length str)) cy" "8 * (unat cx + length str) \<le> n" "n \<le> 320"
    and "CHR 0x0A \<notin> set str" 
  shows "touches_left n (put_string_loop font p str cx0 cx cy fg bg Nullptr)"
  using assms
proof (induction str arbitrary: cx)
  case Nil
  then show ?case by (simp add: touches_left_def)
next
  case (Cons ch str)
  have l: "unat cx + length (ch # str) \<le> 40" using Cons.prems(2,3) by simp
  have u: "unat (cx + 1) = unat cx + 1" using l unat_add_of_nat[of cx 1] by simp
  have "unat (cx + of_nat (length (ch # str))) = unat cx + length (ch # str)"
    using l by (intro unat_add_of_nat) simp
  then have "fits p cx cy" using fits_left[OF Cons.prems(1)] by simp
  moreover have "touches_left n (put_string_loop font p str cx0 (cx + 1) cy fg bg Nullptr)"
    using Cons.prems u by (intro Cons.IH) (simp_all add: algebra_simps)
  ultimately show ?case
    using Cons.prems touches_left_put_char[of p cx cy n font "char_index ch" fg bg]
    by (auto simp: touches_left_def)
qed

lemma touches_left_display:
  assumes "fits p (cx + of_nat (length str)) cy" "8 * (unat cx + length str) \<le> n" "n \<le> 320"
    and "CHR 0x0A \<notin> set str"
  shows "touches_left n (display_str font p str cx cy k)"
  using touches_left_string[OF assms]
  by (simp add: touches_left_def display_str_def put_string_colors_def put_string_def)

lemma touches_left_ascii:
  assumes "fits p cx cy" "8 * (unat cx + 1) \<le> n"
  shows "touches_left n (display_ascii font p a cx cy k)"
  using touches_left_put_char[OF assms]
  by (simp add: touches_left_def display_ascii_def put_char_colors_def)

lemma touches_left_id: "touches_left n (\<lambda>s. s)"
  by (simp add: touches_left_def)

text \<open>The texts the handler may show.\<close>

lemma handler_texts:
  assumes "fits p 19 5"
  shows "touches_left 152 (display_str font p ''        '' 11 4 k)" "touches_left 152 (display_str font p ''      '' 11 4 k)"
    "touches_left 152 (display_str font p '' '' 7 5 k)" "touches_left 152 (display_str font p ''LSHIFT +'' 11 4 k)"
    "touches_left 152 (display_str font p ''RSHIFT +'' 11 4 k)" "touches_left 152 (display_str font p ''CTRL +'' 11 4 k)"
    "touches_left 152 (display_str font p ''CAPSLOCK'' 11 3 k)" "touches_left 152 (display_str font p ''        '' 11 3 k)"
    "touches_left 152 (display_ascii font p a 7 5 k)"
  by (intro touches_left_display touches_left_ascii fits_left[OF assms]; simp)+

text \<open>The drawing of the handler, step by step: release, modifier, caps lock, typed character.\<close>

definition draw_release :: "font \<Rightarrow> psf \<Rightarrow> u8 \<Rightarrow> kbd \<Rightarrow> gfx \<Rightarrow> gfx" where
  "draw_release font p pb k g =
     (if pb = LSHIFT then display_str font p ''        '' 11 4 k g
      else if pb = RSHIFT then display_str font p ''        '' 11 4 k g
      else if pb = CTRL then display_str font p ''      '' 11 4 k g
      else display_str font p '' '' 7 5 k g)"

definition draw_modifier :: "font \<Rightarrow> psf \<Rightarrow> u8 \<Rightarrow> kbd \<Rightarrow> gfx \<Rightarrow> gfx" where
  "draw_modifier font p byte k g =
     (if byte = LSHIFT then display_str font p ''LSHIFT +'' 11 4 k g
      else if byte = RSHIFT then display_str font p ''RSHIFT +'' 11 4 k g
      else if byte = CTRL then display_str font p ''CTRL +'' 11 4 k g
      else g)"

definition draw_caps :: "font \<Rightarrow> psf \<Rightarrow> u8 \<Rightarrow> kbd \<Rightarrow> gfx \<Rightarrow> gfx" where
  "draw_caps font p byte k g =
     (if byte = CAPS then
        (if caps k then display_str font p ''        '' 11 3 k g else display_str font p ''CAPSLOCK'' 11 3 k g)
      else g)"

definition draw_typed :: "font \<Rightarrow> psf \<Rightarrow> u8 \<Rightarrow> kbd \<Rightarrow> gfx \<Rightarrow> gfx" where
  "draw_typed font p byte k g =
     (if typed byte k = 0 then g else display_ascii font p (typed byte k) 7 5 k g)"

lemma handler_draws_eq:
  "snd (handle_interrupt font p byte (k, g)) =
     (if released byte then draw_release font p (byte AND 0x7F) k g
      else if suppressed byte k then g
      else draw_typed font p byte k (draw_caps font p byte k (draw_modifier font p byte k g)))"
proof -
  have codes: "(sh \<noteq> 0 \<and> \<not> cp \<or> sh = 0 \<and> cp) = ((sh \<noteq> 0) \<noteq> cp)" for sh :: u8 and cp by blast
  consider (rel) "released byte" | (sup) "\<not> released byte" "suppressed byte k"
    | (press) "\<not> released byte" "\<not> suppressed byte k" by blast
  then show ?thesis
  proof cases
    case rel
    then show ?thesis by (simp add: draw_release_def handle_interrupt_def released_def Let_def)
  next
    case sup
    then show ?thesis by (simp add: handle_interrupt_def released_def suppressed_def Let_def)
  next
    case press
    from press have g: "(byte AND 0x80 \<noteq> 0) = False" "(keys k ! unat byte < 10 \<and> 0 < keys k ! unat byte) = False"
      by (auto simp: released_def suppressed_def)
    consider "byte = LSHIFT" | "byte = RSHIFT" "byte \<noteq> LSHIFT" | "byte = CTRL" "byte \<noteq> LSHIFT" "byte \<noteq> RSHIFT"
      | "byte = CAPS" "byte \<noteq> LSHIFT" "byte \<noteq> RSHIFT" "byte \<noteq> CTRL"
      | "byte \<noteq> LSHIFT" "byte \<noteq> RSHIFT" "byte \<noteq> CTRL" "byte \<noteq> CAPS" by blast
    then show ?thesis
      unfolding draw_typed_def draw_caps_def draw_modifier_def handle_interrupt_def typed_def mods_def
        Let_def prod.case g codes
      using press by cases (simp_all add: c_defs display_str_def display_ascii_def)
  qed
qed

lemma draw_steps_left:
  assumes "fits p 19 5"
  shows "touches_left 152 (draw_release font p pb k)" "touches_left 152 (draw_modifier font p byte k)"
    "touches_left 152 (draw_caps font p byte k)" "touches_left 152 (draw_typed font p byte k)"
  using handler_texts[OF assms] touches_left_id
  by (auto simp: touches_left_def draw_release_def draw_modifier_def draw_caps_def draw_typed_def)

lemma handler_draws_left:
  assumes "fits p 19 5"
  shows "touches_left 152 (\<lambda>g. snd (handle_interrupt font p byte (k, g)))"
  using draw_steps_left[OF assms] by (auto simp: handler_draws_eq touches_left_def)

text \<open>
  A keyboard interrupt writes the screen only to the left of pixel column 152, where the game
  draws nothing: the double buffer, every other pixel and the fault flag keep their value.
\<close>

theorem interrupt_spares_playfield:
  assumes "fits p 19 5" "on_screen x y" "152 \<le> unat x"
  shows "frame b (snd (handle_interrupt font p byte (k, g))) (offset x y) = frame b g (offset x y)
    \<and> fault (snd (handle_interrupt font p byte (k, g))) = fault g"
  using handler_draws_left[OF assms(1), of font byte k] assms(2,3)
  by (cases b) (simp_all add: touches_left_def frame_def)

theorem interrupt_spares_playfield_witness:
  "frame Nullptr (snd (handle_interrupt (\<lambda>_. 0xFF) demo_psf 0x2A (kbd_initial\<lparr>display := True\<rparr>, blank))) (offset 200 70) = 0"
proof -
  have "fits demo_psf 19 5" "on_screen 200 70" "152 \<le> unat (200 :: u32)"
    by (simp_all add: fits_def demo_psf_def psf_init_def Let_def on_screen_nat)
  from interrupt_spares_playfield[OF this, of Nullptr "\<lambda>_. 0xFF" "0x2A" "kbd_initial\<lparr>display := True\<rparr>" blank]
  show ?thesis by (simp add: frame_def blank_def)
qed

text \<open>
  Switching the status display off blackens only pixel rows 1 to 5; everything from
  pixel row 6 down, and so all five lines of text (they start at row 16), keeps the old text.
\<close>

theorem toggle_off_keeps_text:
  assumes "display k" "on_screen x y" "6 \<le> unat y"
  shows "frame b' (snd (toggle_display font p b (k, g))) (offset x y) = frame b' g (offset x y)
    \<and> \<not> display (fst (toggle_display font p b (k, g)))"
proof -
  have away: "offset x y \<notin> addrs (line_pts 1 l 30 l)" if l: "unat l < 6" for l
  proof
    assume "offset x y \<in> addrs (line_pts 1 l 30 l)"
    moreover have "line_pts 1 l 30 l = map (\<lambda>i. (1 + of_nat i, l)) [0..<30]"
      by (simp add: line_pts_def Let_def upt_rec)
    ultimately obtain i where i: "i < 30" "offset x y = offset (1 + of_nat i) l"
      by (auto simp: addrs_def)
    have "unat (1 + of_nat i :: u32) = 1 + i" using i(1) unat_add_of_nat[of 1 i] by simp
    then have "on_screen (1 + of_nat i) l" using i(1) l by (simp add: on_screen_nat)
    from offset_inj[OF assms(2) this i(2)] l assms(3) show False by simp
  qed
  have "frame b' (draw_line 1 l 30 l Black b s) (offset x y) = frame b' s (offset x y)" if "unat l < 6" for l s
    using away[OF that] by (simp add: draw_line_paints frame_paint)
  with assms(1) show ?thesis by (simp add: toggle_display_def Let_def)
qed

theorem toggle_off_keeps_text_witness:
  "frame Nullptr (snd (toggle_display (\<lambda>_. 0xFF) demo_psf Nullptr
     (kbd_initial\<lparr>display := True\<rparr>, blank\<lparr>vga := \<lambda>_. White\<rparr>))) (offset 20 20) = White"
proof -
  have "display (kbd_initial\<lparr>display := True\<rparr>)" "on_screen 20 20" "6 \<le> unat (20 :: u32)"
    by (simp_all add: on_screen_nat)
  from toggle_off_keeps_text[OF this, of Nullptr "\<lambda>_. 0xFF" demo_psf Nullptr "blank\<lparr>vga := \<lambda>_. White\<rparr>"]
  show ?thesis by (simp add: frame_def)
qed

end
