(* ===== verification/Tetris.thy ===== *)
theory Tetris
  imports Shapes Rng Keyboard
begin

text \<open>
  The game: \<open>kernel/tetris.h\<close>. The object keeps the container's corners, the falling piece,
  the generator and the spawn position; its double buffer is the \<open>dbuf\<close> frame. The main loop
  runs against two interrupt sources, the timer (\<open>Pit::jiffies\<close>) and the keyboard, so it is a
  step relation in which interrupts may come between any two statements of the loop.
\<close>

definition NONE :: u8 where [c_defs]: "NONE = 0"
definition LEFT :: u8 where [c_defs]: "LEFT = of_char (CHR ''q'')"
definition DOWN :: u8 where [c_defs]: "DOWN = of_char (CHR ''w'')"
definition RIGHT :: u8 where [c_defs]: "RIGHT = of_char (CHR ''e'')"
definition ROTATE :: u8 where [c_defs]: "ROTATE = of_char (CHR '' '')"

definition GT :: u32 where "GT = 1000"

record tetris =
  con :: "(u32 \<times> u32) list"
  curr_shape :: shape
  gen :: rng
  init_x :: u32
  init_y :: u32

subsection \<open>Construction\<close>

text \<open>
  The three loops that draw the container. \<open>draw_walls\<close> paints on the screen only.
\<close>

definition draw_walls :: "(u32 \<times> u32) list \<Rightarrow> gfx \<Rightarrow> gfx" where
  "draw_walls cs g =
     (let g1 = fold (\<lambda>k. let px = fst (cs ! 0) - of_nat k in draw_line px 10 px 193 Red Nullptr) [0..<4] g;
          g2 = fold (\<lambda>k. let px = fst (cs ! 1) + of_nat k in draw_line px 10 px 193 Red Nullptr) [0..<4] g1
      in fold (\<lambda>k. let py = snd (cs ! 3) + of_nat k in draw_line 176 py 303 py Red Nullptr) [0..<4] g2)"

text \<open>
  \<open>new uint8_t[WIDTH * HEIGHT]\<close> does not initialise the double buffer: its first contents are
  the parameter \<open>heap_bytes\<close>.
\<close>

definition Tetris_new :: "font \<Rightarrow> psf \<Rightarrow> (u32 \<Rightarrow> u8) \<Rightarrow> u32 \<Rightarrow> kbd \<times> gfx \<Rightarrow> tetris \<times> kbd \<times> gfx" where
  "Tetris_new font p heap_bytes jiffies = (\<lambda>(k, g).
     let cs = [(179, 9), (300, 9), (300, 190), (179, 190)];
         g0 = g\<lparr>dbuf := heap_bytes\<rparr>;
         (k1, g1) = toggle_display font p Nullptr (k, g0);
         sh = IShape jiffies 240 10 11;
         g2 = draw_shape sh DoubleBuffer g1;
         g3 = draw_walls cs g2
     in (\<lparr>con = cs, curr_shape = sh, gen = rng_init 0, init_x = 240, init_y = 10\<rparr>, k1, g3))"

subsection \<open>The next piece\<close>

definition next_shape :: "u32 \<Rightarrow> tetris \<times> gfx \<Rightarrow> tetris \<times> gfx" where
  "next_shape jiffies = (\<lambda>(t, g).
     let (r, v) = rng_next (gen t);
         shape_type = v mod 7;
         c0 = (ucast (jiffies mod NUM_COLORS) :: color);
         c = (if c0 = Black \<or> c0 = Red then LightCyan else c0);
         x = init_x t; y = init_y t;
         sh = (if shape_type = 0 then SquareShape jiffies x y c
               else if shape_type = 1 then IShape jiffies x y c
               else if shape_type = 2 then LShape jiffies x y c
               else if shape_type = 3 then ReverseLShape jiffies x y c
               else if shape_type = 4 then ZShape jiffies x y c
               else if shape_type = 5 then ReverseZShape jiffies x y c
               else TShape jiffies x y c)
     in (t\<lparr>curr_shape := sh, gen := r\<rparr>, draw_shape sh DoubleBuffer g))"

subsection \<open>Collision checks\<close>

text \<open>A read of the double buffer; outside the buffer it is a fault and an arbitrary byte.\<close>

definition read_buffer :: "u32 \<Rightarrow> gfx \<Rightarrow> u8 \<times> gfx" where
  "read_buffer a g = (dbuf g a, if in_frame a then g else g\<lparr>fault := True\<rparr>)"

text \<open>
  The loops of the three checks over the blocks, with the early returns; each redraws the piece
  before it returns. The \<open>||\<close> of the condition reads the buffer only if the bound holds.
\<close>

primrec clear_left_loop :: "tetris \<Rightarrow> u32 \<Rightarrow> u32 \<Rightarrow> nat list \<Rightarrow> gfx \<Rightarrow> bool \<times> gfx" where
  "clear_left_loop t new_x y [] g = (True, draw_shape (curr_shape t) DoubleBuffer g)"
| "clear_left_loop t new_x y (block_index # bs) g =
     (let block_num = block_at (curr_shape t) block_index;
          x_cor = to_x new_x block_num;
          y_cor = to_y y block_num
      in if x_cor \<le> fst (con t ! 0) then (False, draw_shape (curr_shape t) DoubleBuffer g)
         else let (v, g1) = read_buffer (offset x_cor y_cor) g
              in if v \<noteq> 0 then (False, draw_shape (curr_shape t) DoubleBuffer g1)
                 else clear_left_loop t new_x y bs g1)"

definition clear_left :: "tetris \<Rightarrow> gfx \<Rightarrow> bool \<times> gfx" where
  "clear_left t g =
     (let sh = curr_shape t; new_x = pos_x sh - BLOCK_SIZE; y = pos_y sh;
          g1 = clear_shape sh DoubleBuffer g
      in clear_left_loop t new_x y [0..<unat (num_blocks sh)] g1)"

primrec clear_right_loop :: "tetris \<Rightarrow> u32 \<Rightarrow> u32 \<Rightarrow> nat list \<Rightarrow> gfx \<Rightarrow> bool \<times> gfx" where
  "clear_right_loop t new_x y [] g = (True, draw_shape (curr_shape t) DoubleBuffer g)"
| "clear_right_loop t new_x y (block_index # bs) g =
     (let block_num = block_at (curr_shape t) block_index;
          x_cor = to_x new_x block_num;
          y_cor = to_y y block_num
      in if x_cor \<ge> fst (con t ! 1) then (False, draw_shape (curr_shape t) DoubleBuffer g)
         else let (v, g1) = read_buffer (offset x_cor y_cor) g
              in if v \<noteq> 0 then (False, draw_shape (curr_shape t) DoubleBuffer g1)
                 else clear_right_loop t new_x y bs g1)"

definition clear_right :: "tetris \<Rightarrow> gfx \<Rightarrow> bool \<times> gfx" where
  "clear_right t g =
     (let sh = curr_shape t; new_x = pos_x sh + BLOCK_SIZE; y = pos_y sh;
          g1 = clear_shape sh DoubleBuffer g
      in clear_right_loop t new_x y [0..<unat (num_blocks sh)] g1)"

primrec clear_down_loop :: "tetris \<Rightarrow> u32 \<Rightarrow> u32 \<Rightarrow> nat list \<Rightarrow> gfx \<Rightarrow> bool \<times> gfx" where
  "clear_down_loop t x new_y [] g = (True, draw_shape (curr_shape t) DoubleBuffer g)"
| "clear_down_loop t x new_y (block_index # bs) g =
     (let block_num = block_at (curr_shape t) block_index;
          x_cor = to_x x block_num;
          y_cor = to_y new_y block_num
      in if y_cor \<ge> snd (con t ! 2) then (False, draw_shape (curr_shape t) DoubleBuffer g)
         else let (v, g1) = read_buffer (offset x_cor y_cor) g
              in if v \<noteq> Black then (False, draw_shape (curr_shape t) DoubleBuffer g1)
                 else clear_down_loop t x new_y bs g1)"

definition clear_down :: "tetris \<Rightarrow> gfx \<Rightarrow> bool \<times> gfx" where
  "clear_down t g =
     (let sh = curr_shape t; x = pos_x sh; new_y = pos_y sh + BLOCK_SIZE;
          g1 = clear_shape sh DoubleBuffer g
      in clear_down_loop t x new_y [0..<unat (num_blocks sh)] g1)"

text \<open>
  \<open>clear_rotate\<close> turns the piece, blackens the turned cells, looks whether a turned block is out
  of bounds, turns three more times and redraws. It returns whether the piece is out of bounds.
\<close>

primrec out_bounds_loop :: "tetris \<Rightarrow> shape \<Rightarrow> nat list \<Rightarrow> bool" where
  "out_bounds_loop t sh [] = False"
| "out_bounds_loop t sh (index # bs) =
     (let new_x = to_x (pos_x sh) (block_at sh index);
          new_y = to_y (pos_y sh) (block_at sh index);
          out1 = new_x \<le> fst (con t ! 0) \<or> fst (con t ! 1) \<le> new_x;
          out2 = new_y \<le> snd (con t ! 0) \<or> snd (con t ! 2) \<le> new_y
      in if out1 \<or> out2 then True else out_bounds_loop t sh bs)"

definition clear_rotate :: "tetris \<Rightarrow> gfx \<Rightarrow> bool \<times> tetris \<times> gfx" where
  "clear_rotate t g =
     (let sh1 = rotate_templ (curr_shape t);
          g1 = clear_shape sh1 DoubleBuffer g;
          out_bounds = out_bounds_loop t sh1 [0..<unat (num_blocks sh1)];
          sh4 = (rotate_templ ^^ 3) sh1
      in (out_bounds, t\<lparr>curr_shape := sh4\<rparr>, draw_shape sh4 DoubleBuffer g1))"

subsection \<open>Moves\<close>

definition with_shape :: "(shape \<times> gfx \<Rightarrow> shape \<times> gfx) \<Rightarrow> tetris \<times> gfx \<Rightarrow> tetris \<times> gfx" where
  "with_shape f = (\<lambda>(t, g). let (sh, g1) = f (curr_shape t, g) in (t\<lparr>curr_shape := sh\<rparr>, g1))"

definition move_piece :: "u8 \<Rightarrow> tetris \<times> gfx \<Rightarrow> bool \<times> tetris \<times> gfx" where
  "move_piece m = (\<lambda>(t, g).
     if m = 0 then (False, t, g)
     else if m = LEFT then (True, with_shape (move_left DoubleBuffer) (t, g))
     else if m = DOWN then
       (let (ok, g1) = clear_down t g
        in if ok then (True, with_shape (move_down DoubleBuffer) (t, g1)) else (False, t, g1))
     else if m = RIGHT then (True, with_shape (move_right DoubleBuffer) (t, g))
     else if m = ROTATE then (True, with_shape (rotate_shape DoubleBuffer) (t, g))
     else (False, t, g))"

definition get_control :: "kbd \<Rightarrow> u8 \<times> kbd" where
  "get_control k = last_press k"

subsection \<open>The game loop\<close>

text \<open>Where the loop of \<open>play_game\<close> stands.\<close>

datatype loop_pc = At_test | At_drop | At_reset | At_input

record world =
  game :: tetris
  scr :: gfx
  kb :: kbd
  jiffies :: u32
  time_drop :: u32
  pc :: loop_pc

definition drop_piece :: "u32 \<Rightarrow> tetris \<times> gfx \<Rightarrow> tetris \<times> gfx" where
  "drop_piece now s =
     (let (moved_down, s1) = move_piece DOWN s
      in if \<not> moved_down then next_shape now s1 else s1)"

inductive game_step :: "font \<Rightarrow> psf \<Rightarrow> world \<Rightarrow> world \<Rightarrow> bool" for font p where
  tick: "game_step font p w (w\<lparr>jiffies := jiffies w + 1\<rparr>)"
| key: "handle_interrupt font p byte (kb w, scr w) = (k, g) \<Longrightarrow>
    game_step font p w (w\<lparr>kb := k, scr := g\<rparr>)"
| due: "pc w = At_test \<Longrightarrow> jiffies w \<ge> time_drop w \<Longrightarrow> game_step font p w (w\<lparr>pc := At_drop\<rparr>)"
| not_due: "pc w = At_test \<Longrightarrow> \<not> jiffies w \<ge> time_drop w \<Longrightarrow> game_step font p w (w\<lparr>pc := At_input\<rparr>)"
| drop: "pc w = At_drop \<Longrightarrow> drop_piece (jiffies w) (game w, scr w) = (t, g) \<Longrightarrow>
    game_step font p w (w\<lparr>game := t, scr := g, pc := At_reset\<rparr>)"
| reset: "pc w = At_reset \<Longrightarrow>
    game_step font p w (w\<lparr>time_drop := jiffies w + GT, pc := At_input\<rparr>)"
| input: "pc w = At_input \<Longrightarrow> get_control (kb w) = (c, k) \<Longrightarrow> move_piece c (game w, scr w) = (b, t, g) \<Longrightarrow>
    game_step font p w (w\<lparr>kb := k, game := t, scr := g, pc := At_test\<rparr>)"

inductive_cases game_stepE: "game_step font p w w'"

definition world_start :: "font \<Rightarrow> psf \<Rightarrow> (u32 \<Rightarrow> u8) \<Rightarrow> u32 \<Rightarrow> kbd \<times> gfx \<Rightarrow> world" where
  "world_start font p heap_bytes now s =
     (let (t, k, g) = Tetris_new font p heap_bytes now s
      in \<lparr>game = t, scr = g, kb = k, jiffies = now, time_drop = now + GT, pc = At_test\<rparr>)"

end
