(* ===== verification/TetrisGame.thy ===== *)
theory TetrisGame
  imports Tetris
begin

text \<open>
  The properties of the game of theory \<open>Tetris\<close>: what the collision test answers, the invariant of
  every reachable state, memory safety while the piece stays in the columns of the screen,
  landing, the exact effect of a drop and of spawning, and what the unchecked moves allow.
\<close>

subsection \<open>Rows and columns of a piece\<close>

lemma templates_reach_row_1:
  "list_all (\<lambda>P. list_all (\<lambda>k. list_ex (\<lambda>b. 1 \<le> unat b div 4) (P ! k)) [0..<4]) templates"
  by code_simp

lemma reaches_row_1:
  assumes "shape_ok sh"
  shows "\<exists>i < 4. 1 \<le> unat (block_at sh i) div 4"
proof -
  have "list_ex (\<lambda>b. 1 \<le> unat b div 4) (on_blocks sh ! unat (orientation sh))"
    using templates_reach_row_1 assms by (auto simp: list_all_iff shape_ok_def)
  then obtain b where b: "b \<in> set (on_blocks sh ! unat (orientation sh))" "1 \<le> unat b div 4"
    by (auto simp: list_ex_iff)
  have "length (on_blocks sh ! unat (orientation sh)) = 4"
    using assms templates_dims[of "on_blocks sh"] by (simp add: shape_ok_def)
  with b show ?thesis unfolding in_set_conv_nth block_at_def by metis
qed

definition rows_ok :: "shape \<Rightarrow> bool" where
  "rows_ok sh \<longleftrightarrow> 10 \<le> unat (pos_y sh) \<and> unat (pos_y sh) \<le> 182 \<and> unat (pos_y sh) mod 4 = 2"

lemma rows_ok_within: "shape_ok sh \<Longrightarrow> rows_ok sh \<Longrightarrow> within_rows 200 sh"
proof -
  assume ok: "shape_ok sh" "rows_ok sh"
  have "unat (Shape_to_y sh (block_at sh i)) + 4 \<le> 200" if "i < 4" for i
  proof -
    have "unat (block_at sh i) div 4 < 4" using block_lt_16[OF ok(1) that] by linarith
    with block_lt_16[OF ok(1) that] ok(2) show ?thesis
      by (simp add: Shape_to_y_def unat_to_y rows_ok_def)
  qed
  then show ?thesis by (simp add: within_rows_def)
qed

lemma unat_pos_down: "rows_ok sh \<Longrightarrow> unat (pos_y sh + 4) = unat (pos_y sh) + 4"
  using unat_add_of_nat[of "pos_y sh" 4] by (simp add: rows_ok_def)

text \<open>The piece may fall when every block stays above the floor and its new corner pixel is free.\<close>

definition free_below :: "tetris \<Rightarrow> gfx \<Rightarrow> bool" where
  "free_below t g \<longleftrightarrow> list_all (\<lambda>i.
     let sh = curr_shape t;
         y_cor = to_y (pos_y sh + 4) (block_at sh i);
         a = offset (to_x (pos_x sh) (block_at sh i)) y_cor
     in y_cor < snd (con t ! 2) \<and> (a \<in> cells sh \<or> dbuf g a = Black)) [0..<4]"

definition corners :: "(u32 \<times> u32) list" where
  "corners = [(179, 9), (300, 9), (300, 190), (179, 190)]"

definition piece_ok :: "tetris \<Rightarrow> gfx \<Rightarrow> bool" where
  "piece_ok t g \<longleftrightarrow> shape_ok (curr_shape t) \<and> rows_ok (curr_shape t) \<and> con t = corners
     \<and> init_x t = 240 \<and> init_y t = 10 \<and> drawn DoubleBuffer (curr_shape t) g"

lemma piece_okD:
  "piece_ok t g \<Longrightarrow> shape_ok (curr_shape t)" "piece_ok t g \<Longrightarrow> rows_ok (curr_shape t)"
  "piece_ok t g \<Longrightarrow> con t = corners" "piece_ok t g \<Longrightarrow> drawn DoubleBuffer (curr_shape t) g"
  by (simp_all add: piece_ok_def)

lemma clear_down_loop_result:
  "fst (clear_down_loop t x ny bs g) = list_all (\<lambda>i.
      to_y ny (block_at (curr_shape t) i) < snd (con t ! 2)
      \<and> dbuf g (offset (to_x x (block_at (curr_shape t) i)) (to_y ny (block_at (curr_shape t) i))) = Black) bs"
  by (induction bs arbitrary: g) (auto simp: Let_def read_buffer_def not_le)

lemma draw_fault_flag: "frame b (draw_shape sh d (g\<lparr>fault := f\<rparr>)) a = frame b (draw_shape sh d g) a"
  unfolding frame_draw_shape by (cases b) (simp_all add: frame_def)

lemma clear_down_loop_frame:
  "frame b (snd (clear_down_loop t x ny bs g)) a = frame b (draw_shape (curr_shape t) DoubleBuffer g) a"
  by (induction bs arbitrary: g) (auto simp: Let_def read_buffer_def draw_fault_flag)

lemma clear_down_loop_fault:
  assumes "\<And>i. i \<in> set bs \<Longrightarrow> to_y ny (block_at (curr_shape t) i) < snd (con t ! 2) \<Longrightarrow>
      in_frame (offset (to_x x (block_at (curr_shape t) i)) (to_y ny (block_at (curr_shape t) i)))"
  shows "fault (snd (clear_down_loop t x ny bs g)) = fault (draw_shape (curr_shape t) DoubleBuffer g)"
  using assms by (induction bs arbitrary: g) (auto simp: Let_def read_buffer_def not_le)

lemma frame_clear_draw:
  "frame b (draw_shape sh d (clear_shape sh d g)) a =
     (if (b = d \<or> b = Nullptr) \<and> a \<in> cells sh \<and> in_frame a then color sh else frame b g a)"
  by (auto simp: shape_effects)

lemma clear_down_frames:
  assumes "drawn DoubleBuffer (curr_shape t) g"
  shows "dbuf (snd (clear_down t g)) = dbuf g"
    and "vga (snd (clear_down t g)) a = (if a \<in> cells (curr_shape t) \<and> in_frame a then color (curr_shape t) else vga g a)"
proof -
  have "frame DoubleBuffer (snd (clear_down t g)) = frame DoubleBuffer g"
    using assms by (auto simp: clear_down_def Let_def clear_down_loop_frame frame_clear_draw drawn_def)
  then show "dbuf (snd (clear_down t g)) = dbuf g" by (simp add: frame_def)
  have "frame Nullptr (snd (clear_down t g)) a = (if a \<in> cells (curr_shape t) \<and> in_frame a then color (curr_shape t) else frame Nullptr g a)"
    by (simp add: clear_down_def Let_def clear_down_loop_frame frame_clear_draw)
  then show "vga (snd (clear_down t g)) a = (if a \<in> cells (curr_shape t) \<and> in_frame a then color (curr_shape t) else vga g a)"
    by (simp add: frame_def)
qed

lemma below_in_frame:
  assumes "shape_ok sh" "rows_ok sh" "unat (pos_x sh) < 304" "i < 4"
    and "to_y (pos_y sh + 4) (block_at sh i) < 190"
  shows "in_frame (offset (to_x (pos_x sh) (block_at sh i)) (to_y (pos_y sh + 4) (block_at sh i)))"
proof -
  have "unat (block_at sh i) mod 4 < 4" by simp
  then have "unat (to_x (pos_x sh) (block_at sh i)) < 320"
    using assms(3) by (subst unat_to_x) auto
  moreover have "unat (to_y (pos_y sh + 4) (block_at sh i)) < 200"
    using assms(5) by (simp add: word_less_nat_alt)
  ultimately show ?thesis by (intro on_screen_in_frame) (simp add: on_screen_nat)
qed

lemma clear_down_result:
  assumes "shape_ok (curr_shape t)" "rows_ok (curr_shape t)" "con t = corners" "unat (pos_x (curr_shape t)) < 304"
  shows "fst (clear_down t g) = free_below t g"
proof -
  let ?sh = "curr_shape t"
  have d: "dbuf (clear_shape ?sh DoubleBuffer g) a = (if a \<in> cells ?sh \<and> in_frame a then Black else dbuf g a)" for a
    using frame_clear_shape[of DoubleBuffer ?sh DoubleBuffer g a] by (simp add: frame_def)
  show ?thesis
    using below_in_frame[OF assms(1,2,4)] assms(1,3)
    unfolding clear_down_def free_below_def Let_def clear_down_loop_result d
    by (auto simp: list_all_iff BLOCK_SIZE_def corners_def shape_ok_def)
qed

lemma clear_down_fault:
  assumes "shape_ok (curr_shape t)" "rows_ok (curr_shape t)" "con t = corners" "unat (pos_x (curr_shape t)) < 304"
  shows "fault (snd (clear_down t g)) = fault g"
proof -
  let ?sh = "curr_shape t"
  have "fault (snd (clear_down t g)) = fault (draw_shape ?sh DoubleBuffer (clear_shape ?sh DoubleBuffer g))"
    unfolding clear_down_def Let_def
    using below_in_frame[OF assms(1,2,4)] assms(1,3)
    by (intro clear_down_loop_fault) (auto simp: BLOCK_SIZE_def corners_def shape_ok_def)
  also have "\<dots> = fault g"
    using cells_in_frame[OF assms(1) rows_ok_within[OF assms(1,2)]] assms(4) by (auto simp: shape_effects)
  finally show ?thesis .
qed

text \<open>
  C37. The collision test for falling is exact and has no side effect on the game: in the columns of
  the screen it answers whether every block's corner pixel one step below is above the floor and
  free (own cells aside), restores the double buffer, and only repaints the piece on the screen.
\<close>

theorem clear_down_exact:
  assumes "piece_ok t g" "unat (pos_x (curr_shape t)) < 304"
  shows "fst (clear_down t g) = free_below t g
    \<and> dbuf (snd (clear_down t g)) = dbuf g
    \<and> vga (snd (clear_down t g)) a
        = (if a \<in> cells (curr_shape t) \<and> in_frame a then color (curr_shape t) else vga g a)
    \<and> fault (snd (clear_down t g)) = fault g"
  by (intro conjI clear_down_result clear_down_fault clear_down_frames piece_okD[OF assms(1)] assms(2))

subsection \<open>The invariant of the game\<close>

lemma shape_ok_pos [simp]:
  "shape_ok (sh\<lparr>pos_x := x\<rparr>) = shape_ok sh" "shape_ok (sh\<lparr>pos_y := y\<rparr>) = shape_ok sh"
  "rows_ok (sh\<lparr>pos_x := x\<rparr>) = rows_ok sh" "rows_ok (rotate_templ sh) = rows_ok sh"
  by (simp_all add: shape_ok_def rows_ok_def rotate_templ_fields)

lemma moved_down_rows:
  assumes "shape_ok (curr_shape t)" "rows_ok (curr_shape t)" "con t = corners" "fst (clear_down t g)"
  shows "rows_ok ((curr_shape t)\<lparr>pos_y := pos_y (curr_shape t) + 4\<rparr>)"
proof -
  let ?sh = "curr_shape t"
  obtain i where i: "i < 4" "1 \<le> unat (block_at ?sh i) div 4" using reaches_row_1[OF assms(1)] by auto
  have "to_y (pos_y ?sh + 4) (block_at ?sh i) < 190"
    using assms(4) i(1) assms(1,3) unfolding clear_down_def Let_def clear_down_loop_result
    by (auto simp: list_all_iff BLOCK_SIZE_def corners_def shape_ok_def)
  moreover have "unat (to_y (pos_y ?sh + 4) (block_at ?sh i)) = unat (pos_y ?sh) + 4 + 4 * (unat (block_at ?sh i) div 4)"
    using assms(2) block_lt_16[OF assms(1) i(1)]
    by (subst unat_to_y) (auto simp: unat_pos_down rows_ok_def)
  ultimately have "unat (pos_y ?sh) + 4 + 4 * (unat (block_at ?sh i) div 4) < 190"
    by (simp add: word_less_nat_alt)
  then have "unat (pos_y ?sh) < 182" using i(2) by linarith
  moreover from this assms(2) have "unat (pos_y ?sh) + 4 \<le> 182" unfolding rows_ok_def by presburger
  ultimately show ?thesis
    using assms(2) unat_pos_down[OF assms(2)] by (simp add: rows_ok_def mod_simps)
qed

lemma next_shape_eq:
  assumes "init_x t = 240" "init_y t = 10"
  shows "\<exists>P \<in> set templates. \<exists>ty.
     curr_shape (fst (next_shape now (t, g))) = (Shape_new_jiffies now ty 0 4 240 10)\<lparr>on_blocks := P\<rparr>"
  using assms unfolding next_shape_def Let_def prod.case
  by (auto simp: case_prod_beta constructors templates_def)

lemma next_shape_scr:
  "snd (next_shape now (t, g)) = draw_shape (curr_shape (fst (next_shape now (t, g)))) DoubleBuffer g"
  by (simp add: next_shape_def Let_def case_prod_beta)

lemma next_shape_fields [simp]:
  "con (fst (next_shape now (t, g))) = con t" "init_x (fst (next_shape now (t, g))) = init_x t"
  "init_y (fst (next_shape now (t, g))) = init_y t"
  by (simp_all add: next_shape_def Let_def case_prod_beta)

lemma spawn_ok:
  "P \<in> set templates \<Longrightarrow> rows_ok ((Shape_new_jiffies now ty 0 4 240 10)\<lparr>on_blocks := P\<rparr>)"
  by (simp add: rows_ok_def Shape_new_jiffies_def Shape_new_def)

lemma next_shape_ok:
  assumes "con t = corners" "init_x t = 240" "init_y t = 10"
  shows "piece_ok (fst (next_shape now (t, g))) (snd (next_shape now (t, g)))"
proof -
  obtain P ty where "P \<in> set templates"
    "curr_shape (fst (next_shape now (t, g))) = (Shape_new_jiffies now ty 0 4 240 10)\<lparr>on_blocks := P\<rparr>"
    using next_shape_eq[OF assms(2,3)] by metis
  then have "shape_ok (curr_shape (fst (next_shape now (t, g))))" "rows_ok (curr_shape (fst (next_shape now (t, g))))"
    by (auto intro: new_shape_ok spawn_ok)
  then show ?thesis using assms by (simp add: piece_ok_def next_shape_scr drawn_draw_shape)
qed

lemma with_shape_apply:
  "with_shape f (t, g) = (t\<lparr>curr_shape := fst (f (curr_shape t, g))\<rparr>, snd (f (curr_shape t, g)))"
  by (simp add: with_shape_def case_prod_beta Let_def)

lemma move_shapes:
  "fst (move_left b (sh, g)) = sh\<lparr>pos_x := pos_x sh - 4\<rparr>"
  "fst (move_right b (sh, g)) = sh\<lparr>pos_x := pos_x sh + 4\<rparr>"
  "fst (move_down b (sh, g)) = sh\<lparr>pos_y := pos_y sh + 4\<rparr>"
  "fst (rotate_shape b (sh, g)) = rotate_templ sh"
  by (simp_all add: move_left_def move_right_def move_down_def rotate_shape_def Let_def BLOCK_SIZE_def)

lemma move_drawn:
  "drawn DoubleBuffer (fst (move_left DoubleBuffer s)) (snd (move_left DoubleBuffer s))"
  "drawn DoubleBuffer (fst (move_right DoubleBuffer s)) (snd (move_right DoubleBuffer s))"
  "drawn DoubleBuffer (fst (move_down DoubleBuffer s)) (snd (move_down DoubleBuffer s))"
  "drawn DoubleBuffer (fst (rotate_shape DoubleBuffer s)) (snd (rotate_shape DoubleBuffer s))"
  by (simp_all add: move_left_def move_right_def move_down_def rotate_shape_def Let_def case_prod_beta
      drawn_draw_shape)

lemma move_cases:
  obtains "m = LEFT" | "m = DOWN" | "m = RIGHT" | "m = ROTATE"
  | "m \<noteq> LEFT" "m \<noteq> DOWN" "m \<noteq> RIGHT" "m \<noteq> ROTATE"
  by blast

lemma move_piece_simps:
  "move_piece LEFT (t, g) = (True, with_shape (move_left DoubleBuffer) (t, g))"
  "move_piece RIGHT (t, g) = (True, with_shape (move_right DoubleBuffer) (t, g))"
  "move_piece ROTATE (t, g) = (True, with_shape (rotate_shape DoubleBuffer) (t, g))"
  "move_piece DOWN (t, g) = (if fst (clear_down t g)
     then (True, with_shape (move_down DoubleBuffer) (t, snd (clear_down t g)))
     else (False, t, snd (clear_down t g)))"
  "m \<noteq> LEFT \<Longrightarrow> m \<noteq> DOWN \<Longrightarrow> m \<noteq> RIGHT \<Longrightarrow> m \<noteq> ROTATE \<Longrightarrow> move_piece m (t, g) = (False, t, g)"
  by (simp_all add: move_piece_def c_defs case_prod_beta Let_def)

lemma drawn_dbuf: "dbuf g = dbuf g' \<Longrightarrow> drawn DoubleBuffer sh g = drawn DoubleBuffer sh g'"
  by (simp add: drawn_def frame_def)

lemma piece_ok_dbuf: "dbuf g = dbuf g' \<Longrightarrow> piece_ok t g = piece_ok t g'"
  using drawn_dbuf[of g g' "curr_shape t"] by (simp add: piece_ok_def)

lemma with_shape_ok:
  assumes "piece_ok t g" "drawn DoubleBuffer (fst (f (curr_shape t, h))) (snd (f (curr_shape t, h)))"
    and "shape_ok (fst (f (curr_shape t, h)))" "rows_ok (fst (f (curr_shape t, h)))"
  shows "piece_ok (fst (with_shape f (t, h))) (snd (with_shape f (t, h)))"
  using assms by (simp add: with_shape_apply piece_ok_def)

lemma move_piece_ok:
  assumes "piece_ok t g"
  shows "piece_ok (fst (snd (move_piece m (t, g)))) (snd (snd (move_piece m (t, g))))"
proof -
  note ok = piece_okD[OF assms]
  have down: "piece_ok t (snd (clear_down t g))"
    using assms piece_ok_dbuf[OF clear_down_frames(1)[OF ok(4)]] by simp
  show ?thesis
  proof (cases m rule: move_cases)
    case 1
    show ?thesis
      unfolding 1 move_piece_simps snd_conv
      by (rule with_shape_ok[OF assms move_drawn(1)]) (simp_all add: move_shapes ok)
  next
    case 2
    show ?thesis
    proof (cases "fst (clear_down t g)")
      case True
      have "piece_ok (fst (with_shape (move_down DoubleBuffer) (t, snd (clear_down t g))))
          (snd (with_shape (move_down DoubleBuffer) (t, snd (clear_down t g))))"
        by (rule with_shape_ok[OF assms move_drawn(3)])
          (simp_all add: move_shapes ok moved_down_rows[OF ok(1,2,3) True])
      with True show ?thesis unfolding 2 move_piece_simps by simp
    next
      case False
      with down show ?thesis unfolding 2 move_piece_simps by simp
    qed
  next
    case 3
    show ?thesis
      unfolding 3 move_piece_simps snd_conv
      by (rule with_shape_ok[OF assms move_drawn(2)]) (simp_all add: move_shapes ok)
  next
    case 4
    show ?thesis
      unfolding 4 move_piece_simps snd_conv
      by (rule with_shape_ok[OF assms move_drawn(4)]) (simp_all add: move_shapes ok shape_ok_rotate)
  next
    case 5
    with assms show ?thesis by (simp add: move_piece_simps)
  qed
qed

lemma drop_piece_ok:
  assumes "piece_ok t g"
  shows "piece_ok (fst (drop_piece now (t, g))) (snd (drop_piece now (t, g)))"
proof -
  obtain b t1 g1 where m: "move_piece DOWN (t, g) = (b, t1, g1)" by (metis surj_pair)
  have ok: "piece_ok t1 g1" using move_piece_ok[OF assms, of DOWN] by (simp add: m)
  then have "con t1 = corners" "init_x t1 = 240" "init_y t1 = 10" by (simp_all add: piece_ok_def)
  from next_shape_ok[OF this] ok show ?thesis by (simp add: drop_piece_def m)
qed

lemma put_string_loop_dbuf: "dbuf (put_string_loop font p str cx0 cx cy fg bg Nullptr s) = dbuf s"
  by (induction str arbitrary: cx cy s) (simp_all add: put_char_dbuf)

lemma display_dbuf: "dbuf (display_str font p str cx cy k s) = dbuf s" "dbuf (display_ascii font p a cx cy k s) = dbuf s"
  by (simp_all add: display_str_def put_string_colors_def put_string_def put_string_loop_dbuf
      display_ascii_def put_char_colors_def put_char_dbuf)

lemma handler_dbuf: "dbuf (snd (handle_interrupt font p byte (k, g))) = dbuf g"
  by (simp add: handler_draws_eq draw_release_def draw_modifier_def draw_caps_def draw_typed_def display_dbuf)

lemma handler_wf: "kb_wf k \<Longrightarrow> kb_wf (fst (handle_interrupt font p byte (k, g)))"
proof -
  assume wf: "kb_wf k"
  have "length (kb_list k) < BUFF_LEN" by (simp add: length_kb_list BUFF_LEN_def)
  then consider "length (kb_list k) < 127" | "length (kb_list k) = 127" by (force simp: BUFF_LEN_def)
  then show ?thesis
  proof cases
    case 1
    then show ?thesis by (rule handle_interrupt_list(1)[OF wf])
  next
    case 2
    show ?thesis
    proof (cases "typed byte k = 0")
      case True
      with wf show ?thesis by (simp add: handle_interrupt_state)
    next
      case False
      from full_ring_empty[OF wf 2] False wf ring_next_lt[of "head k"] show ?thesis
        by (simp add: handle_interrupt_state kb_wf_def) (simp add: enqueue_def)
    qed
  qed
qed

definition world_ok :: "world \<Rightarrow> bool" where
  "world_ok w \<longleftrightarrow> piece_ok (game w) (scr w) \<and> kb_wf (kb w)"

lemma game_step_ok:
  assumes "game_step font p w w'" "world_ok w"
  shows "world_ok w'"
  using assms(1)
proof (cases rule: game_step.cases)
  case tick
  with assms(2) show ?thesis by (simp add: world_ok_def)
next
  case (key byte k g)
  have "piece_ok (game w) g = piece_ok (game w) (scr w)"
    by (rule piece_ok_dbuf) (use key(2) handler_dbuf[of font p byte "kb w" "scr w"] in simp)
  with key assms(2) handler_wf[of "kb w" font p byte "scr w"] show ?thesis by (simp add: world_ok_def)
next
  case due
  with assms(2) show ?thesis by (simp add: world_ok_def)
next
  case not_due
  with assms(2) show ?thesis by (simp add: world_ok_def)
next
  case (drop t g)
  with assms(2) drop_piece_ok[of "game w" "scr w" "jiffies w"] show ?thesis by (simp add: world_ok_def)
next
  case reset
  with assms(2) show ?thesis by (simp add: world_ok_def)
next
  case (input c k b t g)
  have "kb_wf k" using input(3) last_press_wf[of "kb w"] assms(2) by (simp add: get_control_def world_ok_def)
  with input assms(2) move_piece_ok[of "game w" "scr w" c] show ?thesis by (simp add: world_ok_def)
qed

lemma draw_walls_dbuf: "dbuf (draw_walls cs g) = dbuf g"
proof -
  have line: "dbuf (draw_line x1 y1 x2 y2 c Nullptr s) = dbuf s" for x1 y1 x2 y2 c s
  proof -
    have "frame DoubleBuffer (draw_line x1 y1 x2 y2 c Nullptr s) = frame DoubleBuffer s"
      by (rule ext) (simp add: draw_line_paints frame_paint)
    then show ?thesis by (simp add: frame_def)
  qed
  show ?thesis
    unfolding draw_walls_def Let_def
    by (simp add: fold_const_field[where h = dbuf] line)
qed

lemma toggle_display_wf: "kb_wf k \<Longrightarrow> kb_wf (fst (toggle_display font p b (k, g)))"
  by (simp add: toggle_display_def Let_def kb_wf_def kb_list_def)

lemma world_start_ok:
  assumes "kb_wf (fst s)"
  shows "world_ok (world_start font p heap_bytes now s)"
proof -
  obtain k g where s: "s = (k, g)" by (metis surj_pair)
  obtain k1 g1 where tog: "toggle_display font p Nullptr (k, g\<lparr>dbuf := heap_bytes\<rparr>) = (k1, g1)" by (metis surj_pair)
  let ?sh = "IShape now 240 10 11"
  have "shape_ok ?sh" by (rule constructors_ok)
  moreover have "rows_ok ?sh" unfolding constructors by (rule spawn_ok) (simp add: templates_def)
  moreover have "drawn DoubleBuffer ?sh (draw_walls corners (draw_shape ?sh DoubleBuffer g1))"
    using drawn_dbuf[OF draw_walls_dbuf, of ?sh corners] drawn_draw_shape[of DoubleBuffer DoubleBuffer ?sh g1] by simp
  moreover have "kb_wf k1" using toggle_display_wf[of k font p Nullptr] assms tog by (metis fst_conv s)
  ultimately show ?thesis
    by (simp add: world_ok_def world_start_def Tetris_new_def Let_def s tog piece_ok_def flip: corners_def)
qed


definition demo_world :: world where
  "demo_world = world_start (\<lambda>_. 0) demo_psf (\<lambda>_. 0) 7 (kbd_initial, blank)"

lemma demo_world_ok:
  "piece_ok (game demo_world) (scr demo_world)" "unat (pos_x (curr_shape (game demo_world))) < 304"
  "curr_shape (game demo_world) = (Shape_new_jiffies 7 Ty_SQUARE 0 4 240 10)\<lparr>on_blocks := I_P\<rparr>"
proof -
  show "piece_ok (game demo_world) (scr demo_world)"
    using world_start_ok[of "(kbd_initial, blank)"] kbd_initial_wf(1) by (simp add: world_ok_def demo_world_def)
  show sh: "curr_shape (game demo_world) = (Shape_new_jiffies 7 Ty_SQUARE 0 4 240 10)\<lparr>on_blocks := I_P\<rparr>"
    by (simp add: demo_world_def world_start_def Tetris_new_def case_prod_beta Let_def constructors)
  show "unat (pos_x (curr_shape (game demo_world))) < 304"
    unfolding sh by (simp add: Shape_new_jiffies_def Shape_new_def)
qed

theorem clear_down_exact_witness:
  "dbuf (snd (clear_down (game demo_world) (scr demo_world))) = dbuf (scr demo_world)"
  using clear_down_exact[OF demo_world_ok(1,2)] by simp


subsection \<open>Memory safety inside the columns of the screen\<close>

definition in_columns :: "world \<Rightarrow> bool" where
  "in_columns w \<longleftrightarrow> unat (pos_x (curr_shape (game w))) < 304"

lemma piece_cells_in_frame:
  "shape_ok sh \<Longrightarrow> rows_ok sh \<Longrightarrow> unat (pos_x sh) < 304 \<Longrightarrow> \<forall>a \<in> cells sh. in_frame a"
  using cells_in_frame[OF _ rows_ok_within] by auto

lemma redraw_fault:
  assumes "\<forall>a \<in> cells sh. in_frame a" "\<forall>a \<in> cells sh1. in_frame a"
  shows "fault (draw_shape sh1 b (clear_shape sh b g)) = fault g"
  using assms by (auto simp: shape_effects)

lemma move_scr:
  "snd (move_left b (sh, g)) = draw_shape (fst (move_left b (sh, g))) b (clear_shape sh b g)"
  "snd (move_right b (sh, g)) = draw_shape (fst (move_right b (sh, g))) b (clear_shape sh b g)"
  "snd (move_down b (sh, g)) = draw_shape (fst (move_down b (sh, g))) b (clear_shape sh b g)"
  "snd (rotate_shape b (sh, g)) = draw_shape (fst (rotate_shape b (sh, g))) b (clear_shape sh b g)"
  by (simp_all add: move_left_def move_right_def move_down_def rotate_shape_def Let_def)

lemma move_piece_fault:
  assumes "piece_ok t g" "unat (pos_x (curr_shape t)) < 304"
    and "unat (pos_x (curr_shape (fst (snd (move_piece m (t, g)))))) < 304"
  shows "fault (snd (snd (move_piece m (t, g)))) = fault g"
proof -
  note ok = piece_okD[OF assms(1)]
  let ?sh = "curr_shape t" and ?t' = "fst (snd (move_piece m (t, g)))"
  have ok': "shape_ok (curr_shape ?t')" "rows_ok (curr_shape ?t')"
    using piece_okD[OF move_piece_ok[OF assms(1)]] by auto
  have cells: "\<forall>a \<in> cells ?sh. in_frame a" "\<forall>a \<in> cells (curr_shape ?t'). in_frame a"
    by (intro piece_cells_in_frame ok ok' assms(2,3))+
  note down = clear_down_fault[OF ok(1,2,3) assms(2), of g]
  show ?thesis
  proof (cases m rule: move_cases)
    case 2
    with cells down redraw_fault show ?thesis
      by (cases "fst (clear_down t g)") (simp_all add: move_piece_simps with_shape_apply move_scr)
  qed (use cells redraw_fault in \<open>simp_all add: move_piece_simps with_shape_apply move_scr\<close>)
qed

lemma drop_piece_fault:
  assumes "piece_ok t g" "unat (pos_x (curr_shape t)) < 304"
    and "unat (pos_x (curr_shape (fst (drop_piece now (t, g))))) < 304"
  shows "fault (snd (drop_piece now (t, g))) = fault g"
proof -
  obtain b t1 g1 where m: "move_piece DOWN (t, g) = (b, t1, g1)" by (metis surj_pair)
  have ok: "piece_ok t1 g1" using move_piece_ok[OF assms(1), of DOWN] by (simp add: m)
  have "unat (pos_x (curr_shape t1)) < 304"
    using m assms(2) by (auto simp: move_piece_simps with_shape_apply move_shapes split: if_splits)
  then have g1: "fault g1 = fault g" using move_piece_fault[OF assms(1,2), of DOWN] by (simp add: m)
  show ?thesis
  proof (cases b)
    case True
    with g1 show ?thesis by (simp add: drop_piece_def m)
  next
    case False
    let ?t2 = "fst (next_shape now (t1, g1))"
    have "piece_ok ?t2 (snd (next_shape now (t1, g1)))" using ok by (intro next_shape_ok) (simp_all add: piece_ok_def)
    then have "\<forall>a \<in> cells (curr_shape ?t2). in_frame a"
      using assms(3) False by (intro piece_cells_in_frame) (simp_all add: drop_piece_def m piece_ok_def)
    with g1 False show ?thesis by (auto simp: drop_piece_def m next_shape_scr fault_draw_shape)
  qed
qed

lemma game_step_fault:
  assumes "game_step font p w w'" "world_ok w" "in_columns w" "in_columns w'" "fits p 19 5"
  shows "fault (scr w') = fault (scr w)"
  using assms(1)
proof (cases rule: game_step.cases)
  case (key byte k g)
  then show ?thesis
    using handler_draws_left[OF assms(5), of font byte "kb w"]
    by (auto simp: touches_left_def dest!: spec[of _ "scr w"])
next
  case (drop t g)
  then show ?thesis
    using drop_piece_fault[of "game w" "scr w" "jiffies w"] assms(2-4)
    by (simp add: world_ok_def in_columns_def)
next
  case (input c k b t g)
  then show ?thesis
    using move_piece_fault[of "game w" "scr w" c] assms(2-4)
    by (simp add: world_ok_def in_columns_def)
qed simp_all

lemma draw_walls_fault: "fault (draw_walls corners g) = fault g"
proof -
  have "[0..<4] = [0, 1, 2, 3 :: nat]" by (simp add: upt_rec)
  then show ?thesis
    unfolding draw_walls_def Let_def corners_def by (simp add: draw_line_fault on_screen_nat)
qed

lemma banner_fault:
  assumes "fits p 19 5" "\<not> display k"
  shows "fault (snd (toggle_display font p Nullptr (k, g))) = fault g"
proof -
  have "fault (put_string font p str 2 cy White Black Nullptr s) = fault s"
    if "length str \<le> 15" "unat cy \<le> 5" "CHR 0x0A \<notin> set str" for str cy s
  proof -
    have "unat (2 + of_nat (length str) :: u32) = 2 + length str"
      using that(1) unat_add_of_nat[of 2 "length str"] by simp
    then have "fits p (2 + of_nat (length str)) cy" using that fits_left[OF assms(1)] by simp
    then have "touches_left 320 (put_string_loop font p str 2 2 cy White Black Nullptr)"
      using that by (intro touches_left_string) auto
    then show ?thesis by (simp add: touches_left_def put_string_def)
  qed
  with assms(2) show ?thesis by (simp add: toggle_display_def Let_def)
qed

lemma world_start_columns: "in_columns (world_start font p heap_bytes now s)"
  by (simp add: in_columns_def world_start_def Tetris_new_def case_prod_beta Let_def constructors
      Shape_new_jiffies_def Shape_new_def)

lemma world_start_fault:
  assumes "fits p 19 5" "\<not> display k"
  shows "fault (scr (world_start font p heap_bytes now (k, g))) = fault g"
proof -
  let ?sh = "IShape now 240 10 11"
  have "shape_ok ?sh" by (rule constructors_ok)
  moreover have "rows_ok ?sh" unfolding constructors by (rule spawn_ok) (simp add: templates_def)
  moreover have "unat (pos_x ?sh) < 304"
    by (simp add: constructors Shape_new_jiffies_def Shape_new_def)
  ultimately have "\<forall>a \<in> cells ?sh. in_frame a" by (rule piece_cells_in_frame)
  then have "fault (draw_walls corners (draw_shape ?sh DoubleBuffer h)) = fault h" for h
    by (auto simp: draw_walls_fault fault_draw_shape)
  then show ?thesis
    using banner_fault[OF assms, of font "g\<lparr>dbuf := heap_bytes\<rparr>"]
    by (simp add: world_start_def Tetris_new_def Let_def case_prod_beta flip: corners_def)
qed

text \<open>
  C2. As long as the player keeps the piece's grid left of pixel column 304, the game never accesses
  memory outside the two frames, from its construction on, whatever keys and ticks arrive.
\<close>

theorem no_fault_in_columns:
  assumes "kb_wf k" "\<not> display k" "\<not> fault g" "fits p 19 5"
    and "(\<lambda>w w'. game_step font p w w' \<and> in_columns w')\<^sup>*\<^sup>* (world_start font p heap_bytes now (k, g)) w"
  shows "\<not> fault (scr w)"
proof -
  from assms(5) have "world_ok w \<and> in_columns w \<and> \<not> fault (scr w)"
  proof induction
    case base
    show ?case
      using world_start_ok[of "(k, g)"] world_start_columns world_start_fault[OF assms(4,2)] assms(1,3) by simp
  next
    case (step v w)
    then show ?case using game_step_ok game_step_fault[OF _ _ _ _ assms(4)] by blast
  qed
  then show ?thesis by blast
qed

theorem no_fault_in_columns_witness:
  "\<not> fault (scr (demo_world\<lparr>jiffies := 8\<rparr>))"
proof -
  let ?w = "world_start (\<lambda>_. 0) demo_psf (\<lambda>_. 0) 7 (kbd_initial, blank)"
  let ?R = "\<lambda>w w'. game_step (\<lambda>_. 0) demo_psf w w' \<and> in_columns w'"
  have j: "jiffies ?w = 7" by (simp add: world_start_def case_prod_beta)
  have "?R ?w (?w\<lparr>jiffies := jiffies ?w + 1\<rparr>)"
    using world_start_columns by (auto simp: in_columns_def intro: tick)
  then have "?R\<^sup>*\<^sup>* ?w (?w\<lparr>jiffies := 8\<rparr>)" by (simp add: j r_into_rtranclp)
  moreover have "fits demo_psf 19 5" by (simp add: fits_def demo_psf_def psf_init_def Let_def)
  moreover have "\<not> display kbd_initial" "\<not> fault blank" by (simp_all add: kbd_initial_def blank_def)
  ultimately show ?thesis unfolding demo_world_def by (intro no_fault_in_columns[OF kbd_initial_wf(1)])
qed

subsection \<open>Landing\<close>

lemma fall_rows:
  assumes "piece_ok t g" "fst (move_piece DOWN (t, g))"
  shows "unat (pos_y (curr_shape (fst (snd (move_piece DOWN (t, g)))))) = unat (pos_y (curr_shape t)) + 4"
  using assms(2) unat_pos_down[OF piece_okD(2)[OF assms(1)]]
  by (auto simp: move_piece_simps with_shape_apply move_shapes split: if_splits)

definition falls :: "nat \<Rightarrow> tetris \<times> gfx \<Rightarrow> tetris \<times> gfx" where
  "falls n = ((\<lambda>s. snd (move_piece DOWN s)) ^^ n)"

lemma falls_ok: "piece_ok t g \<Longrightarrow> piece_ok (fst (falls n (t, g))) (snd (falls n (t, g)))"
proof (induction n)
  case (Suc n)
  then show ?case
    using move_piece_ok[of "fst (falls n (t, g))" "snd (falls n (t, g))" DOWN] by (simp add: falls_def)
qed (simp add: falls_def)

lemma falls_rows:
  assumes "piece_ok t g" "\<forall>m < n. fst (move_piece DOWN (falls m (t, g)))"
  shows "unat (pos_y (curr_shape (fst (falls n (t, g))))) = unat (pos_y (curr_shape t)) + 4 * n"
  using assms(2)
proof (induction n)
  case (Suc n)
  have "fst (move_piece DOWN (fst (falls n (t, g)), snd (falls n (t, g))))" using Suc.prems by simp
  from fall_rows[OF falls_ok[OF assms(1)] this] Suc show ?case by (simp add: falls_def)
qed (simp add: falls_def)

text \<open>
  C3. Falling ends: in any state of the game, at most 43 consecutive falls are accepted before the
  piece lands.
\<close>

theorem piece_lands:
  assumes "piece_ok t g"
  shows "\<exists>n \<le> 43. \<not> fst (move_piece DOWN (falls n (t, g)))"
proof (rule ccontr)
  assume "\<not> ?thesis"
  then have "\<forall>m < 44. fst (move_piece DOWN (falls m (t, g)))" by (auto simp: less_Suc_eq_le numeral_eq_Suc)
  from falls_rows[OF assms this] piece_okD(2)[OF assms] piece_okD(2)[OF falls_ok[OF assms, of 44]]
  show False by (simp add: rows_ok_def)
qed

theorem piece_lands_witness:
  "\<exists>n \<le> 43. \<not> fst (move_piece DOWN (falls n (game demo_world, scr demo_world)))"
  by (rule piece_lands[OF demo_world_ok(1)])

subsection \<open>What one drop does\<close>

lemma after_move_clear_down:
  assumes "drawn DoubleBuffer (curr_shape t) g"
  shows "after_move DoubleBuffer DoubleBuffer sh sh1 (snd (clear_down t g)) a = after_move DoubleBuffer DoubleBuffer sh sh1 g a"
  using clear_down_frames(1)[OF assms] by (simp add: after_move_def frame_def)

text \<open>
  One automatic drop, exactly: if the piece may fall it moves one block down and only its old
  and new cells change; otherwise it stays where it is for good, a new piece at (240, 10) takes
  its place, and only the cells of the new piece change. In both cases the double buffer is
  otherwise untouched: settled cells are never removed.
\<close>

theorem drop_effect:
  assumes "piece_ok t g" "unat (pos_x (curr_shape t)) < 304" "in_frame a"
  shows "(if free_below t g
     then curr_shape (fst (drop_piece now (t, g))) = (curr_shape t)\<lparr>pos_y := pos_y (curr_shape t) + 4\<rparr>
        \<and> dbuf (snd (drop_piece now (t, g))) a
          = (if a \<in> cells ((curr_shape t)\<lparr>pos_y := pos_y (curr_shape t) + 4\<rparr>) then color (curr_shape t)
             else if a \<in> cells (curr_shape t) then Black else dbuf g a)
     else pos_x (curr_shape (fst (drop_piece now (t, g)))) = 240
        \<and> pos_y (curr_shape (fst (drop_piece now (t, g)))) = 10
        \<and> dbuf (snd (drop_piece now (t, g))) a
          = (if a \<in> cells (curr_shape (fst (drop_piece now (t, g))))
             then color (curr_shape (fst (drop_piece now (t, g)))) else dbuf g a))"
proof -
  note ok = piece_okD[OF assms(1)]
  let ?g1 = "snd (clear_down t g)"
  have free: "fst (clear_down t g) = free_below t g" by (rule clear_down_result[OF ok(1,2,3) assms(2)])
  have keep: "dbuf ?g1 = dbuf g" by (rule clear_down_frames(1)[OF ok(4)])
  show ?thesis
  proof (cases "free_below t g")
    case True
    have "frame DoubleBuffer (snd (move_down DoubleBuffer (curr_shape t, ?g1))) a
        = after_move DoubleBuffer DoubleBuffer (curr_shape t) ((curr_shape t)\<lparr>pos_y := pos_y (curr_shape t) + 4\<rparr>) g a"
      unfolding move_scr move_shapes frame_move after_move_clear_down[OF ok(4)] ..
    with True free assms(3) show ?thesis
      by (simp add: drop_piece_def move_piece_simps with_shape_apply move_shapes after_move_def frame_def)
  next
    case False
    let ?t2 = "fst (next_shape now (t, ?g1))"
    have "init_x t = 240" "init_y t = 10" using assms(1) by (simp_all add: piece_ok_def)
    from next_shape_eq[OF this, of now ?g1] have pos: "pos_x (curr_shape ?t2) = 240" "pos_y (curr_shape ?t2) = 10"
      by (auto simp: Shape_new_jiffies_def Shape_new_def)
    have "frame DoubleBuffer (snd (next_shape now (t, ?g1))) a
        = (if a \<in> cells (curr_shape ?t2) then color (curr_shape ?t2) else dbuf g a)"
      using assms(3) keep unfolding next_shape_scr frame_draw_shape by (simp add: frame_def)
    with False free pos show ?thesis
      by (simp add: drop_piece_def move_piece_simps frame_def)
  qed
qed

theorem drop_effect_witness:
  "pos_y (curr_shape (fst (drop_piece 5 (game demo_world, scr demo_world))))
     = (if free_below (game demo_world) (scr demo_world) then 14 else 10)"
proof -
  have "in_frame 0" by (simp add: in_frame_nat)
  from drop_effect[OF demo_world_ok(1,2) this, of 5] show ?thesis
    unfolding demo_world_ok(3) by (auto simp: Shape_new_jiffies_def Shape_new_def split: if_splits)
qed

subsection \<open>Spawning\<close>

text \<open>
  A new piece has the table that the generator's number modulo 7 selects and starts upright at
  the spawn point. Its colour is the low byte of the tick counter: the choice that replaces black
  and red is not used, so every 256th tick spawns a black piece.
\<close>

theorem next_shape_spec:
  "(let v = unat (snd (rng_next (gen t)) mod 7); sh = curr_shape (fst (next_shape now (t, g)))
    in v < 7 \<and> on_blocks sh = templates ! v \<and> orientation sh = 0 \<and> pos_x sh = init_x t \<and> pos_y sh = init_y t
     \<and> color sh = ucast (now mod 256) \<and> gen (fst (next_shape now (t, g))) = fst (rng_next (gen t)))"
proof -
  have "v mod 7 \<in> {0, 1, 2, 3, 4, 5, 6}" for v :: u32
  proof -
    have "unat (v mod 7) < 7" by (simp add: unat_mod)
    then have "unat (v mod 7) \<in> {0, 1, 2, 3, 4, 5, 6}" by auto
    then show ?thesis by (auto simp: word_unat_eq_iff)
  qed
  then have "snd (rng_next (gen t)) mod 7 \<in> {0, 1, 2, 3, 4, 5, 6}" .
  then show ?thesis
    unfolding next_shape_def Let_def prod.case case_prod_beta
    by (elim insertE emptyE)
      (simp_all add: constructors Shape_new_jiffies_def Shape_new_def templates_def NUM_COLORS_def)
qed

subsection \<open>Moves without a check\<close>

definition lefts :: "nat \<Rightarrow> tetris \<times> gfx \<Rightarrow> tetris \<times> gfx" where
  "lefts n = ((\<lambda>s. snd (move_piece LEFT s)) ^^ n)"

lemma lefts_shape:
  "curr_shape (fst (lefts n s)) = (curr_shape (fst s))\<lparr>pos_x := pos_x (curr_shape (fst s)) - 4 * of_nat n\<rparr>"
proof (induction n)
  case (Suc n)
  obtain t g where s: "lefts n s = (t, g)" by (metis surj_pair)
  then have "lefts (Suc n) s = with_shape (move_left DoubleBuffer) (t, g)"
    by (simp add: lefts_def move_piece_simps)
  with Suc s show ?case by (simp add: with_shape_apply move_shapes algebra_simps)
qed (simp add: lefts_def)

lemma lefts_fault:
  assumes "a \<in> cells (curr_shape (fst (lefts (Suc n) s)))" "\<not> in_frame a"
  shows "fault (snd (lefts (Suc n) s))"
proof -
  obtain t g where s: "lefts n s = (t, g)" by (metis surj_pair)
  then have l: "lefts (Suc n) s = with_shape (move_left DoubleBuffer) (t, g)"
    by (simp add: lefts_def move_piece_simps)
  with assms show ?thesis by (auto simp: with_shape_apply move_scr fault_draw_shape)
qed

text \<open>
  The moves to the side and the rotation are never refused, whatever the board: the check
  functions are not called. Enough presses of the left key take the piece through the wall, off the
  screen and out of the frame memory.
\<close>

theorem side_moves_unchecked:
  assumes "shape_ok (curr_shape t)"
  shows "fst (move_piece LEFT (t, g)) \<and> fst (move_piece RIGHT (t, g)) \<and> fst (move_piece ROTATE (t, g))
    \<and> pos_x (curr_shape (fst (lefts n (t, g)))) = pos_x (curr_shape t) - 4 * of_nat n
    \<and> (\<exists>m. fault (snd (lefts m (t, g))))"
proof -
  let ?sh = "curr_shape t"
  let ?q = "offset (Shape_to_x ?sh (block_at ?sh 0)) (Shape_to_y ?sh (block_at ?sh 0))"
  define k where "k = unat ?q div 4"
  have "in_frame ?q \<or> \<not> in_frame ?q" by blast
  let ?m = "if in_frame ?q then Suc k else 2 ^ 30"
  let ?sh' = "?sh\<lparr>pos_x := pos_x ?sh - 4 * of_nat ?m\<rparr>"
  let ?a = "offset (Shape_to_x ?sh' (block_at ?sh' 0)) (Shape_to_y ?sh' (block_at ?sh' 0))"
  have "shape_ok ?sh'" using assms by simp
  then have a: "?a \<in> cells ?sh'"
    unfolding in_cells[OF \<open>shape_ok ?sh'\<close>]
    by (intro exI[of _ 0] conjI) simp_all
  have "?a = ?q - 4 * of_nat ?m"
    by (simp add: offset_linear Shape_to_x_def Shape_to_y_def to_x_def to_y_def block_at_def algebra_simps)
  moreover have "\<not> in_frame (?q - 4 * of_nat ?m)"
  proof (cases "in_frame ?q")
    case True
    have "unat ?q < 64000" using True by (simp add: in_frame_nat)
    have "?q = of_nat (unat ?q)" by simp
    then have "?q - 4 * of_nat (Suc k) = of_nat (unat ?q) - of_nat (4 * Suc k)" by simp
    also have "\<dots> = - of_nat (4 * Suc k - unat ?q)"
      by (subst of_nat_diff) (auto simp: k_def)
    finally have e: "?q - 4 * of_nat (Suc k) = - of_nat (4 * Suc k - unat ?q)" .
    have "4 * Suc k - unat ?q \<in> {1, 2, 3, 4}" unfolding k_def by auto
    then have "\<not> in_frame (- of_nat (4 * Suc k - unat ?q))" by (auto simp: in_frame_nat unsigned_minus_1_eq_mask mask_eq_exp_minus_1)
    with e True show ?thesis by (simp only: if_True simp_thms)
  next
    case False
    have "4 * of_nat (2 ^ 30) = (0 :: u32)" by simp
    with False show ?thesis by (simp only: if_False diff_zero simp_thms)
  qed
  ultimately have "\<not> in_frame ?a" by (simp only: simp_thms)
  obtain m' where m': "?m = Suc m'" by (metis gr0_conv_Suc zero_less_Suc zero_less_numeral zero_less_power)
  have "fault (snd (lefts (Suc m') (t, g)))"
    using lefts_fault[of ?a m' "(t, g)"] a \<open>\<not> in_frame ?a\<close> unfolding lefts_shape m' by simp
  then show ?thesis by (auto simp: move_piece_simps lefts_shape)
qed

theorem side_moves_unchecked_witness:
  "pos_x (curr_shape (fst (lefts 16 (game demo_world, scr demo_world)))) = 176
   \<and> (\<exists>m. fault (snd (lefts m (game demo_world, scr demo_world))))"
  using side_moves_unchecked[OF piece_okD(1)[OF demo_world_ok(1)], of "scr demo_world" 16]
  by (simp add: demo_world_ok(3) Shape_new_jiffies_def Shape_new_def)

text \<open>
  A block is painted five pixels wide, so a settled block colours the first column of the cell
  to its right: a piece that would fall into that free cell is refused.
\<close>

theorem spill_stops_neighbour:
  assumes "piece_ok t g" "unat (pos_x (curr_shape t)) < 304" "i < 4" "c \<noteq> Black"
    and settled: "list_all (\<lambda>(x, y). dbuf g (offset x y) = c) (block_pts bx row)"
    and right: "to_x (pos_x (curr_shape t)) (block_at (curr_shape t) i) = bx + 4"
      "to_y (pos_y (curr_shape t) + 4) (block_at (curr_shape t) i) = row"
      "offset (bx + 4) row \<notin> cells (curr_shape t)"
  shows "\<not> fst (move_piece DOWN (t, g))"
proof -
  note ok = piece_okD[OF assms(1)]
  have "(bx + of_nat 4, row + of_nat 0) \<in> set (block_pts bx row)"
    unfolding block_pts_def by (simp add: upt_rec)
  then have "dbuf g (offset (bx + 4) row) = c" using settled by (auto simp: list_all_iff)
  with assms(3,4) right have "\<not> free_below t g"
    unfolding free_below_def list_all_iff Let_def by (auto intro!: bexI[of _ i])
  then show ?thesis
    using clear_down_result[OF ok(1,2,3) assms(2)] by (simp add: move_piece_simps)
qed

lemma cells_set: "cells sh = set (map (\<lambda>(x, y). offset x y) (shape_pts sh))"
  by (simp add: cells_def addrs_def)

text \<open>A settled block at (240, 26), left of the cell below the initial bar.\<close>

definition spill_board :: gfx where
  "spill_board = draw_shape (curr_shape (game demo_world)) DoubleBuffer (fill_block 240 26 Red DoubleBuffer blank)"

lemma spill_disjoint:
  "list_all (\<lambda>(x, y). offset x y \<notin> set (map (\<lambda>(x, y). offset x y) (shape_pts
     ((Shape_new_jiffies 7 Ty_SQUARE 0 4 240 10)\<lparr>on_blocks := I_P\<rparr>)))
     \<and> in_frame (offset x y)) (block_pts 240 26)"
  by code_simp

theorem spill_stops_neighbour_witness: "\<not> fst (move_piece DOWN (game demo_world, spill_board))"
proof (rule spill_stops_neighbour[where i = 3 and bx = 240 and row = 26 and c = Red])
  let ?sh = "curr_shape (game demo_world)"
  show "piece_ok (game demo_world) spill_board"
    using demo_world_ok(1) drawn_draw_shape[of DoubleBuffer DoubleBuffer ?sh]
    by (simp add: piece_ok_def spill_board_def)
  show "unat (pos_x ?sh) < 304" by (rule demo_world_ok(2))
  have away: "offset x y \<notin> cells ?sh" "in_frame (offset x y)" if "(x, y) \<in> set (block_pts 240 26)" for x y
    using that spill_disjoint unfolding demo_world_ok(3) cells_set list_all_iff by blast+
  have "dbuf spill_board (offset x y) = Red" if "(x, y) \<in> set (block_pts 240 26)" for x y
  proof -
    have "offset x y \<in> addrs (block_pts 240 26)" using that by (auto simp: addrs_def)
    then have "frame DoubleBuffer spill_board (offset x y) = Red"
      unfolding spill_board_def frame_draw_shape block.draw_frame using away[OF that] by simp
    then show ?thesis by (simp add: frame_def)
  qed
  then show "list_all (\<lambda>(x, y). dbuf spill_board (offset x y) = Red) (block_pts 240 26)"
    by (auto simp: list_all_iff)
  have "(244, 26) \<in> set (block_pts 240 26)" by code_simp
  then show "offset (240 + 4) 26 \<notin> cells ?sh" using away by simp
qed (simp_all add: demo_world_ok(3) Shape_new_jiffies_def Shape_new_def block_at_def to_x_def to_y_def I_P_def
  drop_bit_eq_div push_bit_eq_mult c_defs)

text \<open>
  \<open>clear_rotate\<close> leaves the piece as it was but blackens, on the double buffer, the cells of
  the turned piece, whether or not they held settled blocks.
\<close>

theorem clear_rotate_erases:
  assumes "shape_ok (curr_shape t)" "in_frame a"
  shows "fst (snd (clear_rotate t g)) = t
    \<and> dbuf (snd (snd (clear_rotate t g))) a
      = (if a \<in> cells (curr_shape t) then color (curr_shape t)
         else if a \<in> cells (rotate_templ (curr_shape t)) then Black else dbuf g a)"
proof -
  let ?sh = "curr_shape t"
  have four: "(rotate_templ ^^ 3) (rotate_templ ?sh) = ?sh"
    using rotate_four[OF assms(1)] by (simp add: numeral_eq_Suc)
  have "frame DoubleBuffer (draw_shape ?sh DoubleBuffer (clear_shape (rotate_templ ?sh) DoubleBuffer g)) a
      = (if a \<in> cells ?sh then color ?sh else if a \<in> cells (rotate_templ ?sh) then Black else dbuf g a)"
    using assms(2) by (simp add: shape_effects) (simp add: frame_def)
  then show ?thesis by (simp add: clear_rotate_def Let_def four frame_def)
qed

theorem clear_rotate_erases_witness:
  "dbuf (snd (snd (clear_rotate (game demo_world) (blank\<lparr>dbuf := \<lambda>_. Red\<rparr>)))) (offset 240 14) = Black"
proof -
  let ?t = "game demo_world" and ?a = "offset 240 14"
  let ?sh = "(Shape_new_jiffies 7 Ty_SQUARE 0 4 240 10)\<lparr>on_blocks := I_P\<rparr>"
  have "?a \<notin> set (map (\<lambda>(x, y). offset x y) (shape_pts ?sh))"
    "?a \<in> set (map (\<lambda>(x, y). offset x y) (shape_pts (rotate_templ ?sh)))"
    by code_simp+
  then have "?a \<notin> cells (curr_shape ?t)" "?a \<in> cells (rotate_templ (curr_shape ?t))"
    unfolding demo_world_ok(3) cells_set .
  moreover have "in_frame ?a" by (rule on_screen_in_frame) (simp add: on_screen_nat)
  ultimately show ?thesis
    using clear_rotate_erases[OF piece_okD(1)[OF demo_world_ok(1)], of ?a] by simp
qed

subsection \<open>The drop timer\<close>

text \<open>
  The loop drops the piece only once the deadline has passed, and a new deadline lies exactly
  1000 ticks ahead, unless the tick counter is about to wrap: in its last 1000 ticks the deadline
  wraps to a value already passed, and the next test drops again at once.
\<close>

theorem drop_deadline:
  assumes "game_step font p w w'"
  shows "(pc w = At_test \<and> pc w' = At_drop \<longrightarrow> time_drop w \<le> jiffies w)
    \<and> (pc w = At_reset \<and> pc w' = At_input \<longrightarrow>
        (if unat (jiffies w) + 1000 < 2 ^ 32 then unat (time_drop w') = unat (jiffies w') + 1000
         else time_drop w' < jiffies w'))"
  using assms
proof (cases rule: game_step.cases)
  case reset
  have "unat (jiffies w + 1000) = (unat (jiffies w) + 1000) mod 2 ^ 32"
    by (simp add: unat_word_ariths)
  moreover have "unat (jiffies w) < 2 ^ 32" by (rule order_less_le_trans[OF unat_lt_2p]) simp
  ultimately show ?thesis
    using reset by (auto simp: GT_def word_less_nat_alt mod_if)
qed (auto)

theorem drop_deadline_witness:
  "(let w = demo_world\<lparr>pc := At_reset, jiffies := 0xFFFFFF00\<rparr>;
        w' = w\<lparr>time_drop := jiffies w + GT, pc := At_input\<rparr>
    in time_drop w' < jiffies w')"
proof -
  let ?w = "demo_world\<lparr>pc := At_reset, jiffies := 0xFFFFFF00\<rparr>"
  have "game_step (\<lambda>_. 0) demo_psf ?w (?w\<lparr>time_drop := jiffies ?w + GT, pc := At_input\<rparr>)"
    by (rule game_step.reset) simp
  from drop_deadline[OF this] show ?thesis by simp
qed

end
