(* ===== verification/UserHeap.thy ===== *)
theory UserHeap
  imports Prelude "HOL-Library.Monad_Syntax"
begin

text \<open>
  The user program's allocator \<open>tetris.dir/sbin/heap.c\<close>: an array of C \<open>int\<close>s cut into
  blocks with boundary tags (positive size: available, negative: taken) and a doubly linked list
  of the available blocks. An access outside the array is \<open>None\<close>; so is a search that does
  not end. A pointer into the array is the index it points to; the null pointer is \<open>None\<close>.
  Sizes stay far below \<open>2^31\<close>, so C \<open>int\<close> is \<open>int\<close>.
\<close>

record heap =
  array :: "int \<Rightarrow> int"
  heap_len :: int
  safe :: bool
  avail :: int

definition INTS :: int where "INTS = 0x100000"

definition heap_static :: heap where
  "heap_static = \<lparr>array = (\<lambda>_. 0), heap_len = INTS, safe = True, avail = 0\<rparr>"

definition rd :: "heap \<Rightarrow> int \<Rightarrow> int option" where
  "rd h i = (if 0 \<le> i \<and> i < heap_len h then Some (array h i) else None)"

definition wr :: "int \<Rightarrow> int \<Rightarrow> heap \<Rightarrow> heap option" where
  "wr i v h = (if 0 \<le> i \<and> i < heap_len h then Some (h\<lparr>array := (array h)(i := v)\<rparr>) else None)"

definition size_of :: "heap \<Rightarrow> int \<Rightarrow> int option" where
  "size_of h i = do { v \<leftarrow> rd h i; Some (if v < 0 then - v else v) }"

definition headerFromFooter :: "heap \<Rightarrow> int \<Rightarrow> int option" where
  "headerFromFooter h i = do { s \<leftarrow> size_of h i; Some (i - s + 1) }"

definition footerFromHeader :: "heap \<Rightarrow> int \<Rightarrow> int option" where
  "footerFromHeader h i = do { s \<leftarrow> size_of h i; Some (i + s - 1) }"

text \<open>With the diagnostics commented out, every branch of \<open>sanity\<close> returns its argument.\<close>

definition sanity :: "heap \<Rightarrow> int \<Rightarrow> int option" where
  "sanity h i =
     (if safe h then
        if i = 0 then Some 0
        else if i < 0 \<or> i \<ge> heap_len h then Some i
        else do {
          footer \<leftarrow> footerFromHeader h i;
          if footer < 0 \<or> footer \<ge> heap_len h then Some i
          else do {
            hv \<leftarrow> rd h i;
            fv \<leftarrow> rd h footer;
            if hv \<noteq> fv then Some i else Some i
          }
        }
      else Some i)"

definition left_block :: "heap \<Rightarrow> int \<Rightarrow> int option" where
  "left_block h i = do { j \<leftarrow> headerFromFooter h (i - 1); sanity h j }"

definition right_block :: "heap \<Rightarrow> int \<Rightarrow> int option" where
  "right_block h i = do { s \<leftarrow> size_of h i; sanity h (i + s) }"

definition next1 :: "heap \<Rightarrow> int \<Rightarrow> int option" where
  "next1 h i = do { j \<leftarrow> rd h (i + 1); sanity h j }"

definition prev1 :: "heap \<Rightarrow> int \<Rightarrow> int option" where
  "prev1 h i = do { j \<leftarrow> rd h (i + 2); sanity h j }"

definition set_next :: "int \<Rightarrow> int \<Rightarrow> heap \<Rightarrow> heap option" where
  "set_next i x h = wr (i + 1) x h"

definition set_prev :: "int \<Rightarrow> int \<Rightarrow> heap \<Rightarrow> heap option" where
  "set_prev i x h = wr (i + 2) x h"

definition remove_block :: "int \<Rightarrow> heap \<Rightarrow> heap option" where
  "remove_block i h = do {
     prevIndex \<leftarrow> prev1 h i;
     nextIndex \<leftarrow> next1 h i;
     h1 \<leftarrow> (if prevIndex = 0 then Some (h\<lparr>avail := nextIndex\<rparr>) else set_next prevIndex nextIndex h);
     if nextIndex \<noteq> 0 then set_prev nextIndex prevIndex h1 else Some h1
   }"

definition makeAvail :: "int \<Rightarrow> int \<Rightarrow> heap \<Rightarrow> heap option" where
  "makeAvail i ints h = do {
     h1 \<leftarrow> wr i ints h;
     f \<leftarrow> footerFromHeader h1 i;
     h2 \<leftarrow> wr f ints h1;
     h3 \<leftarrow> set_next i (avail h2) h2;
     h4 \<leftarrow> set_prev i 0 h3;
     h5 \<leftarrow> (if avail h4 \<noteq> 0 then set_prev (avail h4) i h4 else Some h4);
     Some (h5\<lparr>avail := i\<rparr>)
   }"

definition makeTaken :: "int \<Rightarrow> int \<Rightarrow> heap \<Rightarrow> heap option" where
  "makeTaken i ints h = do {
     h1 \<leftarrow> wr i (- ints) h;
     f \<leftarrow> footerFromHeader h1 i;
     wr f (- ints) h1
   }"

definition isAvail :: "heap \<Rightarrow> int \<Rightarrow> bool option" where
  "isAvail h i = do { v \<leftarrow> rd h i; Some (v > 0) }"

definition isTaken :: "heap \<Rightarrow> int \<Rightarrow> bool option" where
  "isTaken h i = do { v \<leftarrow> rd h i; Some (v < 0) }"

definition heap_init :: "heap \<Rightarrow> heap option" where
  "heap_init h = do {
     h1 \<leftarrow> makeTaken 0 2 h;
     h2 \<leftarrow> makeAvail 2 (heap_len h1 - 4) h1;
     makeTaken (heap_len h2 - 2) 2 h2
   }"

text \<open>\<open>((bytes + 3) / 4) + 2\<close> is computed in \<open>size_t\<close>, which wraps.\<close>

definition ints_for :: "u32 \<Rightarrow> int" where
  "ints_for bytes = (let ints = sint ((bytes + 3) div 4 + 2) in if ints < 4 then 4 else ints)"

text \<open>Taking a block: the part common to every way of finding one.\<close>

definition carve :: "int \<Rightarrow> int \<Rightarrow> int \<Rightarrow> heap \<Rightarrow> heap option" where
  "carve p sz ints h = do {
     h1 \<leftarrow> remove_block p h;
     (let extra = sz - ints
      in if extra \<ge> 4
         then do { h2 \<leftarrow> makeTaken p ints h1; makeAvail (p + ints) extra h2 }
         else makeTaken p sz h1)
   }"

text \<open>The loop of \<open>malloc\<close>: it ends with a block taken or at the end of the list.\<close>

partial_function (option) first_fit :: "int \<Rightarrow> int \<Rightarrow> heap \<Rightarrow> (int option \<times> heap) option" where
  "first_fit ints p h =
     (if p = 0 then Some (None, h)
      else do {
        _ \<leftarrow> isAvail h p;
        sz \<leftarrow> size_of h p;
        if sz \<ge> ints then do { h1 \<leftarrow> carve p sz ints h; Some (Some (p + 1), h1) }
        else do { q \<leftarrow> next1 h p; first_fit ints q h }
      })"

definition malloc :: "u32 \<Rightarrow> heap \<Rightarrow> (int option \<times> heap) option" where
  "malloc bytes h =
     (if bytes = 0 then Some (Some 0, h)
      else do {
        _ \<leftarrow> sanity h (avail h);
        first_fit (ints_for bytes) (avail h) h
      })"

definition free :: "int option \<Rightarrow> heap \<Rightarrow> heap option" where
  "free ptr h =
     (case ptr of
        None \<Rightarrow> Some h
      | Some q \<Rightarrow>
          if q = 0 then Some h
          else do {
            let idx = q - 1;
            _ \<leftarrow> sanity h idx;
            taken \<leftarrow> isTaken h idx;
            if \<not> taken then Some h
            else do {
              sz \<leftarrow> size_of h idx;
              leftIndex \<leftarrow> left_block h idx;
              rightIndex \<leftarrow> right_block h idx;
              la \<leftarrow> isAvail h leftIndex;
              (idx1, sz1, h1) \<leftarrow>
                (if la then do {
                   h1 \<leftarrow> remove_block leftIndex h;
                   ls \<leftarrow> size_of h1 leftIndex;
                   Some (leftIndex, sz + ls, h1)
                 } else Some (idx, sz, h));
              ra \<leftarrow> isAvail h1 rightIndex;
              (sz2, h2) \<leftarrow>
                (if ra then do {
                   h2 \<leftarrow> remove_block rightIndex h1;
                   rs \<leftarrow> size_of h2 rightIndex;
                   Some (sz1 + rs, h2)
                 } else Some (sz1, h1));
              makeAvail idx1 sz2 h2
            }
          })"

text \<open>\<open>memcpy\<close> of \<open>m\<close> bytes between word indices; a final partial word keeps its high bytes.\<close>

definition low_bytes :: "nat \<Rightarrow> int \<Rightarrow> int \<Rightarrow> int" where
  "low_bytes k src dst =
     sint (word_of_int src AND mask (8 * k) OR word_of_int dst AND NOT (mask (8 * k)) :: u32)"

definition copy_word :: "int \<Rightarrow> int \<Rightarrow> nat \<Rightarrow> heap \<Rightarrow> heap option" where
  "copy_word d s k h = do { v \<leftarrow> rd h s; w \<leftarrow> rd h d; wr d (if k = 4 then v else low_bytes k v w) h }"

primrec copy_words :: "nat \<Rightarrow> int \<Rightarrow> int \<Rightarrow> heap \<Rightarrow> heap option" where
  "copy_words 0 d s h = Some h"
| "copy_words (Suc n) d s h = do { h1 \<leftarrow> copy_word d s 4 h; copy_words n (d + 1) (s + 1) h1 }"

definition memcpy_words :: "int \<Rightarrow> int \<Rightarrow> nat \<Rightarrow> heap \<Rightarrow> heap option" where
  "memcpy_words d s m h = do {
     h1 \<leftarrow> copy_words (m div 4) d s h;
     if m mod 4 = 0 then Some h1
     else copy_word (d + int (m div 4)) (s + int (m div 4)) (m mod 4) h1
   }"

definition realloc :: "int option \<Rightarrow> u32 \<Rightarrow> heap \<Rightarrow> (int option \<times> heap) option" where
  "realloc ptr newSize h =
     (case ptr of
        None \<Rightarrow> malloc newSize h
      | Some q \<Rightarrow>
          if newSize = 0 then do { h1 \<leftarrow> free ptr h; Some (None, h1) }
          else do {
            let idx = q - 1;
            _ \<leftarrow> sanity h idx;
            taken \<leftarrow> isTaken h idx;
            if \<not> taken then Some (None, h)
            else do {
              s \<leftarrow> size_of h idx;
              let sz = (word_of_int (s * 4) :: u32);
              (newPtr, h1) \<leftarrow> malloc newSize h;
              h2 \<leftarrow> (case newPtr of
                       None \<Rightarrow> Some h1
                     | Some d \<Rightarrow> memcpy_words d q (unat (if newSize > sz then sz else newSize)) h1);
              h3 \<leftarrow> free ptr h2;
              Some (newPtr, h3)
            }
          })"

end
