(* ===== verification/HeapRep.thy ===== *)
theory HeapRep
  imports UserHeap
begin

text \<open>
  The representation invariant of the boundary-tag heap and what the primitives of
  \<open>UserHeap\<close> do to it: the blocks tile the array between two taken sentinels, header and footer
  of each block carry its signed size, and the available blocks are exactly the nodes of a
  well-formed doubly linked list.
\<close>

subsection \<open>Blocks\<close>

text \<open>A block is its availability and its size in \<open>int\<close>s.\<close>

type_synonym block = "bool \<times> int"

fun tag_of :: "block \<Rightarrow> int" where
  "tag_of (av, sz) = (if av then sz else - sz)"

fun total :: "block list \<Rightarrow> int" where
  "total [] = 0"
| "total ((av, sz) # bs) = sz + total bs"

fun laid :: "(int \<Rightarrow> int) \<Rightarrow> int \<Rightarrow> block list \<Rightarrow> int \<Rightarrow> bool" where
  "laid m a [] b = (a = b)"
| "laid m a ((av, sz) # bs) b =
     (2 \<le> sz \<and> (av \<longrightarrow> 4 \<le> sz) \<and> m a = tag_of (av, sz) \<and> m (a + sz - 1) = tag_of (av, sz)
      \<and> laid m (a + sz) bs b)"

fun tags :: "int \<Rightarrow> block list \<Rightarrow> int set" where
  "tags a [] = {}"
| "tags a ((av, sz) # bs) = {a, a + sz - 1} \<union> tags (a + sz) bs"

fun avails :: "int \<Rightarrow> block list \<Rightarrow> int set" where
  "avails a [] = {}"
| "avails a ((av, sz) # bs) = (if av then {a} else {}) \<union> avails (a + sz) bs"

text \<open>The payloads of the taken blocks: first index and number of \<open>int\<close>s.\<close>

fun payloads :: "int \<Rightarrow> block list \<Rightarrow> (int \<times> int) set" where
  "payloads a [] = {}"
| "payloads a ((av, sz) # bs) = (if av then {} else {(a + 1, sz - 2)}) \<union> payloads (a + sz) bs"

lemma total_append [simp]: "total (xs @ ys) = total xs + total ys"
  by (induction xs rule: total.induct) auto

lemma laid_append: "laid m a (xs @ ys) b \<longleftrightarrow> laid m a xs (a + total xs) \<and> laid m (a + total xs) ys b"
  by (induction xs arbitrary: a rule: total.induct) (auto simp: add.assoc)

lemma tags_append: "tags a (xs @ ys) = tags a xs \<union> tags (a + total xs) ys"
  by (induction xs arbitrary: a rule: total.induct) (auto simp: add.assoc)

lemma avails_append: "avails a (xs @ ys) = avails a xs \<union> avails (a + total xs) ys"
  by (induction xs arbitrary: a rule: total.induct) (auto simp: add.assoc)

lemma payloads_append: "payloads a (xs @ ys) = payloads a xs \<union> payloads (a + total xs) ys"
  by (induction xs arbitrary: a rule: total.induct) (auto simp: add.assoc)

lemma laid_total: "laid m a bs b \<Longrightarrow> b = a + total bs \<and> 0 \<le> total bs"
  by (induction m a bs b rule: laid.induct) auto

lemma laid_cong: "(\<And>k. k \<in> tags a bs \<Longrightarrow> m' k = m k) \<Longrightarrow> laid m' a bs b = laid m a bs b"
  by (induction m a bs b rule: laid.induct) auto

lemma tags_range: "laid m a bs b \<Longrightarrow> k \<in> tags a bs \<Longrightarrow> a \<le> k \<and> k < b"
  by (induction m a bs b rule: laid.induct) (auto dest: laid_total)

lemma avails_range: "laid m a bs b \<Longrightarrow> x \<in> avails a bs \<Longrightarrow> a \<le> x \<and> x + 4 \<le> b"
  by (induction m a bs b rule: laid.induct) (auto dest: laid_total split: if_splits)

lemma avails_no_tags:
  "laid m a bs b \<Longrightarrow> x \<in> avails a bs \<Longrightarrow> x + 1 \<notin> tags a bs \<and> x + 2 \<notin> tags a bs"
proof (induction m a bs b rule: laid.induct)
  case (2 m a av sz bs b)
  then have l: "laid m (a + sz) bs b" by simp
  show ?case
  proof (cases "x \<in> avails (a + sz) bs")
    case True
    with 2 l avails_range[OF l True] show ?thesis by auto
  next
    case False
    with 2 have "x = a" "4 \<le> sz" by (auto split: if_splits)
    with tags_range[OF l] show ?thesis by fastforce
  qed
qed simp

lemma avails_apart: "laid m a bs b \<Longrightarrow> x \<in> avails a bs \<Longrightarrow> y \<in> avails a bs \<Longrightarrow> x < y \<Longrightarrow> x + 4 \<le> y"
proof (induction m a bs b rule: laid.induct)
  case (2 m a av sz bs b)
  then have l: "laid m (a + sz) bs b" by simp
  from 2 avails_range[OF l, of x] avails_range[OF l, of y] show ?case
    by (auto split: if_splits)
qed simp

lemma payloads_range: "laid m a bs b \<Longrightarrow> (q, n) \<in> payloads a bs \<Longrightarrow> a < q \<and> q + n < b \<and> 0 \<le> n"
  by (induction m a bs b rule: laid.induct) (auto dest: laid_total split: if_splits)

subsection \<open>The free list\<close>

definition first :: "int list \<Rightarrow> int \<Rightarrow> int" where
  "first xs n = (case xs of [] \<Rightarrow> n | x # _ \<Rightarrow> x)"

definition lastp :: "int list \<Rightarrow> int \<Rightarrow> int" where
  "lastp xs p = (if xs = [] then p else last xs)"

primrec dseg :: "(int \<Rightarrow> int) \<Rightarrow> int \<Rightarrow> int list \<Rightarrow> int \<Rightarrow> bool" where
  "dseg m p [] n = True"
| "dseg m p (x # xs) n = (m (x + 1) = first xs n \<and> m (x + 2) = p \<and> dseg m x xs n)"

definition links :: "int list \<Rightarrow> int set" where
  "links xs = (\<lambda>x. x + 1) ` set xs \<union> (\<lambda>x. x + 2) ` set xs"

lemma first_simps [simp]: "first [] n = n" "first (x # xs) n = x" "first (xs @ ys) n = first xs (first ys n)"
  by (auto simp: first_def split: list.splits)

lemma lastp_simps [simp]: "lastp [] p = p" "lastp (x # xs) p = lastp xs x" "lastp (xs @ ys) p = lastp ys (lastp xs p)"
  by (auto simp: lastp_def)

lemma links_simps [simp]:
  "links [] = {}" "links (x # xs) = {x + 1, x + 2} \<union> links xs" "links (xs @ ys) = links xs \<union> links ys"
  by (auto simp: links_def)

lemma dseg_append: "dseg m p (xs @ ys) n \<longleftrightarrow> dseg m p xs (first ys n) \<and> dseg m (lastp xs p) ys n"
  by (induction xs arbitrary: p) auto

lemma dseg_cong: "(\<And>k. k \<in> links xs \<Longrightarrow> m' k = m k) \<Longrightarrow> dseg m' p xs n = dseg m p xs n"
  by (induction xs arbitrary: p) auto

definition apart :: "int list \<Rightarrow> bool" where
  "apart xs \<longleftrightarrow> distinct xs \<and> (\<forall>x \<in> set xs. \<forall>y \<in> set xs. x < y \<longrightarrow> x + 4 \<le> y)"

lemma apart_fresh:
  assumes "apart (xs @ x # ys)"
  shows "x + 1 \<notin> links xs \<union> links ys" "x + 2 \<notin> links xs \<union> links ys"
proof -
  have "y + 1 \<noteq> x + 2 \<and> y + 2 \<noteq> x + 1 \<and> y \<noteq> x" if "y \<in> set xs \<union> set ys" for y
  proof -
    have "y \<noteq> x" "y < x \<Longrightarrow> y + 4 \<le> x" "x < y \<Longrightarrow> x + 4 \<le> y"
      using assms that by (auto simp: apart_def)
    then show ?thesis by linarith
  qed
  then show "x + 1 \<notin> links xs \<union> links ys" "x + 2 \<notin> links xs \<union> links ys"
    by (force simp: links_def)+
qed

lemma apart_mono: "apart xs \<Longrightarrow> set ys \<subseteq> set xs \<Longrightarrow> distinct ys \<Longrightarrow> apart ys"
  by (auto simp: apart_def)

subsection \<open>The primitives\<close>

lemma sanity_id [simp]: "sanity h i = Some i"
  by (auto simp: sanity_def footerFromHeader_def size_of_def rd_def Let_def)

definition in_arr :: "heap \<Rightarrow> int \<Rightarrow> bool" where
  "in_arr h i \<longleftrightarrow> 0 \<le> i \<and> i < heap_len h"

lemma rd_in [simp]: "in_arr h i \<Longrightarrow> rd h i = Some (array h i)"
  by (simp add: rd_def in_arr_def)

lemma wr_in [simp]: "in_arr h i \<Longrightarrow> wr i v h = Some (h\<lparr>array := (array h)(i := v)\<rparr>)"
  by (simp add: wr_def in_arr_def)

lemma in_arr_upd [simp]: "in_arr (h\<lparr>array := m\<rparr>) i = in_arr h i" "in_arr (h\<lparr>avail := j\<rparr>) i = in_arr h i"
  by (simp_all add: in_arr_def)

text \<open>The list part of the invariant, and the frame of a change that leaves sizes alone.\<close>

definition linked :: "heap \<Rightarrow> int list \<Rightarrow> bool" where
  "linked h F \<longleftrightarrow> avail h = first F 0 \<and> dseg (array h) 0 F 0 \<and> apart F
     \<and> (\<forall>x \<in> set F. 0 < x \<and> x + 2 < heap_len h)"

definition only_changes :: "int set \<Rightarrow> heap \<Rightarrow> heap \<Rightarrow> bool" where
  "only_changes K h h' \<longleftrightarrow> heap_len h' = heap_len h \<and> safe h' = safe h \<and> (\<forall>k. k \<notin> K \<longrightarrow> array h' k = array h k)"

lemma remove_block_linked:
  assumes "linked h (F1 @ i # F2)"
  shows "\<exists>h'. remove_block i h = Some h' \<and> linked h' (F1 @ F2) \<and> only_changes (links (F1 @ F2)) h h'"
proof -
  have seg: "dseg (array h) 0 F1 i" "array h (i + 1) = first F2 0" "array h (i + 2) = lastp F1 0" "dseg (array h) i F2 0"
    and av: "avail h = first F1 i" and apart: "apart (F1 @ i # F2)"
    and range: "\<forall>x \<in> set (F1 @ i # F2). 0 < x \<and> x + 2 < heap_len h"
    using assms by (auto simp: linked_def dseg_append)
  have ap: "apart (F1 @ F2)" by (rule apart_mono[OF apart]) (use apart in \<open>auto simp: apart_def\<close>)
  have arr: "in_arr h (x + 1)" "in_arr h (x + 2)" if "x \<in> set (F1 @ i # F2)" for x
  proof -
    from range that have "0 < x \<and> x + 2 < heap_len h" by blast
    then show "in_arr h (x + 1)" "in_arr h (x + 2)" by (simp_all add: in_arr_def)
  qed
  let ?n = "first F2 0" and ?p = "lastp F1 0"
  have pn: "prev1 h i = Some ?p" "next1 h i = Some ?n"
    using arr[of i] seg by (simp_all add: prev1_def next1_def)
  have p0: "?p = 0 \<longleftrightarrow> F1 = []" using range by (cases F1 rule: rev_cases) auto
  have n0: "?n = 0 \<longleftrightarrow> F2 = []" using range by (cases F2) auto
  define h1 where "h1 = (if F1 = [] then h\<lparr>avail := ?n\<rparr> else h\<lparr>array := (array h)(?p + 1 := ?n)\<rparr>)"
  have h1: "(if ?p = 0 then Some (h\<lparr>avail := ?n\<rparr>) else set_next ?p ?n h) = Some h1"
  proof (cases F1 rule: rev_cases)
    case (snoc G x)
    with arr[of x] p0 show ?thesis by (simp add: h1_def set_next_def)
  qed (simp add: h1_def p0)
  have s1: "dseg (array h1) 0 F1 ?n \<and> dseg (array h1) i F2 0 \<and> avail h1 = first F1 ?n
      \<and> only_changes (links F1) h h1"
  proof (cases F1 rule: rev_cases)
    case Nil
    then show ?thesis using seg by (simp add: h1_def only_changes_def)
  next
    case (snoc G x)
    have ap': "apart (G @ x # (i # F2))" using apart snoc by simp
    have xx: "?p = x" "x + 1 \<notin> links G" "x + 1 \<notin> links F2"
      using snoc apart_fresh[OF ap'] by simp_all
    have "dseg ((array h)(x + 1 := ?n)) 0 G x = dseg (array h) 0 G x" for n
      by (rule dseg_cong) (use xx in auto)
    moreover have "dseg ((array h)(x + 1 := ?n)) i F2 0 = dseg (array h) i F2 0"
      by (rule dseg_cong) (use xx in auto)
    ultimately show ?thesis
      using seg av snoc by (auto simp: h1_def dseg_append only_changes_def)
  qed
  define h2 where "h2 = (if F2 = [] then h1 else h1\<lparr>array := (array h1)(?n + 2 := ?p)\<rparr>)"
  have len1: "heap_len h1 = heap_len h" by (simp add: h1_def)
  have h2: "(if ?n \<noteq> 0 then set_prev ?n ?p h1 else Some h1) = Some h2"
  proof (cases F2)
    case (Cons y G)
    with arr[of y] n0 have "in_arr h1 (y + 2)" by (simp add: in_arr_def len1)
    with Cons n0 show ?thesis by (simp add: h2_def set_prev_def)
  qed (simp add: h2_def)
  have "dseg (array h2) 0 F1 ?n \<and> dseg (array h2) ?p F2 0 \<and> avail h2 = first F1 ?n
      \<and> only_changes (links (F1 @ F2)) h h2"
  proof (cases F2)
    case Nil
    with s1 show ?thesis by (auto simp: h2_def only_changes_def)
  next
    case (Cons y G)
    have ap': "apart (F1 @ y # G)" using ap Cons by simp
    have yy: "y + 2 \<notin> links F1" "y + 2 \<notin> links G" using apart_fresh[OF ap'] by simp_all
    have "dseg ((array h1)(y + 2 := ?p)) 0 F1 y = dseg (array h1) 0 F1 y"
      by (rule dseg_cong) (use yy in auto)
    moreover have "dseg ((array h1)(y + 2 := ?p)) y G 0 = dseg (array h1) y G 0"
      by (rule dseg_cong) (use yy in auto)
    ultimately show ?thesis using s1 Cons by (auto simp: h2_def only_changes_def)
  qed
  moreover have "remove_block i h = Some h2"
    unfolding remove_block_def pn bind.bind_lunit h1 h2 by (simp add: h1 h2)
  moreover have "heap_len h2 = heap_len h" by (simp add: h2_def len1)
  ultimately show ?thesis
    using ap range by (intro exI[of _ h2]) (auto simp: linked_def dseg_append)
qed

lemma only_changes_refl: "only_changes K h h"
  by (simp add: only_changes_def)

lemma only_changes_trans: "only_changes K h h' \<Longrightarrow> only_changes L h' h'' \<Longrightarrow> only_changes (K \<union> L) h h''"
  by (auto simp: only_changes_def)

lemma only_changes_mono: "only_changes K h h' \<Longrightarrow> K \<subseteq> L \<Longrightarrow> only_changes L h h'"
  by (auto simp: only_changes_def)

lemma makeTaken_eq:
  assumes "in_arr h i" "in_arr h (i + ints - 1)" "2 \<le> ints"
  shows "makeTaken i ints h = Some (h\<lparr>array := (array h)(i := - ints, i + ints - 1 := - ints)\<rparr>)"
  using assms by (simp add: makeTaken_def footerFromHeader_def size_of_def)

lemma makeAvail_linked:
  assumes "linked h F" "4 \<le> sz" "0 < x" "x + sz \<le> heap_len h"
    and far: "\<forall>y \<in> set F. y + 4 \<le> x \<or> x + sz \<le> y"
  shows "\<exists>h'. makeAvail x sz h = Some h' \<and> linked h' (x # F)
    \<and> array h' x = sz \<and> array h' (x + sz - 1) = sz
    \<and> only_changes ({x, x + sz - 1, x + 1, x + 2} \<union> links F) h h'"
proof -
  have av: "avail h = first F 0" and seg: "dseg (array h) 0 F 0" and ap: "apart F"
    and range: "\<forall>y \<in> set F. 0 < y \<and> y + 2 < heap_len h"
    using assms(1) by (auto simp: linked_def)
  have arr: "in_arr h x" "in_arr h (x + sz - 1)" "in_arr h (x + 1)" "in_arr h (x + 2)"
    using assms(2-4) by (auto simp: in_arr_def)
  have out: "k \<notin> links F" if "k \<in> {x, x + sz - 1, x + 1, x + 2}" for k
    using that far assms(2) by (fastforce simp: links_def)
  let ?m3 = "(array h)(x := sz, x + sz - 1 := sz, x + 1 := first F 0, x + 2 := 0)"
  have ne: "k \<noteq> x \<and> k \<noteq> x + sz - 1 \<and> k \<noteq> x + 1 \<and> k \<noteq> x + 2" if "k \<in> links F" for k
    using out that by blast
  have "dseg ?m3 0 F 0 = dseg (array h) 0 F 0"
    by (rule dseg_cong) (simp add: ne)
  with seg have seg3: "dseg ?m3 0 F 0" by simp
  have x0: "first F 0 = 0 \<longleftrightarrow> F = []" using range by (cases F) auto
  have nx: "y \<noteq> x" "y < x \<Longrightarrow> y + 4 \<le> x" "x < y \<Longrightarrow> x + 4 \<le> y" if "y \<in> set F" for y
    using bspec[OF far that] assms(2) by linarith+
  have apx: "apart (x # F)"
    using ap nx by (auto simp: apart_def)
  have rangex: "\<forall>y \<in> set (x # F). 0 < y \<and> y + 2 < heap_len h"
    using range assms(2-4) by simp
  have pos: "x + sz - 1 \<noteq> x" "x + sz - 1 \<noteq> x + 1" "x + sz - 1 \<noteq> x + 2" using assms(2) by auto
  let ?h3 = "h\<lparr>array := ?m3\<rparr>"
  have run: "makeAvail x sz h = do {
      h5 \<leftarrow> (if first F 0 \<noteq> 0 then set_prev (first F 0) x ?h3 else Some ?h3);
      Some (h5\<lparr>avail := x\<rparr>)
    }"
    using arr assms(2) by (simp add: makeAvail_def footerFromHeader_def size_of_def set_next_def set_prev_def av)
  show ?thesis
  proof (cases F)
    case Nil
    define h' where "h' = ?h3\<lparr>avail := x\<rparr>"
    have "makeAvail x sz h = Some h'" by (simp add: run Nil h'_def)
    moreover have "linked h' (x # F)"
      using apx rangex unfolding linked_def h'_def Nil by simp
    ultimately show ?thesis
      using pos by (intro exI[of _ h']) (simp add: h'_def only_changes_def)
  next
    case (Cons y G)
    have "0 < y" "y + 2 < heap_len h" using range Cons by auto
    then have arry: "in_arr ?h3 (y + 2)" by (simp add: in_arr_def)
    define h' where "h' = ?h3\<lparr>array := ?m3(y + 2 := x), avail := x\<rparr>"
    have "makeAvail x sz h = Some h'"
      using arry \<open>0 < y\<close> by (simp add: run Cons set_prev_def h'_def)
    moreover have yl: "y + 2 \<in> links F" by (simp add: Cons)
    have yG: "y + 2 \<notin> links G" using apart_fresh(2)[of "[]" y G] ap Cons by simp
    have ny: "y + 2 \<noteq> x" "y + 2 \<noteq> x + sz - 1" "y + 2 \<noteq> x + 1" "y + 2 \<noteq> x + 2" using ne[OF yl] by auto
    have "linked h' (x # F)"
    proof -
      have "dseg (?m3(y + 2 := x)) y G 0 = dseg ?m3 y G 0"
        by (rule dseg_cong) (use yG in auto)
      moreover have "?m3 (y + 1) = first G 0" "dseg ?m3 y G 0" using seg3 Cons by simp_all
      ultimately show ?thesis
        using Cons apx rangex ny unfolding linked_def h'_def by simp
    qed
    moreover have "array h' x = sz" "array h' (x + sz - 1) = sz" "only_changes ({x, x + sz - 1, x + 1, x + 2} \<union> links F) h h'"
      using ny pos yl by (auto simp: h'_def only_changes_def)
    ultimately show ?thesis by blast
  qed
qed

subsection \<open>The invariant\<close>

text \<open>Adjacent available blocks are always merged.\<close>

fun no_adj :: "block list \<Rightarrow> bool" where
  "no_adj (b # c # bs) = (\<not> (fst b \<and> fst c) \<and> no_adj (c # bs))"
| "no_adj _ = True"

definition blocks_ok :: "block list \<Rightarrow> bool" where
  "blocks_ok bs \<longleftrightarrow> no_adj bs \<and> (\<exists>mid. bs = (False, 2) # mid @ [(False, 2)] \<and> (\<forall>b \<in> set mid. 4 \<le> snd b))"

definition rep :: "heap \<Rightarrow> block list \<Rightarrow> int list \<Rightarrow> bool" where
  "rep h bs F \<longleftrightarrow> laid (array h) 0 bs (heap_len h) \<and> linked h F \<and> set F = avails 0 bs \<and> blocks_ok bs"

lemma no_adj_Cons: "no_adj (b # bs) \<longleftrightarrow> no_adj bs \<and> (bs = [] \<or> \<not> (fst b \<and> fst (hd bs)))"
  by (cases bs) auto

lemma no_adj_append:
  "no_adj (xs @ ys) \<longleftrightarrow> no_adj xs \<and> no_adj ys \<and> (xs = [] \<or> ys = [] \<or> \<not> (fst (last xs) \<and> fst (hd ys)))"
proof (induction xs)
  case (Cons x xs)
  then show ?case by (cases "xs = []") (auto simp: no_adj_Cons)
qed simp

lemma blocks_replace:
  assumes "blocks_ok (xs @ m @ ys)" "xs = (False, 2) # xs'" "ys = ys' @ [(False, 2)]"
    and "\<forall>b \<in> set m'. 4 \<le> snd b" "no_adj m'" "m' \<noteq> []"
    and "fst (hd m') \<Longrightarrow> \<not> fst (last xs)" "fst (last m') \<Longrightarrow> \<not> fst (hd ys)"
  shows "blocks_ok (xs @ m' @ ys)"
proof -
  have "\<forall>b \<in> set xs' \<union> set ys'. 4 \<le> snd b" using assms(1-3) by (auto simp: blocks_ok_def)
  moreover have "no_adj xs" "no_adj ys" using assms(1) by (simp_all add: blocks_ok_def no_adj_append)
  moreover from this have "no_adj (xs @ m' @ ys)"
    using assms(5-8) by (auto simp: no_adj_append)
  ultimately show ?thesis
    using assms(2-4) unfolding blocks_ok_def
    by (intro conjI exI[of _ "xs' @ m' @ ys'"]) auto
qed

lemma blocks_ok_around:
  assumes "blocks_ok (xs @ (True, sz) # ys)" "xs \<noteq> []" "ys \<noteq> []"
  shows "\<not> fst (last xs)" "\<not> fst (hd ys)"
  using assms by (auto simp: blocks_ok_def no_adj_append no_adj_Cons)

lemma payload_no_links:
  "laid m a bs b \<Longrightarrow> x \<in> avails a bs \<Longrightarrow> (q, n) \<in> payloads a bs \<Longrightarrow> q \<le> k \<Longrightarrow> k < q + n \<Longrightarrow>
     k \<noteq> x + 1 \<and> k \<noteq> x + 2"
proof (induction m a bs b rule: laid.induct)
  case (2 m a av sz bs b)
  then have l: "laid m (a + sz) bs b" by simp
  from 2 avails_range[OF l, of x] payloads_range[OF l, of q n] show ?case
    by (auto split: if_splits)
qed simp

text \<open>
  A change confined to a stretch of blocks and to the links of the available blocks around it keeps
  the tags and the payloads of the blocks around it.
\<close>

lemma frame_around:
  assumes "laid (array h) 0 (xs @ mid @ ys) (heap_len h)" "total xs = p" "p + total mid = q"
    and "set F \<subseteq> avails 0 xs \<union> avails q ys" "only_changes (K \<union> links F) h h'" "K \<subseteq> {p..<q}"
  shows "laid (array h') 0 xs p \<and> laid (array h') q ys (heap_len h)
    \<and> (\<forall>(r, n) \<in> payloads 0 xs \<union> payloads q ys. \<forall>k. r \<le> k \<and> k < r + n \<longrightarrow> array h' k = array h k)"
proof -
  have lx: "laid (array h) 0 xs p" and lm: "laid (array h) p mid q" and ly: "laid (array h) q ys (heap_len h)"
    using assms(1-3) by (auto simp: laid_append)
  have pq: "p \<le> q" using laid_total[OF lm] by simp
  have "k \<notin> K \<union> links F" if "k \<in> tags 0 xs" for k
  proof -
    have "0 \<le> k" "k < p" using tags_range[OF lx that] by auto
    moreover have "k \<noteq> x + 1 \<and> k \<noteq> x + 2" if "x \<in> set F" for x
    proof (cases "x \<in> avails 0 xs")
      case True
      with avails_no_tags[OF lx True] \<open>k \<in> tags 0 xs\<close> show ?thesis by auto
    next
      case False
      with that assms(4) have "x \<in> avails q ys" by blast
      with avails_range[OF ly this] \<open>k < p\<close> pq show ?thesis by linarith
    qed
    ultimately show ?thesis using assms(6) by (auto simp: links_def)
  qed
  then have ux: "laid (array h') 0 xs p"
    using lx laid_cong[of 0 xs "array h'" "array h" p] assms(5) by (auto simp: only_changes_def)
  have "k \<notin> K \<union> links F" if "k \<in> tags q ys" for k
  proof -
    have "q \<le> k" using tags_range[OF ly that] by auto
    moreover have "k \<noteq> x + 1 \<and> k \<noteq> x + 2" if "x \<in> set F" for x
    proof (cases "x \<in> avails q ys")
      case True
      with avails_no_tags[OF ly True] \<open>k \<in> tags q ys\<close> show ?thesis by auto
    next
      case False
      with that assms(4) have "x \<in> avails 0 xs" by blast
      with avails_range[OF lx this] \<open>q \<le> k\<close> pq show ?thesis by linarith
    qed
    ultimately show ?thesis using assms(6) by (auto simp: links_def)
  qed
  then have uy: "laid (array h') q ys (heap_len h)"
    using ly laid_cong[of q ys "array h'" "array h" "heap_len h"] assms(5) by (auto simp: only_changes_def)
  have "array h' k = array h k"
    if "(r, n) \<in> payloads 0 xs \<union> payloads q ys" "r \<le> k" "k < r + n" for r n k
  proof -
    have "k < p \<or> q \<le> k"
      using that payloads_range[OF lx, of r n] payloads_range[OF ly, of r n] by auto
    moreover have "k \<noteq> x + 1 \<and> k \<noteq> x + 2" if "x \<in> set F" for x
    proof -
      consider "x \<in> avails 0 xs" "(r, n) \<in> payloads 0 xs" | "x \<in> avails q ys" "(r, n) \<in> payloads q ys"
        | "x \<in> avails 0 xs" "(r, n) \<in> payloads q ys" | "x \<in> avails q ys" "(r, n) \<in> payloads 0 xs"
        using \<open>x \<in> set F\<close> assms(4) \<open>(r, n) \<in> payloads 0 xs \<union> payloads q ys\<close> by blast
      then show ?thesis
      proof cases
        case 1
        with payload_no_links[OF lx] \<open>r \<le> k\<close> \<open>k < r + n\<close> show ?thesis by blast
      next
        case 2
        with payload_no_links[OF ly] \<open>r \<le> k\<close> \<open>k < r + n\<close> show ?thesis by blast
      next
        case 3
        with avails_range[OF lx 3(1)] payloads_range[OF ly 3(2)] \<open>r \<le> k\<close> pq show ?thesis by linarith
      next
        case 4
        with avails_range[OF ly 4(1)] payloads_range[OF lx 4(2)] \<open>k < r + n\<close> pq show ?thesis by linarith
      qed
    qed
    ultimately have "k \<notin> K \<union> links F" using assms(6) by (auto simp: links_def)
    then show ?thesis using assms(5) by (simp add: only_changes_def)
  qed
  with ux uy show ?thesis by blast
qed

end
