(* ===== verification/Allocator.thy ===== *)
theory Allocator
  imports Prelude
begin

text \<open>
  What a program may rely on in a word-granular heap, stated for any provider: \<open>live h P\<close> says
  that the heap is well formed and that exactly the stretches \<open>(q, n)\<close> of \<open>P\<close> (first word,
  number of words) are handed out. The client works with addresses and requested sizes only;
  the isolation of its blocks is proved once, here.
\<close>

definition words_for :: "u32 \<Rightarrow> int" where
  "words_for b = int ((unat b + 3) div 4)"

text \<open>
  One action of a client that holds the blocks \<open>C\<close>: allocate, free a block it holds or store to a
  word of one. Blocks for which \<open>protect\<close> holds are neither freed nor stored to.
\<close>

inductive client :: "(u32 \<Rightarrow> 'h \<Rightarrow> (int option \<times> 'h) option) \<Rightarrow> (int option \<Rightarrow> 'h \<Rightarrow> 'h option)
    \<Rightarrow> (int \<Rightarrow> int \<Rightarrow> 'h \<Rightarrow> 'h) \<Rightarrow> (int \<times> int \<Rightarrow> bool)
    \<Rightarrow> 'h \<times> (int \<times> int) set \<Rightarrow> 'h \<times> (int \<times> int) set \<Rightarrow> bool"
  for alloc release store protect where
  client_alloc: "b \<noteq> 0 \<Longrightarrow> unat b < 2 ^ 32 - 3 \<Longrightarrow> alloc b h = Some (Some q, h') \<Longrightarrow>
    client alloc release store protect (h, C) (h', insert (q, words_for b) C)"
| client_full: "b \<noteq> 0 \<Longrightarrow> unat b < 2 ^ 32 - 3 \<Longrightarrow> alloc b h = Some (None, h') \<Longrightarrow>
    client alloc release store protect (h, C) (h', C)"
| client_free: "(q, w) \<in> C \<Longrightarrow> \<not> protect (q, w) \<Longrightarrow> release (Some q) h = Some h' \<Longrightarrow>
    client alloc release store protect (h, C) (h', C - {(q, w)})"
| client_store: "(q, w) \<in> C \<Longrightarrow> \<not> protect (q, w) \<Longrightarrow> q \<le> k \<Longrightarrow> k < q + w \<Longrightarrow>
    client alloc release store protect (h, C) (store k v h, C)"

definition no_overlap :: "(int \<times> int) set \<Rightarrow> bool" where
  "no_overlap C \<longleftrightarrow> (\<forall>(q, w) \<in> C. \<forall>(q', w') \<in> C. (q, w) \<noteq> (q', w') \<longrightarrow> q + w \<le> q' \<or> q' + w' \<le> q)"

definition keeps :: "('h \<Rightarrow> int \<Rightarrow> int) \<Rightarrow> (int \<times> int) set \<Rightarrow> 'h \<Rightarrow> 'h \<Rightarrow> bool" where
  "keeps cell P h h' \<longleftrightarrow> (\<forall>(q, n) \<in> P. \<forall>k. q \<le> k \<and> k < q + n \<longrightarrow> cell h' k = cell h k)"

lemma keeps_trans: "keeps cell P h h' \<Longrightarrow> keeps cell P h' h'' \<Longrightarrow> keeps cell P h h''"
  by (fastforce simp: keeps_def)

lemma keeps_part: "keeps cell P h h' \<Longrightarrow> (r, m) \<in> P \<Longrightarrow> v \<le> m \<Longrightarrow> keeps cell {(r, v)} h h'"
  unfolding keeps_def by (drule (1) bspec) auto

lemma words_for_bound: "int (unat b) \<le> 4 * n \<Longrightarrow> words_for b \<le> n"
  unfolding words_for_def by presburger

locale allocator =
  fixes live :: "'h \<Rightarrow> (int \<times> int) set \<Rightarrow> bool"
    and cell :: "'h \<Rightarrow> int \<Rightarrow> int"
    and alloc :: "u32 \<Rightarrow> 'h \<Rightarrow> (int option \<times> 'h) option"
    and release :: "int option \<Rightarrow> 'h \<Rightarrow> 'h option"
    and store :: "int \<Rightarrow> int \<Rightarrow> 'h \<Rightarrow> 'h"
  assumes disjoint_law: "live h P \<Longrightarrow> (q, n) \<in> P \<Longrightarrow> (q', n') \<in> P \<Longrightarrow> (q, n) \<noteq> (q', n') \<Longrightarrow>
      0 \<le> n \<and> (q + n < q' \<or> q' + n' < q)"
    and alloc_law: "live h P \<Longrightarrow> b \<noteq> 0 \<Longrightarrow> unat b < 2 ^ 32 - 3 \<Longrightarrow>
      \<exists>r h'. alloc b h = Some (r, h') \<and> (case r of None \<Rightarrow> h' = h
        | Some q \<Rightarrow> \<exists>n. live h' (insert (q, n) P) \<and> (\<forall>m. (q, m) \<notin> P) \<and> int (unat b) \<le> 4 * n \<and> keeps cell P h h')"
    and release_law: "live h P \<Longrightarrow> (q, n) \<in> P \<Longrightarrow>
      \<exists>h'. release (Some q) h = Some h' \<and> live h' (P - {(q, n)}) \<and> keeps cell (P - {(q, n)}) h h'"
    and store_law: "live h P \<Longrightarrow> (q, n) \<in> P \<Longrightarrow> q \<le> k \<Longrightarrow> k < q + n \<Longrightarrow>
      live (store k v h) P \<and> cell (store k v h) = (cell h)(k := v)"
begin

text \<open>The blocks the client holds lie in the stretches that are handed out.\<close>

definition held :: "'h \<Rightarrow> (int \<times> int) set \<Rightarrow> bool" where
  "held h C \<longleftrightarrow> (\<exists>P. live h P \<and> (\<forall>(q, w) \<in> C. \<exists>n. (q, n) \<in> P \<and> w \<le> n)
     \<and> (\<forall>q w w'. (q, w) \<in> C \<longrightarrow> (q, w') \<in> C \<longrightarrow> w = w'))"

lemma held_start: "live h P \<Longrightarrow> held h {}"
  by (auto simp: held_def)

lemma held_no_overlap: "held h C \<Longrightarrow> no_overlap C"
proof -
  assume "held h C"
  then obtain P where P: "live h P" "\<forall>(q, w) \<in> C. \<exists>n. (q, n) \<in> P \<and> w \<le> n"
    and fn: "\<forall>q w w'. (q, w) \<in> C \<longrightarrow> (q, w') \<in> C \<longrightarrow> w = w'"
    unfolding held_def by blast
  have "q + w \<le> q' \<or> q' + w' \<le> q" if c: "(q, w) \<in> C" "(q', w') \<in> C" "(q, w) \<noteq> (q', w')" for q w q' w'
  proof -
    obtain n n' where n: "(q, n) \<in> P" "w \<le> n" "(q', n') \<in> P" "w' \<le> n'" using P(2) c(1,2) by blast
    have "q \<noteq> q'" using fn c by blast
    with disjoint_law[OF P(1) n(1,3)] n(2,4) show ?thesis by auto
  qed
  then show ?thesis unfolding no_overlap_def by blast
qed

lemma client_held:
  assumes "client alloc release store protect s s'" "held (fst s) (snd s)"
  shows "held (fst s') (snd s')
    \<and> (\<forall>blk \<in> snd s. protect blk \<longrightarrow> blk \<in> snd s' \<and> keeps cell {blk} (fst s) (fst s'))"
  using assms
proof (induction rule: client.induct)
  case (client_alloc b h q h' C)
  from client_alloc.prems obtain P where P: "live h P" "\<forall>(q, w) \<in> C. \<exists>n. (q, n) \<in> P \<and> w \<le> n"
    and fn: "\<forall>q w w'. (q, w) \<in> C \<longrightarrow> (q, w') \<in> C \<longrightarrow> w = w'"
    unfolding held_def by auto
  from alloc_law[OF P(1) client_alloc.hyps(1,2)] client_alloc.hyps(3)
  obtain n where n: "live h' (insert (q, n) P)" "\<forall>m. (q, m) \<notin> P" "int (unat b) \<le> 4 * n" "keeps cell P h h'"
    by auto
  have q: "(q, w) \<notin> C" for w using P(2) n(2) by blast
  have "held h' (insert (q, words_for b) C)"
    unfolding held_def
    by (rule exI[of _ "insert (q, n) P"]) (use n(1) P(2) fn q words_for_bound[OF n(3)] in blast)
  moreover have "keeps cell {blk} h h'" if "blk \<in> C" for blk
    using P(2) n(4) that unfolding keeps_def by fastforce
  ultimately show ?case by auto
next
  case (client_full b h h' C)
  from client_full.prems obtain P where P: "live h P" unfolding held_def by auto
  from alloc_law[OF P client_full.hyps(1,2)] client_full.hyps(3) have "h' = h" by auto
  with client_full.prems show ?case by (simp add: keeps_def)
next
  case (client_free q w C h h')
  from client_free.prems obtain P where P: "live h P" "\<forall>(q, w) \<in> C. \<exists>n. (q, n) \<in> P \<and> w \<le> n"
    and fn: "\<forall>q w w'. (q, w) \<in> C \<longrightarrow> (q, w') \<in> C \<longrightarrow> w = w'"
    unfolding held_def by auto
  obtain n where n: "(q, n) \<in> P" "w \<le> n" using P(2) client_free.hyps(1) by blast
  from release_law[OF P(1) n(1)] client_free.hyps(3)
  have h': "live h' (P - {(q, n)})" "keeps cell (P - {(q, n)}) h h'" by auto
  have other: "\<exists>m. (r, m) \<in> P - {(q, n)} \<and> v \<le> m" if "(r, v) \<in> C - {(q, w)}" for r v
  proof -
    have "r \<noteq> q" using fn client_free.hyps(1) that by blast
    with P(2) that show ?thesis by blast
  qed
  have "held h' (C - {(q, w)})"
    unfolding held_def by (rule exI[of _ "P - {(q, n)}"]) (use h'(1) other fn in blast)
  moreover have "keeps cell {blk} h h'" if "blk \<in> C - {(q, w)}" for blk
  proof -
    obtain r v where blk: "blk = (r, v)" by (metis surj_pair)
    then obtain m where "(r, m) \<in> P - {(q, n)}" "v \<le> m" using other \<open>blk \<in> C - {(q, w)}\<close> by blast
    then show ?thesis unfolding blk by (rule keeps_part[OF h'(2)])
  qed
  ultimately show ?case using client_free.hyps(2) by auto
next
  case (client_store q w C k h v)
  from client_store.prems obtain P where P: "live h P" "\<forall>(q, w) \<in> C. \<exists>n. (q, n) \<in> P \<and> w \<le> n"
    and fn: "\<forall>q w w'. (q, w) \<in> C \<longrightarrow> (q, w') \<in> C \<longrightarrow> w = w'"
    unfolding held_def by auto
  obtain n where n: "(q, n) \<in> P" "w \<le> n" using P(2) client_store.hyps(1) by blast
  have st: "live (store k v h) P" "cell (store k v h) = (cell h)(k := v)"
    using store_law[OF P(1) n(1) client_store.hyps(3)] client_store.hyps(4) n(2) by auto
  have "held (store k v h) C" unfolding held_def by (rule exI[of _ P]) (use st(1) P(2) fn in blast)
  moreover have "keeps cell {blk} h (store k v h)" if "blk \<in> C" "protect blk" for blk
  proof -
    obtain r u where blk: "blk = (r, u)" by (metis surj_pair)
    have "(r, u) \<noteq> (q, w)" using client_store.hyps(2) that blk by blast
    with held_no_overlap[OF \<open>held (store k v h) C\<close>] client_store.hyps(1,3,4) that blk
    have "\<not> (r \<le> k \<and> k < r + u)" unfolding no_overlap_def by fastforce
    then show ?thesis by (auto simp: keeps_def blk st(2))
  qed
  ultimately show ?case by auto
qed

lemma session_held:
  assumes "(client alloc release store protect)\<^sup>*\<^sup>* s s'" "held (fst s) (snd s)"
  shows "held (fst s') (snd s')
    \<and> (\<forall>blk \<in> snd s. protect blk \<longrightarrow> blk \<in> snd s' \<and> keeps cell {blk} (fst s) (fst s'))"
  using assms(1)
proof induction
  case base
  with assms(2) show ?case by (simp add: keeps_def)
next
  case (step t u)
  from client_held[OF step(2)] step(3) show ?case by (blast intro: keeps_trans)
qed

text \<open>Every call the client may make returns.\<close>

lemma held_total:
  assumes "held h C"
  shows "b \<noteq> 0 \<Longrightarrow> unat b < 2 ^ 32 - 3 \<Longrightarrow> \<exists>r h'. alloc b h = Some (r, h')"
    and "(q, w) \<in> C \<Longrightarrow> \<exists>h'. release (Some q) h = Some h'"
  using assms alloc_law release_law unfolding held_def by blast+

text \<open>Isolation of a block, over a session that starts on a fresh heap.\<close>

lemma isolation:
  assumes "live h0 P0" "(client alloc release store (\<lambda>_. False))\<^sup>*\<^sup>* (h0, {}) (h, C)"
    and "blk \<in> C" "(client alloc release store (\<lambda>b. b = blk))\<^sup>*\<^sup>* (h, C) (h', C')"
  shows "no_overlap C' \<and> blk \<in> C' \<and> keeps cell {blk} h h'"
proof -
  have "held h C" using session_held[OF assms(2)] held_start[OF assms(1)] by simp
  with session_held[OF assms(4)] assms(3) show ?thesis using held_no_overlap by auto
qed

lemma session_total:
  assumes "live h0 P0" "(client alloc release store protect)\<^sup>*\<^sup>* (h0, {}) (h, C)"
  shows "b \<noteq> 0 \<Longrightarrow> unat b < 2 ^ 32 - 3 \<Longrightarrow> \<exists>r h'. alloc b h = Some (r, h')"
    and "(q, w) \<in> C \<Longrightarrow> \<exists>h'. release (Some q) h = Some h'"
  using held_total session_held[OF assms(2)] held_start[OF assms(1)] by simp_all

end

end
