(* ===== verification/HeapOps.thy ===== *)
theory HeapOps
  imports HeapRep Allocator
begin

text \<open>
  The operations of the boundary-tag heap against its invariant: carving a block out of an available
  one, the first-fit search, freeing with coalescing, initialisation, and a store into a block the
  user holds. They make the allocator an instance of the interface \<open>allocator\<close>.
\<close>

definition carved :: "int \<Rightarrow> int \<Rightarrow> block list" where
  "carved ints sz = (if sz - ints \<ge> 4 then [(False, ints), (True, sz - ints)] else [(False, sz)])"

text \<open>The data of the taken blocks in \<open>P\<close> is the same in both heaps.\<close>

definition same_data :: "(int \<times> int) set \<Rightarrow> heap \<Rightarrow> heap \<Rightarrow> bool" where
  "same_data P h h' \<longleftrightarrow> (\<forall>(r, n) \<in> P. \<forall>k. r \<le> k \<and> k < r + n \<longrightarrow> array h' k = array h k)"

lemma sentinels:
  assumes "rep h (xs @ (av, sz) # ys) F" "av \<or> 0 < total xs \<and> total xs + sz < heap_len h"
  shows "\<exists>xs'. xs = (False, 2) # xs'" "\<exists>ys'. ys = ys' @ [(False, 2)]"
proof -
  obtain mid where mid: "xs @ (av, sz) # ys = (False, 2) # mid @ [(False, 2)]"
    and laid: "laid (array h) 0 (xs @ (av, sz) # ys) (heap_len h)"
    using assms(1) by (auto simp: rep_def blocks_ok_def)
  show "\<exists>xs'. xs = (False, 2) # xs'"
    using mid assms(2) by (cases xs) auto
  have "ys \<noteq> []"
  proof
    assume "ys = []"
    with mid have "av = False" by (cases mid rule: rev_cases; cases xs) auto
    with assms(2) laid \<open>ys = []\<close> show False by (auto simp: laid_append)
  qed
  with mid show "\<exists>ys'. ys = ys' @ [(False, 2)]"
    by (cases ys rule: rev_cases; cases xs) (auto simp: append_eq_Cons_conv)
qed

lemma avail_in_list:
  assumes "rep h (xs @ (True, sz) # ys) F" "p = total xs"
  obtains F1 F2 where "F = F1 @ p # F2" "set (F1 @ F2) = avails 0 xs \<union> avails (p + sz) ys"
proof -
  have set: "set F = avails 0 xs \<union> {p} \<union> avails (p + sz) ys" and d: "distinct F"
    and laid: "laid (array h) 0 (xs @ (True, sz) # ys) (heap_len h)"
    using assms by (auto simp: rep_def avails_append linked_def apart_def)
  from set obtain F1 F2 where F: "F = F1 @ p # F2" by (metis Un_iff insertI1 in_set_conv_decomp)
  have lx: "laid (array h) 0 xs p" and ly: "laid (array h) (p + sz) ys (heap_len h)" and sz: "4 \<le> sz"
    using laid assms(2) by (auto simp: laid_append)
  have "p \<notin> avails 0 xs" "p \<notin> avails (p + sz) ys"
    using avails_range[OF lx, of p] avails_range[OF ly, of p] sz by auto
  with set d F have "set (F1 @ F2) = avails 0 xs \<union> avails (p + sz) ys" by auto
  with F that show ?thesis by blast
qed

lemma carve_rep:
  assumes rep: "rep h (xs @ (True, sz) # ys) F" and p: "p = total xs" and ints: "4 \<le> ints" "ints \<le> sz"
  shows "\<exists>h' F'. carve p sz ints h = Some h' \<and> rep h' (xs @ carved ints sz @ ys) F'
    \<and> heap_len h' = heap_len h \<and> same_data (payloads 0 xs \<union> payloads (p + sz) ys) h h'"
proof -
  obtain F1 F2 where F: "F = F1 @ p # F2" and G: "set (F1 @ F2) = avails 0 xs \<union> avails (p + sz) ys"
    using avail_in_list[OF rep p] .
  let ?G = "F1 @ F2" and ?q = "p + sz"
  have laid: "laid (array h) 0 (xs @ [(True, sz)] @ ys) (heap_len h)" and lk: "linked h (F1 @ p # F2)"
    using rep F by (auto simp: rep_def)
  obtain xs' ys' where xs: "xs = (False, 2) # xs'" and ys: "ys = ys' @ [(False, 2)]"
    using sentinels[OF rep] by blast
  have lx: "laid (array h) 0 xs p" and ly: "laid (array h) ?q ys (heap_len h)"
    and hp: "array h p = sz" "array h (p + sz - 1) = sz"
    using laid p by (auto simp: laid_append)
  have p0: "0 < p" using xs p laid_total[OF lx] lx laid_total[of "array h" 2 xs' p] by simp
  have q: "?q \<le> heap_len h" using laid_total[OF ly] by simp
  have far: "\<forall>y \<in> set ?G. y + 4 \<le> p \<or> ?q \<le> y"
    unfolding G using avails_range[OF lx] avails_range[OF ly] by auto
  have nG: "k \<notin> links ?G" if "p \<le> k" "k < ?q" for k
  proof -
    have "k \<noteq> y + 1 \<and> k \<noteq> y + 2" if "y \<in> set ?G" for y
      using bspec[OF far that] \<open>p \<le> k\<close> \<open>k < ?q\<close> by linarith
    then show ?thesis by (auto simp: links_def)
  qed
  obtain h1 where h1: "remove_block p h = Some h1" "linked h1 ?G" "only_changes (links ?G) h h1"
    using remove_block_linked[OF lk] by blast
  have len1: "heap_len h1 = heap_len h" using h1(3) by (simp add: only_changes_def)
  have build: "rep h' (xs @ carved ints sz @ ys) F' \<and> heap_len h' = heap_len h
      \<and> same_data (payloads 0 xs \<union> payloads ?q ys) h h'"
    if "linked h' F'" "set F' = avails 0 xs \<union> avails p (carved ints sz) \<union> avails ?q ys"
      "only_changes (K \<union> links ?G) h h'" "K \<subseteq> {p..<?q}" "laid (array h') p (carved ints sz) ?q"
    for h' F' K
  proof -
    have t: "total [(True, sz)] = sz" "total (carved ints sz) = sz" by (simp_all add: carved_def)
    note fr = frame_around[OF laid p[symmetric] _ _ that(3,4), unfolded t, OF refl equalityD1[OF G]]
    have len: "heap_len h' = heap_len h" using that(3) by (simp add: only_changes_def)
    have "laid (array h') 0 (xs @ carved ints sz @ ys) (heap_len h')"
      using fr that(5) p t len by (simp add: laid_append)
    moreover have "set F' = avails 0 (xs @ carved ints sz @ ys)"
      using that(2) p t by (simp add: avails_append Un_assoc)
    moreover have "blocks_ok (xs @ carved ints sz @ ys)"
    proof (rule blocks_replace[OF _ xs ys])
      show "blocks_ok (xs @ [(True, sz)] @ ys)" using rep by (simp add: rep_def)
    qed (use rep ints blocks_ok_around[of xs sz ys] xs ys in \<open>auto simp: carved_def rep_def split: if_splits\<close>)
    ultimately show ?thesis
      using fr that(1) len by (simp add: rep_def same_data_def)
  qed
  show ?thesis
  proof (cases "sz - ints \<ge> 4")
    case True
    have arr1: "in_arr h1 p" "in_arr h1 (p + ints - 1)" "2 \<le> ints"
      using p0 q ints len1 by (auto simp: in_arr_def)
    define h2 where "h2 = h1\<lparr>array := (array h1)(p := - ints, p + ints - 1 := - ints)\<rparr>"
    have h2: "makeTaken p ints h1 = Some h2" using makeTaken_eq[OF arr1] by (simp add: h2_def)
    have c2: "only_changes {p, p + ints - 1} h1 h2" by (simp add: only_changes_def h2_def)
    have "linked h2 ?G"
    proof -
      have "dseg (array h2) 0 ?G 0 = dseg (array h1) 0 ?G 0"
        by (rule dseg_cong) (use nG[of p] nG[of "p + ints - 1"] ints in \<open>auto simp: h2_def\<close>)
      with h1(2) show ?thesis by (simp add: linked_def h2_def)
    qed
    moreover have "\<forall>y \<in> set ?G. y + 4 \<le> p + ints \<or> p + ints + (sz - ints) \<le> y"
    proof
      fix y assume "y \<in> set ?G"
      from bspec[OF far this] ints show "y + 4 \<le> p + ints \<or> p + ints + (sz - ints) \<le> y" by linarith
    qed
    ultimately obtain h3 where h3: "makeAvail (p + ints) (sz - ints) h2 = Some h3" "linked h3 ((p + ints) # ?G)"
      "array h3 (p + ints) = sz - ints" "array h3 (p + ints + (sz - ints) - 1) = sz - ints"
      "only_changes ({p + ints, p + ints + (sz - ints) - 1, p + ints + 1, p + ints + 2} \<union> links ?G) h2 h3"
      using makeAvail_linked[of h2 ?G "sz - ints" "p + ints"] True p0 ints q len1 by (auto simp: h2_def)
    have tag: "array h3 p = - ints" "array h3 (p + ints - 1) = - ints"
      using h3(5) nG[of p] nG[of "p + ints - 1"] ints True by (auto simp: only_changes_def h2_def)
    let ?K = "{p, p + ints - 1} \<union> {p + ints, p + ints + (sz - ints) - 1, p + ints + 1, p + ints + 2}"
    have "only_changes (?K \<union> links ?G) h h3"
      by (rule only_changes_mono[OF only_changes_trans[OF only_changes_trans[OF h1(3) c2] h3(5)]]) auto
    moreover have "?K \<subseteq> {p..<?q}" using ints True by auto
    moreover have "laid (array h3) p (carved ints sz) ?q"
      using tag h3(3,4) True ints by (simp add: carved_def)
    moreover have "set ((p + ints) # ?G) = avails 0 xs \<union> avails p (carved ints sz) \<union> avails ?q ys"
      using G True by (auto simp: carved_def)
    ultimately have "rep h3 (xs @ carved ints sz @ ys) ((p + ints) # ?G) \<and> heap_len h3 = heap_len h
      \<and> same_data (payloads 0 xs \<union> payloads ?q ys) h h3"
      using build[OF h3(2)] by blast
    moreover have "carve p sz ints h = Some h3"
      using True by (simp add: carve_def h1(1) h2 h3(1))
    ultimately show ?thesis by blast
  next
    case False
    have arr1: "in_arr h1 p" "in_arr h1 (p + sz - 1)" "2 \<le> sz"
      using p0 q ints len1 by (auto simp: in_arr_def)
    define h2 where "h2 = h1\<lparr>array := (array h1)(p := - sz, p + sz - 1 := - sz)\<rparr>"
    have h2: "makeTaken p sz h1 = Some h2" using makeTaken_eq[OF arr1] by (simp add: h2_def)
    have c2: "only_changes {p, p + sz - 1} h1 h2" by (simp add: only_changes_def h2_def)
    have "linked h2 ?G"
    proof -
      have "dseg (array h2) 0 ?G 0 = dseg (array h1) 0 ?G 0"
        by (rule dseg_cong) (use nG[of p] nG[of "p + sz - 1"] ints in \<open>auto simp: h2_def\<close>)
      with h1(2) show ?thesis by (simp add: linked_def h2_def)
    qed
    moreover have "only_changes ({p, p + sz - 1} \<union> links ?G) h h2"
      by (rule only_changes_mono[OF only_changes_trans[OF h1(3) c2]]) auto
    moreover have "{p, p + sz - 1} \<subseteq> {p..<?q}" using ints by auto
    moreover have "laid (array h2) p (carved ints sz) ?q"
      using False ints by (simp add: carved_def h2_def)
    moreover have "set ?G = avails 0 xs \<union> avails p (carved ints sz) \<union> avails ?q ys"
      using G False by (auto simp: carved_def)
    ultimately have "rep h2 (xs @ carved ints sz @ ys) ?G \<and> heap_len h2 = heap_len h
      \<and> same_data (payloads 0 xs \<union> payloads ?q ys) h h2"
      using build by blast
    moreover have "carve p sz ints h = Some h2"
      using False by (simp add: carve_def h1(1) h2)
    ultimately show ?thesis by blast
  qed
qed


subsection \<open>The search\<close>

lemma avail_block:
  assumes "laid m a bs b" "x \<in> avails a bs"
  shows "\<exists>xs sz ys. bs = xs @ (True, sz) # ys \<and> x = a + total xs"
  using assms
proof (induction m a bs b rule: laid.induct)
  case (2 m a av sz bs b)
  show ?case
  proof (cases "x \<in> avails (a + sz) bs")
    case True
    with 2 obtain xs sz' ys where "bs = xs @ (True, sz') # ys" "x = a + sz + total xs" by auto
    then show ?thesis by (intro exI[of _ "(av, sz) # xs"]) auto
  next
    case False
    with 2 have "x = a" "av" by (auto split: if_splits)
    then show ?thesis by (intro exI[of _ "[]"]) auto
  qed
qed simp

lemma listed_block:
  assumes "rep h bs F" "x \<in> set F"
  shows "\<exists>xs ys. bs = xs @ (True, array h x) # ys \<and> x = total xs \<and> 4 \<le> array h x \<and> in_arr h x"
proof -
  have l: "laid (array h) 0 bs (heap_len h)" and x: "x \<in> avails 0 bs" using assms by (auto simp: rep_def)
  from avail_block[OF l x] obtain xs sz ys where bs: "bs = xs @ (True, sz) # ys" "x = total xs" by auto
  with l have "sz = array h x" "4 \<le> sz" by (auto simp: laid_append)
  with bs avails_range[OF l x] show ?thesis by (auto simp: in_arr_def)
qed

lemma next1_listed:
  assumes "rep h bs F" "F = G @ x # H"
  shows "next1 h x = Some (first H 0)"
proof -
  have "0 < x" "x + 2 < heap_len h" "array h (x + 1) = first H 0"
    using assms by (auto simp: rep_def linked_def dseg_append)
  then show ?thesis by (simp add: next1_def in_arr_def)
qed

lemma first_zero: "rep h bs (G @ H) \<Longrightarrow> first H 0 = 0 \<longleftrightarrow> H = []"
  by (cases H) (auto simp: rep_def linked_def)

lemma first_fit_eq:
  assumes "rep h bs (G @ H)"
  shows "first_fit ints (first H 0) h =
    (case List.find (\<lambda>x. ints \<le> array h x) H of
       None \<Rightarrow> Some (None, h)
     | Some x \<Rightarrow> map_option (\<lambda>h'. (Some (x + 1), h')) (carve x (array h x) ints h))"
  using assms
proof (induction H arbitrary: G)
  case Nil
  then show ?case by (simp add: first_fit.simps)
next
  case (Cons x H)
  have x: "4 \<le> array h x" "in_arr h x" "x \<noteq> 0"
    using listed_block[OF Cons.prems, of x] first_zero[OF Cons.prems] by auto
  have nx: "next1 h x = Some (first H 0)" by (rule next1_listed[OF Cons.prems]) simp
  have "rep h bs ((G @ [x]) @ H)" using Cons.prems by simp
  note ih = Cons.IH[OF this]
  show ?case
    using x nx ih by (subst first_fit.simps) (simp add: isAvail_def size_of_def map_option_case split: option.splits)
qed

text \<open>A taken block of the user's part: its payload's first word and length.\<close>

definition user_payloads :: "block list \<Rightarrow> (int \<times> int) set" where
  "user_payloads bs = payloads 2 (butlast (tl bs))"

lemma user_payloads_split:
  assumes "xs = (False, 2) # xs'" "ys = ys' @ [(False, 2)]"
  shows "user_payloads (xs @ m @ ys) = payloads 2 xs' \<union> payloads (total xs) m \<union> payloads (total xs + total m) ys'"
proof -
  have "butlast (tl (xs @ m @ ys)) = xs' @ m @ ys'"
    using assms by (simp add: butlast_append)
  then show ?thesis using assms by (simp add: user_payloads_def payloads_append Un_assoc add.assoc)
qed

lemma ints_for_bounds: "4 \<le> ints_for bytes" "unat bytes < 2 ^ 32 - 3 \<Longrightarrow> int (unat bytes) \<le> 4 * (ints_for bytes - 2)"
proof -
  show "4 \<le> ints_for bytes" by (simp add: ints_for_def Let_def)
  assume b: "unat bytes < 2 ^ 32 - 3"
  have "unat ((bytes + 3) div 4 + 2) = (unat bytes + 3) div 4 + 2"
    using b by (simp add: unat_word_ariths unat_div)
  then have "uint ((bytes + 3) div 4 + 2) = int ((unat bytes + 3) div 4 + 2)" by (metis uint_nat)
  moreover have "(unat bytes + 3) div 4 + 2 < 2 ^ 31" using b by simp
  ultimately have s: "sint ((bytes + 3) div 4 + 2) = int ((unat bytes + 3) div 4 + 2)"
    by (simp add: sint_uint signed_take_bit_int_eq_self)
  obtain k where k: "(unat bytes + 3) div 4 = k" by blast
  then have "unat bytes \<le> 4 * k" by presburger
  moreover have "int (k + 2) \<le> ints_for bytes" by (simp add: ints_for_def Let_def s k)
  moreover have "int u \<le> 4 * (f - 2)" if "u \<le> 4 * k" "int (k + 2) \<le> f" for u k f
    using that by simp
  ultimately show "int (unat bytes) \<le> 4 * (ints_for bytes - 2)" by blast
qed

definition live :: "heap \<Rightarrow> (int \<times> int) set \<Rightarrow> bool" where
  "live h P \<longleftrightarrow> (\<exists>bs F. rep h bs F \<and> P = user_payloads bs)"

lemma carve_live:
  assumes rep: "rep h bs F" and x: "x \<in> set F" and ints: "4 \<le> ints" "ints \<le> array h x"
  shows "\<exists>h' n. carve x (array h x) ints h = Some h' \<and> live h' (insert (x + 1, n) (user_payloads bs))
    \<and> (\<forall>m. (x + 1, m) \<notin> user_payloads bs) \<and> ints - 2 \<le> n \<and> same_data (user_payloads bs) h h'"
proof -
  let ?sz = "array h x"
  obtain xs ys where bs: "bs = xs @ (True, ?sz) # ys" and p: "x = total xs"
    using listed_block[OF rep x] by blast
  note rep' = rep[unfolded bs]
  obtain xs' ys' where xs: "xs = (False, 2) # xs'" and ys: "ys = ys' @ [(False, 2)]"
    using sentinels[OF rep'] by blast
  obtain h' F' where c: "carve x ?sz ints h = Some h'" "rep h' (xs @ carved ints ?sz @ ys) F'"
    "same_data (payloads 0 xs \<union> payloads (x + ?sz) ys) h h'"
    using carve_rep[OF rep' p ints] by blast
  let ?n = "if ?sz - ints \<ge> 4 then ints - 2 else ?sz - 2"
  have t: "total (carved ints ?sz) = ?sz" "payloads x (carved ints ?sz) = {(x + 1, ?n)}"
    by (simp_all add: carved_def)
  have old: "user_payloads bs = payloads 2 xs' \<union> payloads (x + ?sz) ys'"
    using user_payloads_split[OF xs ys, of "[(True, ?sz)]"] by (simp add: bs p)
  have "user_payloads (xs @ carved ints ?sz @ ys) = insert (x + 1, ?n) (user_payloads bs)"
    unfolding user_payloads_split[OF xs ys] old using t by (simp add: p[symmetric])
  with c(2) have "live h' (insert (x + 1, ?n) (user_payloads bs))" unfolding live_def by metis
  moreover have sub: "user_payloads bs \<subseteq> payloads 0 xs \<union> payloads (x + ?sz) ys"
    unfolding old by (auto simp: xs ys payloads_append)
  moreover have "(x + 1, m) \<notin> user_payloads bs" for m
  proof
    assume "(x + 1, m) \<in> user_payloads bs"
    then have "(x + 1, m) \<in> payloads 0 xs \<union> payloads (x + ?sz) ys" using sub by blast
    moreover have "laid (array h) 0 xs x" "laid (array h) (x + ?sz) ys (heap_len h)" "4 \<le> ?sz"
      using rep' by (auto simp: rep_def laid_append p)
    ultimately show False
      using payloads_range[of "array h" 0 xs x "x + 1" m]
        payloads_range[of "array h" "x + ?sz" ys "heap_len h" "x + 1" m] by auto
  qed
  moreover have "ints - 2 \<le> ?n" using ints by simp
  ultimately show ?thesis using c(1,3) unfolding same_data_def by blast
qed

subsection \<open>Freeing\<close>

lemma maybe_remove:
  assumes "linked h F" "av \<Longrightarrow> x \<in> set F"
  shows "\<exists>h1 F1. (if av then remove_block x h else Some h) = Some h1 \<and> linked h1 F1
    \<and> set F1 = set F - (if av then {x} else {}) \<and> only_changes (links F) h h1"
proof (cases av)
  case True
  with assms obtain G H where F: "F = G @ x # H" by (metis in_set_conv_decomp)
  then obtain h1 where "remove_block x h = Some h1" "linked h1 (G @ H)" "only_changes (links (G @ H)) h h1"
    using remove_block_linked assms(1) by blast
  moreover have "x \<notin> set (G @ H)" using assms(1) F by (auto simp: linked_def apart_def)
  ultimately show ?thesis
    using True F by (intro exI[of _ h1] exI[of _ "G @ H"]) (auto intro: only_changes_mono)
next
  case False
  with assms(1) show ?thesis by (auto simp: only_changes_def)
qed

text \<open>
  Freeing block \<open>(False, sz)\<close> between the blocks \<open>(lav, ls)\<close> and \<open>(rav, rs)\<close>: what
  is available around it is merged.
\<close>

lemma free_rep:
  assumes rep: "rep h (xl @ [(lav, ls), (False, sz), (rav, rs)] @ yr) F"
    and p: "p = total xl + ls" and inner: "4 \<le> sz" "0 < p"
  defines "xs \<equiv> (if lav then xl else xl @ [(False, ls)])"
    and "m \<equiv> [(True, (if lav then ls else 0) + sz + (if rav then rs else 0))]"
    and "ys \<equiv> (if rav then yr else (False, rs) # yr)"
  shows "\<exists>h' F'. free (Some (p + 1)) h = Some h' \<and> linked h' F' \<and> laid (array h') 0 (xs @ m @ ys) (heap_len h')
    \<and> set F' = avails 0 (xs @ m @ ys) \<and> heap_len h' = heap_len h
    \<and> same_data (payloads 0 xs \<union> payloads (total xs + total m) ys) h h'"
proof -
  let ?l = "p - ls" and ?r = "p + sz"
  have laid: "laid (array h) 0 (xl @ [(lav, ls), (False, sz), (rav, rs)] @ yr) (heap_len h)"
    and lk: "linked h F" and setF: "set F = avails 0 (xl @ [(lav, ls), (False, sz), (rav, rs)] @ yr)"
    using rep by (auto simp: rep_def)
  have tx: "total xl = ?l" using p by simp
  have lx: "laid (array h) 0 xl ?l" and ly: "laid (array h) (?r + rs) yr (heap_len h)"
    and hl: "2 \<le> ls" "lav \<longrightarrow> 4 \<le> ls" "array h ?l = tag_of (lav, ls)" "array h (p - 1) = tag_of (lav, ls)"
    and hp: "array h p = - sz" "array h (?r - 1) = - sz"
    and hr: "2 \<le> rs" "rav \<longrightarrow> 4 \<le> rs" "array h ?r = tag_of (rav, rs)" "array h (?r + rs - 1) = tag_of (rav, rs)"
    using laid tx by (auto simp: laid_append)
  have l0: "0 \<le> ?l" using laid_total[OF lx] by simp
  have rlen: "?r + rs \<le> heap_len h" using laid_total[OF ly] by simp
  have arr: "in_arr h ?l" "in_arr h (p - 1)" "in_arr h p" "in_arr h (?r - 1)" "in_arr h ?r"
    using l0 rlen hl(1) hr(1) inner by (auto simp: in_arr_def)
  have reads: "isTaken h p = Some True" "size_of h p = Some sz" "left_block h p = Some ?l"
    "right_block h p = Some ?r" "isAvail h ?l = Some lav"
    using arr hl hp inner
    by (auto simp: isTaken_def size_of_def left_block_def headerFromFooter_def right_block_def isAvail_def)
  have setF': "set F = avails 0 xl \<union> (if lav then {?l} else {}) \<union> (if rav then {?r} else {}) \<union> avails (?r + rs) yr"
    unfolding setF using tx by (auto simp: avails_append)
  have inF: "lav \<Longrightarrow> ?l \<in> set F" "rav \<Longrightarrow> ?r \<in> set F" using setF' by auto
  have xlF: "avails 0 xl \<inter> {k. ?l \<le> k} = {}" "avails (?r + rs) yr \<inter> {k. k < ?r + rs} = {}"
    using avails_range[OF lx] avails_range[OF ly] by force+
  have tagF: "?l \<notin> links F" "?r \<notin> links F"
  proof -
    have "{?l, ?r} \<subseteq> tags 0 (xl @ [(lav, ls), (False, sz), (rav, rs)] @ yr)"
      using tx by (auto simp: tags_append)
    then show "?l \<notin> links F" "?r \<notin> links F"
      using avails_no_tags[OF laid] setF by (auto simp: links_def)
  qed
  obtain h1 F1 where h1: "(if lav then remove_block ?l h else Some h) = Some h1" "linked h1 F1"
    "set F1 = set F - (if lav then {?l} else {})" "only_changes (links F) h h1"
    using maybe_remove[OF lk inF(1)] by metis
  have r1: "array h1 ?l = array h ?l" "array h1 ?r = array h ?r" "heap_len h1 = heap_len h"
    using h1(4) tagF by (auto simp: only_changes_def)
  have "rav \<Longrightarrow> ?r \<in> set F1" using inF(2) h1(3) hl(1) inner by auto
  then obtain h2 F2 where h2: "(if rav then remove_block ?r h1 else Some h1) = Some h2" "linked h2 F2"
    "set F2 = set F1 - (if rav then {?r} else {})" "only_changes (links F1) h1 h2"
    using maybe_remove[OF h1(2), of rav ?r] by metis
  have "links F1 \<subseteq> links F" using h1(3) by (auto simp: links_def)
  with h2(4) have h2': "only_changes (links F) h1 h2" by (rule only_changes_mono)
  have r2: "array h2 ?r = array h ?r" "heap_len h2 = heap_len h"
    using h2' tagF r1 by (auto simp: only_changes_def)
  let ?i = "if lav then ?l else p"
  let ?s1 = "sz + (if lav then ls else 0)"
  let ?s2 = "?s1 + (if rav then rs else 0)"
  have step1: "(if lav then do { h1 \<leftarrow> remove_block ?l h; ls \<leftarrow> size_of h1 ?l; Some (?l, sz + ls, h1) }
      else Some (p, sz, h)) = Some (?i, ?s1, h1)"
  proof (cases lav)
    case True
    with h1(1) r1 hl arr(1) show ?thesis by (simp add: size_of_def in_arr_def rd_def)
  qed (use h1(1) in simp)
  have av_r: "isAvail h1 ?r = Some rav"
    using r1 hr arr(5) by (simp add: isAvail_def in_arr_def rd_def)
  have step2: "(if rav then do { h2 \<leftarrow> remove_block ?r h1; rs \<leftarrow> size_of h2 ?r; Some (?s1 + rs, h2) }
      else Some (?s1, h1)) = Some (?s2, h2)"
  proof (cases rav)
    case True
    with h2(1) r2 hr arr(5) show ?thesis by (simp add: size_of_def in_arr_def rd_def)
  qed (use h2(1) in simp)
  have setF2: "set F2 = avails 0 xl \<union> avails (?r + rs) yr"
    using h2(3) h1(3) setF' xlF hl(1) hr(1) inner by (auto split: if_splits)
  have far: "\<forall>y \<in> set F2. y + 4 \<le> ?i \<or> ?i + ?s2 \<le> y"
  proof
    fix y assume "y \<in> set F2"
    then consider "y \<in> avails 0 xl" | "y \<in> avails (?r + rs) yr" using setF2 by blast
    then show "y + 4 \<le> ?i \<or> ?i + ?s2 \<le> y"
      using avails_range[OF lx, of y] avails_range[OF ly, of y] hl(1) hr(1) by cases auto
  qed
  have i0: "0 < ?i"
  proof (cases lav)
    case True
    then have "?l \<in> set F" by (rule inF(1))
    with lk True show ?thesis by (auto simp: linked_def)
  qed (use inner in simp)
  have "4 \<le> ?s2" using inner hl(1) hr(1) by simp
  moreover have "?i + ?s2 \<le> heap_len h2" using rlen r2(2) hr(1) by auto
  ultimately obtain h3 where h3: "makeAvail ?i ?s2 h2 = Some h3" "linked h3 (?i # F2)"
    "array h3 ?i = ?s2" "array h3 (?i + ?s2 - 1) = ?s2"
    "only_changes ({?i, ?i + ?s2 - 1, ?i + 1, ?i + 2} \<union> links F2) h2 h3"
    using makeAvail_linked[OF h2(2) _ i0 _ far] by blast
  have run: "free (Some (p + 1)) h = Some h3"
    using inner reads av_r by (simp add: free_def step1 step2 h3(1) del: if_split)
  let ?mid = "(if lav then [(lav, ls)] else []) @ [(False, sz)] @ (if rav then [(rav, rs)] else [])"
  have laid': "laid (array h) 0 (xs @ ?mid @ ys) (heap_len h)"
    using laid by (cases lav; cases rav) (simp_all add: xs_def ys_def)
  have ti: "total xs = ?i" using tx by (simp add: xs_def)
  have tm: "?i + total ?mid = ?i + ?s2" by simp
  have avs: "avails 0 xs \<union> avails (?i + ?s2) ys = avails 0 xl \<union> avails (?r + rs) yr"
    using tx by (cases lav; cases rav) (simp_all add: xs_def ys_def avails_append add.assoc)
  let ?K = "{?i, ?i + ?s2 - 1, ?i + 1, ?i + 2} \<union> (if lav then {?l + 1, ?l + 2} else {}) \<union> (if rav then {?r + 1, ?r + 2} else {})"
  have "links F \<subseteq> ?K \<union> links F2"
    using setF' setF2 by (auto simp: links_def split: if_splits)
  then have chg: "only_changes (?K \<union> links F2) h h3"
    by (intro only_changes_mono[OF only_changes_trans[OF only_changes_trans[OF h1(4) h2'] h3(5)]]) auto
  have Kin: "?K \<subseteq> {?i..<?i + ?s2}" using inner hl(1,2) hr(1,2) by (auto split: if_splits)
  have "set F2 \<subseteq> avails 0 xs \<union> avails (?i + ?s2) ys" using setF2 avs by simp
  note fr0 = frame_around[OF laid' ti tm this chg Kin]
  have fr: "laid (array h3) 0 xs ?i \<and> laid (array h3) (?i + ?s2) ys (heap_len h)
      \<and> (\<forall>(r, n) \<in> payloads 0 xs \<union> payloads (?i + ?s2) ys. \<forall>k. r \<le> k \<and> k < r + n \<longrightarrow> array h3 k = array h k)"
    by (rule fr0)
  have len3: "heap_len h3 = heap_len h" using h3(5) r2(2) by (simp add: only_changes_def)
  have "laid (array h3) ?i m (?i + ?s2)"
    using h3(3,4) \<open>4 \<le> ?s2\<close> by (simp add: m_def add.commute add.left_commute)
  then have "laid (array h3) 0 (xs @ m @ ys) (heap_len h)"
    using fr by (simp add: laid_append ti m_def add.commute add.left_commute)
  moreover have tot: "total m = ?s2" by (simp add: m_def)
  moreover have "set (?i # F2) = avails 0 (xs @ m @ ys)"
  proof -
    have "set F2 = avails 0 xs \<union> avails (?i + ?s2) ys" by (simp only: setF2 avs)
    moreover have "avails ?i m = {?i}" by (simp add: m_def)
    moreover have "avails 0 (xs @ m @ ys) = avails 0 xs \<union> (avails ?i m \<union> avails (?i + ?s2) ys)"
      unfolding avails_append tot ti by simp
    ultimately show ?thesis by (auto simp del: if_split)
  qed
  moreover have "same_data (payloads 0 xs \<union> payloads (total xs + total m) ys) h h3"
    using fr unfolding same_data_def tot ti by blast
  moreover from calculation(1) have "laid (array h3) 0 (xs @ m @ ys) (heap_len h3)" by (simp only: len3)
  ultimately show ?thesis using run h3(2) len3 by blast
qed

lemma payload_block:
  assumes "laid m a bs b" "(q, n) \<in> payloads a bs"
  shows "\<exists>xs ys. bs = xs @ (False, n + 2) # ys \<and> q = a + total xs + 1"
  using assms
proof (induction m a bs b rule: laid.induct)
  case (2 m a av sz bs b)
  show ?case
  proof (cases "(q, n) \<in> payloads (a + sz) bs")
    case True
    with 2 obtain xs ys where "bs = xs @ (False, n + 2) # ys" "q = a + sz + total xs + 1" by auto
    then show ?thesis by (intro exI[of _ "(av, sz) # xs"] exI[of _ ys]) auto
  next
    case False
    with 2 have "q = a + 1" "n = sz - 2" "\<not> av" by (auto split: if_splits)
    then show ?thesis by (intro exI[of _ "[]"] exI[of _ bs]) auto
  qed
qed simp

text \<open>Freeing merges the block with its available neighbours, and no two available blocks touch.\<close>

definition merged :: "block list \<Rightarrow> block \<Rightarrow> int \<Rightarrow> block \<Rightarrow> block list \<Rightarrow> block list" where
  "merged xl bl sz br yr =
     (if fst bl then xl else xl @ [bl])
      @ [(True, (if fst bl then snd bl else 0) + sz + (if fst br then snd br else 0))]
      @ (if fst br then yr else br # yr)"

lemma free_merge:
  assumes rep: "rep h (xl @ [(lav, ls), (False, sz), (rav, rs)] @ yr) F"
    and p: "p = total xl + ls" and inner: "4 \<le> sz" "0 < p"
  defines "xs \<equiv> (if lav then xl else xl @ [(False, ls)])"
    and "m \<equiv> [(True, (if lav then ls else 0) + sz + (if rav then rs else 0))]"
    and "ys \<equiv> (if rav then yr else (False, rs) # yr)"
  shows "\<exists>h' F' xs' ys'. free (Some (p + 1)) h = Some h' \<and> rep h' (xs @ m @ ys) F'
    \<and> same_data (payloads 0 xs \<union> payloads (total xs + total m) ys) h h'
    \<and> xs = (False, 2) # xs' \<and> ys = ys' @ [(False, 2)] \<and> heap_len h' = heap_len h"
proof -
  let ?bs = "xl @ [(lav, ls), (False, sz), (rav, rs)] @ yr"
  have adj: "no_adj ?bs" and laid: "laid (array h) 0 ?bs (heap_len h)"
    using rep by (auto simp: rep_def blocks_ok_def)
  have "0 < total (xl @ [(lav, ls)]) \<and> total (xl @ [(lav, ls)]) + sz < heap_len h"
    using laid laid_total[of "array h" "total xl + ls + sz" "(rav, rs) # yr" "heap_len h"] inner p
    by (auto simp: laid_append dest: laid_total)
  with sentinels[of h "xl @ [(lav, ls)]" False sz "(rav, rs) # yr" F] rep
  obtain x' y' where sx: "xl @ [(lav, ls)] = (False, 2) # x'" and sy: "(rav, rs) # yr = y' @ [(False, 2)]"
    by auto
  let ?mid = "(if lav then [(lav, ls)] else []) @ [(False, sz)] @ (if rav then [(rav, rs)] else [])"
  have bs': "?bs = xs @ ?mid @ ys" by (simp add: xs_def ys_def)
  obtain h' F' where f: "free (Some (p + 1)) h = Some h'" "linked h' F'" "laid (array h') 0 (xs @ m @ ys) (heap_len h')"
    "set F' = avails 0 (xs @ m @ ys)" "heap_len h' = heap_len h"
    "same_data (payloads 0 xs \<union> payloads (total xs + total m) ys) h h'"
    using free_rep[OF rep p inner] unfolding xs_def m_def ys_def by metis
  have "\<exists>xs'. xs = (False, 2) # xs'"
    using sx by (cases xl) (auto simp: xs_def)
  then obtain xs' where xs': "xs = (False, 2) # xs'" ..
  have "\<exists>ys'. ys = ys' @ [(False, 2)]"
    using sy by (cases yr rule: rev_cases; cases y' rule: rev_cases) (auto simp: ys_def)
  then obtain ys' where ys': "ys = ys' @ [(False, 2)]" ..
  have "blocks_ok (xs @ m @ ys)"
  proof (rule blocks_replace[OF _ xs' ys'])
    show "blocks_ok (xs @ ?mid @ ys)" using rep bs' by (simp add: rep_def)
    have "4 \<le> (if lav then ls else 0) + sz + (if rav then rs else 0)"
      using inner laid by (auto simp: laid_append)
    then show "\<forall>b \<in> set m. 4 \<le> snd b" "no_adj m" "m \<noteq> []" by (simp_all add: m_def)
    show "\<not> fst (last xs)"
    proof (cases lav)
      case True
      with adj xs' show ?thesis by (simp add: no_adj_append xs_def)
    qed (simp add: xs_def)
    show "\<not> fst (hd ys)"
    proof (cases rav)
      case True
      with adj ys' show ?thesis by (auto simp: no_adj_append no_adj_Cons ys_def)
    qed (simp add: ys_def)
  qed
  with f xs' ys' show ?thesis by (auto simp: rep_def)
qed

lemma free_live:
  assumes "live h P" "(q, n) \<in> P"
  shows "\<exists>h'. free (Some q) h = Some h' \<and> live h' (P - {(q, n)}) \<and> same_data (P - {(q, n)}) h h'"
proof -
  obtain bs F where rep: "rep h bs F" and P: "P = user_payloads bs" using assms(1) by (auto simp: live_def)
  obtain mid where mid: "bs = (False, 2) # mid @ [(False, 2)]" "\<forall>b \<in> set mid. 4 \<le> snd b"
    and adj: "no_adj bs" and laid: "laid (array h) 0 bs (heap_len h)"
    using rep by (auto simp: rep_def blocks_ok_def)
  have "laid (array h) 2 mid (2 + total mid)" using laid mid(1) by (auto simp: laid_append)
  then obtain us vs where uv: "mid = us @ (False, n + 2) # vs" "q = 2 + total us + 1"
    using payload_block assms(2) by (fastforce simp: P user_payloads_def mid(1) butlast_append)
  obtain xl lav ls where l: "(False, 2) # us = xl @ [(lav, ls)]" by (metis list.discI rev_exhaust surj_pair)
  obtain yr rav rs where r: "vs @ [(False, 2)] = (rav, rs) # yr" by (metis Nil_is_append_conv list.exhaust not_Cons_self2 surj_pair)
  let ?sz = "n + 2"
  define p where "p = total xl + ls"
  have bs: "bs = xl @ [(lav, ls), (False, ?sz), (rav, rs)] @ yr"
    using mid(1) uv(1) l r by (metis append.assoc append_Cons append_Nil)
  have sz: "4 \<le> ?sz" using mid(2) uv(1) by auto
  have "total ((False, 2) # us) = total (xl @ [(lav, ls)])" by (simp only: l)
  then have qp: "q = p + 1" and p0: "0 < p" 
    using uv(2) laid_total[of "array h" 2 us "2 + total us"] \<open>laid (array h) 2 mid (2 + total mid)\<close> uv(1)
    by (auto simp: p_def laid_append)
  define xs where "xs = (if lav then xl else xl @ [(False, ls)])"
  define m where "m = [(True, (if lav then ls else 0) + ?sz + (if rav then rs else 0))]"
  define ys where "ys = (if rav then yr else (False, rs) # yr)"
  let ?mid = "(if lav then [(lav, ls)] else []) @ [(False, ?sz)] @ (if rav then [(rav, rs)] else [])"
  have bs': "bs = xs @ ?mid @ ys" by (simp add: bs xs_def ys_def)
  obtain h' F' xs' ys' where f: "free (Some q) h = Some h'" "rep h' (xs @ m @ ys) F'"
    "same_data (payloads 0 xs \<union> payloads (total xs + total m) ys) h h'"
    and xs': "xs = (False, 2) # xs'" and ys': "ys = ys' @ [(False, 2)]"
    using free_merge[OF rep[unfolded bs] p_def sz p0] unfolding qp xs_def m_def ys_def by metis
  note rep' = f(2)
  let ?Q = "payloads 2 xs' \<union> payloads (total xs + total m) ys'"
  have tm: "total ?mid = total m" by (simp add: m_def)
  have tx: "total xs = (if lav then p - ls else p)" by (simp add: xs_def p_def)
  have one: "payloads (total xs) ?mid = {(q, n)}" "payloads (total xs) m = {}"
    by (auto simp: tx qp m_def)
  have "P = ?Q \<union> {(q, n)}"
    unfolding P bs' user_payloads_split[OF xs' ys'] one tm by blast
  moreover have "(q, n) \<notin> ?Q"
  proof -
    have lx: "laid (array h) 0 xs (total xs)" and ly: "laid (array h) (total xs + total m) ys (heap_len h)"
      using laid unfolding bs' laid_append tm by simp_all
    have sub: "payloads 2 xs' \<subseteq> payloads 0 xs" "payloads (total xs + total m) ys' \<subseteq> payloads (total xs + total m) ys"
      by (auto simp: xs' ys' payloads_append)
    have "ls \<ge> 2" "rs \<ge> 2" using laid bs by (auto simp: laid_append)
    then have "total xs \<le> p" "q < total xs + total m"
      using sz by (auto simp: tx qp m_def)
    then show ?thesis
      using payloads_range[OF lx, of q n] payloads_range[OF ly, of q n] sub qp sz by force
  qed
  ultimately have PQ: "P - {(q, n)} = ?Q" by blast
  have "user_payloads (xs @ m @ ys) = ?Q"
    unfolding user_payloads_split[OF xs' ys'] one by simp
  with rep' have "live h' ?Q" unfolding live_def by metis
  moreover have "same_data ?Q h h'"
    using f(3) by (auto simp: same_data_def xs' ys' payloads_append)
  ultimately show ?thesis using f(1) by (auto simp: PQ)
qed

subsection \<open>Stores by the user\<close>

lemma payload_no_tags:
  "laid m a bs b \<Longrightarrow> (q, n) \<in> payloads a bs \<Longrightarrow> q \<le> k \<Longrightarrow> k < q + n \<Longrightarrow> k \<notin> tags a bs"
proof (induction m a bs b rule: laid.induct)
  case (2 m a av sz bs b)
  then have l: "laid m (a + sz) bs b" by simp
  from 2 tags_range[OF l, of k] payloads_range[OF l, of q n] show ?case
    by (auto split: if_splits)
qed simp

lemma user_payloads_sub: "rep h bs F \<Longrightarrow> user_payloads bs \<subseteq> payloads 0 bs"
  by (auto simp: rep_def blocks_ok_def user_payloads_def butlast_append payloads_append)

definition store_cell :: "int \<Rightarrow> int \<Rightarrow> heap \<Rightarrow> heap" where
  "store_cell k v h = h\<lparr>array := (array h)(k := v)\<rparr>"

lemma store_live:
  assumes "live h P" "(q, n) \<in> P" "q \<le> k" "k < q + n"
  shows "live (store_cell k v h) P \<and> array (store_cell k v h) = (array h)(k := v)"
proof -
  obtain bs F where rep: "rep h bs F" and P: "P = user_payloads bs" using assms(1) by (auto simp: live_def)
  then have l: "laid (array h) 0 bs (heap_len h)" and pl: "(q, n) \<in> payloads 0 bs" and F: "set F = avails 0 bs"
    using user_payloads_sub[OF rep] assms(2) by (auto simp: rep_def)
  have "k \<notin> tags 0 bs" by (rule payload_no_tags[OF l pl assms(3,4)])
  then have "laid ((array h)(k := v)) 0 bs (heap_len h)"
    using l laid_cong[of 0 bs "(array h)(k := v)" "array h"] by (metis fun_upd_other)
  moreover have "k \<notin> links F"
    using payload_no_links[OF l _ pl assms(3,4)] F by (auto simp: links_def)
  then have "dseg ((array h)(k := v)) 0 F 0 = dseg (array h) 0 F 0"
    by (intro dseg_cong) auto
  ultimately have "rep (store_cell k v h) bs F"
    using rep by (simp add: rep_def linked_def store_cell_def)
  then show ?thesis unfolding live_def P store_cell_def by auto
qed

lemma payloads_disjoint:
  "laid m a bs b \<Longrightarrow> (q, n) \<in> payloads a bs \<Longrightarrow> (q', n') \<in> payloads a bs \<Longrightarrow> (q, n) \<noteq> (q', n') \<Longrightarrow>
     0 \<le> n \<and> (q + n < q' \<or> q' + n' < q)"
proof (induction m a bs b rule: laid.induct)
  case (2 m a av sz bs b)
  then have l: "laid m (a + sz) bs b" by simp
  from 2 payloads_range[OF l, of q n] payloads_range[OF l, of q' n'] show ?case
    by (auto split: if_splits)
qed simp

lemma live_disjoint:
  assumes "live h P" "(q, n) \<in> P" "(q', n') \<in> P" "(q, n) \<noteq> (q', n')"
  shows "0 \<le> n \<and> (q + n < q' \<or> q' + n' < q)"
proof -
  obtain bs F where rep: "rep h bs F" and P: "P = user_payloads bs" using assms(1) by (auto simp: live_def)
  then have "laid (array h) 0 bs (heap_len h)" by (simp add: rep_def)
  from payloads_disjoint[OF this, of q n q' n'] assms(2-4) user_payloads_sub[OF rep] P show ?thesis by blast
qed

subsection \<open>Initialisation\<close>

lemma init_rep:
  assumes "8 \<le> heap_len h" "avail h = 0"
  shows "\<exists>h'. heap_init h = Some h' \<and> rep h' [(False, 2), (True, heap_len h - 4), (False, 2)] [2]
    \<and> heap_len h' = heap_len h"
proof -
  let ?n = "heap_len h"
  let ?h1 = "h\<lparr>array := (array h)(0 := - 2, 1 := - 2)\<rparr>"
  have t1: "makeTaken 0 2 h = Some ?h1"
    using makeTaken_eq[of h 0 2] assms(1) by (simp add: in_arr_def)
  have "linked ?h1 []" using assms(2) by (simp add: linked_def apart_def)
  from makeAvail_linked[OF this, of "?n - 4" 2] assms(1) obtain h2 where
    h2: "makeAvail 2 (?n - 4) ?h1 = Some h2" "linked h2 [2]" "array h2 2 = ?n - 4" "array h2 (?n - 3) = ?n - 4"
    "only_changes {2, ?n - 3, 3, 4} ?h1 h2" by auto
  then have len: "heap_len h2 = ?n" by (simp add: only_changes_def)
  let ?h3 = "h2\<lparr>array := (array h2)(?n - 2 := - 2, ?n - 1 := - 2)\<rparr>"
  have t3: "makeTaken (?n - 2) 2 h2 = Some ?h3"
    using makeTaken_eq[of h2 "?n - 2" 2] assms(1) len by (simp add: in_arr_def)
  have run: "heap_init h = Some ?h3"
    by (simp add: heap_init_def t1 h2(1) len t3)
  let ?bs = "[(False, 2), (True, ?n - 4), (False, 2)]"
  have "array h2 0 = - 2" "array h2 1 = - 2" using h2(5) assms(1) by (auto simp: only_changes_def)
  then have "laid (array ?h3) 0 ?bs ?n" using h2(3,4) assms(1) by auto
  moreover have "linked ?h3 [2]"
    using h2(2) assms(1) len by (auto simp: linked_def)
  moreover have "blocks_ok ?bs"
    unfolding blocks_ok_def using assms(1) by (intro conjI exI[of _ "[(True, ?n - 4)]"]) auto
  ultimately have "rep ?h3 ?bs [2]"
    unfolding rep_def by (simp add: len del: laid.simps)
  then show ?thesis using run len by auto
qed

lemma init_live:
  assumes "8 \<le> heap_len h" "avail h = 0"
  shows "\<exists>h'. heap_init h = Some h' \<and> live h' {} \<and> heap_len h' = heap_len h"
proof -
  have "user_payloads [(False, 2), (True, heap_len h - 4), (False, 2)] = {}" by (simp add: user_payloads_def)
  with init_rep[OF assms] show ?thesis unfolding live_def by metis
qed

subsection \<open>The first-fit allocator\<close>

lemma rep_nonzero: "rep h bs F \<Longrightarrow> first F 0 = avail h"
  by (simp add: rep_def linked_def)

lemma malloc_eq:
  assumes "rep h bs F" "bytes \<noteq> 0"
  shows "malloc bytes h =
    (case List.find (\<lambda>x. ints_for bytes \<le> array h x) F of
       None \<Rightarrow> Some (None, h)
     | Some x \<Rightarrow> map_option (\<lambda>h'. (Some (x + 1), h')) (carve x (array h x) (ints_for bytes) h))"
  using first_fit_eq[of h bs "[]" F "ints_for bytes"] assms rep_nonzero[OF assms(1)]
  by (simp add: malloc_def)

lemma find_listed: "List.find Q F = Some x \<Longrightarrow> x \<in> set F \<and> Q x"
  by (auto simp: find_Some_iff)

lemma same_data_keeps: "same_data P h h' = keeps array P h h'"
  by (simp add: same_data_def keeps_def)

lemma malloc_live:
  assumes "live h P" "b \<noteq> 0"
  shows "\<exists>r h'. malloc b h = Some (r, h') \<and> (case r of None \<Rightarrow> h' = h
    | Some q \<Rightarrow> \<exists>n. live h' (insert (q, n) P) \<and> (\<forall>m. (q, m) \<notin> P) \<and> ints_for b - 2 \<le> n \<and> keeps array P h h')"
proof -
  obtain bs F where rep: "rep h bs F" and P: "P = user_payloads bs" using assms(1) by (auto simp: live_def)
  note eq = malloc_eq[OF rep assms(2)]
  show ?thesis
  proof (cases "List.find (\<lambda>x. ints_for b \<le> array h x) F")
    case None
    then show ?thesis by (simp add: eq)
  next
    case (Some x)
    from find_listed[OF Some] have x: "x \<in> set F" "ints_for b \<le> array h x" by auto
    from carve_live[OF rep x(1) ints_for_bounds(1) x(2)] Some show ?thesis
      by (auto simp: eq P same_data_keeps)
  qed
qed

interpretation user_heap: allocator live array malloc free store_cell
proof
  show "0 \<le> n \<and> (q + n < q' \<or> q' + n' < q)"
    if "live h P" "(q, n) \<in> P" "(q', n') \<in> P" "(q, n) \<noteq> (q', n')" for h P q n q' n'
    by (rule live_disjoint[OF that])
  show "\<exists>r h'. malloc b h = Some (r, h') \<and> (case r of None \<Rightarrow> h' = h
      | Some q \<Rightarrow> \<exists>n. live h' (insert (q, n) P) \<and> (\<forall>m. (q, m) \<notin> P) \<and> int (unat b) \<le> 4 * n \<and> keeps array P h h')"
    if "live h P" "b \<noteq> 0" "unat b < 2 ^ 32 - 3" for h P b
    using malloc_live[OF that(1,2)] ints_for_bounds(2)[OF that(3)]
    by (fastforce split: option.splits)
  show "\<exists>h'. free (Some q) h = Some h' \<and> live h' (P - {(q, n)}) \<and> keeps array (P - {(q, n)}) h h'"
    if "live h P" "(q, n) \<in> P" for h P q n
    using free_live[OF that] by (simp add: same_data_keeps)
  show "live (store_cell k v h) P \<and> array (store_cell k v h) = (array h)(k := v)"
    if "live h P" "(q, n) \<in> P" "q \<le> k" "k < q + n" for h P q n k v
    by (rule store_live[OF that])
qed

end
