(* ===== verification/HeapProps.thy ===== *)
theory HeapProps
  imports HeapOps
begin

text \<open>
  What the user program's heap promises: sessions of a client from a fresh heap, first-fit
  allocation and coalescing on the list of blocks, and the two places where a request goes wrong.
\<close>

abbreviation user_client :: "(int \<times> int \<Rightarrow> bool) \<Rightarrow> heap \<times> (int \<times> int) set \<Rightarrow> heap \<times> (int \<times> int) set \<Rightarrow> bool" where
  "user_client \<equiv> client malloc free store_cell"

lemma static_live: "heap_init heap_static = Some h0 \<Longrightarrow> live h0 {}"
  using init_live[of heap_static] by (auto simp: heap_static_def INTS_def)

text \<open>The heap after initialisation, and one allocation of two words.\<close>

definition fresh :: heap where "fresh = the (heap_init heap_static)"

lemma fresh: "heap_init heap_static = Some fresh" "avail fresh = 2" "array fresh 2 = 0xFFFFC"
  "heap_len fresh = 0x100000" "array fresh 3 = 0" "array fresh 4 = 0"
  by (simp_all add: fresh_def heap_init_def heap_static_def makeTaken_def makeAvail_def wr_def
      footerFromHeader_def size_of_def rd_def INTS_def set_next_def set_prev_def)

lemmas heap_ops = malloc_def first_fit.simps isAvail_def size_of_def rd_def ints_for_def carve_def
  remove_block_def prev1_def next1_def makeTaken_def makeAvail_def wr_def footerFromHeader_def
  set_next_def set_prev_def

lemma malloc_fresh: "\<exists>h. malloc 8 fresh = Some (Some 3, h) \<and> avail h = 6 \<and> array h 6 = 0xFFFF8
    \<and> heap_len h = 0x100000 \<and> array h 7 = 0 \<and> array h 8 = 0"
  by (simp add: fresh heap_ops)

lemma malloc_second:
  assumes "avail h = 6" "array h 6 = 0xFFFF8" "heap_len h = 0x100000" "array h 7 = 0" "array h 8 = 0"
  shows "\<exists>h'. malloc 8 h = Some (Some 7, h')"
  using assms by (simp add: heap_ops)

text \<open>C5. Isolation. Start on the heap that \<open>heap_init\<close> builds and let the program allocate, free its
  own blocks and write inside them in any order. The blocks it holds never overlap, and a block it
  does not free or write keeps every word, whatever is allocated, freed or written around it.\<close>

theorem user_heap_isolation:
  assumes "heap_init heap_static = Some h0" "(user_client (\<lambda>_. False))\<^sup>*\<^sup>* (h0, {}) (h, C)"
    and "blk \<in> C" "(user_client (\<lambda>b. b = blk))\<^sup>*\<^sup>* (h, C) (h', C')"
  shows "no_overlap C' \<and> blk \<in> C' \<and> keeps array {blk} h h'"
  using user_heap.isolation[OF static_live[OF assms(1)] assms(2-4)] .

theorem user_heap_isolation_witness:
  "\<exists>h h'. (user_client (\<lambda>b. b = (3, 2)))\<^sup>*\<^sup>* (h, {(3, 2)}) (store_cell 8 5 h', {(7, 2), (3, 2)})
    \<and> no_overlap {(7, 2), (3, 2)} \<and> keeps array {(3, 2)} h (store_cell 8 5 h')"
proof -
  obtain h where h: "malloc 8 fresh = Some (Some 3, h)" "avail h = 6" "array h 6 = 0xFFFF8"
    "heap_len h = 0x100000" "array h 7 = 0" "array h 8 = 0" using malloc_fresh by blast
  obtain h' where h': "malloc 8 h = Some (Some 7, h')" using malloc_second[OF h(2-6)] by blast
  have w: "words_for 8 = 2" by (simp add: words_for_def)
  have a: "user_client (\<lambda>_. False) (fresh, {}) (h, {(3, 2)})"
    using client_alloc[of 8 malloc fresh 3 h free store_cell "\<lambda>_. False" "{}"] h(1) w by simp
  let ?p = "\<lambda>b. b = (3, 2)"
  have b: "user_client ?p (h, {(3, 2)}) (h', {(7, 2), (3, 2)})"
    using client_alloc[of 8 malloc h 7 h' free store_cell ?p "{(3, 2)}"] h' w by simp
  have c: "user_client ?p (h', {(7, 2), (3, 2)}) (store_cell 8 5 h', {(7, 2), (3, 2)})"
    by (rule client_store[of 7 2]) auto
  from b c have bc: "(user_client ?p)\<^sup>*\<^sup>* (h, {(3, 2)}) (store_cell 8 5 h', {(7, 2), (3, 2)})" by simp
  from user_heap_isolation[OF fresh(1) r_into_rtranclp[of "user_client (\<lambda>_. False)", OF a], of "(3, 2)", OF _ bc] bc
  show ?thesis by blast
qed

text \<open>C38. Every call returns. In any session from the fresh heap, \<open>malloc\<close> of a size up to
  \<open>2^32 - 4\<close> and \<open>free\<close> of a block the program holds come back without an access outside
  the array: the search through the list of available blocks ends.\<close>

theorem user_heap_total:
  assumes "heap_init heap_static = Some h0" "(user_client protect)\<^sup>*\<^sup>* (h0, {}) (h, C)"
  shows "(b \<noteq> 0 \<and> unat b < 2 ^ 32 - 3 \<longrightarrow> (\<exists>r h'. malloc b h = Some (r, h')))
    \<and> ((q, w) \<in> C \<longrightarrow> (\<exists>h'. free (Some q) h = Some h'))"
  using user_heap.session_total[OF static_live[OF assms(1)] assms(2)] by blast

theorem user_heap_total_witness:
  "\<exists>h. (user_client (\<lambda>_. False))\<^sup>*\<^sup>* (fresh, {}) (h, {(3, 2)})
    \<and> (\<exists>r h'. malloc 4096 h = Some (r, h')) \<and> (\<exists>h'. free (Some 3) h = Some h')"
proof -
  obtain h where h: "malloc 8 fresh = Some (Some 3, h)" using malloc_fresh by blast
  have "user_client (\<lambda>_. False) (fresh, {}) (h, {(3, 2)})"
    using client_alloc[of 8 malloc fresh 3 h free store_cell "\<lambda>_. False" "{}"] h by (simp add: words_for_def)
  note s = r_into_rtranclp[of "user_client (\<lambda>_. False)", OF this]
  from user_heap_total[OF fresh(1) s, of 4096 3 2] s show ?thesis by auto
qed

lemma malloc_rep:
  assumes "rep h bs F" "bytes \<noteq> 0"
  shows "case List.find (\<lambda>x. ints_for bytes \<le> array h x) F of
      None \<Rightarrow> malloc bytes h = Some (None, h)
    | Some x \<Rightarrow> \<exists>xs sz ys h' F'. bs = xs @ (True, sz) # ys \<and> x = total xs
        \<and> malloc bytes h = Some (Some (x + 1), h') \<and> rep h' (xs @ carved (ints_for bytes) sz @ ys) F'
        \<and> same_data (payloads 0 xs \<union> payloads (x + sz) ys) h h'"
proof (cases "List.find (\<lambda>x. ints_for bytes \<le> array h x) F")
  case (Some x)
  from find_listed[OF this] have x: "x \<in> set F" "ints_for bytes \<le> array h x" by auto
  obtain xs ys where bs: "bs = xs @ (True, array h x) # ys" "x = total xs"
    using listed_block[OF assms(1) x(1)] by blast
  from carve_rep[OF assms(1)[unfolded bs(1)] bs(2) ints_for_bounds(1) x(2)] obtain h' F' where
    "carve x (array h x) (ints_for bytes) h = Some h'" "rep h' (xs @ carved (ints_for bytes) (array h x) @ ys) F'"
    "same_data (payloads 0 xs \<union> payloads (x + array h x) ys) h h'" by blast
  with bs Some show ?thesis by (simp only: malloc_eq[OF assms] option.case option.map) blast
qed (simp add: malloc_eq[OF assms])

text \<open>C21. First fit on the abstract heap. If some available block is large enough, the first one in
  list order is taken: a remainder of at least four words is split off and stays available, otherwise
  the whole block goes; every other block and its data stay. If none is, the heap is unchanged
  and the null pointer is returned.\<close>

theorem malloc_first_fit:
  assumes "rep h bs F" "bytes \<noteq> 0"
  shows "case List.find (\<lambda>x. ints_for bytes \<le> array h x) F of
      None \<Rightarrow> malloc bytes h = Some (None, h)
    | Some x \<Rightarrow> \<exists>xs sz ys h' F'. bs = xs @ (True, sz) # ys \<and> x = total xs
        \<and> malloc bytes h = Some (Some (x + 1), h') \<and> rep h' (xs @ carved (ints_for bytes) sz @ ys) F'
        \<and> same_data (payloads 0 xs \<union> payloads (x + sz) ys) h h'"
  by (rule malloc_rep[OF assms])

lemma fresh_rep: "rep fresh [(False, 2), (True, 0xFFFFC), (False, 2)] [2]"
proof -
  have "array fresh 0 = - 2" "array fresh 1 = - 2" "array fresh 0xFFFFE = - 2" "array fresh 0xFFFFF = - 2"
    "array fresh 0xFFFFD = 0xFFFFC"
    by (simp_all add: fresh_def heap_init_def heap_static_def makeTaken_def makeAvail_def wr_def
        footerFromHeader_def size_of_def rd_def INTS_def set_next_def set_prev_def)
  then show ?thesis by (simp add: rep_def linked_def apart_def blocks_ok_def fresh)
qed

theorem malloc_first_fit_witness:
  "\<exists>h' F'. malloc 100 fresh = Some (Some 3, h')
    \<and> rep h' [(False, 2), (False, 27), (True, 0xFFFE1), (False, 2)] F'"
  using malloc_first_fit[OF fresh_rep, of 100]
  by (auto simp: fresh ints_for_def carved_def Cons_eq_append_conv)

lemma malloc_100:
  "\<exists>h' F'. malloc 100 fresh = Some (Some 3, h')
    \<and> rep h' [(False, 2), (False, 27), (True, 0xFFFE1), (False, 2)] F'"
  using malloc_rep[OF fresh_rep, of 100]
  by (auto simp: fresh ints_for_def carved_def Cons_eq_append_conv)

text \<open>Coalescing. Freeing a block merges it with the available neighbours on either side into one
  available block; the invariant, which forbids two available neighbours, holds again, and the
  data of all other taken blocks is untouched.\<close>

theorem free_coalesces:
  assumes "rep h (xl @ [(lav, ls), (False, sz), (rav, rs)] @ yr) F"
    and "q = total xl + ls + 1" "4 \<le> sz" "1 < q"
  shows "\<exists>h' F'. free (Some q) h = Some h' \<and> rep h' (merged xl (lav, ls) sz (rav, rs) yr) F'"
  using free_merge[OF assms(1) refl assms(3)] assms(2,4) unfolding merged_def by (auto split: if_splits)

theorem free_coalesces_witness:
  "\<exists>h h' F'. malloc 100 fresh = Some (Some 3, h) \<and> free (Some 3) h = Some h'
    \<and> rep h' [(False, 2), (True, 0xFFFFC), (False, 2)] F'"
proof -
  obtain h F where h: "malloc 100 fresh = Some (Some 3, h)"
    "rep h ([] @ [(False, 2), (False, 27), (True, 0xFFFE1)] @ [(False, 2)]) F" using malloc_100 by auto
  from free_coalesces[OF h(2), of 3] h(1) show ?thesis by (auto simp: merged_def)
qed

lemma malloc_wrapped:
  assumes "bytes \<in> {0xFFFFFFFD, 0xFFFFFFFE, 0xFFFFFFFF}"
  shows "\<exists>h' F'. malloc bytes fresh = Some (Some 3, h')
    \<and> rep h' [(False, 2), (False, 4), (True, 0xFFFF8), (False, 2)] F'"
proof -
  have "ints_for bytes = 4" "bytes \<noteq> 0" using assms by (auto simp: ints_for_def)
  with malloc_rep[OF fresh_rep, of bytes] show ?thesis
    by (auto simp: fresh carved_def Cons_eq_append_conv)
qed

text \<open>The size computation wraps. \<open>bytes + 3\<close> is computed in 32 bits, so a request for
  \<open>2^32 - 1\<close> bytes (like the two sizes below it) asks for the minimal block: on the fresh heap it
  succeeds and returns a block with room for two words.\<close>

theorem malloc_size_wraps:
  "\<exists>h' F'. malloc 0xFFFFFFFF fresh = Some (Some 3, h')
    \<and> rep h' [(False, 2), (False, 4), (True, 0xFFFF8), (False, 2)] F'"
  by (rule malloc_wrapped) simp

text \<open>A pointer from \<open>malloc(0)\<close> cannot be passed to \<open>realloc\<close>: the code knows it in
  \<open>free\<close> but not in \<open>realloc\<close>, which reads the header at \<open>array[-1]\<close>, outside the array.\<close>

lemma realloc_of_malloc_zero:
  "malloc 0 h = Some (Some 0, h) \<and> free (Some 0) h = Some h \<and> (n \<noteq> 0 \<longrightarrow> realloc (Some 0) n h = None)"
  by (auto simp: malloc_def free_def realloc_def isTaken_def rd_def)

text \<open>A \<open>realloc\<close> that finds no room gives the old block back: it returns the null pointer and
  the heap in which the caller's block is free, so the data the caller still points to is lost.\<close>

theorem realloc_failure_frees:
  assumes "live h P" "(q, w) \<in> P" "q \<noteq> 0" "n \<noteq> 0" "malloc n h = Some (None, h)"
  shows "\<exists>h'. realloc (Some q) n h = Some (None, h') \<and> free (Some q) h = Some h' \<and> live h' (P - {(q, w)})"
proof -
  obtain h' where h': "free (Some q) h = Some h'" "live h' (P - {(q, w)})"
    using free_live[OF assms(1,2)] by blast
  obtain bs F where rep: "rep h bs F" "P = user_payloads bs" using assms(1) by (auto simp: live_def)
  then obtain xs ys where "bs = xs @ (False, w + 2) # ys" "q = total xs + 1"
    using payload_block[of "array h" 0 bs "heap_len h" q w] user_payloads_sub[OF rep(1)] assms(2)
    by (auto simp: rep_def)
  then have "array h (q - 1) = - (w + 2)" "2 \<le> w + 2" "0 \<le> q - 1" "q - 1 < heap_len h"
    using rep(1) by (auto simp: rep_def laid_append dest!: laid_total)
  with h' assms(3-5) show ?thesis
    by (simp add: realloc_def isTaken_def size_of_def rd_def Let_def)
qed

theorem realloc_failure_frees_witness:
  "\<exists>h h'. malloc 100 fresh = Some (Some 3, h) \<and> realloc (Some 3) 0x1000000 h = Some (None, h')
    \<and> free (Some 3) h = Some h' \<and> live h' {}"
proof -
  let ?bs = "[(False, 2), (False, 27), (True, 0xFFFE1), (False, 2)]"
  obtain h F where h: "malloc 100 fresh = Some (Some 3, h)" "rep h ?bs F" using malloc_100 by auto
  have F: "\<forall>x \<in> set F. array h x = 0xFFFE1" using h(2) by (simp add: rep_def)
  have "List.find (\<lambda>x. 0x400002 \<le> array h x) F = None" using F by (simp add: find_None_iff)
  then have m: "malloc 0x1000000 h = Some (None, h)"
    using malloc_eq[OF h(2), where bytes = "0x1000000"] by (simp add: ints_for_def)
  have l: "live h {(3, 25)}"
    unfolding live_def by (rule exI[of _ ?bs], rule exI[of _ F]) (use h(2) in \<open>simp add: user_payloads_def\<close>)
  from realloc_failure_frees[OF l _ _ _ m] h(1) show ?thesis by simp
qed

end
