(* ===== verification/KernelHeap.thy ===== *)
theory KernelHeap
  imports HeapOps
begin

text \<open>
  The kernel's allocator \<open>kernel/heap.cc\<close>. Its statics are those of the user's heap (record
  \<open>heap\<close>, with \<open>safe\<close> off), its block format too; it differs in the panics, in the search (the
  best of the first twenty blocks that fit, not the first) and in the \<open>new\<close> and \<open>delete\<close>
  operators. \<open>None\<close> is a panic, an access outside the array or a search that does not end.
  Each operation runs under \<open>theLock\<close> and is one step here.
\<close>

definition kernel_size :: "heap \<Rightarrow> int \<Rightarrow> int option" where
  "kernel_size h i = do { v \<leftarrow> rd h i; Some (if v < 0 then - v else v) }"

definition kernel_headerFromFooter :: "heap \<Rightarrow> int \<Rightarrow> int option" where
  "kernel_headerFromFooter h i = do { s \<leftarrow> kernel_size h i; Some (i - s + 1) }"

definition kernel_footerFromHeader :: "heap \<Rightarrow> int \<Rightarrow> int option" where
  "kernel_footerFromHeader h i = do { s \<leftarrow> kernel_size h i; Some (i + s - 1) }"

definition kernel_sanity :: "heap \<Rightarrow> int \<Rightarrow> int option" where
  "kernel_sanity h i =
     (if safe h then
        if i = 0 then Some 0
        else if i < 0 \<or> i \<ge> heap_len h then None
        else do {
          footer \<leftarrow> kernel_footerFromHeader h i;
          if footer < 0 \<or> footer \<ge> heap_len h then None
          else do {
            hv \<leftarrow> rd h i;
            fv \<leftarrow> rd h footer;
            if hv \<noteq> fv then None else Some i
          }
        }
      else Some i)"

definition kernel_left :: "heap \<Rightarrow> int \<Rightarrow> int option" where
  "kernel_left h i = do { j \<leftarrow> kernel_headerFromFooter h (i - 1); kernel_sanity h j }"

definition kernel_right :: "heap \<Rightarrow> int \<Rightarrow> int option" where
  "kernel_right h i = do { s \<leftarrow> kernel_size h i; kernel_sanity h (i + s) }"

definition kernel_next :: "heap \<Rightarrow> int \<Rightarrow> int option" where
  "kernel_next h i = do { j \<leftarrow> rd h (i + 1); kernel_sanity h j }"

definition kernel_prev :: "heap \<Rightarrow> int \<Rightarrow> int option" where
  "kernel_prev h i = do { j \<leftarrow> rd h (i + 2); kernel_sanity h j }"

definition setNext :: "int \<Rightarrow> int \<Rightarrow> heap \<Rightarrow> heap option" where
  "setNext i x h = wr (i + 1) x h"

definition setPrev :: "int \<Rightarrow> int \<Rightarrow> heap \<Rightarrow> heap option" where
  "setPrev i x h = wr (i + 2) x h"

definition kernel_remove :: "int \<Rightarrow> heap \<Rightarrow> heap option" where
  "kernel_remove i h = do {
     prevIndex \<leftarrow> kernel_prev h i;
     nextIndex \<leftarrow> kernel_next h i;
     h1 \<leftarrow> (if prevIndex = 0 then Some (h\<lparr>avail := nextIndex\<rparr>) else setNext prevIndex nextIndex h);
     if nextIndex \<noteq> 0 then setPrev nextIndex prevIndex h1 else Some h1
   }"

definition kernel_makeAvail :: "int \<Rightarrow> int \<Rightarrow> heap \<Rightarrow> heap option" where
  "kernel_makeAvail i ints h = do {
     h1 \<leftarrow> wr i ints h;
     f \<leftarrow> kernel_footerFromHeader h1 i;
     h2 \<leftarrow> wr f ints h1;
     h3 \<leftarrow> setNext i (avail h2) h2;
     h4 \<leftarrow> setPrev i 0 h3;
     h5 \<leftarrow> (if avail h4 \<noteq> 0 then setPrev (avail h4) i h4 else Some h4);
     Some (h5\<lparr>avail := i\<rparr>)
   }"

definition kernel_makeTaken :: "int \<Rightarrow> int \<Rightarrow> heap \<Rightarrow> heap option" where
  "kernel_makeTaken i ints h = do {
     h1 \<leftarrow> wr i (- ints) h;
     f \<leftarrow> kernel_footerFromHeader h1 i;
     wr f (- ints) h1
   }"

definition kernel_isAvail :: "heap \<Rightarrow> int \<Rightarrow> bool option" where
  "kernel_isAvail h i = do { v \<leftarrow> rd h i; Some (v > 0) }"

definition kernel_isTaken :: "heap \<Rightarrow> int \<Rightarrow> bool option" where
  "kernel_isTaken h i = do { v \<leftarrow> rd h i; Some (v < 0) }"

definition kernel_ints :: "u32 \<Rightarrow> int" where
  "kernel_ints bytes = (let ints = sint ((bytes + 3) div 4 + 2) in if ints < 4 then 4 else ints)"

text \<open>The search: the smallest fitting size \<open>mx\<close> so far and the block \<open>it\<close> it was found at.\<close>

partial_function (option) kernel_search ::
    "int \<Rightarrow> nat \<Rightarrow> int \<Rightarrow> int \<Rightarrow> int \<Rightarrow> heap \<Rightarrow> (int \<times> int) option" where
  "kernel_search ints countDown p mx it h =
     (if p = 0 then Some (mx, it)
      else do {
        av \<leftarrow> kernel_isAvail h p;
        if \<not> av then None
        else do {
          sz \<leftarrow> kernel_size h p;
          if sz \<ge> ints then do {
            let (mx1, it1) = (if sz < mx then (sz, p) else (mx, it));
            if countDown - 1 = 0 then Some (mx1, it1)
            else do { q \<leftarrow> kernel_next h p; kernel_search ints (countDown - 1) q mx1 it1 h }
          } else do { q \<leftarrow> kernel_next h p; kernel_search ints countDown q mx it h }
        }
      })"

definition kernel_malloc :: "u32 \<Rightarrow> heap \<Rightarrow> (int option \<times> heap) option" where
  "kernel_malloc bytes h =
     (if bytes = 0 then Some (Some 0, h)
      else do {
        let ints = kernel_ints bytes;
        (mx, it) \<leftarrow> kernel_search ints 20 (avail h) 0x7FFFFFFF 0 h;
        if it \<noteq> 0 then do {
          h1 \<leftarrow> kernel_remove it h;
          let extra = mx - ints;
          h2 \<leftarrow> (if extra \<ge> 4
                then do { h2 \<leftarrow> kernel_makeTaken it ints h1; kernel_makeAvail (it + ints) extra h2 }
                else kernel_makeTaken it mx h1);
          Some (Some (it + 1), h2)
        } else Some (None, h)
      })"

definition kernel_free :: "int option \<Rightarrow> heap \<Rightarrow> heap option" where
  "kernel_free ptr h =
     (case ptr of
        None \<Rightarrow> Some h
      | Some q \<Rightarrow>
          if q = 0 then Some h
          else do {
            let idx = q - 1;
            _ \<leftarrow> kernel_sanity h idx;
            taken \<leftarrow> kernel_isTaken h idx;
            if \<not> taken then None
            else do {
              sz \<leftarrow> kernel_size h idx;
              leftIndex \<leftarrow> kernel_left h idx;
              rightIndex \<leftarrow> kernel_right h idx;
              la \<leftarrow> kernel_isAvail h leftIndex;
              (idx1, sz1, h1) \<leftarrow>
                (if la then do {
                   h1 \<leftarrow> kernel_remove leftIndex h;
                   ls \<leftarrow> kernel_size h1 leftIndex;
                   Some (leftIndex, sz + ls, h1)
                 } else Some (idx, sz, h));
              ra \<leftarrow> kernel_isAvail h1 rightIndex;
              (sz2, h2) \<leftarrow>
                (if ra then do {
                   h2 \<leftarrow> kernel_remove rightIndex h1;
                   rs \<leftarrow> kernel_size h2 rightIndex;
                   Some (sz1 + rs, h2)
                 } else Some (sz1, h1));
              kernel_makeAvail idx1 sz2 h2
            }
          })"

text \<open>The operators: \<open>new\<close> panics where \<open>malloc\<close> returns the null pointer.\<close>

definition operator_new :: "u32 \<Rightarrow> heap \<Rightarrow> (int \<times> heap) option" where
  "operator_new sz h = do {
     (p, h1) \<leftarrow> kernel_malloc sz h;
     case p of None \<Rightarrow> None | Some q \<Rightarrow> Some (q, h1)
   }"

definition operator_delete :: "int option \<Rightarrow> heap \<Rightarrow> heap option" where
  "operator_delete p h = kernel_free p h"

definition operator_delete_sized :: "int option \<Rightarrow> u32 \<Rightarrow> heap \<Rightarrow> heap option" where
  "operator_delete_sized p sz h = kernel_free p h"

definition operator_new_array :: "u32 \<Rightarrow> heap \<Rightarrow> (int \<times> heap) option" where
  "operator_new_array sz h = do {
     (p, h1) \<leftarrow> kernel_malloc sz h;
     case p of None \<Rightarrow> None | Some q \<Rightarrow> Some (q, h1)
   }"

definition operator_delete_array :: "int option \<Rightarrow> heap \<Rightarrow> heap option" where
  "operator_delete_array p h = kernel_free p h"

definition operator_delete_array_sized :: "int option \<Rightarrow> u32 \<Rightarrow> heap \<Rightarrow> heap option" where
  "operator_delete_array_sized p sz h = kernel_free p h"

text \<open>
  The memory at \<open>base\<close> has contents \<open>mem\<close>. \<open>lock_bytes\<close> is the size of a \<open>BlockingLock\<close> and
  \<open>ctor\<close> the words (offset, value) its constructor stores. The result is the heap and \<open>theLock\<close>.
\<close>

definition heapInit :: "u32 \<Rightarrow> (int \<times> int) list \<Rightarrow> (int \<Rightarrow> int) \<Rightarrow> u32 \<Rightarrow> (heap \<times> int) option" where
  "heapInit lock_bytes ctor mem bytes = do {
     let h = \<lparr>array = mem, heap_len = int (unat (bytes div 4)), safe = False, avail = 0\<rparr>;
     h1 \<leftarrow> kernel_makeTaken 0 2 h;
     h2 \<leftarrow> kernel_makeAvail 2 (heap_len h1 - 4) h1;
     h3 \<leftarrow> kernel_makeTaken (heap_len h2 - 2) 2 h2;
     (lk, h4) \<leftarrow> operator_new lock_bytes h3;
     Some (fold (\<lambda>(k, v). store_cell (lk + k) v) ctor h4, lk)
   }"

subsection \<open>The block operations are those of the user's heap\<close>

lemma kernel_prims:
  "kernel_size = size_of" "kernel_headerFromFooter = headerFromFooter" "kernel_footerFromHeader = footerFromHeader"
  "setNext = set_next" "setPrev = set_prev" "kernel_isAvail = isAvail" "kernel_isTaken = isTaken"
  "kernel_ints = ints_for" "kernel_makeTaken = makeTaken"
  by (intro ext; simp add: kernel_size_def size_of_def kernel_headerFromFooter_def headerFromFooter_def
      kernel_footerFromHeader_def footerFromHeader_def setNext_def set_next_def setPrev_def set_prev_def
      kernel_isAvail_def isAvail_def kernel_isTaken_def isTaken_def kernel_ints_def ints_for_def
      kernel_makeTaken_def makeTaken_def)+

lemma kernel_makeAvail: "kernel_makeAvail = makeAvail"
  by (intro ext) (simp only: kernel_makeAvail_def makeAvail_def kernel_prims)

lemma kernel_sanity [simp]: "\<not> safe h \<Longrightarrow> kernel_sanity h i = Some i"
  by (simp add: kernel_sanity_def)

lemma kernel_steps:
  assumes "\<not> safe h"
  shows "kernel_left h = left_block h" "kernel_right h = right_block h" "kernel_next h = next1 h"
    "kernel_prev h = prev1 h" "kernel_remove i h = remove_block i h"
proof -
  show s: "kernel_left h = left_block h" "kernel_right h = right_block h" "kernel_next h = next1 h"
    "kernel_prev h = prev1 h"
    using assms by (intro ext; simp add: kernel_left_def left_block_def kernel_right_def right_block_def
        kernel_next_def next1_def kernel_prev_def prev1_def kernel_prims)+
  show "kernel_remove i h = remove_block i h"
    by (simp only: kernel_remove_def remove_block_def s kernel_prims)
qed

lemma wr_safe: "wr i v h = Some h' \<Longrightarrow> safe h' = safe h"
  by (auto simp: wr_def split: if_splits)

lemma remove_safe: "remove_block i h = Some h' \<Longrightarrow> safe h' = safe h"
  by (auto simp: remove_block_def set_next_def set_prev_def dest!: wr_safe split: if_splits Option.bind_splits)

lemma makeTaken_safe: "makeTaken i n h = Some h' \<Longrightarrow> safe h' = safe h"
  by (auto simp: makeTaken_def dest!: wr_safe split: Option.bind_splits)

lemma makeAvail_safe: "makeAvail i n h = Some h' \<Longrightarrow> safe h' = safe h"
  by (auto simp: makeAvail_def set_next_def set_prev_def dest!: wr_safe split: if_splits Option.bind_splits)

lemma carve_safe: "carve p sz n h = Some h' \<Longrightarrow> safe h' = safe h"
  by (auto simp: carve_def Let_def dest!: remove_safe makeTaken_safe makeAvail_safe
      split: if_splits Option.bind_splits)

lemma free_safe: "free p h = Some h' \<Longrightarrow> safe h' = safe h"
  by (auto simp: free_def Let_def dest!: remove_safe makeAvail_safe
      split: if_splits Option.bind_splits option.splits)

lemma kernel_free_eq:
  assumes "\<not> safe h" "isTaken h (q - 1) = Some True"
  shows "kernel_free (Some q) h = free (Some q) h"
proof (cases "q = 0")
  case False
  have "safe h1 = safe h" if "remove_block l h = Some h1" for l h1 by (rule remove_safe[OF that])
  then show ?thesis
    using False assms
    by (simp add: kernel_free_def free_def kernel_prims kernel_makeAvail kernel_steps Let_def
        cong: Option.bind_cong)
      (auto simp: Let_def kernel_prims kernel_steps split: if_splits Option.bind_splits intro!: Option.bind_cong)
qed (simp add: kernel_free_def free_def)

subsection \<open>The search\<close>

definition better :: "(int \<Rightarrow> int) \<Rightarrow> int \<Rightarrow> int \<times> int \<Rightarrow> int \<times> int" where
  "better m x best = (if m x < fst best then (m x, x) else best)"

lemma fold_better:
  assumes "xs \<noteq> []" "\<forall>x \<in> set xs. m x < mx"
  shows "\<exists>us x vs. xs = us @ x # vs \<and> fold (better m) xs (mx, it) = (m x, x)
    \<and> (\<forall>u \<in> set us. m x < m u) \<and> (\<forall>v \<in> set vs. m x \<le> m v)"
  using assms
proof (induction xs rule: rev_nonempty_induct)
  case (single x)
  then show ?case by (intro exI[of _ "[]"] exI[of _ x]) (simp add: better_def)
next
  case (snoc y xs)
  have "\<forall>x \<in> set xs. m x < mx" using snoc.prems by simp
  from snoc.IH[OF this] obtain us x vs where ih: "xs = us @ x # vs" "fold (better m) xs (mx, it) = (m x, x)"
    "\<forall>u \<in> set us. m x < m u" "\<forall>v \<in> set vs. m x \<le> m v" by blast
  show ?case
  proof (cases "m y < m x")
    case True
    then have "\<forall>u \<in> set xs. m y < m u" using ih(1,3,4) by fastforce
    moreover have "fold (better m) (xs @ [y]) (mx, it) = (m y, y)" using ih(2) True by (simp add: better_def)
    ultimately show ?thesis by (intro exI[of _ xs] exI[of _ y] exI[of _ "[]"]) simp
  next
    case False
    then have "fold (better m) (xs @ [y]) (mx, it) = (m x, x)" using ih(2) by (simp add: better_def)
    moreover have "xs @ [y] = us @ x # (vs @ [y])" "\<forall>v \<in> set (vs @ [y]). m x \<le> m v"
      using False ih(1,4) by auto
    ultimately show ?thesis using ih(3) by blast
  qed
qed

lemma kernel_search_eq:
  assumes "rep h bs (G @ H)" "\<not> safe h" "0 < c"
  shows "kernel_search ints c (first H 0) mx it h
    = Some (fold (better (array h)) (take c (filter (\<lambda>x. ints \<le> array h x) H)) (mx, it))"
  using assms
proof (induction H arbitrary: G c mx it)
  case Nil
  then show ?case by (simp add: kernel_search.simps)
next
  case (Cons x H)
  have x: "x \<noteq> 0" "4 \<le> array h x" "in_arr h x"
    using listed_block[OF Cons.prems(1), of x] first_zero[OF Cons.prems(1)] by auto
  have nx: "kernel_next h x = Some (first H 0)"
    using next1_listed[OF Cons.prems(1) refl] kernel_steps(3)[OF Cons.prems(2)] by simp
  have rep': "rep h bs ((G @ [x]) @ H)" using Cons.prems(1) by simp
  note IH = Cons.IH[OF rep' Cons.prems(2)]
  obtain d where c: "c = Suc d" using Cons.prems(3) by (cases c) auto
  have b: "better (array h) x (mx, it) = (if array h x < mx then (array h x, x) else (mx, it))"
    by (simp add: better_def)
  show ?case
    using x nx IH Cons.prems(3) unfolding c
    by (subst kernel_search.simps)
      (auto simp: kernel_prims isAvail_def size_of_def b split: prod.splits)
qed

text \<open>The first twenty available blocks, in list order, that are large enough.\<close>

definition candidates :: "u32 \<Rightarrow> heap \<Rightarrow> int list \<Rightarrow> int list" where
  "candidates bytes h F = take 20 (filter (\<lambda>x. ints_for bytes \<le> array h x) F)"

lemma kernel_malloc_eq:
  assumes "rep h bs F" "\<not> safe h" "heap_len h < 0x7FFFFFFF" "bytes \<noteq> 0"
  shows "candidates bytes h F = [] \<and> kernel_malloc bytes h = Some (None, h)
    \<or> (\<exists>us x vs. candidates bytes h F = us @ x # vs \<and> (\<forall>u \<in> set us. array h x < array h u)
        \<and> (\<forall>v \<in> set vs. array h x \<le> array h v)
        \<and> kernel_malloc bytes h = map_option (\<lambda>h'. (Some (x + 1), h')) (carve x (array h x) (ints_for bytes) h))"
proof -
  let ?cs = "candidates bytes h F"
  have s: "kernel_search (ints_for bytes) 20 (avail h) 0x7FFFFFFF 0 h = Some (fold (better (array h)) ?cs (0x7FFFFFFF, 0))"
    using kernel_search_eq[of h bs "[]" F 20] assms rep_nonzero[OF assms(1)] by (simp add: candidates_def)
  show ?thesis
  proof (cases "?cs = []")
    case True
    then show ?thesis using s assms(4) by (simp add: kernel_malloc_def kernel_prims Let_def)
  next
    case False
    have lt: "\<forall>x \<in> set ?cs. array h x < 0x7FFFFFFF \<and> x \<noteq> 0"
    proof
      fix x assume "x \<in> set ?cs"
      then have "x \<in> set F" by (auto simp: candidates_def dest: in_set_takeD)
      from listed_block[OF assms(1) this] obtain xs ys
        where bs: "bs = xs @ (True, array h x) # ys" "x = total xs" by blast
      then have "laid (array h) 0 xs x" "laid (array h) (x + array h x) ys (heap_len h)" "x \<noteq> 0"
        using assms(1) \<open>x \<in> set F\<close> by (auto simp: rep_def laid_append linked_def)
      then show "array h x < 0x7FFFFFFF \<and> x \<noteq> 0" using assms(3) by (auto dest!: laid_total)
    qed
    with fold_better[OF False, of "array h" "0x7FFFFFFF" 0] obtain us x vs where
      best: "?cs = us @ x # vs" "fold (better (array h)) ?cs (0x7FFFFFFF, 0) = (array h x, x)"
      "\<forall>u \<in> set us. array h x < array h u" "\<forall>v \<in> set vs. array h x \<le> array h v" by auto
    have "x \<noteq> 0" using lt best(1) by auto
    then have "kernel_malloc bytes h = map_option (\<lambda>h'. (Some (x + 1), h')) (carve x (array h x) (ints_for bytes) h)"
      using s best(2) assms(2,4)
      by (cases "remove_block x h")
        (simp_all add: kernel_malloc_def kernel_prims kernel_makeAvail kernel_steps Let_def carve_def
          split: Option.bind_splits option.splits)
    with best show ?thesis by blast
  qed
qed

subsection \<open>The allocator interface\<close>

definition kernel_live :: "heap \<Rightarrow> (int \<times> int) set \<Rightarrow> bool" where
  "kernel_live h P \<longleftrightarrow> live h P \<and> \<not> safe h \<and> heap_len h < 0x7FFFFFFF"

lemma wr_len: "wr i v h = Some h' \<Longrightarrow> heap_len h' = heap_len h"
  by (auto simp: wr_def split: if_splits)

lemma remove_len: "remove_block i h = Some h' \<Longrightarrow> heap_len h' = heap_len h"
  by (auto simp: remove_block_def set_next_def set_prev_def dest!: wr_len split: if_splits Option.bind_splits)

lemma makeTaken_len: "makeTaken i n h = Some h' \<Longrightarrow> heap_len h' = heap_len h"
  by (auto simp: makeTaken_def dest!: wr_len split: Option.bind_splits)

lemma makeAvail_len: "makeAvail i n h = Some h' \<Longrightarrow> heap_len h' = heap_len h"
  by (auto simp: makeAvail_def set_next_def set_prev_def dest!: wr_len split: if_splits Option.bind_splits)

lemma carve_len: "carve p sz n h = Some h' \<Longrightarrow> heap_len h' = heap_len h"
  by (auto simp: carve_def Let_def dest!: remove_len makeTaken_len makeAvail_len
      split: if_splits Option.bind_splits)

lemma free_len: "free p h = Some h' \<Longrightarrow> heap_len h' = heap_len h"
  by (auto simp: free_def Let_def dest!: remove_len makeAvail_len
      split: if_splits Option.bind_splits option.splits)

lemma kernel_malloc_live:
  assumes "kernel_live h P" "b \<noteq> 0"
  shows "\<exists>r h'. kernel_malloc b h = Some (r, h') \<and> (case r of None \<Rightarrow> h' = h
    | Some q \<Rightarrow> \<exists>n. kernel_live h' (insert (q, n) P) \<and> (\<forall>m. (q, m) \<notin> P) \<and> ints_for b - 2 \<le> n \<and> keeps array P h h')"
proof -
  obtain bs F where rep: "rep h bs F" and P: "P = user_payloads bs" and k: "\<not> safe h" "heap_len h < 0x7FFFFFFF"
    using assms(1) by (auto simp: kernel_live_def live_def)
  from kernel_malloc_eq[OF rep k assms(2)] show ?thesis
  proof
    assume "\<exists>us x vs. candidates b h F = us @ x # vs \<and> (\<forall>u \<in> set us. array h x < array h u)
        \<and> (\<forall>v \<in> set vs. array h x \<le> array h v)
        \<and> kernel_malloc b h = map_option (\<lambda>h'. (Some (x + 1), h')) (carve x (array h x) (ints_for b) h)"
    then obtain x where x: "x \<in> set (candidates b h F)"
      and eq: "kernel_malloc b h = map_option (\<lambda>h'. (Some (x + 1), h')) (carve x (array h x) (ints_for b) h)"
      by (metis in_set_conv_decomp)
    from x have "x \<in> set F" "ints_for b \<le> array h x" by (auto simp: candidates_def dest: in_set_takeD)
    from carve_live[OF rep this(1) ints_for_bounds(1) this(2)] obtain h' n where
      h': "carve x (array h x) (ints_for b) h = Some h'" "live h' (insert (x + 1, n) (user_payloads bs))"
      "\<forall>m. (x + 1, m) \<notin> user_payloads bs" "ints_for b - 2 \<le> n" "same_data (user_payloads bs) h h'" by blast
    have "kernel_live h' (insert (x + 1, n) P)"
      using h'(2) k carve_safe[OF h'(1)] carve_len[OF h'(1)] by (simp add: kernel_live_def P)
    with h' eq show ?thesis by (auto simp: P same_data_keeps)
  qed (use k in auto)
qed

lemma kernel_free_live:
  assumes "kernel_live h P" "(q, n) \<in> P"
  shows "\<exists>h'. kernel_free (Some q) h = Some h' \<and> kernel_live h' (P - {(q, n)}) \<and> keeps array (P - {(q, n)}) h h'"
proof -
  have l: "live h P" and k: "\<not> safe h" "heap_len h < 0x7FFFFFFF" using assms(1) by (auto simp: kernel_live_def)
  obtain bs F where rep: "rep h bs F" "P = user_payloads bs" using l by (auto simp: live_def)
  then obtain xs ys where "bs = xs @ (False, n + 2) # ys" "q = total xs + 1"
    using payload_block[of "array h" 0 bs "heap_len h" q n] user_payloads_sub[OF rep(1)] assms(2)
    by (auto simp: rep_def)
  then have "array h (q - 1) = - (n + 2)" "2 \<le> n + 2" "0 \<le> q - 1" "q - 1 < heap_len h"
    using rep(1) by (auto simp: rep_def laid_append dest!: laid_total)
  then have "isTaken h (q - 1) = Some True" by (simp add: isTaken_def rd_def)
  note eq = kernel_free_eq[OF k(1) this]
  obtain h' where h': "free (Some q) h = Some h'" "live h' (P - {(q, n)})" "same_data (P - {(q, n)}) h h'"
    using free_live[OF l assms(2)] by blast
  with eq k free_safe[OF h'(1)] free_len[OF h'(1)] show ?thesis
    by (simp add: kernel_live_def same_data_keeps)
qed

interpretation kernel_heap: allocator kernel_live array kernel_malloc kernel_free store_cell
proof
  show "0 \<le> n \<and> (q + n < q' \<or> q' + n' < q)"
    if "kernel_live h P" "(q, n) \<in> P" "(q', n') \<in> P" "(q, n) \<noteq> (q', n')" for h P q n q' n'
    using live_disjoint[OF _ that(2-4), of h] that(1) by (simp add: kernel_live_def)
  show "\<exists>r h'. kernel_malloc b h = Some (r, h') \<and> (case r of None \<Rightarrow> h' = h
      | Some q \<Rightarrow> \<exists>n. kernel_live h' (insert (q, n) P) \<and> (\<forall>m. (q, m) \<notin> P) \<and> int (unat b) \<le> 4 * n \<and> keeps array P h h')"
    if "kernel_live h P" "b \<noteq> 0" "unat b < 2 ^ 32 - 3" for h P b
    using kernel_malloc_live[OF that(1,2)] ints_for_bounds(2)[OF that(3)]
    by (fastforce split: option.splits)
  show "\<exists>h'. kernel_free (Some q) h = Some h' \<and> kernel_live h' (P - {(q, n)}) \<and> keeps array (P - {(q, n)}) h h'"
    if "kernel_live h P" "(q, n) \<in> P" for h P q n
    by (rule kernel_free_live[OF that])
  show "kernel_live (store_cell k v h) P \<and> array (store_cell k v h) = (array h)(k := v)"
    if "kernel_live h P" "(q, n) \<in> P" "q \<le> k" "k < q + n" for h P q n k v
    using store_live[OF _ that(2-4), of h v] that(1) by (simp add: kernel_live_def store_cell_def)
qed

subsection \<open>Properties\<close>

text \<open>The kernel's search. Among the first twenty available blocks that are large enough,
  \<open>malloc\<close> takes the smallest, and the earliest of those of equal size; if there is none it returns the
  null pointer and changes nothing. So it is best fit over a window, not the first fit its comment names.\<close>

theorem kernel_malloc_best_fit:
  assumes "rep h bs F" "\<not> safe h" "heap_len h < 0x7FFFFFFF" "bytes \<noteq> 0"
  shows "candidates bytes h F = [] \<and> kernel_malloc bytes h = Some (None, h)
    \<or> (\<exists>us x vs h' bs' F'. candidates bytes h F = us @ x # vs \<and> (\<forall>u \<in> set us. array h x < array h u)
        \<and> (\<forall>v \<in> set vs. array h x \<le> array h v) \<and> kernel_malloc bytes h = Some (Some (x + 1), h') \<and> rep h' bs' F')"
proof -
  from kernel_malloc_eq[OF assms] show ?thesis
  proof
    assume "\<exists>us x vs. candidates bytes h F = us @ x # vs \<and> (\<forall>u \<in> set us. array h x < array h u)
        \<and> (\<forall>v \<in> set vs. array h x \<le> array h v)
        \<and> kernel_malloc bytes h = map_option (\<lambda>h'. (Some (x + 1), h')) (carve x (array h x) (ints_for bytes) h)"
    then obtain us x vs where c: "candidates bytes h F = us @ x # vs" "\<forall>u \<in> set us. array h x < array h u"
      "\<forall>v \<in> set vs. array h x \<le> array h v"
      and eq: "kernel_malloc bytes h = map_option (\<lambda>h'. (Some (x + 1), h')) (carve x (array h x) (ints_for bytes) h)"
      by blast
    have "x \<in> set (candidates bytes h F)" by (simp add: c(1))
    then have "x \<in> set F" "ints_for bytes \<le> array h x" by (auto simp: candidates_def dest: in_set_takeD)
    from carve_live[OF assms(1) this(1) ints_for_bounds(1) this(2)] c eq show ?thesis
      unfolding live_def by fastforce
  qed simp
qed

definition kernel_start :: heap where
  "kernel_start = \<lparr>array = (\<lambda>_. 0)(0 := - 2, 1 := - 2, 2 := 10, 11 := 10, 3 := 16, 4 := 0,
     12 := - 4, 15 := - 4, 16 := 6, 21 := 6, 17 := 0, 18 := 2, 22 := - 2, 23 := - 2), heap_len = 24, safe = False, avail = 2\<rparr>"

lemma kernel_start_rep: "rep kernel_start [(False, 2), (True, 10), (False, 4), (True, 6), (False, 2)] [2, 16]"
  by (simp add: kernel_start_def rep_def linked_def apart_def blocks_ok_def insert_commute)

theorem kernel_malloc_best_fit_witness:
  "\<exists>h'. kernel_malloc 16 kernel_start = Some (Some 17, h') \<and> malloc 16 kernel_start \<noteq> Some (Some 17, h')"
proof -
  have c: "candidates 16 kernel_start [2, 16] = [2, 16]"
    by (simp add: candidates_def kernel_start_def ints_for_def)
  have a: "array kernel_start 2 = 10" "array kernel_start 16 = 6" by (simp_all add: kernel_start_def)
  have m: "malloc 16 kernel_start \<noteq> Some (Some 17, h')" for h'
    using malloc_eq[OF kernel_start_rep, where bytes = 16] a
    by (auto simp: ints_for_def split: option.splits)
  from kernel_malloc_best_fit[OF kernel_start_rep, of 16]
  obtain us x vs h' where "[2, 16] = us @ x # vs" "\<forall>u \<in> set us. array kernel_start x < array kernel_start u"
    "\<forall>v \<in> set vs. array kernel_start x \<le> array kernel_start v"
    "kernel_malloc 16 kernel_start = Some (Some (x + 1), h')"
    unfolding c by (auto simp: kernel_start_def)
  then have "kernel_malloc 16 kernel_start = Some (Some 17, h')"
    using a by (auto simp: Cons_eq_append_conv append_eq_Cons_conv)
  with m show ?thesis by blast
qed

text \<open>C19. The kernel's blocks are isolated. From any well-formed kernel heap with nothing handed out,
  in every session of allocations, frees and stores the blocks held never overlap, and a block that is
  neither freed nor written keeps its contents.\<close>

theorem kernel_heap_isolation:
  assumes "kernel_live h0 P" "(client kernel_malloc kernel_free store_cell (\<lambda>_. False))\<^sup>*\<^sup>* (h0, {}) (h, C)"
    and "blk \<in> C" "(client kernel_malloc kernel_free store_cell (\<lambda>b. b = blk))\<^sup>*\<^sup>* (h, C) (h', C')"
  shows "no_overlap C' \<and> blk \<in> C' \<and> keeps array {blk} h h'"
  using kernel_heap.isolation[OF assms] .

theorem kernel_heap_isolation_witness:
  "\<exists>h. kernel_malloc 16 kernel_start = Some (Some 17, h) \<and> no_overlap {(17, 4)}"
proof -
  have c: "candidates 16 kernel_start [2, 16] = [2, 16]"
    by (simp add: candidates_def kernel_start_def ints_for_def)
  have l: "kernel_live kernel_start (user_payloads [(False, 2), (True, 10), (False, 4), (True, 6), (False, 2)])"
    using kernel_start_rep by (auto simp: kernel_live_def live_def kernel_start_def)
  have a: "array kernel_start 2 = 10" "array kernel_start 16 = 6" by (simp_all add: kernel_start_def)
  from kernel_malloc_live[OF l, of 16] kernel_malloc_eq[OF kernel_start_rep, where bytes = 16]
  obtain h where h: "kernel_malloc 16 kernel_start = Some (Some 17, h)"
    unfolding c using a
    by (auto simp: kernel_start_def Cons_eq_append_conv append_eq_Cons_conv split: option.splits)
  have "client kernel_malloc kernel_free store_cell (\<lambda>_. False) (kernel_start, {}) (h, {(17, 4)})"
    using client_alloc[of 16 kernel_malloc kernel_start 17 h kernel_free store_cell "\<lambda>_. False" "{}"] h
    by (simp add: words_for_def)
  note s = r_into_rtranclp[of "client kernel_malloc kernel_free store_cell (\<lambda>_. False)", OF this]
  from kernel_heap_isolation[OF l s, of "(17, 4)"] h show ?thesis by auto
qed

lemma stores_live:
  assumes "kernel_live h P" "(q, n) \<in> P" "\<forall>(k, v) \<in> set cs. 0 \<le> k \<and> k < n"
  shows "kernel_live (fold (\<lambda>(k, v). store_cell (q + k) v) cs h) P"
  using assms
proof (induction cs arbitrary: h)
  case (Cons c cs)
  obtain k v where c: "c = (k, v)" by fastforce
  have "live (store_cell (q + k) v h) P"
    using store_live[of h P q n "q + k" v] Cons.prems c by (simp add: kernel_live_def)
  then have "kernel_live (store_cell (q + k) v h) P"
    using Cons.prems(1) by (simp add: kernel_live_def store_cell_def)
  with Cons c show ?case by simp
qed simp

lemma heap_init_safe: "heap_init h = Some h' \<Longrightarrow> safe h' = safe h"
  by (auto simp: heap_init_def dest!: makeTaken_safe makeAvail_safe split: Option.bind_splits)

text \<open>Start-up. Given room for the lock beside the sentinels, \<open>heapInit\<close> ends with a well-formed heap, whatever
  the memory held before: the lock is its only block, right behind the first sentinel, and the
  constructor's stores stay inside it.\<close>

theorem heapInit_ready:
  assumes "lock_bytes \<noteq> 0" "ints_for lock_bytes + 4 \<le> int (unat (bytes div 4))"
    and "\<forall>(k, v) \<in> set ctor. 0 \<le> k \<and> k < ints_for lock_bytes - 2"
  shows "\<exists>h n. heapInit lock_bytes ctor mem bytes = Some (h, 3) \<and> kernel_live h {(3, n)} \<and> ints_for lock_bytes - 2 \<le> n"
proof -
  let ?len = "int (unat (bytes div 4))"
  let ?h = "\<lparr>array = mem, heap_len = ?len, safe = False, avail = 0\<rparr>"
  have "unat bytes < 2 ^ 32" using unsigned_less[of bytes, where 'a = nat] by simp
  then have "unat (bytes div 4) < 2 ^ 30" by (simp add: unat_div)
  then have "?len < int (2 ^ 30)" by (simp only: of_nat_less_iff)
  then have len: "8 \<le> ?len" "?len < 0x7FFFFFFF"
    using assms(2) ints_for_bounds(1)[of lock_bytes] by simp_all
  obtain h1 where h1: "heap_init ?h = Some h1" "rep h1 [(False, 2), (True, ?len - 4), (False, 2)] [2]"
    "heap_len h1 = ?len" using init_rep[of ?h] len by auto
  have safe: "\<not> safe h1" using heap_init_safe[OF h1(1)] by simp
  have a2: "array h1 2 = ?len - 4" using h1(2) by (simp add: rep_def)
  have c: "candidates lock_bytes h1 [2] = [2]" using assms(2) a2 by (simp add: candidates_def)
  have l: "kernel_live h1 {}"
    using h1(2,3) len safe by (auto simp: kernel_live_def live_def user_payloads_def)
  from kernel_malloc_eq[OF h1(2) safe _ assms(1)] c h1(3) len
  have "\<exists>h'. kernel_malloc lock_bytes h1 = Some (Some 3, h')"
    using kernel_malloc_live[OF l assms(1)] by (auto simp: Cons_eq_append_conv split: option.splits)
  then obtain h2 n where h2: "kernel_malloc lock_bytes h1 = Some (Some 3, h2)" "kernel_live h2 {(3, n)}"
    "ints_for lock_bytes - 2 \<le> n" using kernel_malloc_live[OF l assms(1)] by auto
  have "\<forall>(k, v) \<in> set ctor. 0 \<le> k \<and> k < n" using assms(3) h2(3) by fastforce
  from stores_live[OF h2(2) _ this, of 3] have "kernel_live (fold (\<lambda>(k, v). store_cell (3 + k) v) ctor h2) {(3, n)}"
    by simp
  moreover have "heapInit lock_bytes ctor mem bytes = Some (fold (\<lambda>(k, v). store_cell (3 + k) v) ctor h2, 3)"
    using h1(1) h2(1)
    by (auto simp: heapInit_def heap_init_def kernel_prims kernel_makeAvail operator_new_def Let_def
        split: Option.bind_splits)
  ultimately show ?thesis using h2(3) by blast
qed

theorem heapInit_ready_witness:
  "\<exists>h n. heapInit 32 [(0, 1), (1, 0), (7, 0)] (\<lambda>_. 77) 0x100000 = Some (h, 3) \<and> kernel_live h {(3, n)} \<and> 8 \<le> n"
  using heapInit_ready[of 32 "0x100000" "[(0, 1), (1, 0), (7, 0)]" "\<lambda>_. 77"] by (simp add: ints_for_def)

end
