(* ===== verification/Printf.thy ===== *)
theory Printf
  imports Prelude "HOL-Library.Monad_Syntax"
begin

text \<open>
  The user library's formatter \<open>tetris.dir/sbin/printf.c\<close>: the state machine \<open>dopr\<close> over the
  format string and its conversions. \<open>None\<close> is undefined behaviour (an argument that is missing or of the
  wrong kind, a read past the terminator, a negative digit index). The \<open>va_list\<close> is a list of
  promoted values; on this target an \<open>int\<close>, a \<open>long\<close> and a pointer are one 32-bit word. The x87
  operations of the floating-point conversion are the parameter \<open>fpu\<close>.
\<close>

datatype 'f arg = Word_arg u32 | Str_arg "string option" | Double_arg 'f | LongDouble_arg 'f

datatype dp_state = DP_S_DEFAULT | DP_S_FLAGS | DP_S_MIN | DP_S_DOT | DP_S_MAX | DP_S_MOD | DP_S_CONV | DP_S_DONE

definition DP_F_MINUS :: u32 where "DP_F_MINUS = push_bit 0 1"
definition DP_F_PLUS :: u32 where "DP_F_PLUS = push_bit 1 1"
definition DP_F_SPACE :: u32 where "DP_F_SPACE = push_bit 2 1"
definition DP_F_NUM :: u32 where "DP_F_NUM = push_bit 3 1"
definition DP_F_ZERO :: u32 where "DP_F_ZERO = push_bit 4 1"
definition DP_F_UP :: u32 where "DP_F_UP = push_bit 5 1"
definition DP_F_UNSIGNED :: u32 where "DP_F_UNSIGNED = push_bit 6 1"

definition DP_C_SHORT :: nat where "DP_C_SHORT = 1"
definition DP_C_LONG :: nat where "DP_C_LONG = 2"
definition DP_C_LDOUBLE :: nat where "DP_C_LDOUBLE = 3"

text \<open>
  The locals of \<open>dopr\<close>: the character just read, the rest of the format, the arguments left, width,
  precision and flags; \<open>out\<close> is what has been written to descriptor 1 and \<open>stores\<close> logs what \<open>%n\<close>
  stores (address, bytes, value).
\<close>

record 'f pf =
  pf_state :: dp_state
  pf_ch :: char
  pf_format :: string
  pf_args :: "'f arg list"
  pf_min :: int
  pf_max :: int
  pf_flags :: u32
  pf_cflags :: nat
  pf_currlen :: int
  pf_out :: string
  pf_stores :: "(u32 \<times> nat \<times> int) list"

definition has_flag :: "u32 \<Rightarrow> u32 \<Rightarrow> bool" where
  "has_flag flags f \<longleftrightarrow> flags AND f \<noteq> 0"

definition char_to_int :: "char \<Rightarrow> int" where
  "char_to_int p = of_char p - 48"

definition isdigit :: "char \<Rightarrow> bool" where
  "isdigit c \<longleftrightarrow> 48 \<le> (of_char c :: int) \<and> (of_char c :: int) \<le> 57"

definition putchar :: "char \<Rightarrow> 'f pf \<Rightarrow> 'f pf" where
  "putchar c s = s\<lparr>pf_out := pf_out s @ [c]\<rparr>"

definition dopr_outch :: "char \<Rightarrow> 'f pf \<Rightarrow> 'f pf" where
  "dopr_outch c s = putchar c (s\<lparr>pf_currlen := pf_currlen s + 1\<rparr>)"

subsection \<open>Strings\<close>

function fmtstr_spaces :: "int \<Rightarrow> int \<Rightarrow> int \<Rightarrow> 'f pf \<Rightarrow> int \<times> int \<times> 'f pf" where
  "fmtstr_spaces padlen cnt mx s =
     (if padlen > 0 \<and> cnt < mx then fmtstr_spaces (padlen - 1) (cnt + 1) mx (dopr_outch CHR '' '' s)
      else (padlen, cnt, s))"
  by auto
termination by (relation "measure (\<lambda>(p, _). nat p)") auto

fun fmtstr_value :: "string \<Rightarrow> int \<Rightarrow> int \<Rightarrow> 'f pf \<Rightarrow> int \<times> 'f pf" where
  "fmtstr_value [] cnt mx s = (cnt, s)"
| "fmtstr_value (c # cs) cnt mx s =
     (if cnt < mx then fmtstr_value cs (cnt + 1) mx (dopr_outch c s) else (cnt, s))"

function fmtstr_left :: "int \<Rightarrow> int \<Rightarrow> int \<Rightarrow> 'f pf \<Rightarrow> 'f pf" where
  "fmtstr_left padlen cnt mx s =
     (if padlen < 0 \<and> cnt < mx then fmtstr_left (padlen + 1) (cnt + 1) mx (dopr_outch CHR '' '' s) else s)"
  by auto
termination by (relation "measure (\<lambda>(p, _). nat (- p))") auto

definition fmtstr :: "string option \<Rightarrow> u32 \<Rightarrow> int \<Rightarrow> int \<Rightarrow> 'f pf \<Rightarrow> 'f pf" where
  "fmtstr value flags mn mx s =
     (let str = (case value of None \<Rightarrow> ''<NULL>'' | Some v \<Rightarrow> v);
          padlen = mn - int (length str);
          padlen = (if padlen < 0 then 0 else padlen);
          padlen = (if has_flag flags DP_F_MINUS then - padlen else padlen);
          (padlen, cnt, s) = fmtstr_spaces padlen 0 mx s;
          (cnt, s) = fmtstr_value str cnt mx s
      in fmtstr_left padlen cnt mx s)"

subsection \<open>Integers\<close>

definition digit_char :: "bool \<Rightarrow> nat \<Rightarrow> char" where
  "digit_char caps d = (if caps then ''0123456789ABCDEF'' else ''0123456789abcdef'') ! d"

text \<open>The digits, least significant first; \<open>place\<close> is the length of \<open>convert\<close>.\<close>

function fmtint_digits :: "u32 \<Rightarrow> u32 \<Rightarrow> bool \<Rightarrow> string \<Rightarrow> string" where
  "fmtint_digits uvalue base caps convert =
     (let convert = convert @ [digit_char caps (unat (uvalue mod base))];
          uvalue = uvalue div base
      in if uvalue \<noteq> 0 \<and> length convert < 20 then fmtint_digits uvalue base caps convert
         else if length convert = 20 then butlast convert else convert)"
  by auto
termination by (relation "measure (\<lambda>(_, _, _, cs). 20 - length cs)") auto

function outch_while_pos :: "char \<Rightarrow> int \<Rightarrow> 'f pf \<Rightarrow> int \<times> 'f pf" where
  "outch_while_pos c n s = (if n > 0 then outch_while_pos c (n - 1) (dopr_outch c s) else (n, s))"
  by auto
termination by (relation "measure (\<lambda>(_, n, _). nat n)") auto

function outch_while_neg :: "char \<Rightarrow> int \<Rightarrow> 'f pf \<Rightarrow> 'f pf" where
  "outch_while_neg c n s = (if n < 0 then outch_while_neg c (n + 1) (dopr_outch c s) else s)"
  by auto
termination by (relation "measure (\<lambda>(_, n, _). nat (- n))") auto

definition fmtint :: "u32 \<Rightarrow> u32 \<Rightarrow> int \<Rightarrow> int \<Rightarrow> u32 \<Rightarrow> 'f pf \<Rightarrow> 'f pf" where
  "fmtint value base mn mx flags s =
     (let mx = (if mx < 0 then 0 else mx);
          (signvalue, uvalue) =
            (if \<not> has_flag flags DP_F_UNSIGNED then
               if sint value < 0 then (Some CHR ''-'', - value)
               else if has_flag flags DP_F_PLUS then (Some CHR ''+'', value)
               else if has_flag flags DP_F_SPACE then (Some CHR '' '', value)
               else (None, value)
             else (None, value));
          caps = has_flag flags DP_F_UP;
          convert = fmtint_digits uvalue base caps [];
          place = int (length convert);
          zpadlen = mx - place;
          spadlen = mn - max mx place - (if signvalue \<noteq> None then 1 else 0);
          zpadlen = (if zpadlen < 0 then 0 else zpadlen);
          spadlen = (if spadlen < 0 then 0 else spadlen);
          (zpadlen, spadlen) = (if has_flag flags DP_F_ZERO then (max zpadlen spadlen, 0) else (zpadlen, spadlen));
          spadlen = (if has_flag flags DP_F_MINUS then - spadlen else spadlen);
          (spadlen, s) = outch_while_pos CHR '' '' spadlen s;
          s = (case signvalue of None \<Rightarrow> s | Some c \<Rightarrow> dopr_outch c s);
          (zpadlen, s) = outch_while_pos CHR ''0'' zpadlen s;
          s = fold dopr_outch (rev convert) s
      in outch_while_neg CHR '' '' spadlen s)"

subsection \<open>Floating point\<close>

record 'f fpu =
  fp_negative :: "'f \<Rightarrow> bool"
  fp_neg :: "'f \<Rightarrow> 'f"
  fp_mul :: "'f \<Rightarrow> 'f \<Rightarrow> 'f"
  fp_sub :: "'f \<Rightarrow> 'f \<Rightarrow> 'f"
  fp_of_long :: "int \<Rightarrow> 'f"
  fp_to_long :: "'f \<Rightarrow> int"
  fp_ge :: "'f \<Rightarrow> 'f \<Rightarrow> bool"
  fp_half :: 'f

definition abs_val :: "'f fpu \<Rightarrow> 'f \<Rightarrow> 'f" where
  "abs_val fpu value = (if fp_negative fpu value then fp_neg fpu value else value)"

text \<open>The loop \<open>while (exp)\<close> is only entered with \<open>0 \<le> exp \<le> 9\<close>.\<close>

fun pow10_loop :: "'f fpu \<Rightarrow> nat \<Rightarrow> 'f \<Rightarrow> 'f" where
  "pow10_loop fpu 0 result = result"
| "pow10_loop fpu (Suc exp) result = pow10_loop fpu exp (fp_mul fpu result (fp_of_long fpu 10))"

definition pow10 :: "'f fpu \<Rightarrow> int \<Rightarrow> 'f" where
  "pow10 fpu exp = pow10_loop fpu (nat exp) (fp_of_long fpu 1)"

definition xround :: "'f fpu \<Rightarrow> 'f \<Rightarrow> int" where
  "xround fpu value =
     (let intpart = fp_to_long fpu value;
          value = fp_sub fpu value (fp_of_long fpu intpart)
      in if fp_ge fpu value (fp_half fpu) then intpart + 1 else intpart)"

text \<open>C's \<open>%\<close> and \<open>/\<close> on a non-negative \<open>long\<close>; a negative one indexes outside the digit table.\<close>

function fp_digits :: "int \<Rightarrow> string \<Rightarrow> string option" where
  "fp_digits part convert =
     (if part < 0 then None
      else let convert = convert @ [digit_char False (nat (part mod 10))];
               part = part div 10
           in if part \<noteq> 0 \<and> length convert < 20 then fp_digits part convert
              else Some (if length convert = 20 then butlast convert else convert))"
  by auto
termination by (relation "measure (\<lambda>(_, cs). 20 - length cs)") auto

definition fmtfp_zeros :: "int \<Rightarrow> char option \<Rightarrow> u32 \<Rightarrow> 'f pf \<Rightarrow> int \<times> char option \<times> 'f pf" where
  "fmtfp_zeros padlen signvalue flags s =
     (if has_flag flags DP_F_ZERO \<and> padlen > 0 then
        let (padlen, s) = (case signvalue of None \<Rightarrow> (padlen, s) | Some c \<Rightarrow> (padlen - 1, dopr_outch c s));
            (padlen, s) = outch_while_pos CHR ''0'' padlen s
        in (padlen, None, s)
      else (padlen, signvalue, s))"

definition fmtfp_print :: "string \<Rightarrow> string \<Rightarrow> char option \<Rightarrow> int \<Rightarrow> int \<Rightarrow> u32 \<Rightarrow> 'f pf \<Rightarrow> 'f pf" where
  "fmtfp_print iconvert fconvert signvalue mn mx flags s =
     (let padlen = mn - int (length iconvert) - mx - 1 - (if signvalue \<noteq> None then 1 else 0);
          zpadlen = mx - int (length fconvert);
          zpadlen = (if zpadlen < 0 then 0 else zpadlen);
          padlen = (if padlen < 0 then 0 else padlen);
          padlen = (if has_flag flags DP_F_MINUS then - padlen else padlen);
          (padlen, signvalue, s) = fmtfp_zeros padlen signvalue flags s;
          (padlen, s) = outch_while_pos CHR '' '' padlen s;
          s = (case signvalue of None \<Rightarrow> s | Some c \<Rightarrow> dopr_outch c s);
          s = fold dopr_outch (rev iconvert) s;
          s = (if mx > 0 then fold dopr_outch (rev fconvert) (dopr_outch CHR ''.'' s) else s);
          (zpadlen, s) = outch_while_pos CHR ''0'' zpadlen s
      in outch_while_neg CHR '' '' padlen s)"

definition fmtfp :: "'f fpu \<Rightarrow> 'f \<Rightarrow> int \<Rightarrow> int \<Rightarrow> u32 \<Rightarrow> 'f pf \<Rightarrow> 'f pf option" where
  "fmtfp fpu fvalue mn mx flags s =
     (let mx = (if mx < 0 then 6 else mx);
          ufvalue = abs_val fpu fvalue;
          signvalue = (if fp_negative fpu fvalue then Some CHR ''-''
                       else if has_flag flags DP_F_PLUS then Some CHR ''+''
                       else if has_flag flags DP_F_SPACE then Some CHR '' '' else None);
          intpart = fp_to_long fpu ufvalue;
          mx = (if mx > 9 then 9 else mx);
          fracpart = xround fpu (fp_mul fpu (pow10 fpu mx) (fp_sub fpu ufvalue (fp_of_long fpu intpart)));
          (intpart, fracpart) =
            (if fp_ge fpu (fp_of_long fpu fracpart) (pow10 fpu mx)
             then (intpart + 1, fp_to_long fpu (fp_sub fpu (fp_of_long fpu fracpart) (pow10 fpu mx)))
             else (intpart, fracpart))
      in do {
        iconvert \<leftarrow> fp_digits intpart [];
        fconvert \<leftarrow> fp_digits fracpart [];
        Some (fmtfp_print iconvert fconvert signvalue mn mx flags s)
      })"

subsection \<open>The state machine\<close>

definition fetch :: "'f pf \<Rightarrow> 'f pf option" where
  "fetch s = (case pf_format s of [] \<Rightarrow> None | c # cs \<Rightarrow> Some (s\<lparr>pf_ch := c, pf_format := cs\<rparr>))"

definition va_word :: "'f pf \<Rightarrow> (u32 \<times> 'f pf) option" where
  "va_word s = (case pf_args s of Word_arg w # as \<Rightarrow> Some (w, s\<lparr>pf_args := as\<rparr>) | _ \<Rightarrow> None)"

definition va_str :: "'f pf \<Rightarrow> (string option \<times> 'f pf) option" where
  "va_str s = (case pf_args s of Str_arg v # as \<Rightarrow> Some (v, s\<lparr>pf_args := as\<rparr>) | _ \<Rightarrow> None)"

definition va_double :: "'f pf \<Rightarrow> ('f \<times> 'f pf) option" where
  "va_double s = (case pf_args s of Double_arg v # as \<Rightarrow> Some (v, s\<lparr>pf_args := as\<rparr>) | _ \<Rightarrow> None)"

definition va_ldouble :: "'f pf \<Rightarrow> ('f \<times> 'f pf) option" where
  "va_ldouble s = (case pf_args s of LongDouble_arg v # as \<Rightarrow> Some (v, s\<lparr>pf_args := as\<rparr>) | _ \<Rightarrow> None)"

definition dopr_default :: "'f pf \<Rightarrow> 'f pf option" where
  "dopr_default s =
     (if pf_ch s = CHR ''%'' then fetch (s\<lparr>pf_state := DP_S_FLAGS\<rparr>)
      else fetch (dopr_outch (pf_ch s) s))"

definition set_flag :: "u32 \<Rightarrow> 'f pf \<Rightarrow> 'f pf" where
  "set_flag f s = s\<lparr>pf_flags := pf_flags s OR f\<rparr>"

definition dopr_flags :: "'f pf \<Rightarrow> 'f pf option" where
  "dopr_flags s =
     (if pf_ch s = CHR ''-'' then fetch (set_flag DP_F_MINUS s)
      else if pf_ch s = CHR ''+'' then fetch (set_flag DP_F_PLUS s)
      else if pf_ch s = CHR '' '' then fetch (set_flag DP_F_SPACE s)
      else if pf_ch s = CHR ''#'' then fetch (set_flag DP_F_NUM s)
      else if pf_ch s = CHR ''0'' then fetch (set_flag DP_F_ZERO s)
      else Some (s\<lparr>pf_state := DP_S_MIN\<rparr>))"

definition dopr_min :: "'f pf \<Rightarrow> 'f pf option" where
  "dopr_min s =
     (if isdigit (pf_ch s) then fetch (s\<lparr>pf_min := 10 * pf_min s + char_to_int (pf_ch s)\<rparr>)
      else if pf_ch s = CHR ''*'' then do {
        (w, s) \<leftarrow> va_word s;
        s \<leftarrow> fetch (s\<lparr>pf_min := sint w\<rparr>);
        Some (s\<lparr>pf_state := DP_S_DOT\<rparr>)
      }
      else Some (s\<lparr>pf_state := DP_S_DOT\<rparr>))"

definition dopr_dot :: "'f pf \<Rightarrow> 'f pf option" where
  "dopr_dot s =
     (if pf_ch s = CHR ''.'' then fetch (s\<lparr>pf_state := DP_S_MAX\<rparr>)
      else Some (s\<lparr>pf_state := DP_S_MOD\<rparr>))"

definition dopr_max :: "'f pf \<Rightarrow> 'f pf option" where
  "dopr_max s =
     (if isdigit (pf_ch s) then
        (let mx = (if pf_max s < 0 then 0 else pf_max s)
         in fetch (s\<lparr>pf_max := 10 * mx + char_to_int (pf_ch s)\<rparr>))
      else if pf_ch s = CHR ''*'' then do {
        (w, s) \<leftarrow> va_word s;
        s \<leftarrow> fetch (s\<lparr>pf_max := sint w\<rparr>);
        Some (s\<lparr>pf_state := DP_S_MOD\<rparr>)
      }
      else Some (s\<lparr>pf_state := DP_S_MOD\<rparr>))"

definition dopr_mod :: "'f pf \<Rightarrow> 'f pf option" where
  "dopr_mod s =
     map_option (\<lambda>s. s\<lparr>pf_state := DP_S_CONV\<rparr>)
       (if pf_ch s = CHR ''h'' then fetch (s\<lparr>pf_cflags := DP_C_SHORT\<rparr>)
        else if pf_ch s = CHR ''l'' then fetch (s\<lparr>pf_cflags := DP_C_LONG\<rparr>)
        else if pf_ch s = CHR ''L'' then fetch (s\<lparr>pf_cflags := DP_C_LDOUBLE\<rparr>)
        else Some s)"

definition va_float :: "'f pf \<Rightarrow> ('f \<times> 'f pf) option" where
  "va_float s = (if pf_cflags s = DP_C_LDOUBLE then va_ldouble s else va_double s)"

text \<open>
  One conversion. \<open>va_arg\<close> with an \<open>int\<close>, an \<open>unsigned\<close> or a \<open>long\<close> reads the same word; \<open>%h\<close> does not
  truncate.
\<close>

definition conv_int :: "u32 \<Rightarrow> 'f pf \<Rightarrow> 'f pf option" where
  "conv_int base s = do {
     (value, s) \<leftarrow> va_word s;
     Some (fmtint value base (pf_min s) (pf_max s) (pf_flags s) s)
   }"

definition conv_n :: "'f pf \<Rightarrow> 'f pf option" where
  "conv_n s = do {
     (num, s) \<leftarrow> va_word s;
     let bytes = (if pf_cflags s = DP_C_SHORT then 2 else 4);
     Some (s\<lparr>pf_stores := pf_stores s @ [(num, bytes, pf_currlen s)]\<rparr>)
   }"

definition conv_char :: "'f pf \<Rightarrow> 'f pf option" where
  "conv_char s = do { (w, s) \<leftarrow> va_word s; Some (dopr_outch (char_of (unat w)) s) }"

definition conv_str :: "int \<Rightarrow> 'f pf \<Rightarrow> 'f pf option" where
  "conv_str maxlen s = do {
     (v, s) \<leftarrow> va_str s;
     let s = (if pf_max s < 0 then s\<lparr>pf_max := maxlen\<rparr> else s);
     Some (fmtstr v (pf_flags s) (pf_min s) (pf_max s) s)
   }"

definition conv_float :: "'f fpu \<Rightarrow> 'f pf \<Rightarrow> 'f pf option" where
  "conv_float fpu s = do {
     (fvalue, s) \<leftarrow> va_float s;
     fmtfp fpu fvalue (pf_min s) (pf_max s) (pf_flags s) s
   }"

definition skip_float :: "'f pf \<Rightarrow> 'f pf option" where
  "skip_float s = do { (_, s) \<leftarrow> va_float s; Some s }"

definition convert_one :: "'f fpu \<Rightarrow> int \<Rightarrow> 'f pf \<Rightarrow> 'f pf option" where
  "convert_one fpu maxlen s =
     (if pf_ch s = CHR ''d'' \<or> pf_ch s = CHR ''i'' then conv_int 10 s
      else if pf_ch s = CHR ''o'' then conv_int 8 (set_flag DP_F_UNSIGNED s)
      else if pf_ch s = CHR ''u'' then conv_int 10 (set_flag DP_F_UNSIGNED s)
      else if pf_ch s = CHR ''X'' then conv_int 16 (set_flag DP_F_UNSIGNED (set_flag DP_F_UP s))
      else if pf_ch s = CHR ''x'' then conv_int 16 (set_flag DP_F_UNSIGNED s)
      else if pf_ch s = CHR ''f'' then conv_float fpu s
      else if pf_ch s = CHR ''E'' \<or> pf_ch s = CHR ''G'' then skip_float (set_flag DP_F_UP s)
      else if pf_ch s = CHR ''e'' \<or> pf_ch s = CHR ''g'' then skip_float s
      else if pf_ch s = CHR ''c'' then conv_char s
      else if pf_ch s = CHR ''s'' then conv_str maxlen s
      else if pf_ch s = CHR ''p'' then conv_int 16 s
      else if pf_ch s = CHR ''n'' then conv_n s
      else if pf_ch s = CHR ''%'' then Some (dopr_outch (pf_ch s) s)
      else if pf_ch s = CHR ''w'' then fetch s
      else Some s)"

definition dopr_conv :: "'f fpu \<Rightarrow> int \<Rightarrow> 'f pf \<Rightarrow> 'f pf option" where
  "dopr_conv fpu maxlen s = do {
     s \<leftarrow> convert_one fpu maxlen s;
     s \<leftarrow> fetch s;
     Some (s\<lparr>pf_state := DP_S_DEFAULT, pf_flags := 0, pf_cflags := 0, pf_min := 0, pf_max := -1\<rparr>)
   }"

definition dopr_step :: "'f fpu \<Rightarrow> int \<Rightarrow> 'f pf \<Rightarrow> 'f pf option" where
  "dopr_step fpu maxlen s =
     (let s = (if pf_ch s = CHR 0x00 \<or> pf_currlen s \<ge> maxlen then s\<lparr>pf_state := DP_S_DONE\<rparr> else s)
      in case pf_state s of
           DP_S_DEFAULT \<Rightarrow> dopr_default s
         | DP_S_FLAGS \<Rightarrow> dopr_flags s
         | DP_S_MIN \<Rightarrow> dopr_min s
         | DP_S_DOT \<Rightarrow> dopr_dot s
         | DP_S_MAX \<Rightarrow> dopr_max s
         | DP_S_MOD \<Rightarrow> dopr_mod s
         | DP_S_CONV \<Rightarrow> dopr_conv fpu maxlen s
         | DP_S_DONE \<Rightarrow> Some s)"

text \<open>Every round reads a character or moves to a later state, so the loop ends.\<close>

fun state_rank :: "dp_state \<Rightarrow> nat" where
  "state_rank DP_S_DEFAULT = 7"
| "state_rank DP_S_FLAGS = 6"
| "state_rank DP_S_MIN = 5"
| "state_rank DP_S_DOT = 4"
| "state_rank DP_S_MAX = 3"
| "state_rank DP_S_MOD = 2"
| "state_rank DP_S_CONV = 1"
| "state_rank DP_S_DONE = 0"

definition dopr_measure :: "'f pf \<Rightarrow> nat" where
  "dopr_measure s = 8 * length (pf_format s) + state_rank (pf_state s)"

subsection \<open>What the conversions write\<close>

definition emit :: "string \<Rightarrow> 'f pf \<Rightarrow> 'f pf" where
  "emit cs s = s\<lparr>pf_currlen := pf_currlen s + int (length cs), pf_out := pf_out s @ cs\<rparr>"

lemma emit_simps [simp]:
  "pf_state (emit cs s) = pf_state s" "pf_ch (emit cs s) = pf_ch s" "pf_format (emit cs s) = pf_format s"
  "pf_args (emit cs s) = pf_args s" "pf_min (emit cs s) = pf_min s" "pf_max (emit cs s) = pf_max s"
  "pf_flags (emit cs s) = pf_flags s" "pf_cflags (emit cs s) = pf_cflags s"
  "pf_currlen (emit cs s) = pf_currlen s + int (length cs)" "pf_out (emit cs s) = pf_out s @ cs"
  "pf_stores (emit cs s) = pf_stores s" "emit [] s = s" "emit b (emit a s) = emit (a @ b) s"
  by (simp_all add: emit_def)

lemma outch_emit: "dopr_outch c s = emit [c] s"
  by (simp add: dopr_outch_def putchar_def emit_def)

lemma fold_outch: "fold dopr_outch cs s = emit cs s"
  by (induction cs arbitrary: s) (simp_all add: outch_emit)

declare outch_while_pos.simps [simp del] outch_while_neg.simps [simp del] fmtstr_spaces.simps [simp del]
  fmtstr_left.simps [simp del] fmtint_digits.simps [simp del] fp_digits.simps [simp del]

lemma replicate_nat_step: "0 < n \<Longrightarrow> c # replicate (nat (n - 1)) c = replicate (nat n) c"
  by (metis Suc_nat_eq_nat_zadd1 diff_add_cancel add.commute int_one_le_iff_zero_less
      le_add_diff_inverse2 replicate_Suc zle_diff1_eq diff_ge_0_iff_ge)

lemma while_pos: "outch_while_pos c n s = (min n 0, emit (replicate (nat n) c) s)"
proof (induction c n s rule: outch_while_pos.induct)
  case (1 c n s)
  then show ?case
    by (subst outch_while_pos.simps) (auto simp: outch_emit replicate_nat_step)
qed

lemma while_neg: "outch_while_neg c n s = emit (replicate (nat (- n)) c) s"
proof (induction c n s rule: outch_while_neg.induct)
  case (1 c n s)
  then show ?case
    using replicate_nat_step[of "- n" c] by (subst outch_while_neg.simps) (auto simp: outch_emit)
qed

lemma nat_minus_int: "nat (a - int n) = nat a - n"
  by linarith

lemma spaces_eq:
  "fmtstr_spaces padlen cnt mx s =
     (let k = min (nat padlen) (nat (mx - cnt))
      in (padlen - int k, cnt + int k, emit (replicate k CHR '' '') s))"
proof (induction padlen cnt mx s rule: fmtstr_spaces.induct)
  case (1 padlen cnt mx s)
  show ?case
  proof (cases "padlen > 0 \<and> cnt < mx")
    case True
    then have "min (nat padlen) (nat (mx - cnt)) = Suc (min (nat (padlen - 1)) (nat (mx - (cnt + 1))))"
      by linarith
    with True 1 show ?thesis by (subst fmtstr_spaces.simps) (simp add: Let_def outch_emit)
  next
    case False
    then have "min (nat padlen) (nat (mx - cnt)) = 0" by auto
    with False show ?thesis by (subst fmtstr_spaces.simps) (auto simp: Let_def)
  qed
qed

lemma value_eq:
  "fmtstr_value cs cnt mx s = (cnt + int (min (length cs) (nat (mx - cnt))), emit (take (nat (mx - cnt)) cs) s)"
proof (induction cs arbitrary: cnt s)
  case (Cons c cs)
  show ?case
  proof (cases "cnt < mx")
    case True
    then have "nat (mx - cnt) = Suc (nat (mx - (cnt + 1)))" by linarith
    with True Cons show ?thesis by (simp add: outch_emit)
  qed simp
qed simp

lemma left_eq: "fmtstr_left padlen cnt mx s = emit (replicate (min (nat (- padlen)) (nat (mx - cnt))) CHR '' '') s"
proof (induction padlen cnt mx s rule: fmtstr_left.induct)
  case (1 padlen cnt mx s)
  show ?case
  proof (cases "padlen < 0 \<and> cnt < mx")
    case True
    then have "min (nat (- padlen)) (nat (mx - cnt)) = Suc (min (nat (- (padlen + 1))) (nat (mx - (cnt + 1))))"
      by linarith
    with True 1 show ?thesis by (subst fmtstr_left.simps) (simp add: outch_emit)
  next
    case False
    then have "min (nat (- padlen)) (nat (mx - cnt)) = 0" by auto
    with False show ?thesis by (subst fmtstr_left.simps) auto
  qed
qed

text \<open>\<open>%s\<close>: the precision bounds padding and value together.\<close>

definition str_field :: "string option \<Rightarrow> u32 \<Rightarrow> int \<Rightarrow> int \<Rightarrow> string" where
  "str_field v flags mn mx =
     (let str = (case v of None \<Rightarrow> ''<NULL>'' | Some v \<Rightarrow> v);
          pad = replicate (nat (mn - int (length str))) CHR '' ''
      in take (nat mx) (if has_flag flags DP_F_MINUS then str @ pad else pad @ str))"

lemma fmtstr_emit: "fmtstr v flags mn mx s = emit (str_field v flags mn mx) s"
proof -
  define str where "str = (case v of None \<Rightarrow> ''<NULL>'' | Some v \<Rightarrow> v)"
  define k where "k = nat (mn - int (length str))"
  have pad: "(if mn - int (length str) < 0 then 0 else mn - int (length str)) = int k" by (simp add: k_def)
  show ?thesis
  proof (cases "has_flag flags DP_F_MINUS")
    case True
    have "fmtstr v flags mn mx s = emit (take (nat mx) str @ replicate (min k (nat mx - length str)) CHR '' '') s"
      unfolding fmtstr_def str_def[symmetric] Let_def pad
      using True by (auto simp: spaces_eq value_eq left_eq min_def nat_minus_int)
    moreover have "take (nat mx) (str @ replicate k CHR '' '') = take (nat mx) str @ replicate (min k (nat mx - length str)) CHR '' ''"
      by (simp add: min.commute)
    ultimately show ?thesis using True by (simp add: str_field_def str_def[symmetric] k_def[symmetric] Let_def)
  next
    case False
    have "nat (mx - int (min k (nat mx))) = nat mx - k" by linarith
    then have "fmtstr v flags mn mx s = emit (replicate (min k (nat mx)) CHR '' '' @ take (nat mx - k) str) s"
      unfolding fmtstr_def str_def[symmetric] Let_def pad
      using False by (simp add: spaces_eq value_eq left_eq Let_def nat_minus_int)
    moreover have "take (nat mx) (replicate k CHR '' '' @ str) = replicate (min k (nat mx)) CHR '' '' @ take (nat mx - k) str"
      by (simp add: min.commute)
    ultimately show ?thesis using False by (simp add: str_field_def str_def[symmetric] k_def[symmetric] Let_def)
  qed
qed

text \<open>Digits of a number, most significant first.\<close>

function digits :: "nat \<Rightarrow> nat \<Rightarrow> nat list" where
  "digits b n = (if b < 2 \<or> n < b then [n] else digits b (n div b) @ [n mod b])"
  by auto
termination by (relation "measure snd") auto

declare digits.simps [simp del]

definition undigits :: "nat \<Rightarrow> nat list \<Rightarrow> nat" where
  "undigits b = foldl (\<lambda>a d. a * b + d) 0"

lemma undigits_digits: "undigits b (digits b n) = n"
proof (induction b n rule: digits.induct)
  case (1 b n)
  then show ?case
    by (subst digits.simps) (auto simp: undigits_def div_mult_mod_eq)
qed

lemma digits_less: "2 \<le> b \<Longrightarrow> d \<in> set (digits b n) \<Longrightarrow> d < b"
proof (induction b n rule: digits.induct)
  case (1 b n)
  show ?case
  proof (cases "n < b")
    case True
    with 1 show ?thesis by (simp add: digits.simps[of b n])
  next
    case False
    with 1 show ?thesis by (auto simp: digits.simps[of b n])
  qed
qed

lemma digits_length: "2 \<le> b \<Longrightarrow> n < b ^ Suc k \<Longrightarrow> length (digits b n) \<le> Suc k"
proof (induction k arbitrary: n)
  case 0
  then show ?case by (simp add: digits.simps[of b n])
next
  case (Suc k)
  show ?case
  proof (cases "n < b")
    case False
    have "n div b < b ^ Suc k" using Suc.prems by (simp add: div_less_iff_less_mult mult.commute)
    with Suc False show ?thesis by (simp add: digits.simps[of b n])
  qed (simp add: digits.simps[of b n])
qed

lemma digits_nonempty: "digits b n \<noteq> []"
  by (subst digits.simps) simp

lemma fmtint_digits_eq:
  assumes "2 \<le> unat base" "length convert + length (digits (unat base) (unat uvalue)) < 20"
  shows "fmtint_digits uvalue base caps convert
    = convert @ rev (map (digit_char caps) (digits (unat base) (unat uvalue)))"
  using assms
proof (induction uvalue base caps convert rule: fmtint_digits.induct)
  case (1 uvalue base caps convert)
  let ?b = "unat base" and ?n = "unat uvalue"
  have m: "unat (uvalue mod base) = ?n mod ?b" "unat (uvalue div base) = ?n div ?b"
    by (simp_all add: unat_mod unat_div)
  have z: "uvalue div base = 0 \<longleftrightarrow> ?n < ?b"
    using 1(2) by (metis m(2) div_eq_0_iff not_numeral_le_zero unat_eq_zero)
  show ?case
  proof (cases "?n < ?b")
    case True
    with 1(3) z m show ?thesis by (subst fmtint_digits.simps) (simp add: digits.simps[of ?b ?n] Let_def)
  next
    case False
    with 1(2,3) have l: "Suc (length convert) + length (digits ?b (?n div ?b)) < 20" "\<not> ?b < 2"
      by (simp_all add: digits.simps[of ?b ?n])
    have "length (digits ?b (?n div ?b)) \<noteq> 0" using digits_nonempty by simp
    with l have lt: "Suc (length convert) < 20" by linarith
    have "fmtint_digits uvalue base caps convert
      = fmtint_digits (uvalue div base) base caps (convert @ [digit_char caps (?n mod ?b)])"
      using False z lt by (subst fmtint_digits.simps) (simp add: Let_def m(1))
    also have "\<dots> = (convert @ [digit_char caps (?n mod ?b)]) @ rev (map (digit_char caps) (digits ?b (?n div ?b)))"
      using 1(1)[OF refl refl] False z lt l 1(2) by (simp add: m)
    finally show ?thesis using False l(2) by (simp add: digits.simps[of ?b ?n])
  qed
qed

definition good_base :: "u32 \<Rightarrow> bool" where
  "good_base base \<longleftrightarrow> base \<in> {8, 10, 16}"

lemma fmtint_digits_all:
  assumes "good_base base"
  shows "fmtint_digits u base caps [] = rev (map (digit_char caps) (digits (unat base) (unat u)))"
proof -
  have "unat u < 2 ^ 32" using unat_lt_2p[of u] by simp
  then have "unat u < unat base ^ Suc 10" using assms by (auto simp: good_base_def)
  then have "length (digits (unat base) (unat u)) \<le> 11"
    using digits_length[of "unat base" "unat u" 10] assms by (auto simp: good_base_def)
  then show ?thesis using fmtint_digits_eq[of base "[]" u caps] assms by (auto simp: good_base_def)
qed

text \<open>
  \<open>%d\<close>, \<open>%u\<close>, \<open>%x\<close> and \<open>%o\<close>: sign, zero padding up to the precision (or, with the zero flag, the width)
  and the digits, in a field of the given width.
\<close>

definition int_sign :: "u32 \<Rightarrow> u32 \<Rightarrow> string" where
  "int_sign value flags =
     (if has_flag flags DP_F_UNSIGNED then []
      else if sint value < 0 then ''-''
      else if has_flag flags DP_F_PLUS then ''+''
      else if has_flag flags DP_F_SPACE then '' '' else [])"

definition int_magnitude :: "u32 \<Rightarrow> u32 \<Rightarrow> nat" where
  "int_magnitude value flags =
     (if \<not> has_flag flags DP_F_UNSIGNED \<and> sint value < 0 then unat (- value) else unat value)"

definition int_field :: "u32 \<Rightarrow> u32 \<Rightarrow> int \<Rightarrow> int \<Rightarrow> u32 \<Rightarrow> string" where
  "int_field value base mn mx flags =
     (let sign = int_sign value flags;
          ds = map (digit_char (has_flag flags DP_F_UP)) (digits (unat base) (int_magnitude value flags));
          z = nat (mx - int (length ds));
          p = nat (mn - max mx (int (length ds)) - int (length sign))
      in if has_flag flags DP_F_ZERO then sign @ replicate (max z p) CHR ''0'' @ ds
         else if has_flag flags DP_F_MINUS then sign @ replicate z CHR ''0'' @ ds @ replicate p CHR '' ''
         else replicate p CHR '' '' @ sign @ replicate z CHR ''0'' @ ds)"

lemma fmtint_emit:
  assumes "good_base base"
  shows "fmtint value base mn mx flags s = emit (int_field value base mn mx flags) s"
proof -
  define sg where "sg = (if has_flag flags DP_F_UNSIGNED then None else if sint value < 0 then Some CHR ''-''
    else if has_flag flags DP_F_PLUS then Some CHR ''+'' else if has_flag flags DP_F_SPACE then Some CHR '' '' else None)"
  define u where "u = (if \<not> has_flag flags DP_F_UNSIGNED \<and> sint value < 0 then - value else value)"
  define ds where "ds = map (digit_char (has_flag flags DP_F_UP)) (digits (unat base) (unat u))"
  have su: "(if \<not> has_flag flags DP_F_UNSIGNED then
               if sint value < 0 then (Some CHR ''-'', - value)
               else if has_flag flags DP_F_PLUS then (Some CHR ''+'', value)
               else if has_flag flags DP_F_SPACE then (Some CHR '' '', value)
               else (None, value)
             else (None, value)) = (sg, u)"
    by (auto simp: sg_def u_def)
  have conv: "fmtint_digits u base (has_flag flags DP_F_UP) [] = rev ds"
    by (simp add: fmtint_digits_all[OF assms] ds_def)
  have sign: "int_sign value flags = (case sg of None \<Rightarrow> [] | Some c \<Rightarrow> [c])"
    by (auto simp: int_sign_def sg_def)
  have mag: "digits (unat base) (int_magnitude value flags) = digits (unat base) (unat u)"
    by (simp add: int_magnitude_def u_def)
  have len: "0 < length ds" using digits_nonempty by (simp add: ds_def)
  have mx: "max (if mx < 0 then 0 else mx) (int (length ds)) = max mx (int (length ds))" by auto
  show ?thesis
    unfolding fmtint_def su Let_def prod.case conv length_rev mx int_field_def sign mag ds_def[symmetric]
    by (cases sg) (auto simp: while_pos while_neg fold_outch outch_emit max_def)
qed

lemma zeros_emit: "\<exists>p sg cs. fmtfp_zeros padlen sign flags s = (p, sg, emit cs s)"
proof (cases "has_flag flags DP_F_ZERO \<and> padlen > 0")
  case True
  then show ?thesis by (cases sign) (auto simp: fmtfp_zeros_def while_pos outch_emit)
next
  case False
  then have "fmtfp_zeros padlen sign flags s = (padlen, sign, emit [] s)" by (auto simp: fmtfp_zeros_def)
  then show ?thesis by blast
qed

lemma print_emit: "\<exists>cs. fmtfp_print ic fc sign mn mx flags s = emit cs s"
proof -
  obtain p sg cs where "fmtfp_zeros (if has_flag flags DP_F_MINUS
      then - (if mn - int (length ic) - mx - 1 - (if sign \<noteq> None then 1 else 0) < 0 then 0
              else mn - int (length ic) - mx - 1 - (if sign \<noteq> None then 1 else 0))
      else (if mn - int (length ic) - mx - 1 - (if sign \<noteq> None then 1 else 0) < 0 then 0
              else mn - int (length ic) - mx - 1 - (if sign \<noteq> None then 1 else 0))) sign flags s = (p, sg, emit cs s)"
    using zeros_emit by blast
  note z = this
  show ?thesis
    unfolding fmtfp_print_def Let_def z prod.case while_pos while_neg fold_outch outch_emit
    by (cases sg; cases "0 < mx") auto
qed

lemma fmtfp_emit:
  assumes "fmtfp fpu v mn mx flags s = Some s'"
  shows "\<exists>cs. s' = emit cs s"
proof -
  from assms obtain ic fc sg m where "s' = fmtfp_print ic fc sg mn m flags s"
    unfolding fmtfp_def Let_def by (auto simp del: fmtfp_print_def split: Option.bind_splits prod.splits)
  then show ?thesis using print_emit by blast
qed

subsection \<open>The loop\<close>

lemma fetch_measure:
  "fetch s = Some s' \<Longrightarrow> pf_state s' = pf_state s \<and> length (pf_format s) = Suc (length (pf_format s'))"
  by (auto simp: fetch_def split: list.splits)

lemma set_flag_simps [simp]:
  "pf_format (set_flag f s) = pf_format s" "pf_state (set_flag f s) = pf_state s" "pf_ch (set_flag f s) = pf_ch s"
  "pf_args (set_flag f s) = pf_args s" "pf_min (set_flag f s) = pf_min s" "pf_max (set_flag f s) = pf_max s"
  "pf_out (set_flag f s) = pf_out s" "pf_flags (set_flag f s) = pf_flags s OR f"
  "pf_currlen (set_flag f s) = pf_currlen s" "pf_cflags (set_flag f s) = pf_cflags s"
  by (simp_all add: set_flag_def)

lemma va_same:
  "va_word s = Some (w, s') \<Longrightarrow> pf_format s' = pf_format s"
  "va_str s = Some (v, s') \<Longrightarrow> pf_format s' = pf_format s"
  "va_float s = Some (x, s') \<Longrightarrow> pf_format s' = pf_format s"
  by (auto simp: va_word_def va_str_def va_float_def va_double_def va_ldouble_def split: list.splits arg.splits if_splits)

lemma bases [simp]: "good_base 8" "good_base 10" "good_base 16"
  by (simp_all add: good_base_def)

lemma conv_same:
  "conv_n s = Some s' \<Longrightarrow> pf_format s' = pf_format s"
  "conv_char s = Some s' \<Longrightarrow> pf_format s' = pf_format s"
  "conv_str m s = Some s' \<Longrightarrow> pf_format s' = pf_format s"
  "good_base b \<Longrightarrow> conv_int b s = Some s' \<Longrightarrow> pf_format s' = pf_format s"
  "skip_float s = Some s' \<Longrightarrow> pf_format s' = pf_format s"
  by (auto simp: conv_n_def conv_char_def conv_str_def conv_int_def skip_float_def Let_def outch_emit fmtstr_emit
      fmtint_emit dest: va_same split: Option.bind_splits)

lemma conv_float_same: "conv_float fpu s = Some s' \<Longrightarrow> pf_format s' = pf_format s"
  by (auto simp: conv_float_def dest!: fmtfp_emit dest: va_same split: Option.bind_splits)

lemma convert_measure: "convert_one fpu maxlen s = Some s' \<Longrightarrow> length (pf_format s') \<le> length (pf_format s)"
  unfolding convert_one_def
  by (auto split: if_split_asm dest!: conv_same(1-3,5) bases[THEN conv_same(4)] conv_float_same fetch_measure
      simp: outch_emit)

lemma dopr_conv_measure:
  assumes "dopr_conv fpu maxlen s = Some s'"
  shows "pf_state s' = DP_S_DEFAULT \<and> length (pf_format s') < length (pf_format s)"
  using assms by (auto simp: dopr_conv_def dest!: convert_measure fetch_measure split: Option.bind_splits)

lemma dopr_step_measure:
  assumes "dopr_step fpu maxlen s = Some s'" "pf_state s \<noteq> DP_S_DONE"
  shows "dopr_measure s' < dopr_measure s"
proof (cases "pf_ch s = CHR 0x00 \<or> pf_currlen s \<ge> maxlen")
  case True
  then have "s' = s\<lparr>pf_state := DP_S_DONE\<rparr>" using assms(1) by (simp add: dopr_step_def)
  with assms(2) show ?thesis by (cases "pf_state s") (simp_all add: dopr_measure_def)
next
  case False
  show ?thesis
  proof (cases "pf_state s")
    case DP_S_CONV
    with False assms(1) have "dopr_conv fpu maxlen s = Some s'" by (auto simp: dopr_step_def)
    from dopr_conv_measure[OF this] DP_S_CONV show ?thesis by (simp add: dopr_measure_def)
  next
    case DP_S_DEFAULT
    with False assms(1) have "dopr_default s = Some s'" by (auto simp: dopr_step_def)
    then show ?thesis using DP_S_DEFAULT
      by (auto simp: dopr_default_def dopr_measure_def outch_emit split: if_splits dest!: fetch_measure)
  next
    case DP_S_FLAGS
    with False assms(1) have "dopr_flags s = Some s'" by (auto simp: dopr_step_def)
    then show ?thesis using DP_S_FLAGS
      by (auto simp: dopr_flags_def dopr_measure_def split: if_splits dest!: fetch_measure)
  next
    case DP_S_MIN
    with False assms(1) have "dopr_min s = Some s'" by (auto simp: dopr_step_def)
    then show ?thesis using DP_S_MIN
      by (auto simp: dopr_min_def dopr_measure_def split: if_splits Option.bind_splits dest!: fetch_measure va_same)
  next
    case DP_S_DOT
    with False assms(1) have "dopr_dot s = Some s'" by (auto simp: dopr_step_def)
    then show ?thesis using DP_S_DOT
      by (auto simp: dopr_dot_def dopr_measure_def split: if_splits dest!: fetch_measure)
  next
    case DP_S_MAX
    with False assms(1) have "dopr_max s = Some s'" by (auto simp: dopr_step_def)
    then show ?thesis using DP_S_MAX
      by (auto simp: dopr_max_def dopr_measure_def Let_def split: if_splits Option.bind_splits
          dest!: fetch_measure va_same)
  next
    case DP_S_MOD
    with False assms(1) have "dopr_mod s = Some s'" by (auto simp: dopr_step_def)
    then show ?thesis using DP_S_MOD
      by (auto simp: dopr_mod_def dopr_measure_def split: if_splits dest!: fetch_measure)
  qed (use assms(2) in simp)
qed

function dopr_loop :: "'f fpu \<Rightarrow> int \<Rightarrow> 'f pf \<Rightarrow> 'f pf option" where
  "dopr_loop fpu maxlen s =
     (if pf_state s = DP_S_DONE then Some s
      else do { s \<leftarrow> dopr_step fpu maxlen s; dopr_loop fpu maxlen s })"
  by auto
termination by (relation "measure (\<lambda>(_, _, s). dopr_measure s)") (auto dest: dopr_step_measure)

declare dopr_loop.simps [simp del]

text \<open>The format is passed with its terminator.\<close>

definition dopr :: "'f fpu \<Rightarrow> int \<Rightarrow> string \<Rightarrow> 'f arg list \<Rightarrow> 'f pf option" where
  "dopr fpu maxlen format args = do {
     s \<leftarrow> fetch \<lparr>pf_state = DP_S_DEFAULT, pf_ch = CHR 0x00, pf_format = format, pf_args = args, pf_min = 0,
                pf_max = -1, pf_flags = 0, pf_cflags = 0, pf_currlen = 0, pf_out = [], pf_stores = []\<rparr>;
     dopr_loop fpu maxlen s
   }"

datatype syscall = Sys_down u32 | Sys_write char | Sys_up u32

text \<open>\<open>vprintf\<close> takes the semaphore, writes one character at a time and returns 1: (system calls, stores, result).\<close>

definition vprintf :: "'f fpu \<Rightarrow> u32 \<Rightarrow> string \<Rightarrow> 'f arg list \<Rightarrow> (syscall list \<times> (u32 \<times> nat \<times> int) list \<times> int) option" where
  "vprintf fpu printf_sem format args = do {
     s \<leftarrow> dopr fpu 1000 format args;
     Some ([Sys_down printf_sem] @ map Sys_write (pf_out s) @ [Sys_up printf_sem], pf_stores s, 1)
   }"

definition printf :: "'f fpu \<Rightarrow> u32 \<Rightarrow> string \<Rightarrow> 'f arg list \<Rightarrow> (syscall list \<times> (u32 \<times> nat \<times> int) list \<times> int) option" where
  "printf fpu printf_sem format args = vprintf fpu printf_sem format args"

end
