(* ===== verification/PrintfProps.thy ===== *)
theory PrintfProps
  imports Printf Complex_Main
begin

text \<open>
  What \<open>printf\<close> writes: a format is read as a list of pieces (text and conversions with flags, width and
  precision), each piece has a meaning, and the state machine of \<open>dopr\<close> writes the concatenation.
  Then the reading back of numbers, and the places where the code departs from C's \<open>printf\<close>.
\<close>

datatype piece = Text string | Spec string "nat option" "nat option" char

definition dec :: "nat \<Rightarrow> string" where
  "dec n = map (digit_char False) (digits 10 n)"

fun show_piece :: "piece \<Rightarrow> string" where
  "show_piece (Text t) = t"
| "show_piece (Spec fl w p c) =
     ''%'' @ fl @ (case w of None \<Rightarrow> [] | Some n \<Rightarrow> dec n) @ (case p of None \<Rightarrow> [] | Some n \<Rightarrow> CHR ''.'' # dec n) @ [c]"

definition flag_of :: "char \<Rightarrow> u32" where
  "flag_of c = (if c = CHR ''-'' then DP_F_MINUS else if c = CHR ''+'' then DP_F_PLUS
     else if c = CHR '' '' then DP_F_SPACE else if c = CHR ''#'' then DP_F_NUM else DP_F_ZERO)"

definition flags_of :: "string \<Rightarrow> u32" where
  "flags_of fl = foldl (\<lambda>f c. f OR flag_of c) 0 fl"

definition int_convs :: string where "int_convs = ''diouxXpc''"

fun ok_piece :: "piece \<Rightarrow> bool" where
  "ok_piece (Text t) = (CHR ''%'' \<notin> set t \<and> CHR 0x00 \<notin> set t)"
| "ok_piece (Spec fl w p c) = (set fl \<subseteq> set ''-+ #0'' \<and> w \<noteq> Some 0 \<and> c \<in> set (int_convs @ ''s%''))"

definition int_conv :: "u32 \<Rightarrow> int \<Rightarrow> int \<Rightarrow> char \<Rightarrow> u32 \<Rightarrow> string" where
  "int_conv f mn mx c v =
     (if c = CHR ''o'' then int_field v 8 mn mx (f OR DP_F_UNSIGNED)
      else if c = CHR ''u'' then int_field v 10 mn mx (f OR DP_F_UNSIGNED)
      else if c = CHR ''x'' then int_field v 16 mn mx (f OR DP_F_UNSIGNED)
      else if c = CHR ''X'' then int_field v 16 mn mx (f OR DP_F_UP OR DP_F_UNSIGNED)
      else if c = CHR ''p'' then int_field v 16 mn mx f
      else if c = CHR ''c'' then [char_of (unat v)]
      else int_field v 10 mn mx f)"

definition width_of :: "nat option \<Rightarrow> int" where
  "width_of w = (case w of None \<Rightarrow> 0 | Some n \<Rightarrow> int n)"

definition prec_of :: "nat option \<Rightarrow> int" where
  "prec_of p = (case p of None \<Rightarrow> - 1 | Some n \<Rightarrow> int n)"

fun render :: "int \<Rightarrow> piece list \<Rightarrow> 'f arg list \<Rightarrow> string option" where
  "render maxlen [] as = Some []"
| "render maxlen (Text t # ps) as = map_option ((@) t) (render maxlen ps as)"
| "render maxlen (Spec fl w p c # ps) as =
     (if c = CHR ''%'' then map_option ((@) ''%'') (render maxlen ps as)
      else if c = CHR ''s'' then
        (case as of Str_arg v # as' \<Rightarrow>
           map_option ((@) (str_field v (flags_of fl) (width_of w) (if prec_of p < 0 then maxlen else prec_of p)))
             (render maxlen ps as')
         | _ \<Rightarrow> None)
      else
        (case as of Word_arg v # as' \<Rightarrow>
           map_option ((@) (int_conv (flags_of fl) (width_of w) (prec_of p) c v)) (render maxlen ps as')
         | _ \<Rightarrow> None))"

subsection \<open>Running the state machine\<close>

text \<open>The state with the characters \<open>r\<close> still to be read (the current one first).\<close>

definition reading :: "dp_state \<Rightarrow> string \<Rightarrow> 'f arg list \<Rightarrow> int \<Rightarrow> int \<Rightarrow> u32 \<Rightarrow> string \<Rightarrow> 'f pf" where
  "reading st r as mn mx f out = \<lparr>pf_state = st, pf_ch = hd r, pf_format = tl r, pf_args = as, pf_min = mn, pf_max = mx,
     pf_flags = f, pf_cflags = 0, pf_currlen = int (length out), pf_out = out, pf_stores = []\<rparr>"

lemma at_simps [simp]:
  "pf_state (reading st r as mn mx f out) = st" "pf_ch (reading st (c # r) as mn mx f out) = c"
  "pf_min (reading st r as mn mx f out) = mn" "pf_max (reading st r as mn mx f out) = mx"
  "pf_flags (reading st r as mn mx f out) = f" "pf_out (reading st r as mn mx f out) = out"
  "pf_cflags (reading st r as mn mx f out) = 0" "pf_stores (reading st r as mn mx f out) = []"
  "pf_currlen (reading st r as mn mx f out) = int (length out)"
  "reading st r as mn mx f out\<lparr>pf_state := st'\<rparr> = reading st' r as mn mx f out"
  "reading st r as mn mx f out\<lparr>pf_min := mn'\<rparr> = reading st r as mn' mx f out"
  "reading st r as mn mx f out\<lparr>pf_max := mx'\<rparr> = reading st r as mn mx' f out"
  "reading st r as mn mx f out\<lparr>pf_flags := f'\<rparr> = reading st r as mn mx f' out"
  "reading st r as mn mx f out\<lparr>pf_cflags := 0\<rparr> = reading st r as mn mx f out"
  "emit cs (reading st r as mn mx f out) = reading st r as mn mx f (out @ cs)"
  "set_flag g (reading st r as mn mx f out) = reading st r as mn mx (f OR g) out"
  by (simp_all add: reading_def emit_def set_flag_def)

lemma at_fetch [simp]: "r \<noteq> [] \<Longrightarrow> fetch (reading st (c # r) as mn mx f out) = Some (reading st r as mn mx f out)"
  by (cases r) (simp_all add: reading_def fetch_def)

lemma at_va [simp]:
  "va_word (reading st r (Word_arg w # as) mn mx f out) = Some (w, reading st r as mn mx f out)"
  "va_str (reading st r (Str_arg v # as) mn mx f out) = Some (v, reading st r as mn mx f out)"
  by (simp_all add: reading_def va_word_def va_str_def)

lemma loop_at:
  assumes "st \<noteq> DP_S_DONE" "c \<noteq> CHR 0x00" "int (length out) < maxlen"
  shows "dopr_loop fpu maxlen (reading st (c # r) as mn mx f out) =
    (case st of DP_S_DEFAULT \<Rightarrow> dopr_default (reading st (c # r) as mn mx f out)
       | DP_S_FLAGS \<Rightarrow> dopr_flags (reading st (c # r) as mn mx f out)
       | DP_S_MIN \<Rightarrow> dopr_min (reading st (c # r) as mn mx f out)
       | DP_S_DOT \<Rightarrow> dopr_dot (reading st (c # r) as mn mx f out)
       | DP_S_MAX \<Rightarrow> dopr_max (reading st (c # r) as mn mx f out)
       | DP_S_MOD \<Rightarrow> dopr_mod (reading st (c # r) as mn mx f out)
       | DP_S_CONV \<Rightarrow> dopr_conv fpu maxlen (reading st (c # r) as mn mx f out)
       | DP_S_DONE \<Rightarrow> None) \<bind> dopr_loop fpu maxlen"
  using assms by (subst dopr_loop.simps) (cases st; simp add: dopr_step_def)

lemma run_text:
  assumes "CHR ''%'' \<notin> set t" "CHR 0x00 \<notin> set t" "r \<noteq> []" "int (length out + length t) \<le> maxlen"
  shows "dopr_loop fpu maxlen (reading DP_S_DEFAULT (t @ r) as mn mx f out) =
    dopr_loop fpu maxlen (reading DP_S_DEFAULT r as mn mx f (out @ t))"
  using assms
proof (induction t arbitrary: out)
  case (Cons c t)
  then show ?case by (auto simp: loop_at dopr_default_def outch_emit)
qed simp

lemma run_flags:
  assumes "set fl \<subseteq> set ''-+ #0''" "r \<noteq> []" "int (length out) < maxlen"
  shows "dopr_loop fpu maxlen (reading DP_S_FLAGS (fl @ r) as mn mx f out) =
    dopr_loop fpu maxlen (reading DP_S_FLAGS r as mn mx (foldl (\<lambda>f c. f OR flag_of c) f fl) out)"
  using assms
proof (induction fl arbitrary: f)
  case (Cons c fl)
  then show ?case by (auto simp: loop_at dopr_flags_def flag_of_def)
qed simp

lemma of_digit_char: "d < 10 \<Longrightarrow> (of_char (digit_char False d) :: int) = int d + 48"
proof -
  assume "d < 10"
  then have "d \<in> {0, 1, 2, 3, 4, 5, 6, 7, 8, 9}" by auto
  then show ?thesis by (auto simp: digit_char_def)
qed

lemma isdigit_char: "d < 10 \<Longrightarrow> isdigit (digit_char False d) \<and> char_to_int (digit_char False d) = int d"
  by (simp add: isdigit_def char_to_int_def of_digit_char)

lemma digit_char_nonzero: "d < 10 \<Longrightarrow> digit_char False d \<noteq> CHR 0x00"
  using of_digit_char[of d] by auto

lemma run_min_digits:
  assumes "\<forall>d \<in> set ds. d < 10" "r \<noteq> []" "int (length out) < maxlen"
  shows "dopr_loop fpu maxlen (reading DP_S_MIN (map (digit_char False) ds @ r) as mn mx f out) =
    dopr_loop fpu maxlen (reading DP_S_MIN r as (foldl (\<lambda>a d. 10 * a + int d) mn ds) mx f out)"
  using assms(1)
proof (induction ds arbitrary: mn)
  case (Cons d ds)
  have "dopr_loop fpu maxlen (reading DP_S_MIN (digit_char False d # map (digit_char False) ds @ r) as mn mx f out) =
    dopr_loop fpu maxlen (reading DP_S_MIN (map (digit_char False) ds @ r) as (10 * mn + int d) mx f out)"
    using Cons.prems assms(2,3) isdigit_char[of d] digit_char_nonzero[of d] by (simp add: loop_at dopr_min_def)
  with Cons show ?case by simp
qed simp

lemma run_max_digits:
  assumes "\<forall>d \<in> set ds. d < 10" "r \<noteq> []" "int (length out) < maxlen" "0 \<le> mx"
  shows "dopr_loop fpu maxlen (reading DP_S_MAX (map (digit_char False) ds @ r) as mn mx f out) =
    dopr_loop fpu maxlen (reading DP_S_MAX r as mn (foldl (\<lambda>a d. 10 * a + int d) mx ds) f out)"
  using assms(1,4)
proof (induction ds arbitrary: mx)
  case (Cons d ds)
  have "dopr_loop fpu maxlen (reading DP_S_MAX (digit_char False d # map (digit_char False) ds @ r) as mn mx f out) =
    dopr_loop fpu maxlen (reading DP_S_MAX (map (digit_char False) ds @ r) as mn (10 * mx + int d) f out)"
    using Cons.prems assms(2,3) isdigit_char[of d] digit_char_nonzero[of d] by (simp add: loop_at dopr_max_def)
  with Cons show ?case by simp
qed simp

lemma foldl_digits: "foldl (\<lambda>a d. 10 * a + int d) 0 (digits 10 n) = int n"
proof -
  have "foldl (\<lambda>a d. 10 * a + int d) (int k) ds = int (foldl (\<lambda>a d. a * 10 + d) k ds)" for k ds
  proof (induction ds arbitrary: k)
    case (Cons d ds)
    from Cons[of "k * 10 + d"] show ?case by (simp add: mult.commute)
  qed simp
  from this[of 0] undigits_digits[of 10 n] show ?thesis by (simp add: undigits_def)
qed

lemma dec_digits: "\<forall>d \<in> set (digits 10 n). d < 10"
  using digits_less[of 10] by auto

lemma dec_Cons: "\<exists>d ds. digits 10 n = d # ds \<and> d < 10 \<and> (0 < n \<longrightarrow> 0 < d)"
proof (induction n rule: less_induct)
  case (less n)
  show ?case
  proof (cases "n < 10")
    case True
    then show ?thesis by (simp add: digits.simps[of 10 n])
  next
    case False
    with less[of "n div 10"] show ?thesis by (auto simp: digits.simps[of 10 n])
  qed
qed

lemma run_max_dec:
  assumes "r \<noteq> []" "int (length out) < maxlen"
  shows "dopr_loop fpu maxlen (reading DP_S_MAX (dec n @ r) as mn (- 1) f out) =
    dopr_loop fpu maxlen (reading DP_S_MAX r as mn (int n) f out)"
proof -
  obtain d ds where d: "digits 10 n = d # ds" "d < 10" using dec_Cons by blast
  have "\<forall>d \<in> set ds. d < 10" using dec_digits[of n] d by simp
  from run_max_digits[OF this assms, of "int d" fpu as mn f] d assms isdigit_char[of d] digit_char_nonzero[of d]
    foldl_digits[of n]
  show ?thesis by (simp add: dec_def loop_at dopr_max_def)
qed

lemma digit_not_flag: "0 < d \<Longrightarrow> d < 10 \<Longrightarrow> digit_char False d \<notin> set ''-+ #0''"
  using of_digit_char[of d] by (auto simp: digit_char_def) 

lemma run_flags_end:
  assumes "c \<notin> set ''-+ #0''" "c \<noteq> CHR 0x00" "int (length out) < maxlen"
  shows "dopr_loop fpu maxlen (reading DP_S_FLAGS (c # r) as mn mx f out) =
    dopr_loop fpu maxlen (reading DP_S_MIN (c # r) as mn mx f out)"
  using assms by (simp add: loop_at dopr_flags_def)

lemma run_min_end:
  assumes "\<not> isdigit c" "c \<noteq> CHR ''*''" "c \<noteq> CHR 0x00" "int (length out) < maxlen"
  shows "dopr_loop fpu maxlen (reading DP_S_MIN (c # r) as mn mx f out) =
    dopr_loop fpu maxlen (reading DP_S_DOT (c # r) as mn mx f out)"
  using assms by (simp add: loop_at dopr_min_def)

definition plain_conv :: "char \<Rightarrow> bool" where
  "plain_conv c \<longleftrightarrow> c \<in> set (int_convs @ ''s%'')"

lemma plain_conv:
  assumes "plain_conv c"
  shows "\<not> isdigit c" "c \<noteq> CHR ''*''" "c \<noteq> CHR 0x00" "c \<noteq> CHR ''.''" "c \<notin> set ''-+ #0''"
    "c \<noteq> CHR ''h''" "c \<noteq> CHR ''l''" "c \<noteq> CHR ''L''"
  using assms by (auto simp: plain_conv_def int_convs_def isdigit_def)

lemma run_mod_end:
  assumes "plain_conv c" "int (length out) < maxlen"
  shows "dopr_loop fpu maxlen (reading DP_S_MOD (c # r) as mn mx f out) =
    dopr_conv fpu maxlen (reading DP_S_CONV (c # r) as mn mx f out) \<bind> dopr_loop fpu maxlen"
  using plain_conv[OF assms(1)] assms(2) by (simp add: loop_at dopr_mod_def)

lemma run_prec:
  assumes "plain_conv c" "r \<noteq> []" "int (length out) < maxlen"
  shows "dopr_loop fpu maxlen (reading DP_S_MIN ((case p of None \<Rightarrow> [] | Some n \<Rightarrow> CHR ''.'' # dec n) @ c # r) as mn (- 1) f out) =
    dopr_conv fpu maxlen (reading DP_S_CONV (c # r) as mn (prec_of p) f out) \<bind> dopr_loop fpu maxlen"
proof (cases p)
  case None
  with assms plain_conv[OF assms(1)] show ?thesis
    by (simp add: run_min_end run_mod_end loop_at[of DP_S_DOT] dopr_dot_def prec_of_def)
next
  case (Some n)
  have "\<not> isdigit CHR ''.''" by (simp add: isdigit_def)
  with Some assms plain_conv[OF assms(1)] show ?thesis
    by (simp add: run_min_end run_mod_end loop_at[of DP_S_DOT] dopr_dot_def prec_of_def run_max_dec
        loop_at[of DP_S_MAX] dopr_max_def)
qed

lemma run_spec:
  assumes "ok_piece (Spec fl w p c)" "r \<noteq> []" "int (length out) < maxlen"
  shows "dopr_loop fpu maxlen (reading DP_S_DEFAULT (show_piece (Spec fl w p c) @ r) as 0 (- 1) 0 out) =
    dopr_conv fpu maxlen (reading DP_S_CONV (c # r) as (width_of w) (prec_of p) (flags_of fl) out) \<bind> dopr_loop fpu maxlen"
proof -
  let ?tail = "(case p of None \<Rightarrow> [] | Some n \<Rightarrow> CHR ''.'' # dec n) @ c # r"
  have c: "plain_conv c" and fl: "set fl \<subseteq> set ''-+ #0''" using assms(1) by (simp_all add: plain_conv_def)
  obtain t ts where tail: "?tail = t # ts" "t \<notin> set ''-+ #0''" "t \<noteq> CHR 0x00"
    using plain_conv[OF c] by (cases p) auto
  have start: "dopr_loop fpu maxlen (reading DP_S_DEFAULT (show_piece (Spec fl w p c) @ r) as 0 (- 1) 0 out) =
    dopr_loop fpu maxlen (reading DP_S_FLAGS ((case w of None \<Rightarrow> [] | Some n \<Rightarrow> dec n) @ ?tail) as 0 (- 1) (flags_of fl) out)"
    using run_flags[OF fl, of "(case w of None \<Rightarrow> [] | Some n \<Rightarrow> dec n) @ ?tail" out maxlen fpu as 0 "- 1" 0] assms(3)
    by (simp add: loop_at dopr_default_def flags_of_def)
  show ?thesis
  proof (cases w)
    case None
    with start run_prec[OF c assms(2,3), of fpu p as 0] run_flags_end[OF tail(2,3) assms(3), of fpu ts as 0 "- 1" "flags_of fl"]
    show ?thesis by (simp add: tail(1) width_of_def)
  next
    case (Some n)
    then have "0 < n" using assms(1) by simp
    then obtain d ds where d: "digits 10 n = d # ds" "d < 10" "0 < d" using dec_Cons[of n] by blast
    have "dopr_loop fpu maxlen (reading DP_S_FLAGS (dec n @ ?tail) as 0 (- 1) (flags_of fl) out) =
      dopr_loop fpu maxlen (reading DP_S_MIN (dec n @ ?tail) as 0 (- 1) (flags_of fl) out)"
      using run_flags_end[OF digit_not_flag[OF d(3,2)] digit_char_nonzero[OF d(2)] assms(3)]
      by (simp add: dec_def d(1))
    also have "\<dots> = dopr_loop fpu maxlen (reading DP_S_MIN ?tail as (int n) (- 1) (flags_of fl) out)"
      using run_min_digits[OF dec_digits, of ?tail out maxlen fpu n as 0 "- 1"] assms(3)
      by (simp add: dec_def foldl_digits)
    finally show ?thesis using start Some run_prec[OF c assms(2,3)] by (simp add: width_of_def)
  qed
qed

lemma conv_word:
  assumes "c \<in> set int_convs" "r \<noteq> []"
  shows "dopr_conv fpu maxlen (reading DP_S_CONV (c # r) (Word_arg v # as) mn mx f out) =
    Some (reading DP_S_DEFAULT r as 0 (- 1) 0 (out @ int_conv f mn mx c v))"
proof -
  have "\<exists>g. convert_one fpu maxlen (reading DP_S_CONV (c # r) (Word_arg v # as) mn mx f out) =
    Some (reading DP_S_CONV (c # r) as mn mx g (out @ int_conv f mn mx c v))"
  proof -
    from assms(1) consider "c = CHR ''d''" | "c = CHR ''i''" | "c = CHR ''o''" | "c = CHR ''u''" | "c = CHR ''x''"
      | "c = CHR ''X''" | "c = CHR ''p''" | "c = CHR ''c''"
      by (auto simp: int_convs_def)
    then show ?thesis
      by cases (simp_all add: convert_one_def conv_int_def conv_char_def int_conv_def fmtint_emit outch_emit or.assoc
          del: set_flag_simps, (rule exI, rule refl)+)
  qed
  with assms(2) show ?thesis by (auto simp: dopr_conv_def)
qed

lemma conv_string:
  assumes "r \<noteq> []"
  shows "dopr_conv fpu maxlen (reading DP_S_CONV (CHR ''s'' # r) (Str_arg v # as) mn mx f out) =
    Some (reading DP_S_DEFAULT r as 0 (- 1) 0 (out @ str_field v f mn (if mx < 0 then maxlen else mx)))"
  using assms by (simp add: dopr_conv_def convert_one_def conv_str_def fmtstr_emit)

lemma conv_percent:
  assumes "r \<noteq> []"
  shows "dopr_conv fpu maxlen (reading DP_S_CONV (CHR ''%'' # r) as mn mx f out) =
    Some (reading DP_S_DEFAULT r as 0 (- 1) 0 (out @ ''%''))"
  using assms by (simp add: dopr_conv_def convert_one_def outch_emit)

lemma run_end:
  "\<exists>s. dopr_loop fpu maxlen (reading DP_S_DEFAULT [CHR 0x00] as mn mx f out) = Some s \<and> pf_out s = out \<and> pf_stores s = []"
  by (subst dopr_loop.simps) (simp add: dopr_step_def reading_def dopr_loop.simps)

lemma run_pieces:
  assumes "\<forall>p \<in> set ps. ok_piece p" "render maxlen ps as = Some t" "int (length out + length t) < maxlen"
  shows "\<exists>s. dopr_loop fpu maxlen (reading DP_S_DEFAULT (concat (map show_piece ps) @ [CHR 0x00]) as 0 (- 1) 0 out) = Some s
    \<and> pf_out s = out @ t \<and> pf_stores s = []"
  using assms
proof (induction ps arbitrary: as t out)
  case Nil
  then show ?case using run_end by simp
next
  case (Cons p ps)
  let ?r = "concat (map show_piece ps) @ [CHR 0x00]"
  have r: "?r \<noteq> []" by simp
  show ?case
  proof (cases p)
    case (Text x)
    with Cons.prems obtain t' where t: "render maxlen ps as = Some t'" "t = x @ t'" by auto
    have "dopr_loop fpu maxlen (reading DP_S_DEFAULT (x @ ?r) as 0 (- 1) 0 out) = dopr_loop fpu maxlen (reading DP_S_DEFAULT ?r as 0 (- 1) 0 (out @ x))"
      by (rule run_text[OF _ _ r]) (use Cons.prems Text t in auto)
    with Cons.IH[OF _ t(1), of "out @ x"] Cons.prems Text t(2) show ?thesis by simp
  next
    case (Spec fl w pr c)
    have ok: "ok_piece (Spec fl w pr c)" and lt: "int (length out) < maxlen" using Cons.prems Spec by auto
    note run = run_spec[OF ok r lt, of fpu as]
    consider (percent) "c = CHR ''%''" | (str) "c = CHR ''s''" | (int) "c \<in> set int_convs" "c \<noteq> CHR ''%''" "c \<noteq> CHR ''s''"
      using ok by (auto simp: int_convs_def)
    then show ?thesis
    proof cases
      case percent
      with Cons.prems Spec obtain t' where t: "render maxlen ps as = Some t'" "t = ''%'' @ t'" by auto
      from Cons.IH[OF _ t(1), of "out @ ''%''"] Cons.prems run show ?thesis
        by (simp add: Spec percent conv_percent[OF r] t(2) del: show_piece.simps)
    next
      case str
      with Cons.prems Spec obtain v as' t' where t: "as = Str_arg v # as'" "render maxlen ps as' = Some t'"
        "t = str_field v (flags_of fl) (width_of w) (if prec_of pr < 0 then maxlen else prec_of pr) @ t'"
        by (auto split: list.splits arg.splits)
      from Cons.IH[OF _ t(2), of "out @ str_field v (flags_of fl) (width_of w) (if prec_of pr < 0 then maxlen else prec_of pr)"]
        Cons.prems run show ?thesis
        by (simp add: Spec str conv_string[OF r] t(1,3) del: show_piece.simps)
    next
      case int
      with Cons.prems Spec obtain v as' t' where t: "as = Word_arg v # as'" "render maxlen ps as' = Some t'"
        "t = int_conv (flags_of fl) (width_of w) (prec_of pr) c v @ t'"
        by (auto split: list.splits arg.splits)
      from Cons.IH[OF _ t(2), of "out @ int_conv (flags_of fl) (width_of w) (prec_of pr) c v"]
        Cons.prems run show ?thesis
        by (simp add: Spec conv_word[OF int(1) r] t(1,3) del: show_piece.simps)
    qed
  qed
qed

lemma dopr_at: "format \<noteq> [] \<Longrightarrow> dopr fpu maxlen format args = dopr_loop fpu maxlen (reading DP_S_DEFAULT format args 0 (- 1) 0 [])"
  by (cases format) (simp_all add: dopr_def fetch_def reading_def)

subsection \<open>Properties\<close>


lemma digits_small: "n < 10 \<Longrightarrow> digits 10 n = [n]"
  by (simp add: digits.simps[of 10 n])

lemma digits_step: "10 \<le> n \<Longrightarrow> digits 10 n = digits 10 (n div 10) @ [n mod 10]"
  by (simp add: digits.simps[of 10 n])

lemmas flag_defs = DP_F_MINUS_def DP_F_PLUS_def DP_F_SPACE_def DP_F_NUM_def DP_F_ZERO_def DP_F_UP_def DP_F_UNSIGNED_def

lemma sample_fields:
  "int_field (- 42) 10 5 (- 1) 0 = ''  -42''" "str_field (Some ''ab'') DP_F_MINUS 4 1000 = ''ab  ''"
  by code_simp+


text \<open>Reading a number back the way \<open>strtol\<close> does.\<close>

definition decimal :: "string \<Rightarrow> int" where
  "decimal s = foldl (\<lambda>a c. 10 * a + char_to_int c) 0 (takeWhile isdigit s)"

definition read_int :: "string \<Rightarrow> int" where
  "read_int s =
     (case dropWhile (\<lambda>c. c = CHR '' '') s of
        [] \<Rightarrow> 0
      | c # cs \<Rightarrow> if c = CHR ''-'' then - decimal cs else if c = CHR ''+'' then decimal cs else decimal (c # cs))"

lemma isdigit_marks [simp]: "\<not> isdigit CHR '' ''" "isdigit CHR ''0''" "char_to_int CHR ''0'' = 0"
  by (simp_all add: isdigit_def char_to_int_def)

lemma digit_char_caps: "d < 10 \<Longrightarrow> digit_char caps d = digit_char False d"
proof -
  assume "d < 10"
  then have "d \<in> {0, 1, 2, 3, 4, 5, 6, 7, 8, 9}" by auto
  then show ?thesis by (auto simp: digit_char_def)
qed

lemma map_digit_char_caps: "map (digit_char caps) (digits 10 n) = map (digit_char False) (digits 10 n)"
proof (rule map_cong[OF refl])
  fix d assume "d \<in> set (digits 10 n)"
  with dec_digits show "digit_char caps d = digit_char False d" by (intro digit_char_caps) simp
qed

lemma foldl_digit_chars:
  "\<forall>d \<in> set ds. d < 10 \<Longrightarrow>
     foldl (\<lambda>a c. 10 * a + char_to_int c) k (map (digit_char False) ds) = foldl (\<lambda>a d. 10 * a + int d) k ds"
  by (induction ds arbitrary: k) (simp_all add: isdigit_char)

lemma decimal_field:
  "decimal (replicate z CHR ''0'' @ map (digit_char caps) (digits 10 n) @ replicate p CHR '' '') = int n"
proof -
  let ?ds = "map (digit_char False) (digits 10 n)"
  have "takeWhile isdigit (replicate p CHR '' '') = []" by (cases p) simp_all
  moreover have "\<forall>c \<in> set ?ds. isdigit c"
    using dec_digits isdigit_char by simp
  moreover have "\<forall>c \<in> set (replicate z CHR ''0''). isdigit c" by simp
  ultimately have "takeWhile isdigit (replicate z CHR ''0'' @ ?ds @ replicate p CHR '' '')
    = replicate z CHR ''0'' @ ?ds"
    by (simp only: takeWhile_append2 append_Nil2)
  moreover have "foldl (\<lambda>a c. 10 * a + char_to_int c) 0 (replicate z CHR ''0'') = 0"
    by (induction z) simp_all
  ultimately show ?thesis
    unfolding decimal_def map_digit_char_caps[of caps]
    by (simp only: foldl_append foldl_digit_chars[OF dec_digits] foldl_digits)
qed

lemma read_signed:
  assumes "sign \<in> {[], ''-'', ''+'', '' ''}"
  shows "read_int (replicate k CHR '' '' @ sign @ replicate z CHR ''0'' @ map (digit_char caps) (digits 10 n) @ replicate p CHR '' '')
    = (if sign = ''-'' then - int n else int n)"
proof -
  let ?body = "replicate z CHR ''0'' @ map (digit_char caps) (digits 10 n) @ replicate p CHR '' ''"
  have drop: "dropWhile (\<lambda>c. c = CHR '' '') (replicate k CHR '' '' @ xs) = dropWhile (\<lambda>c. c = CHR '' '') xs" for k xs
    by (induction k) auto
  obtain d ds where d: "digits 10 n = d # ds" "d < 10" using dec_Cons by blast
  have "\<exists>c cs. ?body = c # cs \<and> isdigit c"
    using d isdigit_char[OF d(2)] digit_char_caps[OF d(2), of caps] by (cases z) auto
  then obtain c cs where c: "?body = c # cs" "isdigit c" by blast
  then have c': "c \<noteq> CHR '' ''" "c \<noteq> CHR ''-''" "c \<noteq> CHR ''+''" by (auto simp: isdigit_def)
  have "decimal (c # cs) = int n" using decimal_field[of z caps n p] c(1) by simp
  then show ?thesis unfolding read_int_def drop c(1) using assms c' by auto
qed

lemma sint_magnitude: "sint v = (if sint v < 0 then - int (unat (- v)) else int (unat v))" for v :: u32
proof -
  have b: "- (2 ^ 31) \<le> sint v" "sint v < 2 ^ 31" using sint_greater_eq[of v] sint_less[of v] by simp_all
  have "uint v = sint v" if "0 \<le> sint v"
  proof -
    have "uint (word_of_int (sint v) :: u32) = sint v"
      unfolding unsigned_of_int using b that by (simp add: take_bit_int_eq_self)
    then show ?thesis by simp
  qed
  moreover have "uint (- v) = - sint v" if "sint v < 0"
  proof -
    have "uint (word_of_int (- sint v) :: u32) = - sint v"
      unfolding unsigned_of_int using b that by (simp add: take_bit_int_eq_self)
    then show ?thesis by simp
  qed
  ultimately show ?thesis by (simp flip: uint_nat)
qed

lemma read_int_field:
  "read_int (int_field v 10 mn mx flags) = (if has_flag flags DP_F_UNSIGNED then uint v else sint v)"
proof -
  let ?sign = "int_sign v flags" and ?n = "int_magnitude v flags"
  have s: "?sign \<in> {[], ''-'', ''+'', '' ''}" by (simp add: int_sign_def)
  have b: "unat (10 :: u32) = 10" by simp
  have val: "(if ?sign = ''-'' then - int ?n else int ?n) = (if has_flag flags DP_F_UNSIGNED then uint v else sint v)"
    using sint_magnitude[of v] by (auto simp: int_sign_def int_magnitude_def)
  note r = read_signed[OF s, of _ _ "has_flag flags DP_F_UP" ?n, unfolded val]
  show ?thesis
  proof (cases "has_flag flags DP_F_ZERO")
    case True
    then show ?thesis
      using r[of 0 _ 0] unfolding int_field_def Let_def b by simp
  next
    case False
    then show ?thesis
      using r[of 0] r[of _ _ 0] unfolding int_field_def Let_def b by simp
  qed
qed

text \<open>C39. Numbers read back. Whatever the flags, width and precision, the decimal field that \<open>fmtint\<close> writes
  is read back by \<open>strtol\<close> as the number printed: the signed value for \<open>%d\<close>, the unsigned one for
  \<open>%u\<close>, down to the smallest \<open>int\<close>.\<close>

theorem fmtint_reads_back:
  "read_int (drop (length (pf_out s)) (pf_out (fmtint v 10 mn mx flags s))) =
    (if has_flag flags DP_F_UNSIGNED then uint v else sint v)"
  by (simp add: fmtint_emit read_int_field)

text \<open>Precision swallows the value. In a right-justified \<open>%s\<close> the precision counts the padding too: a
  string at least \<open>p\<close> characters shorter than the width is printed as \<open>p\<close> spaces (\<open>%10.3s\<close> of
  \<open>abc\<close> prints three spaces; C prints seven spaces and \<open>abc\<close>).\<close>

theorem string_precision_pads:
  assumes "\<not> has_flag flags DP_F_MINUS" "0 \<le> mx" "int (length v) \<le> mn - mx"
  shows "pf_out (fmtstr (Some v) flags mn mx s) = pf_out s @ replicate (nat mx) CHR '' ''"
proof -
  have "nat mx \<le> nat (mn - int (length v))" using assms(3) by simp
  then show ?thesis using assms(1) by (simp add: fmtstr_emit str_field_def Let_def take_replicate min_def)
qed

theorem string_precision_pads_witness:
  "\<forall>s :: nat pf. pf_out (fmtstr (Some ''abc'') 0 10 3 s) = pf_out s @ ''   ''"
proof
  fix s :: "nat pf"
  show "pf_out (fmtstr (Some ''abc'') 0 10 3 s) = pf_out s @ ''   ''"
    using string_precision_pads[of 0 3 "''abc''" 10 s] by (simp add: has_flag_def numeral_eq_Suc)
qed

text \<open>The limit of 1000 characters is not one: a field is written whole, so a format with a width of
  \<open>n\<close> writes at least \<open>n\<close> characters, however large \<open>n\<close> is.\<close>

theorem width_beats_limit:
  assumes "0 < n"
  shows "\<exists>t. printf fpu sem (show_piece (Spec [] (Some n) None CHR ''d'') @ [CHR 0x00]) [Word_arg v] =
    Some ([Sys_down sem] @ map Sys_write t @ [Sys_up sem], [], 1) \<and> n \<le> length t"
proof -
  let ?t = "int_conv 0 (int n) (- 1) CHR ''d'' v"
  have ok: "ok_piece (Spec [] (Some n) None CHR ''d'')" using assms by (simp add: int_convs_def)
  have d: "CHR ''d'' \<in> set int_convs" by (simp add: int_convs_def)
  have "dopr fpu 1000 (show_piece (Spec [] (Some n) None CHR ''d'') @ [CHR 0x00]) [Word_arg v] =
    dopr_loop fpu 1000 (reading DP_S_DEFAULT [CHR 0x00] [] 0 (- 1) 0 ?t)"
    using run_spec[OF ok, of "[CHR 0x00]" "[]" 1000 fpu "[Word_arg v]"] conv_word[OF d, of "[CHR 0x00]" fpu 1000 v "[]"]
    by (simp add: dopr_at width_of_def prec_of_def flags_of_def del: show_piece.simps)
  moreover have "n \<le> length ?t"
    by (simp add: int_conv_def int_field_def Let_def has_flag_def flag_defs)
  ultimately show ?thesis
    using run_end[of fpu 1000 "[]" 0 "- 1" 0 ?t] by (auto simp: printf_def vprintf_def simp del: show_piece.simps)
qed

theorem width_beats_limit_witness:
  "\<forall>fpu :: nat fpu. \<exists>t. printf fpu 0 (show_piece (Spec [] (Some 5000) None CHR ''d'') @ [CHR 0x00]) [Word_arg 7] =
    Some ([Sys_down 0] @ map Sys_write t @ [Sys_up 0], [], 1) \<and> 5000 \<le> length t"
  by (intro allI, rule width_beats_limit) simp

text \<open>Exact arithmetic as an instance of the x87 operations.\<close>

definition truncate_rat :: "rat \<Rightarrow> int" where
  "truncate_rat r = (if r < 0 then - \<lfloor>- r\<rfloor> else \<lfloor>r\<rfloor>)"

definition exact_fpu :: "rat fpu" where
  "exact_fpu = \<lparr>fp_negative = (\<lambda>r. r < 0), fp_neg = uminus, fp_mul = (*), fp_sub = (-), fp_of_long = of_int,
     fp_to_long = truncate_rat, fp_ge = (\<lambda>a b. a \<ge> b), fp_half = 1 / 2\<rparr>"

lemma fp_digits_small: "0 \<le> n \<Longrightarrow> n < 10 \<Longrightarrow> fp_digits n [] = Some [digit_char False (nat n)]"
  by (subst fp_digits.simps) simp

lemma fp_digits_50: "fp_digits 50 [] = Some ''05''"
  by (simp add: fp_digits.simps[of 50] fp_digits.simps[of 5] digit_char_def Let_def)

lemma print_plain:
  "0 < mx \<Longrightarrow> pf_out (fmtfp_print ic fc None 0 mx 0 s) = pf_out s @ rev ic @ ''.'' @ rev fc @ replicate (nat (mx - int (length fc))) CHR ''0''"
  by (simp add: fmtfp_print_def fmtfp_zeros_def has_flag_def Let_def while_pos while_neg fold_outch outch_emit)

text \<open>\<open>%f\<close> drops the zeros after the point: the fraction is converted as an integer and the missing zeros
  are written behind its digits. With exact arithmetic \<open>%.2f\<close> prints 1.05 and 1.5 alike, as \<open>1.50\<close>, and
  1.05 is never printed.\<close>

theorem fraction_zeros_lost:
  "map_option pf_out (fmtfp exact_fpu (105 / 100) 0 2 0 s) = Some (pf_out s @ ''1.50'')
   \<and> map_option pf_out (fmtfp exact_fpu (15 / 10) 0 2 0 s) = Some (pf_out s @ ''1.50'')"
proof -
  have fl: "\<lfloor>105 / 100 :: rat\<rfloor> = 1" "\<lfloor>15 / 10 :: rat\<rfloor> = 1" "\<lfloor>3 / 2 :: rat\<rfloor> = 1" "\<lfloor>21 / 20 :: rat\<rfloor> = 1" by (simp_all add: floor_eq_iff)
  have p: "pow10 exact_fpu 2 = 100" by (simp add: pow10_def exact_fpu_def numeral_eq_Suc)
  have t: "truncate_rat (21 / 20) = 1" "truncate_rat (3 / 2) = 1" "truncate_rat 5 = 5" "truncate_rat 50 = 50"
    by (simp_all add: truncate_rat_def fl)
  show ?thesis
    by (simp add: fmtfp_def p) (simp add: exact_fpu_def abs_val_def xround_def has_flag_def Let_def t
      fp_digits_small fp_digits_50 print_plain digit_char_def numeral_eq_Suc)
qed

text \<open>\<open>%p\<close> does not set the unsigned flag: addresses in the upper half print with a minus sign.\<close>

lemma pointer_prints_negative: "int_conv 0 0 (- 1) CHR ''p'' 0xFFFFF000 = ''-1000''"
  by code_simp

text \<open>\<open>%w\<close> skips a character without looking at it: at the end of the format it skips the terminator.\<close>

lemma unsupported_w_reads_past: "dopr fpu 1000 (''%w'' @ [CHR 0x00]) [] = None"
  by (simp add: dopr_at loop_at dopr_default_def dopr_flags_def dopr_min_def dopr_dot_def dopr_mod_def
      dopr_conv_def convert_one_def isdigit_def) (simp add: reading_def fetch_def)

end
