(* ===== verification/LibK.thy ===== *)
theory LibK
  imports Prelude
begin

text \<open>
  The helpers of \<open>kernel/libk.h\<close> and \<open>kernel/libk.cc\<close>. A C string is its characters up to the terminator;
  \<open>None\<close> is a read past the memory given.
\<close>

fun kernel_strlen :: "string \<Rightarrow> int option" where
  "kernel_strlen [] = None"
| "kernel_strlen (c # cs) = (if c \<noteq> CHR 0x00 then map_option (\<lambda>n. n + 1) (kernel_strlen cs) else Some 0)"

fun kernel_streq :: "string \<Rightarrow> string \<Rightarrow> bool option" where
  "kernel_streq (x # a) (y # b) =
     (if x \<noteq> y then Some False else if x = CHR 0x00 then Some True else kernel_streq a b)"
| "kernel_streq _ _ = None"

fun kernel_min :: "int list \<Rightarrow> int option" where
  "kernel_min [] = None"
| "kernel_min [v] = Some v"
| "kernel_min (a # as) = map_option (\<lambda>rest. if a < rest then a else rest) (kernel_min as)"

definition kernel_isdigit :: "char \<Rightarrow> bool" where
  "kernel_isdigit c \<longleftrightarrow> 48 \<le> (of_char c :: int) \<and> (of_char c :: int) \<le> 57"

text \<open>On strings of the same kind the comparison is equality.\<close>

definition c_string :: "string \<Rightarrow> string" where
  "c_string s = s @ [CHR 0x00]"

lemma kernel_streq_eq:
  "CHR 0x00 \<notin> set s \<Longrightarrow> CHR 0x00 \<notin> set t \<Longrightarrow> kernel_streq (c_string s) (c_string t) = Some (s = t)"
proof (induction s arbitrary: t)
  case Nil
  then show ?case by (cases t) (auto simp: c_string_def)
next
  case (Cons x s)
  then show ?case by (cases t) (auto simp: c_string_def)
qed

lemma kernel_strlen_eq: "CHR 0x00 \<notin> set s \<Longrightarrow> kernel_strlen (c_string s) = Some (int (length s))"
  by (induction s) (auto simp: c_string_def)

end
