(* ===== verification/Snprintf.thy ===== *)
theory Snprintf
  imports Printf LibK
begin

text \<open>
  The kernel's formatter \<open>kernel/snprintf.cc\<close> and the printing part of \<open>kernel/debug.cc\<close>. The code is a second copy of the user library's, writing to an
  \<open>OutputStream\<close>, here any state with an operation \<open>put\<close>. The constants, the kinds of arguments and the
  x87 parameter are shared with \<open>Printf\<close>; everything else is written out again and then shown to
  do the same as the user's copy.
\<close>

text \<open>The state of the kernel's \<open>dopr\<close>; \<open>k_buffer\<close> is the stream it puts characters to.\<close>

record ('f, 'b) kpf =
  k_state :: dp_state
  k_ch :: char
  k_format :: string
  k_args :: "'f arg list"
  k_min :: int
  k_max :: int
  k_flags :: u32
  k_cflags :: nat
  k_currlen :: int
  k_buffer :: 'b
  k_stores :: "(u32 \<times> nat \<times> int) list"

definition kernel_dopr_outch :: "(char \<Rightarrow> 'b \<Rightarrow> 'b) \<Rightarrow> char \<Rightarrow> ('f, 'b) kpf \<Rightarrow> ('f, 'b) kpf" where
  "kernel_dopr_outch put c s = s\<lparr>k_currlen := k_currlen s + 1, k_buffer := put c (k_buffer s)\<rparr>"

subsection \<open>Strings\<close>

function kernel_fmtstr_spaces :: "(char \<Rightarrow> 'b \<Rightarrow> 'b) \<Rightarrow> int \<Rightarrow> int \<Rightarrow> int \<Rightarrow> ('f, 'b) kpf \<Rightarrow> int \<times> int \<times> ('f, 'b) kpf" where
  "kernel_fmtstr_spaces put padlen cnt mx s =
     (if padlen > 0 \<and> cnt < mx then kernel_fmtstr_spaces put (padlen - 1) (cnt + 1) mx (kernel_dopr_outch put CHR '' '' s)
      else (padlen, cnt, s))"
  by auto
termination by (relation "measure (\<lambda>(_, p, _). nat p)") auto

fun kernel_fmtstr_value :: "(char \<Rightarrow> 'b \<Rightarrow> 'b) \<Rightarrow> string \<Rightarrow> int \<Rightarrow> int \<Rightarrow> ('f, 'b) kpf \<Rightarrow> int \<times> ('f, 'b) kpf" where
  "kernel_fmtstr_value put [] cnt mx s = (cnt, s)"
| "kernel_fmtstr_value put (c # cs) cnt mx s =
     (if cnt < mx then kernel_fmtstr_value put cs (cnt + 1) mx (kernel_dopr_outch put c s) else (cnt, s))"

function kernel_fmtstr_left :: "(char \<Rightarrow> 'b \<Rightarrow> 'b) \<Rightarrow> int \<Rightarrow> int \<Rightarrow> int \<Rightarrow> ('f, 'b) kpf \<Rightarrow> ('f, 'b) kpf" where
  "kernel_fmtstr_left put padlen cnt mx s =
     (if padlen < 0 \<and> cnt < mx then kernel_fmtstr_left put (padlen + 1) (cnt + 1) mx (kernel_dopr_outch put CHR '' '' s) else s)"
  by auto
termination by (relation "measure (\<lambda>(_, p, _). nat (- p))") auto

definition kernel_fmtstr :: "(char \<Rightarrow> 'b \<Rightarrow> 'b) \<Rightarrow> string option \<Rightarrow> u32 \<Rightarrow> int \<Rightarrow> int \<Rightarrow> ('f, 'b) kpf \<Rightarrow> ('f, 'b) kpf" where
  "kernel_fmtstr put value flags mn mx s =
     (let str = (case value of None \<Rightarrow> ''<NULL>'' | Some v \<Rightarrow> v);
          padlen = mn - int (length str);
          padlen = (if padlen < 0 then 0 else padlen);
          padlen = (if has_flag flags DP_F_MINUS then - padlen else padlen);
          (padlen, cnt, s) = kernel_fmtstr_spaces put padlen 0 mx s;
          (cnt, s) = kernel_fmtstr_value put str cnt mx s
      in kernel_fmtstr_left put padlen cnt mx s)"

subsection \<open>Integers\<close>

function kernel_fmtint_digits :: "u32 \<Rightarrow> u32 \<Rightarrow> bool \<Rightarrow> string \<Rightarrow> string" where
  "kernel_fmtint_digits uvalue base caps convert =
     (let convert = convert @ [digit_char caps (unat (uvalue mod base))];
          uvalue = uvalue div base
      in if uvalue \<noteq> 0 \<and> length convert < 20 then kernel_fmtint_digits uvalue base caps convert
         else if length convert = 20 then butlast convert else convert)"
  by auto
termination by (relation "measure (\<lambda>(_, _, _, cs). 20 - length cs)") auto

function kernel_outch_while_pos :: "(char \<Rightarrow> 'b \<Rightarrow> 'b) \<Rightarrow> char \<Rightarrow> int \<Rightarrow> ('f, 'b) kpf \<Rightarrow> int \<times> ('f, 'b) kpf" where
  "kernel_outch_while_pos put c n s = (if n > 0 then kernel_outch_while_pos put c (n - 1) (kernel_dopr_outch put c s) else (n, s))"
  by auto
termination by (relation "measure (\<lambda>(_, _, n, _). nat n)") auto

function kernel_outch_while_neg :: "(char \<Rightarrow> 'b \<Rightarrow> 'b) \<Rightarrow> char \<Rightarrow> int \<Rightarrow> ('f, 'b) kpf \<Rightarrow> ('f, 'b) kpf" where
  "kernel_outch_while_neg put c n s = (if n < 0 then kernel_outch_while_neg put c (n + 1) (kernel_dopr_outch put c s) else s)"
  by auto
termination by (relation "measure (\<lambda>(_, _, n, _). nat (- n))") auto

definition kernel_fmtint :: "(char \<Rightarrow> 'b \<Rightarrow> 'b) \<Rightarrow> u32 \<Rightarrow> u32 \<Rightarrow> int \<Rightarrow> int \<Rightarrow> u32 \<Rightarrow> ('f, 'b) kpf \<Rightarrow> ('f, 'b) kpf" where
  "kernel_fmtint put value base mn mx flags s =
     (let mx = (if mx < 0 then 0 else mx);
          (signvalue, uvalue) =
            (if \<not> has_flag flags DP_F_UNSIGNED then
               if sint value < 0 then (Some CHR ''-'', - value)
               else if has_flag flags DP_F_PLUS then (Some CHR ''+'', value)
               else if has_flag flags DP_F_SPACE then (Some CHR '' '', value)
               else (None, value)
             else (None, value));
          caps = has_flag flags DP_F_UP;
          convert = kernel_fmtint_digits uvalue base caps [];
          place = int (length convert);
          zpadlen = mx - place;
          spadlen = mn - max mx place - (if signvalue \<noteq> None then 1 else 0);
          zpadlen = (if zpadlen < 0 then 0 else zpadlen);
          spadlen = (if spadlen < 0 then 0 else spadlen);
          (zpadlen, spadlen) = (if has_flag flags DP_F_ZERO then (max zpadlen spadlen, 0) else (zpadlen, spadlen));
          spadlen = (if has_flag flags DP_F_MINUS then - spadlen else spadlen);
          (spadlen, s) = kernel_outch_while_pos put CHR '' '' spadlen s;
          s = (case signvalue of None \<Rightarrow> s | Some c \<Rightarrow> kernel_dopr_outch put c s);
          (zpadlen, s) = kernel_outch_while_pos put CHR ''0'' zpadlen s;
          s = fold (kernel_dopr_outch put) (rev convert) s
      in kernel_outch_while_neg put CHR '' '' spadlen s)"

subsection \<open>Floating point\<close>

definition kernel_abs_val :: "'f fpu \<Rightarrow> 'f \<Rightarrow> 'f" where
  "kernel_abs_val fpu value = (if fp_negative fpu value then fp_neg fpu value else value)"

fun kernel_pow10_loop :: "'f fpu \<Rightarrow> nat \<Rightarrow> 'f \<Rightarrow> 'f" where
  "kernel_pow10_loop fpu 0 result = result"
| "kernel_pow10_loop fpu (Suc exp) result = kernel_pow10_loop fpu exp (fp_mul fpu result (fp_of_long fpu 10))"

definition kernel_pow10 :: "'f fpu \<Rightarrow> int \<Rightarrow> 'f" where
  "kernel_pow10 fpu exp = kernel_pow10_loop fpu (nat exp) (fp_of_long fpu 1)"

definition kernel_xround :: "'f fpu \<Rightarrow> 'f \<Rightarrow> int" where
  "kernel_xround fpu value =
     (let intpart = fp_to_long fpu value;
          value = fp_sub fpu value (fp_of_long fpu intpart)
      in if fp_ge fpu value (fp_half fpu) then intpart + 1 else intpart)"

function kernel_fp_digits :: "int \<Rightarrow> string \<Rightarrow> string option" where
  "kernel_fp_digits part convert =
     (if part < 0 then None
      else let convert = convert @ [digit_char False (nat (part mod 10))];
               part = part div 10
           in if part \<noteq> 0 \<and> length convert < 20 then kernel_fp_digits part convert
              else Some (if length convert = 20 then butlast convert else convert))"
  by auto
termination by (relation "measure (\<lambda>(_, cs). 20 - length cs)") auto

definition kernel_fmtfp_zeros :: "(char \<Rightarrow> 'b \<Rightarrow> 'b) \<Rightarrow> int \<Rightarrow> char option \<Rightarrow> u32 \<Rightarrow> ('f, 'b) kpf \<Rightarrow> int \<times> char option \<times> ('f, 'b) kpf" where
  "kernel_fmtfp_zeros put padlen signvalue flags s =
     (if has_flag flags DP_F_ZERO \<and> padlen > 0 then
        let (padlen, s) = (case signvalue of None \<Rightarrow> (padlen, s) | Some c \<Rightarrow> (padlen - 1, kernel_dopr_outch put c s));
            (padlen, s) = kernel_outch_while_pos put CHR ''0'' padlen s
        in (padlen, None, s)
      else (padlen, signvalue, s))"

definition kernel_fmtfp_print :: "(char \<Rightarrow> 'b \<Rightarrow> 'b) \<Rightarrow> string \<Rightarrow> string \<Rightarrow> char option \<Rightarrow> int \<Rightarrow> int \<Rightarrow> u32 \<Rightarrow> ('f, 'b) kpf \<Rightarrow> ('f, 'b) kpf" where
  "kernel_fmtfp_print put iconvert fconvert signvalue mn mx flags s =
     (let padlen = mn - int (length iconvert) - mx - 1 - (if signvalue \<noteq> None then 1 else 0);
          zpadlen = mx - int (length fconvert);
          zpadlen = (if zpadlen < 0 then 0 else zpadlen);
          padlen = (if padlen < 0 then 0 else padlen);
          padlen = (if has_flag flags DP_F_MINUS then - padlen else padlen);
          (padlen, signvalue, s) = kernel_fmtfp_zeros put padlen signvalue flags s;
          (padlen, s) = kernel_outch_while_pos put CHR '' '' padlen s;
          s = (case signvalue of None \<Rightarrow> s | Some c \<Rightarrow> kernel_dopr_outch put c s);
          s = fold (kernel_dopr_outch put) (rev iconvert) s;
          s = (if mx > 0 then fold (kernel_dopr_outch put) (rev fconvert) (kernel_dopr_outch put CHR ''.'' s) else s);
          (zpadlen, s) = kernel_outch_while_pos put CHR ''0'' zpadlen s
      in kernel_outch_while_neg put CHR '' '' padlen s)"

definition kernel_fmtfp :: "(char \<Rightarrow> 'b \<Rightarrow> 'b) \<Rightarrow> 'f fpu \<Rightarrow> 'f \<Rightarrow> int \<Rightarrow> int \<Rightarrow> u32 \<Rightarrow> ('f, 'b) kpf \<Rightarrow> ('f, 'b) kpf option" where
  "kernel_fmtfp put fpu fvalue mn mx flags s =
     (let mx = (if mx < 0 then 6 else mx);
          ufvalue = kernel_abs_val fpu fvalue;
          signvalue = (if fp_negative fpu fvalue then Some CHR ''-''
                       else if has_flag flags DP_F_PLUS then Some CHR ''+''
                       else if has_flag flags DP_F_SPACE then Some CHR '' '' else None);
          intpart = fp_to_long fpu ufvalue;
          mx = (if mx > 9 then 9 else mx);
          fracpart = kernel_xround fpu (fp_mul fpu (kernel_pow10 fpu mx) (fp_sub fpu ufvalue (fp_of_long fpu intpart)));
          (intpart, fracpart) =
            (if fp_ge fpu (fp_of_long fpu fracpart) (kernel_pow10 fpu mx)
             then (intpart + 1, fp_to_long fpu (fp_sub fpu (fp_of_long fpu fracpart) (kernel_pow10 fpu mx)))
             else (intpart, fracpart))
      in do {
        iconvert \<leftarrow> kernel_fp_digits intpart [];
        fconvert \<leftarrow> kernel_fp_digits fracpart [];
        Some (kernel_fmtfp_print put iconvert fconvert signvalue mn mx flags s)
      })"

subsection \<open>The state machine\<close>

definition kernel_fetch :: "('f, 'b) kpf \<Rightarrow> ('f, 'b) kpf option" where
  "kernel_fetch s = (case k_format s of [] \<Rightarrow> None | c # cs \<Rightarrow> Some (s\<lparr>k_ch := c, k_format := cs\<rparr>))"

definition kernel_va_word :: "('f, 'b) kpf \<Rightarrow> (u32 \<times> ('f, 'b) kpf) option" where
  "kernel_va_word s = (case k_args s of Word_arg w # as \<Rightarrow> Some (w, s\<lparr>k_args := as\<rparr>) | _ \<Rightarrow> None)"

definition kernel_va_str :: "('f, 'b) kpf \<Rightarrow> (string option \<times> ('f, 'b) kpf) option" where
  "kernel_va_str s = (case k_args s of Str_arg v # as \<Rightarrow> Some (v, s\<lparr>k_args := as\<rparr>) | _ \<Rightarrow> None)"

definition kernel_va_double :: "('f, 'b) kpf \<Rightarrow> ('f \<times> ('f, 'b) kpf) option" where
  "kernel_va_double s = (case k_args s of Double_arg v # as \<Rightarrow> Some (v, s\<lparr>k_args := as\<rparr>) | _ \<Rightarrow> None)"

definition kernel_va_ldouble :: "('f, 'b) kpf \<Rightarrow> ('f \<times> ('f, 'b) kpf) option" where
  "kernel_va_ldouble s = (case k_args s of LongDouble_arg v # as \<Rightarrow> Some (v, s\<lparr>k_args := as\<rparr>) | _ \<Rightarrow> None)"

definition kernel_dopr_default :: "(char \<Rightarrow> 'b \<Rightarrow> 'b) \<Rightarrow> ('f, 'b) kpf \<Rightarrow> ('f, 'b) kpf option" where
  "kernel_dopr_default put s =
     (if k_ch s = CHR ''%'' then kernel_fetch (s\<lparr>k_state := DP_S_FLAGS\<rparr>)
      else kernel_fetch (kernel_dopr_outch put (k_ch s) s))"

definition kernel_set_flag :: "u32 \<Rightarrow> ('f, 'b) kpf \<Rightarrow> ('f, 'b) kpf" where
  "kernel_set_flag f s = s\<lparr>k_flags := k_flags s OR f\<rparr>"

definition kernel_dopr_flags :: "('f, 'b) kpf \<Rightarrow> ('f, 'b) kpf option" where
  "kernel_dopr_flags s =
     (if k_ch s = CHR ''-'' then kernel_fetch (kernel_set_flag DP_F_MINUS s)
      else if k_ch s = CHR ''+'' then kernel_fetch (kernel_set_flag DP_F_PLUS s)
      else if k_ch s = CHR '' '' then kernel_fetch (kernel_set_flag DP_F_SPACE s)
      else if k_ch s = CHR ''#'' then kernel_fetch (kernel_set_flag DP_F_NUM s)
      else if k_ch s = CHR ''0'' then kernel_fetch (kernel_set_flag DP_F_ZERO s)
      else Some (s\<lparr>k_state := DP_S_MIN\<rparr>))"

definition kernel_dopr_min :: "('f, 'b) kpf \<Rightarrow> ('f, 'b) kpf option" where
  "kernel_dopr_min s =
     (if kernel_isdigit (k_ch s) then kernel_fetch (s\<lparr>k_min := 10 * k_min s + char_to_int (k_ch s)\<rparr>)
      else if k_ch s = CHR ''*'' then do {
        (w, s) \<leftarrow> kernel_va_word s;
        s \<leftarrow> kernel_fetch (s\<lparr>k_min := sint w\<rparr>);
        Some (s\<lparr>k_state := DP_S_DOT\<rparr>)
      }
      else Some (s\<lparr>k_state := DP_S_DOT\<rparr>))"

definition kernel_dopr_dot :: "('f, 'b) kpf \<Rightarrow> ('f, 'b) kpf option" where
  "kernel_dopr_dot s =
     (if k_ch s = CHR ''.'' then kernel_fetch (s\<lparr>k_state := DP_S_MAX\<rparr>)
      else Some (s\<lparr>k_state := DP_S_MOD\<rparr>))"

definition kernel_dopr_max :: "('f, 'b) kpf \<Rightarrow> ('f, 'b) kpf option" where
  "kernel_dopr_max s =
     (if kernel_isdigit (k_ch s) then
        (let mx = (if k_max s < 0 then 0 else k_max s)
         in kernel_fetch (s\<lparr>k_max := 10 * mx + char_to_int (k_ch s)\<rparr>))
      else if k_ch s = CHR ''*'' then do {
        (w, s) \<leftarrow> kernel_va_word s;
        s \<leftarrow> kernel_fetch (s\<lparr>k_max := sint w\<rparr>);
        Some (s\<lparr>k_state := DP_S_MOD\<rparr>)
      }
      else Some (s\<lparr>k_state := DP_S_MOD\<rparr>))"

definition kernel_dopr_mod :: "('f, 'b) kpf \<Rightarrow> ('f, 'b) kpf option" where
  "kernel_dopr_mod s =
     map_option (\<lambda>s. s\<lparr>k_state := DP_S_CONV\<rparr>)
       (if k_ch s = CHR ''h'' then kernel_fetch (s\<lparr>k_cflags := DP_C_SHORT\<rparr>)
        else if k_ch s = CHR ''l'' then kernel_fetch (s\<lparr>k_cflags := DP_C_LONG\<rparr>)
        else if k_ch s = CHR ''L'' then kernel_fetch (s\<lparr>k_cflags := DP_C_LDOUBLE\<rparr>)
        else Some s)"

definition kernel_va_float :: "('f, 'b) kpf \<Rightarrow> ('f \<times> ('f, 'b) kpf) option" where
  "kernel_va_float s = (if k_cflags s = DP_C_LDOUBLE then kernel_va_ldouble s else kernel_va_double s)"

definition kernel_conv_int :: "(char \<Rightarrow> 'b \<Rightarrow> 'b) \<Rightarrow> u32 \<Rightarrow> ('f, 'b) kpf \<Rightarrow> ('f, 'b) kpf option" where
  "kernel_conv_int put base s = do {
     (value, s) \<leftarrow> kernel_va_word s;
     Some (kernel_fmtint put value base (k_min s) (k_max s) (k_flags s) s)
   }"

definition kernel_conv_n :: "('f, 'b) kpf \<Rightarrow> ('f, 'b) kpf option" where
  "kernel_conv_n s = do {
     (num, s) \<leftarrow> kernel_va_word s;
     let bytes = (if k_cflags s = DP_C_SHORT then 2 else 4);
     Some (s\<lparr>k_stores := k_stores s @ [(num, bytes, k_currlen s)]\<rparr>)
   }"

definition kernel_conv_char :: "(char \<Rightarrow> 'b \<Rightarrow> 'b) \<Rightarrow> ('f, 'b) kpf \<Rightarrow> ('f, 'b) kpf option" where
  "kernel_conv_char put s = do { (w, s) \<leftarrow> kernel_va_word s; Some (kernel_dopr_outch put (char_of (unat w)) s) }"

definition kernel_conv_str :: "(char \<Rightarrow> 'b \<Rightarrow> 'b) \<Rightarrow> int \<Rightarrow> ('f, 'b) kpf \<Rightarrow> ('f, 'b) kpf option" where
  "kernel_conv_str put maxlen s = do {
     (v, s) \<leftarrow> kernel_va_str s;
     let s = (if k_max s < 0 then s\<lparr>k_max := maxlen\<rparr> else s);
     Some (kernel_fmtstr put v (k_flags s) (k_min s) (k_max s) s)
   }"

definition kernel_conv_float :: "(char \<Rightarrow> 'b \<Rightarrow> 'b) \<Rightarrow> 'f fpu \<Rightarrow> ('f, 'b) kpf \<Rightarrow> ('f, 'b) kpf option" where
  "kernel_conv_float put fpu s = do {
     (fvalue, s) \<leftarrow> kernel_va_float s;
     kernel_fmtfp put fpu fvalue (k_min s) (k_max s) (k_flags s) s
   }"

definition kernel_skip_float :: "('f, 'b) kpf \<Rightarrow> ('f, 'b) kpf option" where
  "kernel_skip_float s = do { (_, s) \<leftarrow> kernel_va_float s; Some s }"

definition kernel_convert_one :: "(char \<Rightarrow> 'b \<Rightarrow> 'b) \<Rightarrow> 'f fpu \<Rightarrow> int \<Rightarrow> ('f, 'b) kpf \<Rightarrow> ('f, 'b) kpf option" where
  "kernel_convert_one put fpu maxlen s =
     (if k_ch s = CHR ''d'' \<or> k_ch s = CHR ''i'' then kernel_conv_int put 10 s
      else if k_ch s = CHR ''o'' then kernel_conv_int put 8 (kernel_set_flag DP_F_UNSIGNED s)
      else if k_ch s = CHR ''u'' then kernel_conv_int put 10 (kernel_set_flag DP_F_UNSIGNED s)
      else if k_ch s = CHR ''X'' then kernel_conv_int put 16 (kernel_set_flag DP_F_UNSIGNED (kernel_set_flag DP_F_UP s))
      else if k_ch s = CHR ''x'' then kernel_conv_int put 16 (kernel_set_flag DP_F_UNSIGNED s)
      else if k_ch s = CHR ''f'' then kernel_conv_float put fpu s
      else if k_ch s = CHR ''E'' \<or> k_ch s = CHR ''G'' then kernel_skip_float (kernel_set_flag DP_F_UP s)
      else if k_ch s = CHR ''e'' \<or> k_ch s = CHR ''g'' then kernel_skip_float s
      else if k_ch s = CHR ''c'' then kernel_conv_char put s
      else if k_ch s = CHR ''s'' then kernel_conv_str put maxlen s
      else if k_ch s = CHR ''p'' then kernel_conv_int put 16 s
      else if k_ch s = CHR ''n'' then kernel_conv_n s
      else if k_ch s = CHR ''%'' then Some (kernel_dopr_outch put (k_ch s) s)
      else if k_ch s = CHR ''w'' then kernel_fetch s
      else Some s)"

definition kernel_dopr_conv :: "(char \<Rightarrow> 'b \<Rightarrow> 'b) \<Rightarrow> 'f fpu \<Rightarrow> int \<Rightarrow> ('f, 'b) kpf \<Rightarrow> ('f, 'b) kpf option" where
  "kernel_dopr_conv put fpu maxlen s = do {
     s \<leftarrow> kernel_convert_one put fpu maxlen s;
     s \<leftarrow> kernel_fetch s;
     Some (s\<lparr>k_state := DP_S_DEFAULT, k_flags := 0, k_cflags := 0, k_min := 0, k_max := -1\<rparr>)
   }"

definition kernel_dopr_step :: "(char \<Rightarrow> 'b \<Rightarrow> 'b) \<Rightarrow> 'f fpu \<Rightarrow> int \<Rightarrow> ('f, 'b) kpf \<Rightarrow> ('f, 'b) kpf option" where
  "kernel_dopr_step put fpu maxlen s =
     (let s = (if k_ch s = CHR 0x00 \<or> k_currlen s \<ge> maxlen then s\<lparr>k_state := DP_S_DONE\<rparr> else s)
      in case k_state s of
           DP_S_DEFAULT \<Rightarrow> kernel_dopr_default put s
         | DP_S_FLAGS \<Rightarrow> kernel_dopr_flags s
         | DP_S_MIN \<Rightarrow> kernel_dopr_min s
         | DP_S_DOT \<Rightarrow> kernel_dopr_dot s
         | DP_S_MAX \<Rightarrow> kernel_dopr_max s
         | DP_S_MOD \<Rightarrow> kernel_dopr_mod s
         | DP_S_CONV \<Rightarrow> kernel_dopr_conv put fpu maxlen s
         | DP_S_DONE \<Rightarrow> Some s)"


subsection \<open>The two copies agree\<close>

text \<open>The kernel state that a user state stands for, when the stream held \<open>b\<close> at the start.\<close>

definition to_kernel :: "(char \<Rightarrow> 'b \<Rightarrow> 'b) \<Rightarrow> 'b \<Rightarrow> 'f pf \<Rightarrow> ('f, 'b) kpf" where
  "to_kernel put b u = \<lparr>k_state = pf_state u, k_ch = pf_ch u, k_format = pf_format u, k_args = pf_args u,
     k_min = pf_min u, k_max = pf_max u, k_flags = pf_flags u, k_cflags = pf_cflags u, k_currlen = pf_currlen u,
     k_buffer = fold put (pf_out u) b, k_stores = pf_stores u\<rparr>"

lemma to_kernel_simps [simp]:
  "k_state (to_kernel put b u) = pf_state u" "k_ch (to_kernel put b u) = pf_ch u"
  "k_format (to_kernel put b u) = pf_format u" "k_args (to_kernel put b u) = pf_args u"
  "k_min (to_kernel put b u) = pf_min u" "k_max (to_kernel put b u) = pf_max u"
  "k_flags (to_kernel put b u) = pf_flags u" "k_cflags (to_kernel put b u) = pf_cflags u"
  "k_currlen (to_kernel put b u) = pf_currlen u" "k_stores (to_kernel put b u) = pf_stores u"
  "k_buffer (to_kernel put b u) = fold put (pf_out u) b"
  "to_kernel put b u\<lparr>k_state := st\<rparr> = to_kernel put b (u\<lparr>pf_state := st\<rparr>)"
  "to_kernel put b u\<lparr>k_ch := c\<rparr> = to_kernel put b (u\<lparr>pf_ch := c\<rparr>)"
  "to_kernel put b u\<lparr>k_format := r\<rparr> = to_kernel put b (u\<lparr>pf_format := r\<rparr>)"
  "to_kernel put b u\<lparr>k_args := as\<rparr> = to_kernel put b (u\<lparr>pf_args := as\<rparr>)"
  "to_kernel put b u\<lparr>k_min := n\<rparr> = to_kernel put b (u\<lparr>pf_min := n\<rparr>)"
  "to_kernel put b u\<lparr>k_max := n\<rparr> = to_kernel put b (u\<lparr>pf_max := n\<rparr>)"
  "to_kernel put b u\<lparr>k_flags := f\<rparr> = to_kernel put b (u\<lparr>pf_flags := f\<rparr>)"
  "to_kernel put b u\<lparr>k_cflags := k\<rparr> = to_kernel put b (u\<lparr>pf_cflags := k\<rparr>)"
  "to_kernel put b u\<lparr>k_stores := l\<rparr> = to_kernel put b (u\<lparr>pf_stores := l\<rparr>)"
  by (simp_all add: to_kernel_def)

declare kernel_outch_while_pos.simps [simp del] kernel_outch_while_neg.simps [simp del]
  kernel_fmtstr_spaces.simps [simp del] kernel_fmtstr_left.simps [simp del]
  kernel_fmtint_digits.simps [simp del] kernel_fp_digits.simps [simp del]

lemma agree_outch [simp]: "kernel_dopr_outch put c (to_kernel put b u) = to_kernel put b (dopr_outch c u)"
  by (simp add: kernel_dopr_outch_def dopr_outch_def putchar_def to_kernel_def)

lemma agree_fold [simp]: "fold (kernel_dopr_outch put) cs (to_kernel put b u) = to_kernel put b (fold dopr_outch cs u)"
  by (induction cs arbitrary: u) simp_all

lemma agree_pos [simp]:
  "kernel_outch_while_pos put c n (to_kernel put b u) = apsnd (to_kernel put b) (outch_while_pos c n u)"
proof (induction c n u rule: outch_while_pos.induct)
  case (1 c n s)
  then show ?case by (subst kernel_outch_while_pos.simps, subst outch_while_pos.simps) simp
qed

lemma agree_neg [simp]:
  "kernel_outch_while_neg put c n (to_kernel put b u) = to_kernel put b (outch_while_neg c n u)"
proof (induction c n u rule: outch_while_neg.induct)
  case (1 c n s)
  then show ?case by (subst kernel_outch_while_neg.simps, subst outch_while_neg.simps) simp
qed

lemma agree_spaces [simp]:
  "kernel_fmtstr_spaces put p n m (to_kernel put b u) = apsnd (apsnd (to_kernel put b)) (fmtstr_spaces p n m u)"
proof (induction p n m u rule: fmtstr_spaces.induct)
  case (1 p n m s)
  then show ?case by (subst kernel_fmtstr_spaces.simps, subst fmtstr_spaces.simps) simp
qed

lemma agree_left [simp]:
  "kernel_fmtstr_left put p n m (to_kernel put b u) = to_kernel put b (fmtstr_left p n m u)"
proof (induction p n m u rule: fmtstr_left.induct)
  case (1 p n m s)
  then show ?case by (subst kernel_fmtstr_left.simps, subst fmtstr_left.simps) simp
qed

lemma agree_value [simp]:
  "kernel_fmtstr_value put cs n m (to_kernel put b u) = apsnd (to_kernel put b) (fmtstr_value cs n m u)"
  by (induction cs arbitrary: n u) simp_all

lemma agree_digits [simp]: "kernel_fmtint_digits u base caps cs = fmtint_digits u base caps cs"
proof (induction u base caps cs rule: fmtint_digits.induct)
  case (1 u base caps cs)
  then show ?case by (subst kernel_fmtint_digits.simps, subst fmtint_digits.simps) (simp add: Let_def)
qed

lemma agree_fp_digits [simp]: "kernel_fp_digits n cs = fp_digits n cs"
proof (induction n cs rule: fp_digits.induct)
  case (1 n cs)
  then show ?case by (subst kernel_fp_digits.simps, subst fp_digits.simps) (simp add: Let_def)
qed

lemma agree_fmtstr [simp]: "kernel_fmtstr put v f mn mx (to_kernel put b u) = to_kernel put b (fmtstr v f mn mx u)"
  by (simp add: kernel_fmtstr_def fmtstr_def Let_def split_beta)

lemma agree_fmtint [simp]:
  "kernel_fmtint put v base mn mx f (to_kernel put b u) = to_kernel put b (fmtint v base mn mx f u)"
proof -
  obtain sg uv where p: "(if \<not> has_flag f DP_F_UNSIGNED then
               if sint v < 0 then (Some CHR ''-'', - v)
               else if has_flag f DP_F_PLUS then (Some CHR ''+'', v)
               else if has_flag f DP_F_SPACE then (Some CHR '' '', v)
               else (None, v)
             else (None, v)) = (sg, uv)"
    by (metis surj_pair)
  show ?thesis
    unfolding kernel_fmtint_def fmtint_def Let_def p prod.case agree_digits
    by (cases sg; cases "has_flag f DP_F_ZERO") (simp_all only: if_True if_False prod.case option.case split_beta
        agree_pos agree_outch agree_fold agree_neg fst_apsnd snd_apsnd)
qed

lemma agree_floats [simp]:
  "kernel_abs_val = abs_val" "kernel_pow10 = pow10" "kernel_xround = xround"
proof -
  have "kernel_pow10_loop fpu n r = pow10_loop fpu n r" for fpu :: "'f fpu" and n r
    by (induction n arbitrary: r) simp_all
  then show "(kernel_pow10 :: 'f fpu \<Rightarrow> _) = pow10" by (intro ext) (simp add: kernel_pow10_def pow10_def)
  show "(kernel_abs_val :: 'g fpu \<Rightarrow> _) = abs_val" "(kernel_xround :: 'h fpu \<Rightarrow> _) = xround"
    by (intro ext; simp add: kernel_abs_val_def abs_val_def kernel_xround_def xround_def)+
qed

lemma agree_zeros [simp]:
  "kernel_fmtfp_zeros put p sg f (to_kernel put b u) = apsnd (apsnd (to_kernel put b)) (fmtfp_zeros p sg f u)"
  by (cases sg) (simp_all add: kernel_fmtfp_zeros_def fmtfp_zeros_def Let_def split_beta)

lemma agree_print [simp]:
  "kernel_fmtfp_print put ic fc sg mn mx f (to_kernel put b u) = to_kernel put b (fmtfp_print ic fc sg mn mx f u)"
proof -
  define pad where "pad = (if has_flag f DP_F_MINUS
      then - (if mn - int (length ic) - mx - 1 - (if sg \<noteq> None then 1 else 0) < 0 then 0
              else mn - int (length ic) - mx - 1 - (if sg \<noteq> None then 1 else 0))
      else (if mn - int (length ic) - mx - 1 - (if sg \<noteq> None then 1 else 0) < 0 then 0
              else mn - int (length ic) - mx - 1 - (if sg \<noteq> None then 1 else 0)))"
  define z where "z = (if mx - int (length fc) < 0 then 0 else mx - int (length fc))"
  obtain p sg' v where zz: "fmtfp_zeros pad sg f u = (p, sg', v)" by (metis surj_pair)
  show ?thesis
    unfolding kernel_fmtfp_print_def fmtfp_print_def Let_def pad_def[symmetric] z_def[symmetric] agree_zeros zz
    by (cases sg'; cases "0 < mx") (simp_all add: split_beta)
qed

lemma agree_fmtfp [simp]:
  "kernel_fmtfp put fpu v mn mx f (to_kernel put b u) = map_option (to_kernel put b) (fmtfp fpu v mn mx f u)"
  unfolding kernel_fmtfp_def fmtfp_def Let_def
  by (simp only: agree_floats agree_fp_digits agree_print split_beta map_option_bind comp_def option.map)

lemma agree_fetch [simp]: "kernel_fetch (to_kernel put b u) = map_option (to_kernel put b) (fetch u)"
  by (simp add: kernel_fetch_def fetch_def split: list.split)

lemma agree_va [simp]:
  "kernel_va_word (to_kernel put b u) = map_option (apsnd (to_kernel put b)) (va_word u)"
  "kernel_va_str (to_kernel put b u) = map_option (apsnd (to_kernel put b)) (va_str u)"
  "kernel_va_float (to_kernel put b u) = map_option (apsnd (to_kernel put b)) (va_float u)"
  by (simp_all add: kernel_va_word_def va_word_def kernel_va_str_def va_str_def kernel_va_float_def va_float_def
      kernel_va_double_def va_double_def kernel_va_ldouble_def va_ldouble_def split: list.split arg.split)

lemma agree_set_flag [simp]: "kernel_set_flag f (to_kernel put b u) = to_kernel put b (set_flag f u)"
  by (simp add: kernel_set_flag_def set_flag_def)

lemma agree_isdigit [simp]: "kernel_isdigit c = isdigit c"
  by (simp add: kernel_isdigit_def isdigit_def)

lemma bind_map_option: "map_option f x \<bind> g = x \<bind> (\<lambda>y. g (f y))"
  by (cases x) simp_all

lemmas agree_bind = bind_map_option map_option_bind comp_def split_beta fst_apsnd snd_apsnd

lemma agree_conv [simp]:
  "kernel_conv_int put n (to_kernel put b u) = map_option (to_kernel put b) (conv_int n u)"
  "kernel_conv_n (to_kernel put b u) = map_option (to_kernel put b) (conv_n u)"
  "kernel_conv_char put (to_kernel put b u) = map_option (to_kernel put b) (conv_char u)"
  "kernel_conv_str put m (to_kernel put b u) = map_option (to_kernel put b) (conv_str m u)"
  "kernel_conv_float put fpu (to_kernel put b u) = map_option (to_kernel put b) (conv_float fpu u)"
  "kernel_skip_float (to_kernel put b u) = map_option (to_kernel put b) (skip_float u)"
proof -
  show "kernel_conv_str put m (to_kernel put b u) = map_option (to_kernel put b) (conv_str m u)"
    by (cases "va_str u") (simp_all add: kernel_conv_str_def conv_str_def Let_def split_beta)
qed (simp_all add: kernel_conv_int_def conv_int_def kernel_conv_n_def conv_n_def kernel_conv_char_def conv_char_def
    kernel_conv_float_def conv_float_def kernel_skip_float_def skip_float_def Let_def agree_bind)

lemma agree_convert [simp]:
  "kernel_convert_one put fpu m (to_kernel put b u) = map_option (to_kernel put b) (convert_one fpu m u)"
  unfolding kernel_convert_one_def convert_one_def
  by (simp only: to_kernel_simps agree_conv agree_set_flag agree_fetch agree_outch option.map
      if_distrib[of "map_option (to_kernel put b)"])

lemma agree_states [simp]:
  "kernel_dopr_default put (to_kernel put b u) = map_option (to_kernel put b) (dopr_default u)"
  "kernel_dopr_flags (to_kernel put b u) = map_option (to_kernel put b) (dopr_flags u)"
  "kernel_dopr_min (to_kernel put b u) = map_option (to_kernel put b) (dopr_min u)"
  "kernel_dopr_dot (to_kernel put b u) = map_option (to_kernel put b) (dopr_dot u)"
  "kernel_dopr_max (to_kernel put b u) = map_option (to_kernel put b) (dopr_max u)"
  "kernel_dopr_mod (to_kernel put b u) = map_option (to_kernel put b) (dopr_mod u)"
  "kernel_dopr_conv put fpu m (to_kernel put b u) = map_option (to_kernel put b) (dopr_conv fpu m u)"
  by (simp_all add: kernel_dopr_default_def dopr_default_def kernel_dopr_flags_def dopr_flags_def
      kernel_dopr_min_def dopr_min_def kernel_dopr_dot_def dopr_dot_def kernel_dopr_max_def dopr_max_def
      kernel_dopr_mod_def dopr_mod_def kernel_dopr_conv_def dopr_conv_def Let_def agree_bind option.map_comp)

lemma agree_step: "kernel_dopr_step put fpu m (to_kernel put b u) = map_option (to_kernel put b) (dopr_step fpu m u)"
proof -
  have "(if k_ch (to_kernel put b u) = CHR 0x00 \<or> k_currlen (to_kernel put b u) \<ge> m
      then to_kernel put b u\<lparr>k_state := DP_S_DONE\<rparr> else to_kernel put b u)
    = to_kernel put b (if pf_ch u = CHR 0x00 \<or> pf_currlen u \<ge> m then u\<lparr>pf_state := DP_S_DONE\<rparr> else u)" by simp
  then show ?thesis
    unfolding kernel_dopr_step_def dopr_step_def Let_def
    by (simp only: to_kernel_simps) (simp split: dp_state.split)
qed

definition kernel_measure :: "('f, 'b) kpf \<Rightarrow> nat" where
  "kernel_measure s = 8 * length (k_format s) + state_rank (k_state s)"

lemma measure_to_kernel: "kernel_measure (to_kernel put b u) = dopr_measure u"
  by (simp add: kernel_measure_def dopr_measure_def)

lemma to_kernel_onto: "\<exists>u. s = to_kernel put (k_buffer s) u"
proof
  show "s = to_kernel put (k_buffer s) \<lparr>pf_state = k_state s, pf_ch = k_ch s, pf_format = k_format s,
    pf_args = k_args s, pf_min = k_min s, pf_max = k_max s, pf_flags = k_flags s, pf_cflags = k_cflags s,
    pf_currlen = k_currlen s, pf_out = [], pf_stores = k_stores s\<rparr>"
    by (simp add: to_kernel_def)
qed

lemma kernel_step_measure:
  assumes "kernel_dopr_step put fpu m s = Some s'" "k_state s \<noteq> DP_S_DONE"
  shows "kernel_measure s' < kernel_measure s"
proof -
  obtain u where s: "s = to_kernel put (k_buffer s) u" using to_kernel_onto by blast
  obtain u' where u': "dopr_step fpu m u = Some u'" "s' = to_kernel put (k_buffer s) u'"
    using assms(1) agree_step[of put fpu m "k_buffer s" u] s by (cases "dopr_step fpu m u") simp_all
  have "pf_state u \<noteq> DP_S_DONE" using assms(2) s by (metis to_kernel_simps(1))
  from dopr_step_measure[OF u'(1) this] show ?thesis
    using measure_to_kernel s u'(2) by metis
qed

subsection \<open>The loop and the entry points\<close>

function kernel_dopr_loop :: "(char \<Rightarrow> 'b \<Rightarrow> 'b) \<Rightarrow> 'f fpu \<Rightarrow> int \<Rightarrow> ('f, 'b) kpf \<Rightarrow> ('f, 'b) kpf option" where
  "kernel_dopr_loop put fpu maxlen s =
     (if k_state s = DP_S_DONE then Some s
      else do { s \<leftarrow> kernel_dopr_step put fpu maxlen s; kernel_dopr_loop put fpu maxlen s })"
  by auto
termination by (relation "measure (\<lambda>(_, _, _, s). kernel_measure s)") (auto dest: kernel_step_measure)

definition kernel_dopr :: "(char \<Rightarrow> 'b \<Rightarrow> 'b) \<Rightarrow> 'f fpu \<Rightarrow> 'b \<Rightarrow> int \<Rightarrow> string \<Rightarrow> 'f arg list \<Rightarrow> ('f, 'b) kpf option" where
  "kernel_dopr put fpu buffer maxlen format args = do {
     s \<leftarrow> kernel_fetch \<lparr>k_state = DP_S_DEFAULT, k_ch = CHR 0x00, k_format = format, k_args = args, k_min = 0,
                k_max = -1, k_flags = 0, k_cflags = 0, k_currlen = 0, k_buffer = buffer, k_stores = []\<rparr>;
     kernel_dopr_loop put fpu maxlen s
   }"

declare kernel_dopr_loop.simps [simp del]

definition vsnprintf :: "(char \<Rightarrow> 'b \<Rightarrow> 'b) \<Rightarrow> 'f fpu \<Rightarrow> 'b \<Rightarrow> int \<Rightarrow> string \<Rightarrow> 'f arg list \<Rightarrow> ('b \<times> (u32 \<times> nat \<times> int) list) option" where
  "vsnprintf put fpu buffer maxlen fmt args = do {
     s \<leftarrow> kernel_dopr put fpu buffer maxlen fmt args;
     Some (k_buffer s, k_stores s)
   }"

definition snprintf :: "(char \<Rightarrow> 'b \<Rightarrow> 'b) \<Rightarrow> 'f fpu \<Rightarrow> 'b \<Rightarrow> int \<Rightarrow> string \<Rightarrow> 'f arg list \<Rightarrow> ('b \<times> (u32 \<times> nat \<times> int) list) option" where
  "snprintf put fpu buffer maxlen fmt args = vsnprintf put fpu buffer maxlen fmt args"

lemma agree_loop:
  "kernel_dopr_loop put fpu m (to_kernel put b u) = map_option (to_kernel put b) (dopr_loop fpu m u)"
proof (induction fpu m u rule: dopr_loop.induct)
  case (1 fpu m u)
  then show ?case
    by (subst kernel_dopr_loop.simps, subst dopr_loop.simps)
      (cases "dopr_step fpu m u"; simp add: agree_step)
qed

lemma agree_dopr:
  "kernel_dopr put fpu b m fmt args = map_option (to_kernel put b) (dopr fpu m fmt args)"
proof -
  have "\<lparr>k_state = DP_S_DEFAULT, k_ch = CHR 0x00, k_format = fmt, k_args = args, k_min = 0, k_max = -1,
      k_flags = 0, k_cflags = 0, k_currlen = 0, k_buffer = b, k_stores = []\<rparr>
    = to_kernel put b \<lparr>pf_state = DP_S_DEFAULT, pf_ch = CHR 0x00, pf_format = fmt, pf_args = args, pf_min = 0,
      pf_max = -1, pf_flags = 0, pf_cflags = 0, pf_currlen = 0, pf_out = [], pf_stores = []\<rparr>"
    by (simp add: to_kernel_def)
  then show ?thesis
    unfolding kernel_dopr_def dopr_def by (simp only: agree_fetch agree_bind agree_loop)
qed

text \<open>C40. The kernel's and the user library's formatters are the same: for every stream, format, argument list and
  arithmetic, the kernel's \<open>vsnprintf\<close> puts to the stream exactly the characters that the user's
  \<open>dopr\<close> writes, in order, makes the same \<open>%n\<close> stores, and is undefined on the same inputs.\<close>

theorem formatters_agree:
  "vsnprintf put fpu b maxlen fmt args =
    map_option (\<lambda>u. (fold put (pf_out u) b, pf_stores u)) (dopr fpu maxlen fmt args)"
  by (cases "dopr fpu maxlen fmt args") (simp_all add: vsnprintf_def agree_dopr)

subsection \<open>Debug output\<close>

text \<open>
  \<open>Debug::vprintf\<close> prints at most 1000 characters to the sink, if one is set, under a lock; \<open>vpanic\<close> prints
  and then halts. The state is the sink; \<open>None\<close> is undefined behaviour.
\<close>

definition debug_vprintf :: "(char \<Rightarrow> 'b \<Rightarrow> 'b) \<Rightarrow> 'f fpu \<Rightarrow> string \<Rightarrow> 'f arg list \<Rightarrow> 'b option \<Rightarrow> 'b option option" where
  "debug_vprintf put fpu fmt args sink =
     (case sink of
        None \<Rightarrow> Some None
      | Some b \<Rightarrow> do { (b, _) \<leftarrow> vsnprintf put fpu b 1000 fmt args; Some (Some b) })"

definition debug_printf :: "(char \<Rightarrow> 'b \<Rightarrow> 'b) \<Rightarrow> 'f fpu \<Rightarrow> string \<Rightarrow> 'f arg list \<Rightarrow> 'b option \<Rightarrow> 'b option option" where
  "debug_printf put fpu fmt args sink = debug_vprintf put fpu fmt args sink"

definition vdebug :: "(char \<Rightarrow> 'b \<Rightarrow> 'b) \<Rightarrow> 'f fpu \<Rightarrow> bool \<Rightarrow> bool \<Rightarrow> string \<Rightarrow> string \<Rightarrow> 'f arg list \<Rightarrow> 'b option \<Rightarrow> 'b option option" where
  "vdebug put fpu debugAll flag what fmt args sink =
     (if debugAll \<or> flag then do {
        sink \<leftarrow> debug_printf put fpu (''[%s] '' @ [CHR 0x00]) [Str_arg (Some what)] sink;
        sink \<leftarrow> debug_vprintf put fpu fmt args sink;
        debug_printf put fpu ([CHR 0x0A, CHR 0x00]) [] sink
      } else Some sink)"

definition debug :: "(char \<Rightarrow> 'b \<Rightarrow> 'b) \<Rightarrow> 'f fpu \<Rightarrow> bool \<Rightarrow> bool \<Rightarrow> string \<Rightarrow> string \<Rightarrow> 'f arg list \<Rightarrow> 'b option \<Rightarrow> 'b option option" where
  "debug put fpu debugAll flag what fmt args sink =
     (if debugAll \<or> flag then vdebug put fpu debugAll flag what fmt args sink else Some sink)"

text \<open>
  The calls that do not return: the sink and \<open>shutdown_called\<close> as they stand when the processor spins
  in its last loop.
\<close>

definition newline :: string where "newline = [CHR 0x0A, CHR 0x00]"

definition debug_shutdown :: "(char \<Rightarrow> 'b \<Rightarrow> 'b) \<Rightarrow> 'f fpu \<Rightarrow> u32 \<Rightarrow> u32 \<Rightarrow> 'b option \<Rightarrow> ('b option \<times> bool) option" where
  "debug_shutdown put fpu me checks sink = do {
     sink \<leftarrow> (if checks > 0 then debug_printf put fpu (''*** passed %d checkes'' @ newline) [Word_arg checks] sink
             else Some sink);
     sink \<leftarrow> debug_printf put fpu (''core %d requested shutdown'' @ newline) [Word_arg me] sink;
     Some (sink, True)
   }"

definition debug_vpanic :: "(char \<Rightarrow> 'b \<Rightarrow> 'b) \<Rightarrow> 'f fpu \<Rightarrow> u32 \<Rightarrow> string \<Rightarrow> 'f arg list \<Rightarrow> 'b option \<Rightarrow> ('b option \<times> bool) option" where
  "debug_vpanic put fpu me fmt args sink = do {
     sink \<leftarrow> debug_vprintf put fpu fmt args sink;
     sink \<leftarrow> debug_printf put fpu (''| processor %d halting'' @ newline) [Word_arg me] sink;
     Some (sink, True)
   }"

definition debug_panic :: "(char \<Rightarrow> 'b \<Rightarrow> 'b) \<Rightarrow> 'f fpu \<Rightarrow> u32 \<Rightarrow> string \<Rightarrow> 'f arg list \<Rightarrow> 'b option \<Rightarrow> ('b option \<times> bool) option" where
  "debug_panic put fpu me fmt args sink = debug_vpanic put fpu me fmt args sink"

text \<open>\<open>check\<close> and \<open>assert\<close> go on (\<open>Inr\<close>) when the condition holds and stop (\<open>Inl\<close>) when not.\<close>

definition debug_assert :: "(char \<Rightarrow> 'b \<Rightarrow> 'b) \<Rightarrow> 'f fpu \<Rightarrow> u32 \<Rightarrow> bool \<Rightarrow> string \<Rightarrow> string \<Rightarrow> u32 \<Rightarrow> 'b option
    \<Rightarrow> (('b option \<times> bool) + 'b option) option" where
  "debug_assert put fpu me invariant txt file line sink =
     (if \<not> invariant then
        map_option Inl (debug_panic put fpu me (''*** Assertion [%s] failed at %s:%d'' @ newline)
          [Str_arg (Some txt), Str_arg (Some file), Word_arg line] sink)
      else Some (Inr sink))"

definition debug_check :: "(char \<Rightarrow> 'b \<Rightarrow> 'b) \<Rightarrow> 'f fpu \<Rightarrow> u32 \<Rightarrow> u32 \<Rightarrow> bool \<Rightarrow> string \<Rightarrow> string \<Rightarrow> u32 \<Rightarrow> 'b option
    \<Rightarrow> (('b option \<times> bool) + (u32 \<times> 'b option)) option" where
  "debug_check put fpu me checks invariant txt file line sink =
     (let checks = checks + 1
      in if \<not> invariant then
           map_option Inl (debug_panic put fpu me (''*** Check [%s] failed at %s:%d'' @ newline)
             [Str_arg (Some txt), Str_arg (Some file), Word_arg line] sink)
         else Some (Inr (checks, sink)))"

definition debug_missing :: "(char \<Rightarrow> 'b \<Rightarrow> 'b) \<Rightarrow> 'f fpu \<Rightarrow> u32 \<Rightarrow> string \<Rightarrow> u32 \<Rightarrow> 'b option \<Rightarrow> ('b option \<times> bool) option" where
  "debug_missing put fpu me file line sink =
     debug_panic put fpu me (''*** Missing code at %s:%d'' @ newline) [Str_arg (Some file), Word_arg line] sink"

end
