(* ===== verification/LinkedQueue.thy ===== *)
theory LinkedQueue
  imports Fifo
begin

text \<open>
  The kernel's \<open>Queue<T,LockType>\<close> of \<open>kernel/queue.h\<close>: a singly linked list threaded through the
  \<open>next\<close> field of its elements. Elements are their addresses, \<open>None\<close> is the null pointer, and the
  state is the queue object with the memory of all \<open>next\<close> fields, which other queues share. Each
  operation runs under the queue's lock (or its owner's) and is one step.
\<close>

record queue =
  q_first :: "nat option"
  q_last :: "nat option"

type_synonym nexts = "nat \<Rightarrow> nat option"

definition queue_new :: queue where
  "queue_new = \<lparr>q_first = None, q_last = None\<rparr>"

text \<open>\<open>None\<close> is the write through a null \<open>last\<close>.\<close>

definition queue_add :: "nat \<Rightarrow> queue \<times> nexts \<Rightarrow> (queue \<times> nexts) option" where
  "queue_add t s =
     (let (q, nx) = s;
          nx = nx(t := None)
      in (case q_first q of
            None \<Rightarrow> Some (q\<lparr>q_first := Some t, q_last := Some t\<rparr>, nx)
          | Some _ \<Rightarrow>
              (case q_last q of
                 None \<Rightarrow> None
               | Some l \<Rightarrow> Some (q\<lparr>q_last := Some t\<rparr>, nx(l := Some t)))))"

definition queue_remove :: "queue \<times> nexts \<Rightarrow> nat option \<times> (queue \<times> nexts)" where
  "queue_remove s =
     (let (q, nx) = s
      in (case q_first q of
            None \<Rightarrow> (None, (q, nx))
          | Some it \<Rightarrow>
              (let q = q\<lparr>q_first := nx it\<rparr>;
                   q = (if q_first q = None then q\<lparr>q_last := None\<rparr> else q)
               in (Some it, (q, nx)))))"

definition queue_remove_all :: "queue \<times> nexts \<Rightarrow> nat option \<times> (queue \<times> nexts)" where
  "queue_remove_all s = (let (q, nx) = s in (q_first q, (q\<lparr>q_first := None, q_last := None\<rparr>, nx)))"

text \<open>The list a queue stands for.\<close>

fun chain :: "nexts \<Rightarrow> nat option \<Rightarrow> nat list \<Rightarrow> bool" where
  "chain nx p [] = (p = None)"
| "chain nx p (x # xs) = (p = Some x \<and> chain nx (nx x) xs)"

definition queue_rep :: "queue \<times> nexts \<Rightarrow> nat list \<Rightarrow> bool" where
  "queue_rep s xs \<longleftrightarrow> chain (snd s) (q_first (fst s)) xs \<and> distinct xs
     \<and> q_last (fst s) = (if xs = [] then None else Some (last xs))"

lemma chain_unique: "chain nx p xs \<Longrightarrow> chain nx p ys \<Longrightarrow> xs = ys"
  by (induction xs arbitrary: p ys) (auto elim: chain.elims)

lemma queue_rep_unique: "queue_rep s xs \<Longrightarrow> queue_rep s ys \<Longrightarrow> xs = ys"
  unfolding queue_rep_def using chain_unique by blast

lemma chain_cong: "(\<And>x. x \<in> set xs \<Longrightarrow> nx' x = nx x) \<Longrightarrow> chain nx' p xs = chain nx p xs"
  by (induction xs arbitrary: p) auto

lemma chain_snoc:
  "chain nx p xs \<Longrightarrow> xs \<noteq> [] \<Longrightarrow> distinct xs \<Longrightarrow> t \<notin> set xs \<Longrightarrow> chain (nx(t := None, last xs := Some t)) p (xs @ [t])"
proof (induction xs arbitrary: p)
  case (Cons x xs)
  show ?case
  proof (cases "xs = []")
    case False
    then have "last xs \<in> set xs" by simp
    with Cons False show ?thesis by auto
  qed (use Cons in auto)
qed simp

lemma queue_new_rep: "queue_rep (queue_new, nx) []"
  by (simp add: queue_rep_def queue_new_def)

lemma queue_add_rep:
  assumes "queue_rep (q, nx) xs" "t \<notin> set xs"
  shows "\<exists>q' nx'. queue_add t (q, nx) = Some (q', nx') \<and> queue_rep (q', nx') (xs @ [t])
    \<and> (\<forall>x. x \<noteq> t \<and> x \<notin> set xs \<longrightarrow> nx' x = nx x)"
proof (cases "xs = []")
  case True
  with assms show ?thesis by (simp add: queue_rep_def queue_add_def)
next
  case False
  then obtain f where f: "q_first q = Some f" "q_last q = Some (last xs)"
    using assms(1) by (cases xs) (auto simp: queue_rep_def)
  have "chain (nx(t := None, last xs := Some t)) (q_first q) (xs @ [t])"
    using chain_snoc[of nx "q_first q" xs t] assms False by (simp add: queue_rep_def)
  then show ?thesis
    using f assms False last_in_set[OF False] by (auto simp: queue_add_def queue_rep_def)
qed

lemma queue_remove_rep:
  assumes "queue_rep (q, nx) xs"
  shows "xs = [] \<Longrightarrow> queue_remove (q, nx) = (None, (q, nx))"
    and "xs = x # ys \<Longrightarrow> \<exists>q'. queue_remove (q, nx) = (Some x, (q', nx)) \<and> queue_rep (q', nx) ys"
proof -
  assume "xs = []"
  with assms show "queue_remove (q, nx) = (None, (q, nx))" by (simp add: queue_rep_def queue_remove_def)
next
  assume xs: "xs = x # ys"
  then have "nx x = None \<longleftrightarrow> ys = []" using assms by (cases ys) (auto simp: queue_rep_def)
  with assms xs show "\<exists>q'. queue_remove (q, nx) = (Some x, (q', nx)) \<and> queue_rep (q', nx) ys"
    by (auto simp: queue_rep_def queue_remove_def Let_def)
qed

lemma queue_remove_all_rep:
  assumes "queue_rep (q, nx) xs"
  shows "\<exists>q'. queue_remove_all (q, nx) = (q_first q, (q', nx)) \<and> chain nx (q_first q) xs \<and> queue_rep (q', nx) []"
  using assms by (simp add: queue_rep_def queue_remove_all_def)

text \<open>A queue left alone keeps its list while another one is changed.\<close>

lemma queue_rep_frame: "queue_rep (q, nx) xs \<Longrightarrow> (\<And>x. x \<in> set xs \<Longrightarrow> nx' x = nx x) \<Longrightarrow> queue_rep (q, nx') xs"
  using chain_cong[of xs nx' nx "q_first q"] by (simp add: queue_rep_def)

subsection \<open>The queue is a first-in first-out buffer\<close>

definition queue_list :: "queue \<times> nexts \<Rightarrow> nat list" where
  "queue_list s = (THE xs. queue_rep s xs)"

lemma queue_list_eq: "queue_rep s xs \<Longrightarrow> queue_list s = xs"
  unfolding queue_list_def using queue_rep_unique by blast

interpretation lq: fifo "\<lambda>s. \<exists>xs. queue_rep s xs" queue_list distinct "\<lambda>t s. the (queue_add t s)" queue_remove
proof
  fix s :: "queue \<times> nexts" and t :: nat
  assume ex: "\<exists>xs. queue_rep s xs" and d: "distinct (queue_list s @ [t])"
  obtain q nx where s: "s = (q, nx)" by fastforce
  obtain xs where xs: "queue_rep (q, nx) xs" using ex s by blast
  have l: "queue_list s = xs" unfolding s by (rule queue_list_eq[OF xs])
  obtain q' nx' where a: "queue_add t s = Some (q', nx')" "queue_rep (q', nx') (xs @ [t])"
    using queue_add_rep[OF xs, of t] d l s by auto
  show "(\<exists>xs. queue_rep (the (queue_add t s)) xs) \<and> queue_list (the (queue_add t s)) = queue_list s @ [t]"
    unfolding a(1) option.sel l using a(2) queue_list_eq[OF a(2)] by blast
next
  fix s :: "queue \<times> nexts"
  assume "\<exists>xs. queue_rep s xs" and "queue_list s = []"
  then show "queue_remove s = (None, s)"
    using queue_list_eq queue_remove_rep(1) by (metis surj_pair)
next
  fix s :: "queue \<times> nexts" and x xs
  assume "\<exists>xs. queue_rep s xs" and "queue_list s = x # xs"
  then have "queue_rep s (x # xs)" using queue_list_eq by metis
  moreover obtain q nx where "s = (q, nx)" by fastforce
  ultimately obtain q' where "queue_remove s = (Some x, (q', nx))" "queue_rep (q', nx) xs"
    using queue_remove_rep(2) by blast
  then show "fst (queue_remove s) = Some x \<and> (\<exists>xs. queue_rep (snd (queue_remove s)) xs)
      \<and> queue_list (snd (queue_remove s)) = xs"
    using queue_list_eq by auto
qed

end
