(* ===== verification/Semaphores.thy ===== *)
theory Semaphores
  imports LinkedQueue
begin

text \<open>
  \<open>kernel/semaphore.cc\<close> and \<open>kernel/blocking_lock.h\<close>, and the threads that use them. A semaphore is its
  64-bit count and its queue of waiting threads; \<open>down\<close> and \<open>up\<close> run under its \<open>ISL\<close> lock with interrupts
  off, so each is one step. Threads are numbered; a thread runs a program of instructions between which any
  thread that is not waiting may run, on any core. A woken thread goes on behind its \<open>down\<close>: the permit is
  handed to it, the count does not change.
\<close>

record semaphore =
  sem_count :: u64
  sem_waiting :: queue

definition Semaphore_new :: "u32 \<Rightarrow> semaphore" where
  "Semaphore_new count = \<lparr>sem_count = ucast count, sem_waiting = queue_new\<rparr>"

text \<open>\<open>True\<close>: passed; \<open>False\<close>: the caller is on the queue and blocks. \<open>None\<close> is a fault in the queue.\<close>

definition sem_down :: "nat \<Rightarrow> semaphore \<Rightarrow> nexts \<Rightarrow> (bool \<times> semaphore \<times> nexts) option" where
  "sem_down me s nx =
     (if sem_count s > 0 then Some (True, s\<lparr>sem_count := sem_count s - 1\<rparr>, nx)
      else (case queue_add me (sem_waiting s, nx) of
              None \<Rightarrow> None
            | Some (q, nx) \<Rightarrow> Some (False, s\<lparr>sem_waiting := q\<rparr>, nx)))"

text \<open>The thread to schedule, if any.\<close>

definition sem_up :: "semaphore \<Rightarrow> nexts \<Rightarrow> nat option \<times> semaphore \<times> nexts" where
  "sem_up s nx =
     (let (next, (q, nx)) = queue_remove (sem_waiting s, nx);
          s = s\<lparr>sem_waiting := q\<rparr>;
          s = (if next = None then s\<lparr>sem_count := sem_count s + 1\<rparr> else s)
      in (next, s, nx))"

text \<open>\<open>BlockingLock\<close>: a semaphore that starts at 1.\<close>

definition BlockingLock_new :: semaphore where
  "BlockingLock_new = Semaphore_new 1"

definition BlockingLock_lock :: "nat \<Rightarrow> semaphore \<Rightarrow> nexts \<Rightarrow> (bool \<times> semaphore \<times> nexts) option" where
  "BlockingLock_lock me s nx = sem_down me s nx"

definition BlockingLock_unlock :: "semaphore \<Rightarrow> nexts \<Rightarrow> nat option \<times> semaphore \<times> nexts" where
  "BlockingLock_unlock s nx = sem_up s nx"

definition BlockingLock_isMine :: "semaphore \<Rightarrow> bool" where
  "BlockingLock_isMine s = True"

subsection \<open>Threads\<close>

text \<open>An instruction with the label that follows it; \<open>Local\<close> is a step on shared memory, \<open>None\<close> a failed assertion.\<close>

datatype ('sh, 'l) instr = Down nat 'l | Up nat 'l | Local "'sh \<Rightarrow> ('sh \<times> 'l) option" | Halt

datatype 'l tstate = Run 'l | Wait nat 'l

record ('sh, 'l) tsys =
  shared :: 'sh
  sems :: "nat \<Rightarrow> semaphore"
  links_of :: nexts
  threads :: "'l tstate list"

inductive sstep :: "('l \<Rightarrow> ('sh, 'l) instr) \<Rightarrow> ('sh, 'l) tsys \<Rightarrow> ('sh, 'l) tsys \<Rightarrow> bool" for prog where
  pass: "t < length (threads c) \<Longrightarrow> threads c ! t = Run l \<Longrightarrow> prog l = Down i l' \<Longrightarrow>
    sem_down t (sems c i) (links_of c) = Some (True, s, nx) \<Longrightarrow>
    sstep prog c (c\<lparr>sems := (sems c)(i := s), links_of := nx, threads := (threads c)[t := Run l']\<rparr>)"
| suspend: "t < length (threads c) \<Longrightarrow> threads c ! t = Run l \<Longrightarrow> prog l = Down i l' \<Longrightarrow>
    sem_down t (sems c i) (links_of c) = Some (False, s, nx) \<Longrightarrow>
    sstep prog c (c\<lparr>sems := (sems c)(i := s), links_of := nx, threads := (threads c)[t := Wait i l']\<rparr>)"
| release: "t < length (threads c) \<Longrightarrow> threads c ! t = Run l \<Longrightarrow> prog l = Up i l' \<Longrightarrow>
    sem_up (sems c i) (links_of c) = (None, s, nx) \<Longrightarrow>
    sstep prog c (c\<lparr>sems := (sems c)(i := s), links_of := nx, threads := (threads c)[t := Run l']\<rparr>)"
| wake: "t < length (threads c) \<Longrightarrow> threads c ! t = Run l \<Longrightarrow> prog l = Up i l' \<Longrightarrow>
    sem_up (sems c i) (links_of c) = (Some u, s, nx) \<Longrightarrow> u < length (threads c) \<Longrightarrow> threads c ! u = Wait j m \<Longrightarrow>
    sstep prog c (c\<lparr>sems := (sems c)(i := s), links_of := nx, threads := (threads c)[t := Run l', u := Run m]\<rparr>)"
| work: "t < length (threads c) \<Longrightarrow> threads c ! t = Run l \<Longrightarrow> prog l = Local f \<Longrightarrow> f (shared c) = Some (sh, l') \<Longrightarrow>
    sstep prog c (c\<lparr>shared := sh, threads := (threads c)[t := Run l']\<rparr>)"

text \<open>The waiting threads are exactly those on the queues, and nobody waits while the count is positive.\<close>

definition waits_on :: "('sh, 'l) tsys \<Rightarrow> nat \<Rightarrow> nat set" where
  "waits_on c i = {t. t < length (threads c) \<and> (\<exists>l. threads c ! t = Wait i l)}"

definition waiting_ok :: "('sh, 'l) tsys \<Rightarrow> nat \<Rightarrow> bool" where
  "waiting_ok c i \<longleftrightarrow> (\<exists>xs. queue_rep (sem_waiting (sems c i), links_of c) xs \<and> set xs = waits_on c i
     \<and> (sem_count (sems c i) > 0 \<longrightarrow> xs = []))"

definition sys_ok :: "('sh, 'l) tsys \<Rightarrow> bool" where
  "sys_ok c \<longleftrightarrow> (\<forall>i. waiting_ok c i)"

lemma waited_on_empty:
  assumes "sys_ok c" "waits_on c i \<noteq> {}"
  shows "sem_count (sems c i) = 0"
proof -
  obtain xs where "set xs = waits_on c i" "sem_count (sems c i) > 0 \<longrightarrow> xs = []"
    using assms(1) unfolding sys_ok_def waiting_ok_def by blast
  with assms(2) show ?thesis by (auto simp: word_gt_0)
qed

lemma waits_on_update:
  "t < length (threads c) \<Longrightarrow> waits_on (c\<lparr>threads := (threads c)[t := Run l]\<rparr>) i = waits_on c i - {t}"
  "t < length (threads c) \<Longrightarrow> waits_on (c\<lparr>threads := (threads c)[t := Wait j l]\<rparr>) i
    = (if i = j then insert t (waits_on c i) else waits_on c i - {t})"
  by (auto simp: waits_on_def nth_list_update split: if_splits)

lemma waits_on_cong: "threads c = threads c' \<Longrightarrow> waits_on c i = waits_on c' i"
  by (simp add: waits_on_def)

lemma waits_on_disjoint: "i \<noteq> j \<Longrightarrow> waits_on c i \<inter> waits_on c j = {}"
  by (auto simp: waits_on_def)

lemma running_not_waiting: "threads c ! t = Run l \<Longrightarrow> t \<notin> waits_on c i"
  by (simp add: waits_on_def)

lemma sem_down_cases:
  assumes "sem_down me s nx = Some (b, s', nx')" "queue_rep (sem_waiting s, nx) xs" "sem_count s > 0 \<longrightarrow> xs = []" "me \<notin> set xs"
  shows "b \<and> sem_count s > 0 \<and> s' = s\<lparr>sem_count := sem_count s - 1\<rparr> \<and> nx' = nx
    \<or> \<not> b \<and> sem_count s = 0 \<and> sem_count s' = 0 \<and> queue_rep (sem_waiting s', nx') (xs @ [me])
      \<and> (\<forall>x. x \<noteq> me \<and> x \<notin> set xs \<longrightarrow> nx' x = nx x)"
proof (cases "sem_count s > 0")
  case True
  with assms(1) show ?thesis by (auto simp: sem_down_def)
next
  case False
  then have z: "sem_count s = 0" by (simp add: word_gt_0)
  obtain q nx1 where q: "queue_add me (sem_waiting s, nx) = Some (q, nx1)" "queue_rep (q, nx1) (xs @ [me])"
    "\<forall>x. x \<noteq> me \<and> x \<notin> set xs \<longrightarrow> nx1 x = nx x"
    using queue_add_rep[OF assms(2,4)] by blast
  with z assms(1) show ?thesis by (auto simp: sem_down_def)
qed

lemma sem_down_total:
  assumes "queue_rep (sem_waiting s, nx) xs" "me \<notin> set xs"
  shows "\<exists>b s' nx'. sem_down me s nx = Some (b, s', nx')"
  using queue_add_rep[OF assms] by (auto simp: sem_down_def)

lemma sem_up_cases:
  assumes "sem_up s nx = (r, s', nx')" "queue_rep (sem_waiting s, nx) xs"
  shows "nx' = nx \<and> (xs = [] \<and> r = None \<and> s' = s\<lparr>sem_count := sem_count s + 1\<rparr>
    \<or> (\<exists>x ys. xs = x # ys \<and> r = Some x \<and> queue_rep (sem_waiting s', nx) ys \<and> sem_count s' = sem_count s))"
proof (cases xs)
  case Nil
  with queue_remove_rep(1)[OF assms(2)] assms(1) show ?thesis by (auto simp: sem_up_def)
next
  case (Cons x ys)
  with queue_remove_rep(2)[OF assms(2) Cons] assms(1) show ?thesis by (auto simp: sem_up_def)
qed

lemma waiting_ok_frame:
  assumes "waiting_ok c k" "sems c' k = sems c k" "waits_on c' k = waits_on c k"
    and "\<And>x. x \<in> waits_on c k \<Longrightarrow> links_of c' x = links_of c x"
  shows "waiting_ok c' k"
proof -
  obtain xs where xs: "queue_rep (sem_waiting (sems c k), links_of c) xs" "set xs = waits_on c k"
    "sem_count (sems c k) > 0 \<longrightarrow> xs = []" using assms(1) unfolding waiting_ok_def by blast
  have "queue_rep (sem_waiting (sems c' k), links_of c') xs"
    unfolding assms(2) by (rule queue_rep_frame[OF xs(1)]) (use assms(4) xs(2) in blast)
  with xs assms(2,3) show ?thesis unfolding waiting_ok_def by auto
qed

lemma sys_ok_step:
  assumes "sstep prog c c'" "sys_ok c"
  shows "sys_ok c'"
  using assms(1)
proof (cases rule: sstep.cases)
  case (pass t l i l' s nx)
  have t: "t \<notin> waits_on c k" for k by (rule running_not_waiting[OF pass(3)])
  obtain xs where xs: "queue_rep (sem_waiting (sems c i), links_of c) xs" "set xs = waits_on c i"
    "sem_count (sems c i) > 0 \<longrightarrow> xs = []" using assms(2) unfolding sys_ok_def waiting_ok_def by blast
  from sem_down_cases[OF pass(5) xs(1,3)] t xs(2)
  have d: "sem_count (sems c i) > 0" "s = sems c i\<lparr>sem_count := sem_count (sems c i) - 1\<rparr>" "nx = links_of c" by auto
  have w: "waits_on c' k = waits_on c k" for k
    using waits_on_update(1)[OF pass(2), of l' k] t[of k] unfolding pass(1) by (simp add: waits_on_def)
  have "waiting_ok c' k" for k
  proof (cases "k = i")
    case True
    have "sem_waiting (sems c' i) = sem_waiting (sems c i)" "links_of c' = links_of c"
      using d pass(1) by simp_all
    with True xs d w show ?thesis unfolding waiting_ok_def by (intro exI[of _ "[]"]) auto
  next
    case False
    show ?thesis by (rule waiting_ok_frame[of c k]) (use assms(2) False w d pass(1) in \<open>simp_all add: sys_ok_def\<close>)
  qed
  then show ?thesis unfolding sys_ok_def by blast
next
  case (suspend t l i l' s nx)
  have t: "t \<notin> waits_on c k" for k by (rule running_not_waiting[OF suspend(3)])
  obtain xs where xs: "queue_rep (sem_waiting (sems c i), links_of c) xs" "set xs = waits_on c i"
    "sem_count (sems c i) > 0 \<longrightarrow> xs = []" using assms(2) unfolding sys_ok_def waiting_ok_def by blast
  from sem_down_cases[OF suspend(5) xs(1,3)] t xs(2)
  have d: "sem_count s = 0" "queue_rep (sem_waiting s, nx) (xs @ [t])" "\<forall>x. x \<noteq> t \<and> x \<notin> set xs \<longrightarrow> nx x = links_of c x" by auto
  have w: "waits_on c' k = (if k = i then insert t (waits_on c k) else waits_on c k)" for k
    using waits_on_update(2)[OF suspend(2), of i l' k] t[of k] unfolding suspend(1) by (simp add: waits_on_def)
  have "waiting_ok c' k" for k
  proof (cases "k = i")
    case True
    with xs d w suspend(1) show ?thesis unfolding waiting_ok_def by (intro exI[of _ "xs @ [t]"]) auto
  next
    case False
    show ?thesis
    proof (rule waiting_ok_frame[of c k])
      fix x assume x: "x \<in> waits_on c k"
      then have "x \<notin> set xs" using xs(2) waits_on_disjoint[OF False, of c] by blast
      moreover have "x \<noteq> t" using t x by blast
      ultimately show "links_of c' x = links_of c x" using d(3) suspend(1) by simp
    qed (use assms(2) False w suspend(1) in \<open>simp_all add: sys_ok_def\<close>)
  qed
  then show ?thesis unfolding sys_ok_def by blast
next
  case (release t l i l' s nx)
  have t: "t \<notin> waits_on c k" for k by (rule running_not_waiting[OF release(3)])
  obtain xs where xs: "queue_rep (sem_waiting (sems c i), links_of c) xs" "set xs = waits_on c i"
    using assms(2) unfolding sys_ok_def waiting_ok_def by blast
  from sem_up_cases[OF release(5) xs(1)] have d: "nx = links_of c" "xs = []" "sem_waiting s = sem_waiting (sems c i)" by auto
  have w: "waits_on c' k = waits_on c k" for k
    using waits_on_update(1)[OF release(2), of l' k] t[of k] unfolding release(1) by (simp add: waits_on_def)
  have "waiting_ok c' k" for k
  proof (cases "k = i")
    case True
    with xs d w release(1) show ?thesis unfolding waiting_ok_def by (intro exI[of _ "[]"]) auto
  next
    case False
    show ?thesis by (rule waiting_ok_frame[of c k]) (use assms(2) False w d release(1) in \<open>simp_all add: sys_ok_def\<close>)
  qed
  then show ?thesis unfolding sys_ok_def by blast
next
  case (wake t l i l' u s nx j m)
  have t: "t \<notin> waits_on c k" for k by (rule running_not_waiting[OF wake(3)])
  obtain xs where xs: "queue_rep (sem_waiting (sems c i), links_of c) xs" "set xs = waits_on c i"
    "sem_count (sems c i) > 0 \<longrightarrow> xs = []" using assms(2) unfolding sys_ok_def waiting_ok_def by blast
  from sem_up_cases[OF wake(5) xs(1)] obtain ys where
    d: "nx = links_of c" "xs = u # ys" "queue_rep (sem_waiting s, links_of c) ys" "sem_count s = sem_count (sems c i)" by auto
  have ui: "u \<in> waits_on c i" using xs(2) d(2) by auto
  have dist: "u \<notin> set ys" using xs(1) d(2) by (simp add: queue_rep_def)
  have w: "waits_on c' k = waits_on c k - {u}" for k
    using waits_on_update(1)[of u "c\<lparr>threads := (threads c)[t := Run l']\<rparr>" m k] waits_on_update(1)[OF wake(2), of l' k] t[of k] wake(6)
    unfolding wake(1) by (simp add: waits_on_def)
  have "waiting_ok c' k" for k
  proof (cases "k = i")
    case True
    have "set ys = waits_on c i - {u}" using xs(2) d(2) dist by auto
    with True d w wake(1) xs(3) show ?thesis unfolding waiting_ok_def by (intro exI[of _ ys]) auto
  next
    case False
    have u: "u \<notin> waits_on c k" using waits_on_disjoint[OF False, of c] ui by blast
    show ?thesis
      by (rule waiting_ok_frame[of c k]) (use assms(2) False w d u wake(1) in \<open>simp_all add: sys_ok_def\<close>)
  qed
  then show ?thesis unfolding sys_ok_def by blast
next
  case (work t l f sh l')
  have w: "waits_on c' k = waits_on c k" for k
    using waits_on_update(1)[OF work(2), of l' k] running_not_waiting[OF work(3), of k] unfolding work(1)
    by (simp add: waits_on_def)
  have "waiting_ok c' k" for k
    by (rule waiting_ok_frame[of c k]) (use assms(2) w work(1) in \<open>simp_all add: sys_ok_def\<close>)
  then show ?thesis unfolding sys_ok_def by blast
qed

text \<open>A woken thread waits on the semaphore that is raised.\<close>

lemma woken_waits:
  assumes "sys_ok c" "sem_up (sems c i) (links_of c) = (Some u, s, nx)"
  shows "u \<in> waits_on c i"
proof -
  obtain xs where xs: "queue_rep (sem_waiting (sems c i), links_of c) xs" "set xs = waits_on c i"
    using assms(1) unfolding sys_ok_def waiting_ok_def by blast
  from sem_up_cases[OF assms(2) xs(1)] obtain ys where "xs = u # ys" by blast
  with xs(2) show ?thesis by (metis list.set_intros(1))
qed

definition sys_start :: "'sh \<Rightarrow> (nat \<Rightarrow> semaphore) \<Rightarrow> 'l list \<Rightarrow> ('sh, 'l) tsys" where
  "sys_start sh ss ls = \<lparr>shared = sh, sems = ss, links_of = (\<lambda>_. None), threads = map Run ls\<rparr>"

lemma sys_start_ok: "(\<And>i. sem_waiting (ss i) = queue_new) \<Longrightarrow> sys_ok (sys_start sh ss ls)"
proof -
  assume new: "\<And>i. sem_waiting (ss i) = queue_new"
  have "waiting_ok (sys_start sh ss ls) i" for i
  proof -
    have "waits_on (sys_start sh ss ls) i = {}" by (auto simp: waits_on_def sys_start_def)
    then show ?thesis
      unfolding waiting_ok_def using queue_new_rep new by (intro exI[of _ "[]"]) (simp add: sys_start_def)
  qed
  then show ?thesis by (simp add: sys_ok_def)
qed

subsection \<open>Permits\<close>

text \<open>
  The contract between a program and one of its semaphores: each label holds a number of permits \<open>w\<close>, the shared
  state accounts for \<open>m\<close> of them, \<open>down\<close> gains one, \<open>up\<close> gives one back, and no other instruction changes
  the sum. Then count, threads and shared state together always make up the initial number. \<open>good\<close> is
  what keeps the count from wrapping.
\<close>

fun held_by :: "('l \<Rightarrow> int) \<Rightarrow> nat \<Rightarrow> 'l tstate \<Rightarrow> int" where
  "held_by w i (Run l) = w l"
| "held_by w i (Wait j l) = w l - (if j = i then 1 else 0)"

definition permits_in :: "('l \<Rightarrow> int) \<Rightarrow> ('sh \<Rightarrow> int) \<Rightarrow> nat \<Rightarrow> ('sh, 'l) tsys \<Rightarrow> int" where
  "permits_in w m i c = uint (sem_count (sems c i)) + sum_list (map (held_by w i) (threads c)) + m (shared c)"

lemma sum_split:
  fixes f :: "'a \<Rightarrow> int"
  assumes "t < length ts"
  shows "sum_list (map f ts) = sum_list (map f (take t ts)) + f (ts ! t) + sum_list (map f (drop (Suc t) ts))"
proof -
  have "map f ts = map f (take t ts) @ f (ts ! t) # map f (drop (Suc t) ts)"
    using id_take_nth_drop[OF assms] by (metis list.simps(9) map_append)
  then show ?thesis by simp
qed

lemma sum_held_update:
  assumes "t < length ts"
  shows "sum_list (map (held_by w i) (ts[t := x])) = sum_list (map (held_by w i) ts) - held_by w i (ts ! t) + held_by w i x"
  using sum_split[OF assms, of "held_by w i"] sum_split[of t "ts[t := x]" "held_by w i"] assms by simp

lemma sum_held_member:
  assumes "\<forall>x \<in> set ts. 0 \<le> held_by w i x" "t < length ts"
  shows "held_by w i (ts ! t) \<le> sum_list (map (held_by w i) ts)"
proof -
  have "\<forall>x \<in> set (take t ts). 0 \<le> held_by w i x" "\<forall>x \<in> set (drop (Suc t) ts). 0 \<le> held_by w i x"
    using assms(1) in_set_takeD in_set_dropD by metis+
  then have "0 \<le> sum_list (map (held_by w i) (take t ts))" "0 \<le> sum_list (map (held_by w i) (drop (Suc t) ts))"
    by (auto intro!: sum_list_nonneg)
  with sum_split[OF assms(2), of "held_by w i"] show ?thesis by linarith
qed

lemma sem_down_count:
  assumes "sys_ok c" "threads c ! t = Run l" "sem_down t (sems c i) (links_of c) = Some (b, s, nx)"
  shows "uint (sem_count s) = uint (sem_count (sems c i)) - (if b then 1 else 0)"
proof -
  obtain xs where xs: "queue_rep (sem_waiting (sems c i), links_of c) xs" "set xs = waits_on c i"
    "sem_count (sems c i) > 0 \<longrightarrow> xs = []" using assms(1) unfolding sys_ok_def waiting_ok_def by blast
  have "t \<notin> set xs" using running_not_waiting[OF assms(2), of i] xs(2) by simp
  from sem_down_cases[OF assms(3) xs(1,3) this] show ?thesis
  proof
    assume d: "b \<and> sem_count (sems c i) > 0 \<and> s = sems c i\<lparr>sem_count := sem_count (sems c i) - 1\<rparr> \<and> nx = links_of c"
    then have "uint (1 :: u64) \<le> uint (sem_count (sems c i))" by (simp add: word_less_def)
    then have "uint (sem_count (sems c i) - 1) = uint (sem_count (sems c i)) - uint (1 :: u64)"
      using uint_sub_lem[of 1 "sem_count (sems c i)"] by blast
    with d show ?thesis by simp
  qed simp
qed

locale permits =
  fixes prog :: "'l \<Rightarrow> ('sh, 'l) instr"
    and i :: nat
    and w :: "'l \<Rightarrow> int"
    and m :: "'sh \<Rightarrow> int"
    and total :: int
    and good :: "'sh \<Rightarrow> bool"
  assumes w_nonneg: "0 \<le> w l"
    and down_law: "prog l = Down j l' \<Longrightarrow> w l' = w l + (if j = i then 1 else 0)"
    and up_law: "prog l = Up j l' \<Longrightarrow> w l' = w l - (if j = i then 1 else 0)"
    and local_law: "prog l = Local f \<Longrightarrow> f s = Some (s', l') \<Longrightarrow> w l' + m s' = w l + m s"
    and bound: "good s \<Longrightarrow> total - m s < 2 ^ 64"
begin

definition permit_inv :: "('sh, 'l) tsys \<Rightarrow> bool" where
  "permit_inv c \<longleftrightarrow> sys_ok c \<and> permits_in w m i c = total \<and> (\<forall>x \<in> set (threads c). 0 \<le> held_by w i x)"

lemma held_Run [simp]: "0 \<le> held_by w i (Run l)"
  using w_nonneg by simp

lemma held_suspended: "prog l = Down j l' \<Longrightarrow> 0 \<le> held_by w i (Wait j l')"
  using down_law[of l j l'] w_nonneg[of l] by simp

lemma update_nonneg:
  "\<forall>x \<in> set ts. 0 \<le> held_by w i x \<Longrightarrow> 0 \<le> held_by w i y \<Longrightarrow> \<forall>x \<in> set (ts[t := y]). 0 \<le> held_by w i x"
  using set_update_subset_insert[of ts t y] by blast

lemma count_bound:
  assumes "permit_inv c" "t < length (threads c)"
  shows "uint (sem_count (sems c i)) + held_by w i (threads c ! t) \<le> total - m (shared c)"
  using sum_held_member[of "threads c" w i t] assms
  by (simp add: permit_inv_def permits_in_def)

lemma permit_step:
  assumes "sstep prog c c'" "permit_inv c" "good (shared c)"
  shows "permit_inv c'"
proof -
  have ok: "sys_ok c" and tot: "permits_in w m i c = total" and nn: "\<forall>x \<in> set (threads c). 0 \<le> held_by w i x"
    using assms(2) by (auto simp: permit_inv_def)
  have ok': "sys_ok c'" by (rule sys_ok_step[OF assms(1) ok])
  show ?thesis
    using assms(1)
  proof (cases rule: sstep.cases)
    case (pass t l j l' s nx)
    have "permits_in w m i c' = total"
      using tot sem_down_count[OF ok pass(3,5)] down_law[OF pass(4)] unfolding pass(1) permits_in_def
      by (auto simp: sum_held_update[OF pass(2)] pass(3))
    then show ?thesis using ok' update_nonneg[OF nn held_Run] unfolding permit_inv_def pass(1) by simp
  next
    case (suspend t l j l' s nx)
    have "permits_in w m i c' = total"
      using tot sem_down_count[OF ok suspend(3,5)] down_law[OF suspend(4)] unfolding suspend(1) permits_in_def
      by (auto simp: sum_held_update[OF suspend(2)] suspend(3))
    then show ?thesis
      using ok' update_nonneg[OF nn held_suspended[OF suspend(4)]] unfolding permit_inv_def suspend(1) by simp
  next
    case (release t l j l' s nx)
    obtain xs where "queue_rep (sem_waiting (sems c j), links_of c) xs"
      using ok unfolding sys_ok_def waiting_ok_def by blast
    from sem_up_cases[OF release(5) this] have s: "sem_count s = sem_count (sems c j) + 1" by auto
    have "uint (sem_count (sems c i) + 1) = uint (sem_count (sems c i)) + 1" if "j = i"
    proof -
      have "1 \<le> w l" using up_law[OF release(4)] w_nonneg[of l'] that by simp
      then have "uint (sem_count (sems c i)) + 1 < 2 ^ 64"
        using count_bound[OF assms(2) release(2)] release(3) bound[OF assms(3)] by simp
      then show ?thesis using uint_add_lem[of "sem_count (sems c i)" 1] by simp
    qed
    then have "permits_in w m i c' = total"
      using tot up_law[OF release(4)] s unfolding release(1) permits_in_def
      by (auto simp: sum_held_update[OF release(2)] release(3))
    then show ?thesis using ok' update_nonneg[OF nn held_Run] unfolding permit_inv_def release(1) by simp
  next
    case (wake t l j l' u s nx k n)
    have "u \<in> waits_on c j" by (rule woken_waits[OF ok wake(5)])
    then have k: "k = j" using wake(7) by (simp add: waits_on_def)
    have ut: "u \<noteq> t" using wake(3,7) by auto
    obtain xs where "queue_rep (sem_waiting (sems c j), links_of c) xs"
      using ok unfolding sys_ok_def waiting_ok_def by blast
    from sem_up_cases[OF wake(5) this] have s: "sem_count s = sem_count (sems c j)" by auto
    have "permits_in w m i c' = total"
      using tot up_law[OF wake(4)] s ut k unfolding wake(1) permits_in_def
      by (auto simp: sum_held_update wake(2,3,6,7))
    then show ?thesis using ok' update_nonneg[OF update_nonneg[OF nn held_Run] held_Run] unfolding permit_inv_def wake(1) by simp
  next
    case (work t l f sh l')
    have "permits_in w m i c' = total"
      using tot local_law[OF work(4,5)] unfolding work(1) permits_in_def
      by (auto simp: sum_held_update[OF work(2)] work(3))
    then show ?thesis using ok' update_nonneg[OF nn held_Run] unfolding permit_inv_def work(1) by simp
  qed
qed

text \<open>Two threads together hold no more than the total.\<close>

lemma two_holders:
  assumes "permit_inv c" "t < length (threads c)" "u < length (threads c)" "t \<noteq> u"
  shows "held_by w i (threads c ! t) + held_by w i (threads c ! u) \<le> total - m (shared c)"
proof -
  let ?ts = "(threads c)[t := threads c ! u]" and ?f = "held_by w i"
  have nn: "\<forall>x \<in> set (threads c). 0 \<le> ?f x" using assms(1) by (simp add: permit_inv_def)
  define others where "others = sum_list (map ?f (threads c)) - ?f (threads c ! t)"
  have rest: "?f (threads c ! u) \<le> others"
  proof -
    have s: "others = sum_list (map ?f (take t (threads c) @ drop (Suc t) (threads c)))"
      using sum_split[OF assms(2), of ?f] by (simp add: others_def)
    have "threads c ! u \<in> set (take t (threads c) @ drop (Suc t) (threads c))"
    proof (cases "u < t")
      case True
      then show ?thesis using assms(2,3) by (metis Un_iff in_set_conv_nth length_take min_less_iff_conj nth_take set_append)
    next
      case False
      then have "Suc t \<le> u" using assms(4) by simp
      then have "drop (Suc t) (threads c) ! (u - Suc t) = threads c ! u" "u - Suc t < length (drop (Suc t) (threads c))"
        using assms(3) by simp_all
      then show ?thesis by (metis Un_iff in_set_conv_nth set_append)
    qed
    then obtain p where "p < length (take t (threads c) @ drop (Suc t) (threads c))"
      "(take t (threads c) @ drop (Suc t) (threads c)) ! p = threads c ! u" by (meson in_set_conv_nth)
    moreover have "\<forall>x \<in> set (take t (threads c) @ drop (Suc t) (threads c)). 0 \<le> ?f x"
      using nn in_set_takeD in_set_dropD by (metis Un_iff set_append)
    ultimately show ?thesis using sum_held_member unfolding s by metis
  qed
  have "sum_list (map ?f (threads c)) \<le> total - m (shared c)"
    using assms(1) uint_nonnegative[of "sem_count (sems c i)"]
    unfolding permit_inv_def permits_in_def by linarith
  with rest show ?thesis by (simp add: others_def)
qed

end

subsection \<open>The blocking lock\<close>

text \<open>Threads that take the lock, run their critical section and release it, a number of times each.\<close>

datatype mutex_label = MLock nat | MCritical nat | MUnlock nat | MDone

fun mutex_prog :: "mutex_label \<Rightarrow> (unit, mutex_label) instr" where
  "mutex_prog (MLock n) = Down 0 (MCritical n)"
| "mutex_prog (MCritical n) = Local (\<lambda>sh. Some (sh, MUnlock n))"
| "mutex_prog (MUnlock n) = Up 0 (case n of 0 \<Rightarrow> MDone | Suc k \<Rightarrow> MLock k)"
| "mutex_prog MDone = Halt"

fun in_critical :: "mutex_label \<Rightarrow> int" where
  "in_critical (MCritical n) = 1"
| "in_critical (MUnlock n) = 1"
| "in_critical _ = 0"

interpretation mutex: permits mutex_prog 0 in_critical "\<lambda>_. 0" 1 "\<lambda>_. True"
proof
  show "0 \<le> in_critical l" for l by (cases l) auto
  show "in_critical l' = in_critical l + (if j = 0 then 1 else 0)" if "mutex_prog l = Down j l'" for l j l'
    using that by (cases l) auto
  show "in_critical l' = in_critical l - (if j = 0 then 1 else 0)" if "mutex_prog l = Up j l'" for l j l'
    using that by (cases l) (auto split: nat.splits)
  show "in_critical l' + 0 = in_critical l + 0" if "mutex_prog l = Local f" "f s = Some (s', l')" for l f s s' l'
    using that by (cases l) auto
qed simp_all



end
