(* ===== verification/BoundedBuffer.thy ===== *)
theory BoundedBuffer
  imports Semaphores
begin

text \<open>
  \<open>kernel/bb.h\<close>: the bounded buffer of \<open>N\<close> slots, guarded by the semaphores \<open>nEmpty\<close>, \<open>nFull\<close> and \<open>lock\<close>.
  Each statement of \<open>put\<close> and \<open>get\<close> is an instruction of a thread; a thread runs a list of such calls. The ghost
  logs record the values in the order they enter and leave.
\<close>

record 'a bbuf =
  bb_head :: u32
  bb_n :: u32
  bb_N :: u32
  bb_data :: "'a list"
  bb_in :: "'a list"
  bb_out :: "'a list"

definition nEmpty :: nat where "nEmpty = 0"
definition nFull :: nat where "nFull = 1"
definition bb_lock :: nat where "bb_lock = 2"

lemmas bb_sems = nEmpty_def nFull_def bb_lock_def

datatype 'a call = BPut 'a | BGet

text \<open>The label: the statement to run next, with the calls that follow.\<close>

datatype 'a bb_label =
    Idle "'a call list"
  | PutLock 'a "'a call list" | PutData 'a "'a call list" | PutCount 'a "'a call list"
  | PutUnlock "'a call list" | PutFull "'a call list"
  | GetLock "'a call list" | GetData "'a call list" | GetHead 'a "'a call list" | GetCount 'a "'a call list"
  | GetUnlock "'a call list" | GetEmpty "'a call list"

definition bb_store :: "'a \<Rightarrow> 'a bbuf \<Rightarrow> 'a bbuf option" where
  "bb_store t b =
     (if bb_N b = 0 then None
      else let i = unat ((bb_head b + bb_n b) mod bb_N b)
           in if i < length (bb_data b) then Some (b\<lparr>bb_data := (bb_data b)[i := t]\<rparr>) else None)"

definition bb_load :: "'a bbuf \<Rightarrow> 'a option" where
  "bb_load b = (if unat (bb_head b) < length (bb_data b) then Some (bb_data b ! unat (bb_head b)) else None)"

fun bb_prog :: "'a bb_label \<Rightarrow> ('a bbuf, 'a bb_label) instr" where
  "bb_prog (Idle []) = Halt"
| "bb_prog (Idle (BPut t # cs)) = Down nEmpty (PutLock t cs)"
| "bb_prog (PutLock t cs) = Down bb_lock (PutData t cs)"
| "bb_prog (PutData t cs) = Local (\<lambda>b. map_option (\<lambda>b'. (b', PutCount t cs)) (bb_store t b))"
| "bb_prog (PutCount t cs) = Local (\<lambda>b. Some (b\<lparr>bb_n := bb_n b + 1, bb_in := bb_in b @ [t]\<rparr>, PutUnlock cs))"
| "bb_prog (PutUnlock cs) = Up bb_lock (PutFull cs)"
| "bb_prog (PutFull cs) = Up nFull (Idle cs)"
| "bb_prog (Idle (BGet # cs)) = Down nFull (GetLock cs)"
| "bb_prog (GetLock cs) = Down bb_lock (GetData cs)"
| "bb_prog (GetData cs) = Local (\<lambda>b. map_option (\<lambda>out. (b, GetHead out cs)) (bb_load b))"
| "bb_prog (GetHead out cs) =
     Local (\<lambda>b. if bb_N b = 0 then None else Some (b\<lparr>bb_head := (bb_head b + 1) mod bb_N b\<rparr>, GetCount out cs))"
| "bb_prog (GetCount out cs) = Local (\<lambda>b. Some (b\<lparr>bb_n := bb_n b - 1, bb_out := bb_out b @ [out]\<rparr>, GetUnlock cs))"
| "bb_prog (GetUnlock cs) = Up bb_lock (GetEmpty cs)"
| "bb_prog (GetEmpty cs) = Up nEmpty (Idle cs)"

text \<open>The constructor, with threads that are about to run their calls; \<open>junk\<close> is what \<open>new T[N]\<close> holds.\<close>

definition BoundedBuffer_new :: "u32 \<Rightarrow> 'a list \<Rightarrow> 'a bbuf" where
  "BoundedBuffer_new N junk = \<lparr>bb_head = 0, bb_n = 0, bb_N = N, bb_data = junk, bb_in = [], bb_out = []\<rparr>"

definition bb_semaphores :: "u32 \<Rightarrow> nat \<Rightarrow> semaphore" where
  "bb_semaphores N i = (if i = nEmpty then Semaphore_new N else if i = nFull then Semaphore_new 0 else Semaphore_new 1)"

definition bb_start :: "u32 \<Rightarrow> 'a list \<Rightarrow> 'a call list list \<Rightarrow> ('a bbuf, 'a bb_label) tsys" where
  "bb_start N junk cs = sys_start (BoundedBuffer_new N junk) (bb_semaphores N) (map Idle cs)"

subsection \<open>Where the permits are\<close>

fun holds_lock :: "'a bb_label \<Rightarrow> int" where
  "holds_lock (PutData t cs) = 1" | "holds_lock (PutCount t cs) = 1" | "holds_lock (PutUnlock cs) = 1"
| "holds_lock (GetData cs) = 1" | "holds_lock (GetHead t cs) = 1" | "holds_lock (GetCount t cs) = 1"
| "holds_lock (GetUnlock cs) = 1" | "holds_lock _ = 0"

text \<open>Slots promised to a \<open>put\<close> or not yet given back by a \<open>get\<close>; items announced but not taken, or promised.\<close>

fun holds_slot :: "'a bb_label \<Rightarrow> int" where
  "holds_slot (PutLock t cs) = 1" | "holds_slot (PutData t cs) = 1" | "holds_slot (PutCount t cs) = 1"
| "holds_slot (GetUnlock cs) = 1" | "holds_slot (GetEmpty cs) = 1" | "holds_slot _ = 0"

fun holds_item :: "'a bb_label \<Rightarrow> int" where
  "holds_item (PutUnlock cs) = 1" | "holds_item (PutFull cs) = 1"
| "holds_item (GetLock cs) = 1" | "holds_item (GetData cs) = 1" | "holds_item (GetHead t cs) = 1"
| "holds_item (GetCount t cs) = 1" | "holds_item _ = 0"

lemma hold_bounds: "0 \<le> holds_lock l" "0 \<le> holds_slot l" "0 \<le> holds_item l"
  by (cases l; simp)+

text \<open>Items in the buffer by the logs.\<close>

definition logged :: "'a bbuf \<Rightarrow> int" where
  "logged b = int (length (bb_in b)) - int (length (bb_out b))"

definition log_good :: "'a bbuf \<Rightarrow> bool" where
  "log_good b \<longleftrightarrow> 0 \<le> logged b \<and> logged b < 2 ^ 32"

lemma bb_local:
  assumes "bb_prog l = Local f" "f b = Some (b', l')"
  shows "holds_lock l' = holds_lock l" "holds_slot l' + logged b' = holds_slot l + logged b"
    "holds_item l' - logged b' = holds_item l - logged b"
proof -
  have st: "bb_store t b = Some b'' \<Longrightarrow> logged b'' = logged b" for t b''
    by (auto simp: bb_store_def logged_def Let_def split: if_splits)
  show "holds_lock l' = holds_lock l" "holds_slot l' + logged b' = holds_slot l + logged b"
    "holds_item l' - logged b' = holds_item l - logged b"
    using assms st by (cases l rule: bb_prog.cases; auto simp: logged_def split: if_splits)+
qed

lemma bb_down: "bb_prog l = Down j l' \<Longrightarrow>
    holds_lock l' = holds_lock l + (if j = bb_lock then 1 else 0)
  \<and> holds_slot l' = holds_slot l + (if j = nEmpty then 1 else 0)
  \<and> holds_item l' = holds_item l + (if j = nFull then 1 else 0)"
  by (cases l rule: bb_prog.cases; auto simp: bb_sems)

lemma bb_up: "bb_prog l = Up j l' \<Longrightarrow>
    holds_lock l' = holds_lock l - (if j = bb_lock then 1 else 0)
  \<and> holds_slot l' = holds_slot l - (if j = nEmpty then 1 else 0)
  \<and> holds_item l' = holds_item l - (if j = nFull then 1 else 0)"
  by (cases l rule: bb_prog.cases; auto simp: bb_sems)

interpretation lockp: permits bb_prog bb_lock holds_lock "\<lambda>_. 0" 1 log_good
proof
  show "1 - (0 :: int) < 2 ^ 64" by simp
  show "0 \<le> holds_lock l" for l :: "'a bb_label" by (rule hold_bounds)
  show "holds_lock l' = holds_lock l + (if j = bb_lock then 1 else 0)" if "bb_prog l = Down j l'" for l l' :: "'a bb_label" and j
    using bb_down[OF that] by simp
  show "holds_lock l' = holds_lock l - (if j = bb_lock then 1 else 0)" if "bb_prog l = Up j l'" for l l' :: "'a bb_label" and j
    using bb_up[OF that] by simp
  show "holds_lock l' + 0 = holds_lock l + 0"
    if "bb_prog l = Local f" "f s = Some (s', l')" for l l' :: "'a bb_label" and f s s'
    using bb_local[OF that] by simp
qed

interpretation slotp: permits bb_prog nEmpty holds_slot logged "uint (N :: u32)" log_good for N
proof
  have "uint N < 2 ^ 32" using unsigned_less[of N, where 'a = int] by simp
  then show "uint N - logged s < 2 ^ 64" if "log_good s" for s :: "'a bbuf"
    using that by (simp add: log_good_def)
  show "0 \<le> holds_slot l" for l :: "'a bb_label" by (rule hold_bounds)
  show "holds_slot l' = holds_slot l + (if j = nEmpty then 1 else 0)" if "bb_prog l = Down j l'" for l l' :: "'a bb_label" and j
    using bb_down[OF that] by simp
  show "holds_slot l' = holds_slot l - (if j = nEmpty then 1 else 0)" if "bb_prog l = Up j l'" for l l' :: "'a bb_label" and j
    using bb_up[OF that] by simp
  show "holds_slot l' + logged s' = holds_slot l + logged s"
    if "bb_prog l = Local f" "f s = Some (s', l')" for l l' :: "'a bb_label" and f s s'
    using bb_local[OF that] by simp
qed

interpretation itemp: permits bb_prog nFull holds_item "\<lambda>b. - logged b" 0 log_good
proof
  show "0 - - logged s < 2 ^ 64" if "log_good s" for s :: "'a bbuf"
    using that by (simp add: log_good_def)
  show "0 \<le> holds_item l" for l :: "'a bb_label" by (rule hold_bounds)
  show "holds_item l' = holds_item l + (if j = nFull then 1 else 0)" if "bb_prog l = Down j l'" for l l' :: "'a bb_label" and j
    using bb_down[OF that] by simp
  show "holds_item l' = holds_item l - (if j = nFull then 1 else 0)" if "bb_prog l = Up j l'" for l l' :: "'a bb_label" and j
    using bb_up[OF that] by simp
  show "holds_item l' + - logged s' = holds_item l + - logged s"
    if "bb_prog l = Local f" "f s = Some (s', l')" for l l' :: "'a bb_label" and f s s'
    using bb_local[OF that] by simp
qed

subsection \<open>The ring holds the values between the logs\<close>

definition bb_shape :: "u32 \<Rightarrow> 'a bbuf \<Rightarrow> bool \<Rightarrow> bool" where
  "bb_shape N b adv \<longleftrightarrow> bb_N b = N \<and> length (bb_data b) = unat N \<and> length (bb_out b) \<le> length (bb_in b)
     \<and> take (length (bb_out b)) (bb_in b) = bb_out b \<and> unat (bb_n b) = length (bb_in b) - length (bb_out b)
     \<and> unat (bb_n b) \<le> unat N \<and> unat (bb_head b) = (length (bb_out b) + (if adv then 1 else 0)) mod unat N
     \<and> (\<forall>k. length (bb_out b) \<le> k \<and> k < length (bb_in b) \<longrightarrow> bb_data b ! (k mod unat N) = bb_in b ! k)"

fun label_ok :: "u32 \<Rightarrow> 'a bbuf \<Rightarrow> 'a bb_label tstate \<Rightarrow> bool" where
  "label_ok N b (Run (PutCount t cs)) = (bb_data b ! (length (bb_in b) mod unat N) = t)"
| "label_ok N b (Run (GetHead t cs)) = (t = bb_in b ! length (bb_out b))"
| "label_ok N b (Run (GetCount t cs)) = (t = bb_in b ! length (bb_out b))"
| "label_ok N b _ = True"

definition advanced :: "('a bbuf, 'a bb_label) tsys \<Rightarrow> bool" where
  "advanced c \<longleftrightarrow> (\<exists>u < length (threads c). \<exists>t cs. threads c ! u = Run (GetCount t cs))"

definition bb_ok :: "u32 \<Rightarrow> ('a bbuf, 'a bb_label) tsys \<Rightarrow> bool" where
  "bb_ok N c \<longleftrightarrow> lockp.permit_inv c \<and> slotp.permit_inv N c \<and> itemp.permit_inv c
     \<and> bb_shape N (shared c) (advanced c) \<and> (\<forall>u < length (threads c). label_ok N (shared c) (threads c ! u))
     \<and> (\<forall>u < length (threads c). \<forall>j l. threads c ! u = Wait j l \<longrightarrow> (\<exists>k. bb_prog k = Down j l))"

lemma label_ok_free: "held_by holds_lock bb_lock x \<le> 0 \<Longrightarrow> label_ok N b x"
  by (cases x; (cases "case x of Run l \<Rightarrow> l | Wait j l \<Rightarrow> l"; auto))

lemma shape_good:
  assumes "bb_shape N b adv"
  shows "log_good b" "logged b = uint (bb_n b)"
proof -
  have "logged b = int (unat (bb_n b))" using assms by (auto simp: bb_shape_def logged_def)
  then show n: "logged b = uint (bb_n b)" by simp
  show "log_good b" unfolding log_good_def n using unsigned_less[of "bb_n b", where 'a = int] by simp
qed

lemma store_ok:
  assumes "bb_shape N b False" "unat (bb_n b) < unat N" "unat N \<le> 2 ^ 31"
  shows "bb_store t b = Some (b\<lparr>bb_data := (bb_data b)[length (bb_in b) mod unat N := t]\<rparr>)"
proof -
  have h: "unat (bb_head b) = length (bb_out b) mod unat N" and n: "unat (bb_n b) = length (bb_in b) - length (bb_out b)"
    and le: "length (bb_out b) \<le> length (bb_in b)" and N: "bb_N b = N" "length (bb_data b) = unat N" "0 < unat N"
    using assms by (auto simp: bb_shape_def)
  have "unat (bb_head b) < unat N" using h N(3) by simp
  then have "unat (bb_head b + bb_n b) = unat (bb_head b) + unat (bb_n b)"
    using assms(2,3) by (intro unat_add_no_wrap) simp
  then have "unat ((bb_head b + bb_n b) mod bb_N b) = (length (bb_out b) mod unat N + (length (bb_in b) - length (bb_out b))) mod unat N"
    using h n N(1) by (simp add: unat_mod)
  also have "\<dots> = length (bb_in b) mod unat N" by (simp only: mod_add_left_eq le_add_diff_inverse[OF le])
  finally show ?thesis
    using N unfolding bb_store_def Let_def by (auto simp: unat_gt_0)
qed

lemma quiet_label:
  assumes "bb_prog k = Down i l \<or> bb_prog k = Up i l"
  shows "label_ok N b (Run l)" "l \<noteq> GetCount t cs" "k \<noteq> GetCount t cs"
  using assms by (cases k rule: bb_prog.cases; auto)+

lemma advanced_update:
  assumes "t < length (threads c)" "\<And>x cs. threads c ! t \<noteq> Run (GetCount x cs)"
  shows "advanced (c\<lparr>sems := ss, links_of := nx, threads := (threads c)[t := y]\<rparr>) = (advanced c \<or> (\<exists>x cs. y = Run (GetCount x cs)))"
  using assms unfolding advanced_def by (simp add: nth_list_update) metis

lemma not_counting [simp]: "bb_prog k \<noteq> Down i (GetCount t cs)" "bb_prog k \<noteq> Up i (GetCount t cs)"
  by (cases k rule: bb_prog.cases; simp)+

text \<open>Instructions on semaphores leave the buffer alone.\<close>

lemma bb_quiet:
  assumes "bb_ok N c" "lockp.permit_inv c'" "slotp.permit_inv N c'" "itemp.permit_inv c'"
    and "shared c' = shared c" "length (threads c') = length (threads c)"
    and "\<And>u. u < length (threads c) \<Longrightarrow> threads c' ! u = threads c ! u
      \<or> (\<exists>k i l. (bb_prog k = Down i l \<or> bb_prog k = Up i l) \<and> threads c' ! u = Run l)
      \<or> (\<exists>k j l. bb_prog k = Down j l \<and> threads c' ! u = Wait j l)"
    and "\<And>u x cs. u < length (threads c) \<Longrightarrow> threads c ! u = Run (GetCount x cs) \<Longrightarrow> threads c' ! u = threads c ! u"
  shows "bb_ok N c'"
proof -
  have lab: "label_ok N (shared c') (threads c' ! u)" if "u < length (threads c')" for u
  proof -
    have u: "u < length (threads c)" using that assms(6) by simp
    from assms(7)[OF u] show ?thesis
    proof (elim disjE)
      assume "threads c' ! u = threads c ! u"
      with assms(1,5) u show ?thesis by (simp add: bb_ok_def)
    qed (auto intro!: quiet_label(1))
  qed
  have wt: "\<exists>k. bb_prog k = Down j l" if "u < length (threads c')" "threads c' ! u = Wait j l" for u j l
  proof -
    have u: "u < length (threads c)" using that assms(6) by simp
    from assms(7)[OF u] show ?thesis
    proof (elim disjE)
      assume "threads c' ! u = threads c ! u"
      then have "threads c ! u = Wait j l" using that by simp
      with assms(1) u show ?thesis unfolding bb_ok_def by blast
    qed (use that in auto)
  qed
  have "advanced c' = advanced c"
  proof
    assume "advanced c'"
    then obtain u x cs where u: "u < length (threads c)" "threads c' ! u = Run (GetCount x cs)"
      using assms(6) by (auto simp: advanced_def)
    with assms(7)[OF u(1)] have "threads c ! u = Run (GetCount x cs)" by auto
    with u(1) show "advanced c" by (auto simp: advanced_def)
  next
    assume "advanced c"
    then show "advanced c'" using assms(6,8) unfolding advanced_def by metis
  qed
  with assms(1-6) lab wt show ?thesis by (simp add: bb_ok_def)
qed

lemma others_free:
  assumes "lockp.permit_inv c" "t < length (threads c)" "threads c ! t = Run l" "holds_lock l = 1"
    and "u < length (threads c)" "u \<noteq> t"
  shows "held_by holds_lock bb_lock (threads c ! u) \<le> 0"
  using lockp.two_holders[OF assms(1,2,5)] assms(3,4,6) by simp

lemma local_holds: "bb_prog l = Local f \<Longrightarrow> holds_lock l = 1"
  by (cases l rule: bb_prog.cases) auto

lemma mod_neq_near:
  fixes k i N :: nat
  assumes "k < i" "i < k + N"
  shows "k mod N \<noteq> i mod N"
proof
  assume "k mod N = i mod N"
  then have "N dvd i - k" using assms(1) by (metis mod_eq_dvd_iff_nat less_imp_le_nat)
  with assms show False by (auto dest: dvd_imp_le)
qed

lemma bb_work:
  assumes ok: "bb_ok N c" and N: "0 < unat N" "unat N \<le> 2 ^ 31"
    and t: "t < length (threads c)" "threads c ! t = Run l" and l: "bb_prog l = Local f" "f (shared c) = Some (b', l')"
  shows "bb_shape N b' (\<exists>x cs. l' = GetCount x cs) \<and> label_ok N b' (Run l')"
proof -
  let ?b = "shared c"
  have shape: "bb_shape N ?b (advanced c)" and lab: "label_ok N ?b (Run l)"
    using ok t unfolding bb_ok_def by metis+
  have adv: "advanced c = (\<exists>x cs. l = GetCount x cs)"
  proof
    assume "advanced c"
    then obtain u x cs where u: "u < length (threads c)" "threads c ! u = Run (GetCount x cs)" by (auto simp: advanced_def)
    have "u = t"
      using others_free[of c t l u] ok t u local_holds[OF l(1)] by (fastforce simp: bb_ok_def)
    with u t show "\<exists>x cs. l = GetCount x cs" by auto
  qed (use t in \<open>auto simp: advanced_def\<close>)
  have slot: "unat (bb_n ?b) < unat N" if "holds_slot l = 1"
  proof -
    have "uint (sem_count (sems c nEmpty)) + 1 \<le> uint N - uint (bb_n ?b)"
      using slotp.count_bound[of N c t] ok t that shape_good(2)[OF shape] unfolding bb_ok_def by simp
    then have "uint (bb_n ?b) + 1 \<le> uint N" using uint_nonnegative[of "sem_count (sems c nEmpty)"] by linarith
    then have "int (unat (bb_n ?b)) < int (unat N)" by simp
    then show ?thesis by (simp only: of_nat_less_iff)
  qed
  have item: "0 < unat (bb_n ?b)" if "holds_item l = 1"
  proof -
    have "uint (sem_count (sems c nFull)) + 1 \<le> uint (bb_n ?b)"
      using itemp.count_bound[of c t] ok t that shape_good(2)[OF shape] unfolding bb_ok_def by simp
    then have "1 \<le> uint (bb_n ?b)" using uint_nonnegative[of "sem_count (sems c nFull)"] by linarith
    then have "int 0 < int (unat (bb_n ?b))" by simp
    then show ?thesis by (simp only: of_nat_less_iff)
  qed
  let ?i = "length (bb_in ?b)" and ?o = "length (bb_out ?b)"
  have s: "bb_N ?b = N" "length (bb_data ?b) = unat N" "?o \<le> ?i" "take ?o (bb_in ?b) = bb_out ?b"
    "unat (bb_n ?b) = ?i - ?o" "unat (bb_n ?b) \<le> unat N"
    "unat (bb_head ?b) = (?o + (if advanced c then 1 else 0)) mod unat N"
    "\<And>k. ?o \<le> k \<Longrightarrow> k < ?i \<Longrightarrow> bb_data ?b ! (k mod unat N) = bb_in ?b ! k"
    using shape unfolding bb_shape_def by auto
  show ?thesis
  proof (cases l)
    case (PutData x cs)
    have na: "advanced c = False" using adv PutData by auto
    have st: "bb_store x ?b = Some (?b\<lparr>bb_data := (bb_data ?b)[?i mod unat N := x]\<rparr>)"
      by (rule store_ok) (use shape na slot N PutData in auto)
    have b': "b' = ?b\<lparr>bb_data := (bb_data ?b)[?i mod unat N := x]\<rparr>" "l' = PutCount x cs"
      using l PutData st by auto
    have "?i mod unat N < length (bb_data ?b)" using s(2) N(1) by simp
    then have new: "(bb_data ?b)[?i mod unat N := x] ! (?i mod unat N) = x" by simp
    have "(bb_data ?b)[?i mod unat N := x] ! (k mod unat N) = bb_in ?b ! k" if "?o \<le> k" "k < ?i" for k
    proof -
      have "k mod unat N \<noteq> ?i mod unat N" by (rule mod_neq_near) (use that slot PutData s(5) in auto)
      with s(8)[OF that] show ?thesis by simp
    qed
    with new show ?thesis using s(1-7) na unfolding b' bb_shape_def by simp
  next
    case (PutCount x cs)
    have b': "b' = ?b\<lparr>bb_n := bb_n ?b + 1, bb_in := bb_in ?b @ [x]\<rparr>" "l' = PutUnlock cs" using l PutCount by auto
    have na: "advanced c = False" using adv PutCount by auto
    have lt: "?i - ?o < unat N" using slot PutCount s(5) by simp
    have n': "unat (bb_n ?b + 1) = Suc (?i - ?o)"
      using unat_add_no_wrap[of "bb_n ?b" 1] lt N(2) s(5) by simp
    have x: "bb_data ?b ! (?i mod unat N) = x" using lab PutCount by simp
    have k: "bb_data ?b ! (k mod unat N) = (bb_in ?b @ [x]) ! k" if "?o \<le> k" "k < Suc ?i" for k
      using that s(8)[of k] x by (cases "k = ?i") (auto simp: nth_append)
    show ?thesis using s(1-4,7) na n' lt k unfolding b' bb_shape_def by (simp add: Suc_diff_le)
  next
    case (GetData cs)
    obtain x where b': "b' = ?b" "l' = GetHead x cs" and ld: "bb_load ?b = Some x" using l GetData by auto
    have na: "advanced c = False" using adv GetData by auto
    have "?o < ?i" using item GetData s(5) by simp
    then have "bb_data ?b ! (?o mod unat N) = bb_in ?b ! ?o" using s(8)[of ?o] by simp
    then have "x = bb_in ?b ! ?o" using ld s(7) na by (auto simp: bb_load_def split: if_splits)
    then show ?thesis using shape na unfolding b' by simp
  next
    case (GetHead x cs)
    have b': "b' = ?b\<lparr>bb_head := (bb_head ?b + 1) mod N\<rparr>" "l' = GetCount x cs"
      using l GetHead s(1) by (auto split: if_splits)
    have na: "advanced c = False" using adv GetHead by auto
    have "unat (bb_head ?b) < unat N" using s(7) N(1) by simp
    then have "unat ((bb_head ?b + 1) mod N) = (unat (bb_head ?b) + 1) mod unat N"
      using unat_add_no_wrap[of "bb_head ?b" 1] N(2) by (simp add: unat_mod)
    then have h: "unat ((bb_head ?b + 1) mod N) = Suc ?o mod unat N" using s(7) na by (simp add: mod_simps)
    show ?thesis using s(1-6,8) h lab GetHead unfolding b' bb_shape_def by simp
  next
    case (GetCount x cs)
    have b': "b' = ?b\<lparr>bb_n := bb_n ?b - 1, bb_out := bb_out ?b @ [x]\<rparr>" "l' = GetUnlock cs" using l GetCount by auto
    have a: "advanced c = True" using adv GetCount by auto
    have lt: "?o < ?i" using item GetCount s(5) by simp
    have n': "unat (bb_n ?b - 1) = ?i - Suc ?o"
    proof -
      have "(1 :: u32) \<le> bb_n ?b" using lt s(5) by (simp add: word_le_nat_alt)
      then show ?thesis using unat_sub[of 1 "bb_n ?b"] s(5) by simp
    qed
    have "x = bb_in ?b ! ?o" using lab GetCount by simp
    then have tk: "take (Suc ?o) (bb_in ?b) = bb_out ?b @ [x]" using s(4) lt by (simp add: take_Suc_conv_app_nth)
    show ?thesis using s(1,2,6,7,8) a n' lt tk s(5) unfolding b' bb_shape_def by (simp add: Suc_le_eq)
  qed (use l(1) local_holds[OF l(1)] in auto)
qed

lemma bb_step:
  assumes "sstep bb_prog c c'" "bb_ok N c" "0 < unat N" "unat N \<le> 2 ^ 31"
  shows "bb_ok N c'"
proof -
  have p: "lockp.permit_inv c" "slotp.permit_inv N c" "itemp.permit_inv c" and shape: "bb_shape N (shared c) (advanced c)"
    using assms(2) by (auto simp: bb_ok_def)
  note p' = lockp.permit_step[OF assms(1) p(1) shape_good(1)[OF shape]]
    slotp.permit_step[OF assms(1) p(2) shape_good(1)[OF shape]]
    itemp.permit_step[OF assms(1) p(3) shape_good(1)[OF shape]]
  show ?thesis
    using assms(1)
  proof (cases rule: sstep.cases)
    case (pass t l i l' s nx)
    show ?thesis
      by (rule bb_quiet[OF assms(2) p']) (use pass in \<open>auto simp: nth_list_update\<close>)
  next
    case (suspend t l i l' s nx)
    show ?thesis
      by (rule bb_quiet[OF assms(2) p']) (use suspend in \<open>auto simp: nth_list_update\<close>)
  next
    case (release t l i l' s nx)
    show ?thesis
      by (rule bb_quiet[OF assms(2) p']) (use release in \<open>auto simp: nth_list_update\<close>)
  next
    case (wake t l i l' u s nx j m)
    have "\<exists>k. bb_prog k = Down j m" using assms(2) wake(6,7) unfolding bb_ok_def by blast
    then show ?thesis
      by (intro bb_quiet[OF assms(2) p']) (use wake in \<open>auto simp: nth_list_update\<close>)
  next
    case (work t l f b' l')
    note w = bb_work[OF assms(2-4) work(2,3,4,5)]
    have free: "held_by holds_lock bb_lock (threads c ! u) \<le> 0" if "u < length (threads c)" "u \<noteq> t" for u
      by (rule others_free[OF p(1) work(2,3) local_holds[OF work(4)] that])
    have adv: "advanced c' = (\<exists>x cs. l' = GetCount x cs)"
    proof
      assume "advanced c'"
      then obtain u x cs where u: "u < length (threads c)" "threads c' ! u = Run (GetCount x cs)"
        using work(1) by (auto simp: advanced_def)
      show "\<exists>x cs. l' = GetCount x cs"
        using free[OF u(1)] u work(1) by (cases "u = t") auto
    qed (use work in \<open>auto simp: advanced_def\<close>)
    have "label_ok N b' (threads c' ! u)" if "u < length (threads c)" for u
      using w free[OF that] label_ok_free that work(1) by (cases "u = t") auto
    moreover have "\<exists>k. bb_prog k = Down j x" if "u < length (threads c)" "threads c' ! u = Wait j x" for u j x
    proof -
      have "threads c ! u = Wait j x" using that work(1,2) by (cases "u = t") auto
      with assms(2) that(1) show ?thesis unfolding bb_ok_def by blast
    qed
    ultimately show ?thesis using p' w adv work(1) unfolding bb_ok_def by simp
  qed
qed

lemma bb_start_ok:
  assumes "length junk = unat N"
  shows "bb_ok N (bb_start N junk css)"
proof -
  let ?c = "bb_start N junk css"
  have zero: "sum_list (map (held_by holds_lock k \<circ> Run \<circ> Idle) css) = 0" "sum_list (map (held_by holds_slot k \<circ> Run \<circ> Idle) css) = 0"
    "sum_list (map (held_by holds_item k \<circ> Run \<circ> Idle) css) = 0" for k
    by (induction css) auto
  have "sys_ok ?c"
    unfolding bb_start_def by (rule sys_start_ok) (simp add: bb_semaphores_def Semaphore_new_def)
  moreover have "uint (ucast N :: u64) = uint N"
    using unsigned_less[of N, where 'a = int] by (simp add: unsigned_ucast_eq take_bit_int_eq_self)
  ultimately have "lockp.permit_inv ?c" "slotp.permit_inv N ?c" "itemp.permit_inv ?c"
    using zero unfolding lockp.permit_inv_def slotp.permit_inv_def itemp.permit_inv_def
    by (auto simp: permits_in_def bb_start_def sys_start_def bb_semaphores_def bb_sems Semaphore_new_def
        BoundedBuffer_new_def logged_def comp_def)
  moreover have "\<not> advanced ?c" by (auto simp: advanced_def bb_start_def sys_start_def)
  ultimately show ?thesis
    using assms unfolding bb_ok_def
    by (auto simp: bb_shape_def bb_start_def sys_start_def BoundedBuffer_new_def)
qed

lemma bb_reachable:
  assumes "(sstep bb_prog)\<^sup>*\<^sup>* (bb_start N junk css) c" "length junk = unat N" "0 < unat N" "unat N \<le> 2 ^ 31"
  shows "bb_ok N c"
  using assms(1) by (induction rule: rtranclp_induct) (auto intro: bb_start_ok[OF assms(2)] bb_step assms(3,4))

subsection \<open>Properties\<close>

text \<open>C9. The bounded buffer is a queue. In every interleaving of any number of producers and consumers, the values
  taken out are the values put in, in the order of the puts and without loss or repetition; the count is
  what is between, never more than \<open>N\<close>; and no thread ever reads or writes outside the array. (\<open>N\<close> is at
  most \<open>2^31\<close>, so that \<open>head + n\<close> does not wrap.)\<close>

theorem bounded_buffer_fifo:
  assumes "(sstep bb_prog)\<^sup>*\<^sup>* (bb_start N junk css) c" "length junk = unat N" "0 < unat N" "unat N \<le> 2 ^ 31"
  shows "take (length (bb_out (shared c))) (bb_in (shared c)) = bb_out (shared c)
    \<and> length (bb_in (shared c)) = length (bb_out (shared c)) + unat (bb_n (shared c)) \<and> unat (bb_n (shared c)) \<le> unat N
    \<and> (\<forall>t l f. t < length (threads c) \<and> threads c ! t = Run l \<and> bb_prog l = Local f \<longrightarrow> f (shared c) \<noteq> None)"
proof -
  have ok: "bb_ok N c" by (rule bb_reachable[OF assms])
  then have shape: "bb_shape N (shared c) (advanced c)" by (simp add: bb_ok_def)
  have "f (shared c) \<noteq> None" if "t < length (threads c)" "threads c ! t = Run l" "bb_prog l = Local f" for t l f
  proof (cases l)
    case (PutData x cs)
    have "uint (sem_count (sems c nEmpty)) + 1 \<le> uint N - uint (bb_n (shared c))"
      using slotp.count_bound[of N c t] ok that(1,2) PutData shape_good(2)[OF shape] unfolding bb_ok_def by simp
    then have "uint (bb_n (shared c)) + 1 \<le> uint N"
      using uint_nonnegative[of "sem_count (sems c nEmpty)"] by linarith
    then have "int (unat (bb_n (shared c))) < int (unat N)" by simp
    then have n: "unat (bb_n (shared c)) < unat N" by (simp only: of_nat_less_iff)
    have "\<not> advanced c"
    proof
      assume "advanced c"
      then obtain u y ds where u: "u < length (threads c)" "threads c ! u = Run (GetCount y ds)" by (auto simp: advanced_def)
      have lp: "lockp.permit_inv c" using ok by (simp add: bb_ok_def)
      from others_free[OF lp that(1,2) local_holds[OF that(3)] u(1)] u that(2) PutData show False by (cases "u = t") auto
    qed
    with shape n assms(4) store_ok[of N "shared c" x] that(3) PutData show ?thesis by auto
  next
    case (GetData cs)
    have "unat (bb_head (shared c)) < unat N" using shape assms(3) by (simp add: bb_shape_def)
    then show ?thesis using that(3) GetData shape by (auto simp: bb_load_def bb_shape_def)
  next
    case (GetHead x cs)
    have "bb_N (shared c) \<noteq> 0" using shape assms(3) by (auto simp: bb_shape_def)
    then show ?thesis using that(3) GetHead by auto
  qed (use that(3) local_holds[OF that(3)] in auto)
  with shape show ?thesis by (auto simp: bb_shape_def)
qed

text \<open>Where a thread can be when no thread can run on.\<close>

lemma stuck_thread:
  assumes "bb_ok N c" "\<forall>x \<in> set (threads c). x = Run (Idle []) \<or> (\<exists>j l. x = Wait j l)" "x \<in> set (threads c)"
  shows "x = Run (Idle []) \<or> (\<exists>t cs. x = Wait nEmpty (PutLock t cs)) \<or> (\<exists>t cs. x = Wait bb_lock (PutData t cs))
    \<or> (\<exists>cs. x = Wait nFull (GetLock cs)) \<or> (\<exists>cs. x = Wait bb_lock (GetData cs))"
proof (cases "x = Run (Idle [])")
  case False
  then obtain j l where x: "x = Wait j l" using assms(2,3) by blast
  obtain u where "u < length (threads c)" "threads c ! u = x"
    using assms(3) unfolding in_set_conv_nth by blast
  then obtain k where "bb_prog k = Down j l" using assms(1) x unfolding bb_ok_def by blast
  then show ?thesis unfolding x by (cases k rule: bb_prog.cases) auto
qed simp

text \<open>C33. The buffer's threads get stuck only for want of the other side. If no thread can run on (each waits or has
  finished its calls), nobody waits for the inner lock, waiting producers mean a full buffer and waiting
  consumers an empty one, so producers and consumers never wait at the same time.\<close>

theorem bounded_buffer_progress:
  assumes "(sstep bb_prog)\<^sup>*\<^sup>* (bb_start N junk css) c" "length junk = unat N" "0 < unat N" "unat N \<le> 2 ^ 31"
    and stuck: "\<forall>x \<in> set (threads c). x = Run (Idle []) \<or> (\<exists>j l. x = Wait j l)"
  shows "waits_on c bb_lock = {} \<and> (waits_on c nEmpty \<noteq> {} \<longrightarrow> bb_n (shared c) = N)
    \<and> (waits_on c nFull \<noteq> {} \<longrightarrow> bb_n (shared c) = 0)"
proof -
  have ok: "bb_ok N c" by (rule bb_reachable[OF assms(1-4)])
  then have p: "lockp.permit_inv c" "slotp.permit_inv N c" "itemp.permit_inv c"
    and shape: "bb_shape N (shared c) (advanced c)"
    unfolding bb_ok_def by blast+
  have sys: "sys_ok c" using p(1) by (simp add: lockp.permit_inv_def)
  note empty = waited_on_empty[OF sys]
  note cases = stuck_thread[OF ok stuck]
  have idle_lock: "held_by holds_lock bb_lock x = 0" if "x \<in> set (threads c)" for x
    using cases[OF that] by (elim disjE exE) (simp_all add: bb_sems)
  have "sum_list (map (held_by holds_lock bb_lock) (threads c)) = sum_list (map (\<lambda>_. 0) (threads c))"
    by (rule arg_cong[where f = sum_list], rule map_cong[OF refl]) (erule idle_lock)
  then have "uint (sem_count (sems c bb_lock)) = 1" using p(1) by (simp add: lockp.permit_inv_def permits_in_def)
  then have lock: "waits_on c bb_lock = {}" using empty[of bb_lock] by fastforce
  then have "\<And>u l. u < length (threads c) \<Longrightarrow> threads c ! u \<noteq> Wait bb_lock l" by (auto simp: waits_on_def)
  then have nolock: "x \<noteq> Wait bb_lock l" if "x \<in> set (threads c)" for x l
    using that by (metis in_set_conv_nth)
  have idle_slot: "held_by holds_slot nEmpty x = 0" if "x \<in> set (threads c)" for x
    using cases[OF that] nolock[OF that] by (elim disjE exE) (force simp: bb_sems)+
  have "sum_list (map (held_by holds_slot nEmpty) (threads c)) = sum_list (map (\<lambda>_. 0) (threads c))"
    by (rule arg_cong[where f = sum_list], rule map_cong[OF refl]) (erule idle_slot)
  then have slots: "uint (sem_count (sems c nEmpty)) + uint (bb_n (shared c)) = uint N"
    using p(2) shape_good(2)[OF shape] by (simp add: slotp.permit_inv_def permits_in_def)
  have idle_item: "held_by holds_item nFull x = 0" if "x \<in> set (threads c)" for x
    using cases[OF that] nolock[OF that] by (elim disjE exE) (force simp: bb_sems)+
  have "sum_list (map (held_by holds_item nFull) (threads c)) = sum_list (map (\<lambda>_. 0) (threads c))"
    by (rule arg_cong[where f = sum_list], rule map_cong[OF refl]) (erule idle_item)
  then have items: "uint (sem_count (sems c nFull)) = uint (bb_n (shared c))"
    using p(3) shape_good(2)[OF shape] by (simp add: itemp.permit_inv_def permits_in_def)
  have "bb_n (shared c) = N" if "waits_on c nEmpty \<noteq> {}"
    using slots empty[OF that] by (simp add: word_uint_eq_iff)
  moreover have "bb_n (shared c) = 0" if "waits_on c nFull \<noteq> {}"
    using items empty[OF that] by (simp add: word_uint_eq_iff)
  ultimately show ?thesis using lock by blast
qed

text \<open>A consumer alone that finds the buffer empty waits, for the witnesses.\<close>

definition demo0 :: "(nat bbuf, nat bb_label) tsys" where
  "demo0 = bb_start 1 [0] [[BGet]]"

lemma demo_get_waits:
  "\<exists>c. sstep bb_prog demo0 c \<and> threads c = [Wait nFull (GetLock [])] \<and> shared c = BoundedBuffer_new 1 [0]"
proof -
  let ?q = "\<lparr>q_first = Some 0, q_last = Some 0\<rparr>"
  let ?c = "demo0\<lparr>sems := (sems demo0)(nFull := (sems demo0 nFull)\<lparr>sem_waiting := ?q\<rparr>), links_of := (links_of demo0)(0 := None),
    threads := (threads demo0)[0 := Wait nFull (GetLock [])]\<rparr>"
  have "sstep bb_prog demo0 ?c"
    by (rule suspend[of 0 demo0 "Idle [BGet]" bb_prog nFull])
      (simp_all add: demo0_def bb_start_def sys_start_def bb_semaphores_def bb_sems Semaphore_new_def sem_down_def
        queue_add_def queue_new_def)
  then show ?thesis
    by (intro exI[of _ ?c]) (simp add: demo0_def bb_start_def sys_start_def)
qed

lemma bounded_buffer_fifo_witness:
  "\<exists>c. (sstep bb_prog)\<^sup>*\<^sup>* demo0 c \<and> c \<noteq> demo0 \<and> length (bb_in (shared c)) = length (bb_out (shared c)) + unat (bb_n (shared c))"
proof -
  obtain c where c: "sstep bb_prog demo0 c" "threads c = [Wait nFull (GetLock [])]" using demo_get_waits by blast
  have r: "(sstep bb_prog)\<^sup>*\<^sup>* (bb_start 1 [0] [[BGet]]) c" using c(1) unfolding demo0_def by (rule r_into_rtranclp)
  have "c \<noteq> demo0" using c(2) by (auto simp: demo0_def bb_start_def sys_start_def)
  with r bounded_buffer_fifo[OF r] show ?thesis unfolding demo0_def by auto
qed

lemma bounded_buffer_progress_witness:
  "\<exists>c. (sstep bb_prog)\<^sup>*\<^sup>* demo0 c \<and> waits_on c nFull = {0} \<and> bb_n (shared c) = 0"
proof -
  obtain c where c: "sstep bb_prog demo0 c" "threads c = [Wait nFull (GetLock [])]" using demo_get_waits by blast
  have r: "(sstep bb_prog)\<^sup>*\<^sup>* (bb_start 1 [0] [[BGet]]) c" using c(1) unfolding demo0_def by (rule r_into_rtranclp)
  have w: "waits_on c nFull = {0}" using c(2) by (auto simp: waits_on_def)
  have "bb_n (shared c) = 0" using bounded_buffer_progress[OF r] c(2) w by auto
  with r w show ?thesis unfolding demo0_def by blast
qed

end
