(* ===== verification/BlockIO.thy ===== *)
theory BlockIO
  imports Prelude
begin

text \<open>
  \<open>kernel/block_io.h\<close>, \<open>kernel/block_io.cc\<close> and \<open>K::min\<close>: reading byte ranges from a device of blocks. A device is
  its block size, its size in bytes and its \<open>read_block\<close>, which gives the bytes of one block. The buffer is the
  list of bytes written to it from its start. The locale \<open>block_device\<close> is the contract of the class: what
  \<open>read\<close> and \<open>read_all\<close> promise to its callers rests on one law about \<open>read_block\<close>.
\<close>

type_synonym i64 = "64 word"

definition K_min :: "u32 \<Rightarrow> u32 \<Rightarrow> u32" where
  "K_min a rest = (if a < rest then a else rest)"

definition size_in_blocks :: "u32 \<Rightarrow> u32 \<Rightarrow> u32 option" where
  "size_in_blocks block_size sz = (if block_size = 0 then None else Some ((sz + block_size - 1) div block_size))"

text \<open>The count returned and the bytes put into the buffer. \<open>None\<close> is a failed assertion or a fault.\<close>

definition block_read :: "u32 \<Rightarrow> u32 \<Rightarrow> (u32 \<Rightarrow> u8 list option) \<Rightarrow> u32 \<Rightarrow> u32 \<Rightarrow> (i64 \<times> u8 list) option" where
  "block_read block_size sz read_block offset desired_n =
     (if offset > sz then Some (- 1, [])
      else if offset = sz then Some (0, [])
      else if block_size = 0 then None
      else
        let n = K_min desired_n (sz - offset);
            block_number = offset div block_size;
            offset_in_block = offset mod block_size;
            actual_n = K_min (block_size - offset_in_block) n
        in if \<not> (actual_n \<le> n \<and> offset + actual_n \<le> sz) then None
           else if actual_n = block_size
           then (if offset_in_block \<noteq> 0 then None
                 else map_option (\<lambda>block. (ucast actual_n, block)) (read_block block_number))
           else if \<not> offset_in_block + actual_n \<le> block_size then None
           else map_option (\<lambda>temp. (ucast actual_n, take (unat actual_n) (drop (unat offset_in_block) temp)))
                  (read_block block_number))"

lemma unat_K_min: "unat (K_min a b) = min (unat a) (unat b)"
  by (simp add: K_min_def word_less_nat_alt)

lemma block_read_count:
  assumes "block_read bs sz rb offset n = Some (cnt, bytes)" "\<not> sint cnt < 0"
  shows "unat (ucast cnt :: u32) \<le> unat n" "cnt = ucast (ucast cnt :: u32)"
proof -
  let ?m = "K_min (bs - offset mod bs) (K_min n (sz - offset))"
  have "cnt = - 1 \<or> cnt = 0 \<or> cnt = ucast ?m"
    using assms(1) by (auto simp: block_read_def Let_def split: if_splits)
  moreover have "unat ?m \<le> unat n" by (simp add: unat_K_min)
  ultimately show "unat (ucast cnt :: u32) \<le> unat n" "cnt = ucast (ucast cnt :: u32)"
    using assms(2) by (auto simp: ucast_down_ucast_id is_down)
qed

function block_read_loop ::
  "u32 \<Rightarrow> u32 \<Rightarrow> (u32 \<Rightarrow> u8 list option) \<Rightarrow> u32 \<Rightarrow> u32 \<Rightarrow> i64 \<Rightarrow> u8 list \<Rightarrow> (i64 \<times> u8 list) option" where
  "block_read_loop bs sz rb offset n total_count buffer =
     (if n > 0 then
        (case block_read bs sz rb offset n of
           None \<Rightarrow> None
         | Some (cnt, bytes) \<Rightarrow>
             if sint cnt < 0 then Some (cnt, buffer @ bytes)
             else if cnt = 0 then Some (total_count, buffer @ bytes)
             else block_read_loop bs sz rb (offset + ucast cnt) (n - ucast cnt) (total_count + cnt) (buffer @ bytes))
      else Some (total_count, buffer))"
  by pat_completeness auto

termination
proof (relation "measure (\<lambda>(bs, sz, rb, offset, n, total_count, buffer). unat n)", simp)
  fix bs sz offset n :: u32 and rb total_count buffer x cnt bytes
  assume r: "block_read bs sz rb offset n = Some x" "(cnt, bytes) = x" "\<not> sint cnt < 0" "cnt \<noteq> (0 :: i64)"
  let ?m = "ucast cnt :: u32"
  have m: "unat ?m \<le> unat n" "cnt = ucast ?m" using block_read_count[of bs sz rb offset n cnt bytes] r by auto
  then have "?m \<noteq> 0" using r(4) by (metis unsigned_0)
  then have "0 < unat ?m" by (simp add: unat_gt_0)
  with m(1) have "unat (n - ?m) < unat n" by (simp add: unat_sub word_le_nat_alt)
  then show "((bs, sz, rb, offset + ucast cnt, n - ucast cnt, total_count + cnt, buffer @ bytes), bs, sz, rb, offset, n, total_count, buffer)
    \<in> measure (\<lambda>(bs, sz, rb, offset, n, total_count, buffer). unat n)" by simp
qed

declare block_read_loop.simps [simp del]

definition block_read_all :: "u32 \<Rightarrow> u32 \<Rightarrow> (u32 \<Rightarrow> u8 list option) \<Rightarrow> u32 \<Rightarrow> u32 \<Rightarrow> (i64 \<times> u8 list) option" where
  "block_read_all bs sz rb offset n = block_read_loop bs sz rb offset n 0 []"

text \<open>The template \<open>read(offset, thing)\<close>: the bytes of an object of \<open>size\<close> bytes, all of them or an assertion fails.\<close>

definition block_read_thing :: "u32 \<Rightarrow> u32 \<Rightarrow> (u32 \<Rightarrow> u8 list option) \<Rightarrow> u32 \<Rightarrow> u32 \<Rightarrow> u8 list option" where
  "block_read_thing bs sz rb offset n =
     (case block_read_all bs sz rb offset n of
        None \<Rightarrow> None
      | Some (cnt, bytes) \<Rightarrow> if cnt = ucast n then Some bytes else None)"

subsection \<open>The contract\<close>

text \<open>The bytes of the device. The last block may go on behind the end.\<close>

locale block_device =
  fixes ok :: "'d \<Rightarrow> bool"
    and bs sz :: "'d \<Rightarrow> u32"
    and rb :: "'d \<Rightarrow> u32 \<Rightarrow> u8 list option"
    and content :: "'d \<Rightarrow> u8 list"
  assumes bs_pos: "ok d \<Longrightarrow> 0 < unat (bs d)"
    and content_length: "ok d \<Longrightarrow> length (content d) = unat (sz d)"
    and read_block_law: "ok d \<Longrightarrow> unat k * unat (bs d) < unat (sz d) \<Longrightarrow>
      \<exists>block. rb d k = Some block \<and> length block = unat (bs d) \<and>
        take (unat (sz d) - unat k * unat (bs d)) block = take (unat (bs d)) (drop (unat k * unat (bs d)) (content d))"
begin

lemma block_piece:
  assumes "ok d" "unat o' < unat (sz d)" "m \<le> unat (bs d) - unat o' mod unat (bs d)" "m \<le> unat (sz d) - unat o'"
  shows "\<exists>block. rb d (o' div bs d) = Some block \<and> length block = unat (bs d)
    \<and> take m (drop (unat o' mod unat (bs d)) block) = take m (drop (unat o') (content d))"
proof -
  let ?b = "unat (bs d)" and ?q = "unat o' div unat (bs d)" and ?r = "unat o' mod unat (bs d)"
  have q: "unat (o' div bs d) = ?q" by (simp add: unat_div)
  have split: "?q * ?b + ?r = unat o'" by simp
  have "unat (o' div bs d) * ?b < unat (sz d)" using assms(2) split unfolding q by linarith
  from read_block_law[OF assms(1) this] obtain block where block: "rb d (o' div bs d) = Some block" "length block = ?b"
    "take (unat (sz d) - ?q * ?b) block = take ?b (drop (?q * ?b) (content d))" unfolding q by blast
  have "take m (drop ?r (take (unat (sz d) - ?q * ?b) block)) = take m (drop ?r block)"
    using assms(4) split by (simp add: drop_take)
  moreover have "take m (drop ?r (take ?b (drop (?q * ?b) (content d)))) = take m (drop (unat o') (content d))"
    using assms(3) split by (simp add: drop_take add.commute)
  ultimately show ?thesis using block by metis
qed

lemma read_piece:
  assumes "ok d" "unat o' < unat (sz d)" "0 < unat n"
  shows "\<exists>m. 0 < m \<and> m \<le> unat n \<and> m \<le> unat (sz d) - unat o' \<and> (unat n \<le> unat (bs d) - unat o' mod unat (bs d) \<longrightarrow> m = min (unat n) (unat (sz d) - unat o'))
    \<and> block_read (bs d) (sz d) (rb d) o' n = Some (of_nat m, take m (drop (unat o') (content d)))"
proof -
  let ?b = "unat (bs d)" and ?r = "unat o' mod unat (bs d)"
  define m where "m = min (?b - ?r) (min (unat n) (unat (sz d) - unat o'))"
  have b: "0 < ?b" by (rule bs_pos[OF assms(1)])
  then have r: "?r < ?b" by simp
  have lt: "o' < sz d" using assms(2) by (simp add: word_less_nat_alt)
  let ?m = "K_min (bs d - o' mod bs d) (K_min n (sz d - o'))"
  have le: "o' mod bs d \<le> bs d" using r by (simp add: word_le_nat_alt unat_mod)
  have um: "unat ?m = m"
    using lt le by (simp add: unat_K_min m_def unat_sub unat_mod)
  have mle: "m \<le> ?b - ?r" "m \<le> unat (sz d) - unat o'" "m \<le> unat n" "0 < m"
    using r assms(2,3) by (auto simp: m_def)
  obtain block where block: "rb d (o' div bs d) = Some block" "length block = ?b"
    "take m (drop ?r block) = take m (drop (unat o') (content d))" using block_piece[OF assms(1,2) mle(1,2)] by blast
  have nz: "bs d \<noteq> 0" using b by auto
  have a1: "?m \<le> K_min n (sz d - o')" unfolding word_le_nat_alt unat_K_min by (rule min.cobounded2)
  have "unat (o' + ?m) = unat o' + m"
    using mle(2) assms(2) unsigned_less[of "sz d", where 'a = nat] um by (subst unat_add_no_wrap) auto
  then have a2: "o' + ?m \<le> sz d" using mle(2) assms(2) by (simp add: word_le_nat_alt)
  have "unat (o' mod bs d + ?m) = ?r + m"
    using mle(1) r unsigned_less[of "bs d", where 'a = nat] um by (subst unat_add_no_wrap) (auto simp: unat_mod)
  then have a3: "o' mod bs d + ?m \<le> bs d" using mle(1) r by (simp add: word_le_nat_alt)
  have cnt: "(ucast ?m :: i64) = of_nat m" unfolding um[symmetric] by (simp add: unsigned_of_nat word_unat_eq_iff)
  have "block_read (bs d) (sz d) (rb d) o' n = Some (of_nat m, take m (drop (unat o') (content d)))"
  proof (cases "?m = bs d")
    case True
    then have "m = ?b" using um by simp
    with mle(1) b have r0: "?r = 0" by linarith
    then have "block = take m (drop ?r block)" using block(2) \<open>m = ?b\<close> by simp
    note r0 this
    moreover from this have "o' mod bs d = 0" by (metis unat_mod unat_eq_zero)
    ultimately show ?thesis
      using lt nz a1 a2 True block(1,3) cnt unfolding block_read_def Let_def by (auto simp: not_less_iff_gr_or_eq)
  next
    case False
    then show ?thesis
      using lt nz a1 a2 a3 block(1,3) cnt um unfolding block_read_def Let_def by (auto simp: unat_mod)
  qed
  with mle show ?thesis by (intro exI[of _ m]) (auto simp: m_def)
qed

lemma read_loop:
  assumes "ok d" "unat o' \<le> unat (sz d)"
  shows "block_read_loop (bs d) (sz d) (rb d) o' n tot buffer
    = Some (tot + of_nat (min (unat n) (unat (sz d) - unat o')), buffer @ take (unat n) (drop (unat o') (content d)))"
  using assms(2)
proof (induction "unat n" arbitrary: o' n tot buffer rule: less_induct)
  case less
  note unfold = block_read_loop.simps[of "bs d" "sz d" "rb d" o' n tot buffer]
  show ?case
  proof (cases "n = 0 \<or> o' = sz d")
    case True
    then show ?thesis
      using content_length[OF assms(1)] unfolding unfold by (auto simp: block_read_def word_gt_0)
  next
    case False
    then have o': "unat o' < unat (sz d)" using less.prems by (metis le_neq_implies_less word_unat_eq_iff)
    have n: "0 < unat n" "n > 0" using False by (auto simp: unat_gt_0 word_gt_0)
    obtain m where m: "0 < m" "m \<le> unat n" "m \<le> unat (sz d) - unat o'"
      and rd: "block_read (bs d) (sz d) (rb d) o' n = Some (of_nat m, take m (drop (unat o') (content d)))"
      using read_piece[OF assms(1) o' n(1)] by blast
    have small: "m < 2 ^ 32" using m(2) unsigned_less[of n, where 'a = nat] by simp
    have s: "sint (of_nat m :: i64) = int m"
      using small by (simp add: sint_sbintrunc' signed_take_bit_int_eq_self unsigned_of_nat signed_of_nat)
    have u: "(ucast (of_nat m :: i64) :: u32) = of_nat m"
      using small by (simp add: unsigned_of_nat take_bit_nat_eq_self)
    have um: "unat (of_nat m :: u32) = m" using small by (simp add: unsigned_of_nat take_bit_nat_eq_self)
    have n': "unat (n - of_nat m) = unat n - m" using m(2) um by (simp add: unat_sub word_le_nat_alt)
    have o2: "unat (o' + of_nat m) = unat o' + m"
      using m(3) o' unsigned_less[of "sz d", where 'a = nat] um by (subst unat_add_no_wrap) auto
    have nz: "(of_nat m :: i64) \<noteq> 0" using s m(1) by (metis of_nat_0_less_iff less_irrefl signed_0)
    have "block_read_loop (bs d) (sz d) (rb d) o' n tot buffer
      = block_read_loop (bs d) (sz d) (rb d) (o' + of_nat m) (n - of_nat m) (tot + of_nat m) (buffer @ take m (drop (unat o') (content d)))"
      using n(2) rd s nz m(1) u unfolding unfold by simp
    also have "\<dots> = Some (tot + of_nat m + of_nat (min (unat n - m) (unat (sz d) - (unat o' + m))),
      buffer @ take m (drop (unat o') (content d)) @ take (unat n - m) (drop (unat o' + m) (content d)))"
      using less.hyps[of "n - of_nat m" "o' + of_nat m"] n' o2 m by simp
    also have "min (unat n) (unat (sz d) - unat o') = m + min (unat n - m) (unat (sz d) - (unat o' + m))"
      using m by simp
    then have "tot + of_nat m + of_nat (min (unat n - m) (unat (sz d) - (unat o' + m)))
      = tot + of_nat (min (unat n) (unat (sz d) - unat o'))" by simp
    also have "take m (drop (unat o') (content d)) @ take (unat n - m) (drop (unat o' + m) (content d))
      = take (unat n) (drop (unat o') (content d))"
      using m(2) by (metis add.commute drop_drop le_add_diff_inverse take_add)
    finally show ?thesis .
  qed
qed

lemma read_all:
  assumes "ok d" "unat o' \<le> unat (sz d)"
  shows "block_read_all (bs d) (sz d) (rb d) o' n
    = Some (of_nat (min (unat n) (unat (sz d) - unat o')), take (unat n) (drop (unat o') (content d)))"
  using read_loop[OF assms, of n 0 "[]"] by (simp add: block_read_all_def)

lemma read_thing:
  assumes "ok d" "unat o' + unat n \<le> unat (sz d)"
  shows "block_read_thing (bs d) (sz d) (rb d) o' n = Some (take (unat n) (drop (unat o') (content d)))"
  using read_all[of d o' n] assms by (simp add: block_read_thing_def min_absorb1)

end

text \<open>Behind the end every non-empty read is refused.\<close>

lemma read_all_behind:
  "sz < o' \<Longrightarrow> n \<noteq> 0 \<Longrightarrow> block_read_all bs sz rb o' n = Some (- 1, [])"
  by (simp add: block_read_all_def block_read_loop.simps block_read_def word_gt_0)

lemma read_all_nothing: "block_read_all bs sz rb o' 0 = Some (0, [])"
  by (simp add: block_read_all_def block_read_loop.simps)

end
