(* ===== verification/Ide.thy ===== *)
theory Ide
  imports Bytes
begin

text \<open>
  The disk driver \<open>kernel/ide.cc\<close>. What the drive answers to the successive port reads is a list; the driver's
  port accesses are recorded in order. A read takes the driver's lock and is one operation. \<open>None\<close> is a panic, or a wait that
  has not ended when the answers end.
\<close>

datatype port_event = In u32 | Out u32 u8

record ports =
  answers :: "u32 list"
  log :: "port_event list"

definition port_in :: "u32 \<Rightarrow> ports \<Rightarrow> (u32 \<times> ports) option" where
  "port_in p s =
     (case answers s of
        [] \<Rightarrow> None
      | v # vs \<Rightarrow> Some (v, s\<lparr>answers := vs, log := log s @ [In p]\<rparr>))"

definition port_out :: "u32 \<Rightarrow> u32 \<Rightarrow> ports \<Rightarrow> ports" where
  "port_out p v s = s\<lparr>log := log s @ [Out p (ucast v)]\<rparr>"

definition controller :: "u32 \<Rightarrow> u32" where
  "controller drive = drop_bit 1 drive AND 1"

definition channel :: "u32 \<Rightarrow> u32" where
  "channel drive = drive AND 1"

definition drive_port :: "u32 \<Rightarrow> u32" where
  "drive_port drive = [0x1f0, 0x170] ! unat (controller drive)"

definition getStatus :: "u32 \<Rightarrow> ports \<Rightarrow> (u32 \<times> ports) option" where
  "getStatus drive s = port_in (drive_port drive + 7) s"

definition ERR :: u32 where "ERR = 0x01"
definition DRQ :: u32 where "DRQ = 0x08"
definition DF :: u32 where "DF = 0x20"
definition DRDY :: u32 where "DRDY = 0x40"
definition BSY :: u32 where "BSY = 0x80"

text \<open>Read the status until \<open>stop\<close> holds of it; \<open>pause\<close> in between panics once the machine is shut down.\<close>

function poll_status :: "bool \<Rightarrow> (u32 \<Rightarrow> bool) \<Rightarrow> u32 \<Rightarrow> ports \<Rightarrow> ports option" where
  "poll_status shutdown stop drive s =
     (case getStatus drive s of
        None \<Rightarrow> None
      | Some (v, s) \<Rightarrow>
          if stop v then Some s else if shutdown then None else poll_status shutdown stop drive s)"
  by pat_completeness auto

termination
  by (relation "measure (\<lambda>(shutdown, stop, drive, s). length (answers s))")
    (auto simp: getStatus_def port_in_def split: list.splits)

declare poll_status.simps [simp del]

definition waitForDrive :: "bool \<Rightarrow> u32 \<Rightarrow> ports \<Rightarrow> ports option" where
  "waitForDrive shutdown drive s =
     (case getStatus drive s of
        None \<Rightarrow> None
      | Some (v, s) \<Rightarrow>
          let status = ucast (ucast v :: u8)
          in if status AND (ERR OR DF) \<noteq> 0 then None
             else if status AND DRDY = 0 then None
             else poll_status shutdown (\<lambda>v. v AND BSY = 0) drive s)"

fun read_words :: "nat \<Rightarrow> u32 \<Rightarrow> ports \<Rightarrow> (u8 list \<times> ports) option" where
  "read_words 0 base s = Some ([], s)"
| "read_words (Suc n) base s =
     (case port_in base s of
        None \<Rightarrow> None
      | Some (v, s) \<Rightarrow> map_option (\<lambda>(bytes, s). (enc32 v @ bytes, s)) (read_words n base s))"

definition Ide_read_block :: "bool \<Rightarrow> u32 \<Rightarrow> u32 \<Rightarrow> ports \<Rightarrow> (u8 list \<times> ports) option" where
  "Ide_read_block shutdown drive sector s =
     (let base = drive_port drive;
          ch = channel drive
      in (case waitForDrive shutdown drive s of
            None \<Rightarrow> None
          | Some s \<Rightarrow>
              let s = port_out (base + 2) 1 s;
                  s = port_out (base + 3) (drop_bit 0 sector) s;
                  s = port_out (base + 4) (drop_bit 8 sector) s;
                  s = port_out (base + 5) (drop_bit 16 sector) s;
                  s = port_out (base + 6) (0xE0 OR push_bit 4 ch OR (drop_bit 24 sector AND 0xf)) s;
                  s = port_out (base + 7) 0x20 s
              in (case waitForDrive shutdown drive s of
                    None \<Rightarrow> None
                  | Some s \<Rightarrow>
                      (case poll_status shutdown (\<lambda>v. v AND DRQ \<noteq> 0) drive s of
                         None \<Rightarrow> None
                       | Some s \<Rightarrow> read_words (512 div 4) base s))))"

subsection \<open>Properties\<close>

text \<open>The registers as a drive reads them: the values written to it, the last one at each port.\<close>

fun written :: "u32 \<Rightarrow> port_event list \<Rightarrow> u8 option" where
  "written p [] = None"
| "written p (e # es) = (case written p es of Some v \<Rightarrow> Some v | None \<Rightarrow> (case e of Out q v \<Rightarrow> if q = p then Some v else None | In q \<Rightarrow> None))"

text \<open>The block address of 28 bits in the four address registers at \<open>base\<close>, and the drive bit.\<close>

definition lba :: "u32 \<Rightarrow> port_event list \<Rightarrow> u32" where
  "lba base es = ucast (the (written (base + 3) es)) OR push_bit 8 (ucast (the (written (base + 4) es)))
     OR push_bit 16 (ucast (the (written (base + 5) es))) OR push_bit 24 (take_bit 4 (ucast (the (written (base + 6) es))))"

definition selected :: "u32 \<Rightarrow> port_event list \<Rightarrow> bool" where
  "selected base es = bit (the (written (base + 6) es)) 4"

text \<open>Status values of a drive that is there and has no error, as the first answer of a wait.\<close>

definition fine_status :: "u32 \<Rightarrow> bool" where
  "fine_status v \<longleftrightarrow> v < 256 \<and> v AND (ERR OR DF) = 0 \<and> v AND DRDY \<noteq> 0"

definition reg_writes :: "u32 \<Rightarrow> u32 \<Rightarrow> port_event list" where
  "reg_writes drive sector = (let base = drive_port drive in
     [Out (base + 2) 1, Out (base + 3) (ucast sector), Out (base + 4) (ucast (drop_bit 8 sector)), Out (base + 5) (ucast (drop_bit 16 sector)),
      Out (base + 6) (ucast (0xE0 OR push_bit 4 (channel drive) OR (drop_bit 24 sector AND 0xf))), Out (base + 7) 0x20])"

lemma poll_until:
  assumes "\<forall>v \<in> set vs. \<not> stop v" "stop w"
  shows "poll_status False stop drive \<lparr>answers = vs @ w # rest, log = l\<rparr>
    = Some \<lparr>answers = rest, log = l @ replicate (Suc (length vs)) (In (drive_port drive + 7))\<rparr>"
  using assms(1)
proof (induction vs arbitrary: l)
  case Nil
  then show ?case using assms(2) by (simp add: poll_status.simps getStatus_def port_in_def)
next
  case (Cons v vs)
  then show ?case by (simp add: poll_status.simps[of _ _ _ "\<lparr>answers = v # _, log = _\<rparr>"] getStatus_def port_in_def)
qed

lemma wait_fine:
  assumes "fine_status v" "\<forall>v \<in> set vs. v AND BSY \<noteq> 0" "w AND BSY = 0"
  shows "waitForDrive False drive \<lparr>answers = v # vs @ w # rest, log = l\<rparr>
    = Some \<lparr>answers = rest, log = l @ replicate (length vs + 2) (In (drive_port drive + 7))\<rparr>"
proof -
  have "ucast (ucast v :: u8) = v"
  proof (rule word_unat_eq_iff[THEN iffD2])
    have "unat v < 256" using assms(1) by (simp add: fine_status_def word_less_nat_alt)
    then show "unat (ucast (ucast v :: u8) :: u32) = unat v"
      by (simp add: unsigned_ucast_eq unsigned_take_bit_eq take_bit_nat_eq_self)
  qed
  then show ?thesis
    using assms poll_until[of vs "\<lambda>v. v AND BSY = 0" w drive rest "l @ [In (drive_port drive + 7)]"]
    by (simp add: waitForDrive_def getStatus_def port_in_def fine_status_def Let_def)
qed

lemma read_words_all:
  "read_words (length ws) base \<lparr>answers = ws @ rest, log = l\<rparr>
    = Some (concat (map enc32 ws), \<lparr>answers = rest, log = l @ replicate (length ws) (In base)\<rparr>)"
  by (induction ws arbitrary: l) (simp_all add: port_in_def)

lemma written_ins: "written p (replicate n (In q)) = None"
  by (induction n) auto

lemma written_app: "written p (xs @ ys) = (case written p ys of Some v \<Rightarrow> Some v | None \<Rightarrow> written p xs)"
  by (induction xs) (auto split: option.split)

lemma channel_bit: "bit (channel d) k = (k = 0 \<and> bit d 0)"
  by (auto simp: channel_def bit_and_iff bit_1_iff)

lemma registers:
  "written (drive_port d + 3) (reg_writes d sector) = Some (ucast sector)"
  "written (drive_port d + 4) (reg_writes d sector) = Some (ucast (drop_bit 8 sector))"
  "written (drive_port d + 5) (reg_writes d sector) = Some (ucast (drop_bit 16 sector))"
  "written (drive_port d + 6) (reg_writes d sector) = Some (ucast (0xE0 OR push_bit 4 (channel d) OR (drop_bit 24 sector AND 0xf)))"
  by (simp_all add: reg_writes_def Let_def)

lemma bits_0xF: "bit (0xF :: u32) n = (n < 4)"
proof -
  have "(0xF :: u32) = mask 4" by (simp add: mask_eq_exp_minus_1)
  then show ?thesis by (simp only: bit_mask_iff) auto
qed

lemma bits_0xE0: "n < 5 \<Longrightarrow> \<not> bit (0xE0 :: u32) n"
proof -
  assume "n < 5"
  then have "n = 0 \<or> n = 1 \<or> n = 2 \<or> n = 3 \<or> n = 4" by auto
  then show ?thesis by (elim disjE) simp_all
qed

lemma command_register:
  "k < 4 \<Longrightarrow> bit (ucast (0xE0 OR push_bit 4 (channel d) OR (drop_bit 24 sector AND 0xf)) :: u8) k = bit sector (24 + k)"
  unfolding bit_unsigned_iff bit_or_iff bit_and_iff bit_push_bit_iff bit_drop_bit_eq comp_def bits_0xF
  using bits_0xE0[of k] by auto

lemma lba_registers:
  assumes "sector < 2 ^ 28"
  shows "lba (drive_port d) (reg_writes d sector) = sector"
proof (rule bit_word_eqI)
  fix n assume n: "n < LENGTH(32)"
  have "take_bit 28 sector = sector"
    using assms by (simp add: word_unat_eq_iff unsigned_take_bit_eq take_bit_nat_eq_self word_less_nat_alt)
  then have hi: "bit sector n \<Longrightarrow> n < 28" by (metis bit_take_bit_iff)
  note bits = lba_def registers option.sel bit_or_iff bit_and_iff bit_push_bit_iff bit_drop_bit_eq bit_unsigned_iff bit_take_bit_iff comp_def
  consider "n < 8" | "8 \<le> n \<and> n < 16" | "16 \<le> n \<and> n < 24" | "24 \<le> n \<and> n < 28" | "28 \<le> n" using n by fastforce
  then show "bit (lba (drive_port d) (reg_writes d sector)) n = bit sector n"
  proof cases
    case 4
    then have "n - 24 < 4" "24 + (n - 24) = n" by auto
    with 4 command_register[of "n - 24" d sector] show ?thesis by (auto simp: bits)
  next
    case 5
    then have "\<not> n - 24 < 4" by simp
    with 5 hi show ?thesis by (auto simp: bits)
  qed (auto simp: bits)
qed

lemma selected_drive: "selected (drive_port d) (reg_writes d sector) = bit d 0"
  using bits_0xE0[of 4] by (auto simp: selected_def registers bit_or_iff bit_and_iff bit_push_bit_iff bit_unsigned_iff bits_0xF channel_bit)

text \<open>The driver reads the sector it is asked for. If the drive is ready, stays busy for any number of polls, accepts
  the command and then has data, \<open>read_block\<close> returns the 512 bytes of the 128 words it delivers, in order, and
  by the time of the command its address registers hold the sector number and select the drive.\<close>

theorem ide_reads_sector:
  assumes "sector < 2 ^ 28" "fine_status v" "\<forall>x \<in> set vs. x AND BSY \<noteq> 0" "w AND BSY = 0"
    "fine_status v'" "\<forall>x \<in> set vs'. x AND BSY \<noteq> 0" "w' AND BSY = 0"
    "\<forall>x \<in> set ds. x AND DRQ = 0" "d AND DRQ \<noteq> 0" "length ws = 128"
  shows "\<exists>waits. Ide_read_block False drive sector \<lparr>answers = v # vs @ w # v' # vs' @ w' # ds @ d # ws, log = []\<rparr>
      = Some (concat (map enc32 ws), \<lparr>answers = [], log = replicate (length vs + 2) (In (drive_port drive + 7))
          @ reg_writes drive sector @ waits @ replicate 128 (In (drive_port drive))\<rparr>)
    \<and> lba (drive_port drive) (reg_writes drive sector) = sector
    \<and> selected (drive_port drive) (reg_writes drive sector) = bit drive 0"
proof -
  let ?st = "In (drive_port drive + 7)"
  have outs: "port_out (drive_port drive + 7) 0x20 (port_out (drive_port drive + 6) (0xE0 OR push_bit 4 (channel drive) OR (drop_bit 24 sector AND 0xf))
      (port_out (drive_port drive + 5) (drop_bit 16 sector) (port_out (drive_port drive + 4) (drop_bit 8 sector)
      (port_out (drive_port drive + 3) (drop_bit 0 sector) (port_out (drive_port drive + 2) 1 \<lparr>answers = as, log = l\<rparr>)))))
    = \<lparr>answers = as, log = l @ reg_writes drive sector\<rparr>" for as l
    by (simp add: port_out_def reg_writes_def Let_def)
  have "Ide_read_block False drive sector \<lparr>answers = v # vs @ w # v' # vs' @ w' # ds @ d # ws, log = []\<rparr>
    = Some (concat (map enc32 ws), \<lparr>answers = [], log = replicate (length vs + 2) ?st @ reg_writes drive sector
        @ (replicate (length vs' + 2) ?st @ replicate (Suc (length ds)) ?st) @ replicate 128 (In (drive_port drive))\<rparr>)"
    using read_words_all[of ws "drive_port drive" "[]"] assms(10)
      poll_until[of ds "\<lambda>v. v AND DRQ \<noteq> 0" d drive ws] assms(8,9)
    unfolding Ide_read_block_def Let_def wait_fine[OF assms(2,3,4)] option.case outs wait_fine[OF assms(5,6,7)] by simp
  with lba_registers[OF assms(1)] selected_drive show ?thesis by blast
qed

theorem ide_reads_sector_witness:
  "lba 0x170 (reg_writes 3 0x0ABCDEF) = 0x0ABCDEF"
  using ide_reads_sector[of "0x0ABCDEF" "0x50" "[0xD0]" "0x50" "0x50" "[]" "0x58" "[0x50]" "0x58" "replicate 128 7" 3]
  by (simp add: fine_status_def ERR_def DF_def DRDY_def BSY_def DRQ_def drive_port_def controller_def)

end
