(* ===== verification/Ext2.thy ===== *)
theory Ext2
  imports BlockIO Bytes LibK
begin

text \<open>
  The file system of \<open>kernel/ext2.h\<close> and \<open>kernel/ext2.cc\<close>. The device under it is a parameter, the function that
  gives the 512 bytes of a sector (\<open>Ide::read_block\<close>; nothing in the kernel writes the disk); the structures on
  disk are records read from their bytes. A file is a block device over that device, so \<open>read\<close> and \<open>read_all\<close> of
  a file are those of \<open>BlockIO\<close> on its \<open>read_block\<close>. \<open>None\<close> is a failed assertion, a panic or a fault.
\<close>

subsection \<open>Structures on disk\<close>

record SuperBlock =
  inodes_count :: u32
  blocks_count :: u32
  reserved_blocks_count :: u32
  sb_free_blocks_count :: u32
  sb_free_inodes_count :: u32
  first_data_block :: u32
  log_block_size :: u32
  log_frag_size :: u32
  blocks_per_group :: u32
  frags_per_group :: u32
  inodes_per_group :: u32
  sb_mtime :: u32
  wtime :: u32
  mnt_count :: u16
  max_mnt_count :: u16
  magic :: u16
  sb_state :: u16
  sb_errors :: u16
  minor_rev_level :: u16
  lastcheck :: u32
  checkinterval :: u32
  creator_os :: u32
  rev_level :: u32
  def_resuid :: u16
  def_resgid :: u16
  first_inode :: u32
  inode_size :: u16
  block_group_nr :: u16
  feature_compat :: u32
  feature_incompat :: u32
  feature_ro_compat :: u32
  uuid :: "u8 list"
  volume_name :: "u8 list"
  algo_bitmap :: u32

definition SuperBlock_of :: "u8 list \<Rightarrow> SuperBlock" where
  "SuperBlock_of b = \<lparr>
     inodes_count = le32 b 0, blocks_count = le32 b 4, reserved_blocks_count = le32 b 8, sb_free_blocks_count = le32 b 12,
     sb_free_inodes_count = le32 b 16, first_data_block = le32 b 20, log_block_size = le32 b 24, log_frag_size = le32 b 28,
     blocks_per_group = le32 b 32, frags_per_group = le32 b 36, inodes_per_group = le32 b 40, sb_mtime = le32 b 44,
     wtime = le32 b 48, mnt_count = le16 b 52, max_mnt_count = le16 b 54, magic = le16 b 56, sb_state = le16 b 58,
     sb_errors = le16 b 60, minor_rev_level = le16 b 62, lastcheck = le32 b 64, checkinterval = le32 b 68,
     creator_os = le32 b 72, rev_level = le32 b 76, def_resuid = le16 b 80, def_resgid = le16 b 82, first_inode = le32 b 84,
     inode_size = le16 b 88, block_group_nr = le16 b 90, feature_compat = le32 b 92, feature_incompat = le32 b 96,
     feature_ro_compat = le32 b 100, uuid = take 16 (drop 104 b), volume_name = take 16 (drop 120 b), algo_bitmap = le32 b 136\<rparr>"

definition sizeof_SuperBlock :: u32 where "sizeof_SuperBlock = 140"

text \<open>A group descriptor ends in fourteen bytes that nothing reads.\<close>

record BlockGroup =
  block_bitmap :: u32
  inode_bitmap :: u32
  inode_table :: u32
  free_blocks_count :: u16
  free_inodes_count :: u16
  used_dirs_count :: u16

definition BlockGroup_of :: "u8 list \<Rightarrow> BlockGroup" where
  "BlockGroup_of b = \<lparr>block_bitmap = le32 b 0, inode_bitmap = le32 b 4, inode_table = le32 b 8,
     free_blocks_count = le16 b 12, free_inodes_count = le16 b 14, used_dirs_count = le16 b 16\<rparr>"

definition sizeof_BlockGroup :: u32 where "sizeof_BlockGroup = 32"

text \<open>The fields lie at the offsets the compiler gives them on the i386, where all of them are aligned. The twelve fields \<open>direct0\<close> to \<open>direct11\<close>, which the code indexes from \<open>&data.direct0\<close>, are a list.\<close>

record NodeData =
  mode :: u16
  uid :: u16
  size_low :: u32
  atime :: u32
  ctime :: u32
  mtime :: u32
  dtime :: u32
  gid :: u16
  data_n_links :: u16
  n_sectors :: u32
  node_flags :: u32
  os1 :: u32
  direct :: "u32 list"
  indirect_1 :: u32
  indirect_2 :: u32
  indirect_3 :: u32
  gen :: u32
  reserved1 :: u32
  reserved2 :: u32
  fragment :: u32
  os2 :: "u8 list"

definition NodeData_of :: "u8 list \<Rightarrow> NodeData" where
  "NodeData_of b = \<lparr>mode = le16 b 0, uid = le16 b 2, size_low = le32 b 4, atime = le32 b 8, ctime = le32 b 12, mtime = le32 b 16,
     dtime = le32 b 20, gid = le16 b 24, data_n_links = le16 b 26, n_sectors = le32 b 28, node_flags = le32 b 32, os1 = le32 b 36,
     direct = map (\<lambda>i. le32 b (40 + 4 * i)) [0..<12], indirect_1 = le32 b 88, indirect_2 = le32 b 92, indirect_3 = le32 b 96,
     gen = le32 b 100, reserved1 = le32 b 104, reserved2 = le32 b 108, fragment = le32 b 112, os2 = take 12 (drop 116 b)\<rparr>"

definition sizeof_NodeData :: u32 where "sizeof_NodeData = 128"

definition get_type :: "NodeData \<Rightarrow> u16" where "get_type d = drop_bit 12 (mode d)"

definition get_perms :: "NodeData \<Rightarrow> u16" where "get_perms d = mode d AND 0x0FFF"

definition is_dir :: "NodeData \<Rightarrow> bool" where "is_dir d \<longleftrightarrow> get_type d = 4"

definition is_file :: "NodeData \<Rightarrow> bool" where "is_file d \<longleftrightarrow> get_type d = 8"

definition is_symlink :: "NodeData \<Rightarrow> bool" where "is_symlink d \<longleftrightarrow> get_type d = 0xa"

subsection \<open>The device\<close>

type_synonym sectors = "u32 \<Rightarrow> u8 list option"

definition sector_size :: u32 where "sector_size = 512"

definition ide_size_in_bytes :: u32 where "ide_size_in_bytes = NOT 0"

definition ide_read_all :: "sectors \<Rightarrow> u32 \<Rightarrow> u32 \<Rightarrow> (i64 \<times> u8 list) option" where
  "ide_read_all disk = block_read_all sector_size ide_size_in_bytes disk"

definition ide_read :: "sectors \<Rightarrow> u32 \<Rightarrow> u32 \<Rightarrow> u8 list option" where
  "ide_read disk = block_read_thing sector_size ide_size_in_bytes disk"

subsection \<open>Nodes\<close>

record Node =
  node_disk :: sectors
  node_number :: u32
  node_block_size :: u32
  node_data :: NodeData

definition Node_size_in_bytes :: "Node \<Rightarrow> u32" where
  "Node_size_in_bytes nd = size_low (node_data nd)"

definition Node_block_index :: "Node \<Rightarrow> u32 \<Rightarrow> u32 option" where
  "Node_block_index nd index =
     (let refs_per_block = node_block_size nd div 4;
          d = node_data nd
      in if index < 12 then Some (direct d ! unat index)
         else if index < 12 + refs_per_block
         then map_option (\<lambda>b. le32 b 0)
                (ide_read (node_disk nd) (indirect_1 d * node_block_size nd + (index - 12) * 4) 4)
         else None)"

definition Node_read_block :: "Node \<Rightarrow> u32 \<Rightarrow> u8 list option" where
  "Node_read_block nd index =
     (let bs = node_block_size nd
      in if bs div 512 = 0 then None
         else if \<not> index < n_sectors (node_data nd) div (bs div 512) then None
         else (case Node_block_index nd index of
                 None \<Rightarrow> None
               | Some block_index \<Rightarrow>
                   (case ide_read_all (node_disk nd) (block_index * bs) bs of
                      None \<Rightarrow> None
                    | Some (cnt, buffer) \<Rightarrow> if cnt = ucast bs then Some buffer else None)))"

definition Node_read :: "Node \<Rightarrow> u32 \<Rightarrow> u32 \<Rightarrow> (i64 \<times> u8 list) option" where
  "Node_read nd = block_read (node_block_size nd) (Node_size_in_bytes nd) (Node_read_block nd)"

definition Node_read_all :: "Node \<Rightarrow> u32 \<Rightarrow> u32 \<Rightarrow> (i64 \<times> u8 list) option" where
  "Node_read_all nd = block_read_all (node_block_size nd) (Node_size_in_bytes nd) (Node_read_block nd)"

definition Node_read_thing :: "Node \<Rightarrow> u32 \<Rightarrow> u32 \<Rightarrow> u8 list option" where
  "Node_read_thing nd = block_read_thing (node_block_size nd) (Node_size_in_bytes nd) (Node_read_block nd)"

definition Node_get_symbol :: "Node \<Rightarrow> u8 list option" where
  "Node_get_symbol nd =
     (if \<not> is_symlink (node_data nd) then None
      else
        let sz = Node_size_in_bytes nd
        in if sz \<le> 60
           then Some (take (unat sz) (concat (map (\<lambda>w :: u32. map (\<lambda>k. ucast (drop_bit k w)) [0, 8, 16, 24])
                  (direct (node_data nd) @ [indirect_1 (node_data nd), indirect_2 (node_data nd), indirect_3 (node_data nd)]))))
           else (case Node_read_all nd 0 sz of
                   None \<Rightarrow> None
                 | Some (cnt, buffer) \<Rightarrow> if cnt = ucast sz then Some buffer else None))"

definition n_links :: "Node \<Rightarrow> u32" where
  "n_links nd = ucast (data_n_links (node_data nd))"

text \<open>One directory entry at \<open>offset\<close>: the number, the name up to \<open>name_length\<close>, and the offset of the next.\<close>

definition byte_char :: "u8 \<Rightarrow> char" where
  "byte_char b = char_of (unat b)"

definition dir_entry :: "Node \<Rightarrow> u32 \<Rightarrow> (u32 \<times> string \<times> u32) option" where
  "dir_entry nd offset =
     (case Node_read_thing nd offset 4 of None \<Rightarrow> None | Some b0 \<Rightarrow>
     (case Node_read_thing nd (offset + 4) 2 of None \<Rightarrow> None | Some b1 \<Rightarrow>
     (case Node_read_thing nd (offset + 6) 1 of None \<Rightarrow> None | Some b2 \<Rightarrow>
      let inode = le32 b0 0; total_size = le16 b1 0; name_length = b2 ! 0
      in (case Node_read_all nd (offset + 8) (ucast name_length) of
            None \<Rightarrow> None
          | Some (cnt, name) \<Rightarrow>
              if cnt = ucast name_length then Some (inode, map byte_char name, offset + ucast total_size) else None))))"

text \<open>\<open>entries\<close>, with the effect of \<open>work\<close> threaded through; an entry of size 0 makes it run forever.\<close>

partial_function (option) entries_loop ::
  "Node \<Rightarrow> (u32 \<Rightarrow> string \<Rightarrow> 'a \<Rightarrow> 'a option) \<Rightarrow> u32 \<Rightarrow> 'a \<Rightarrow> 'a option" where
  "entries_loop nd work offset a =
     (if offset < size_low (node_data nd) then
        (case dir_entry nd offset of
           None \<Rightarrow> None
         | Some (inode, name, next) \<Rightarrow>
             (case work inode (c_string name) a of None \<Rightarrow> None | Some a \<Rightarrow> entries_loop nd work next a))
      else Some a)"

definition entries :: "Node \<Rightarrow> (u32 \<Rightarrow> string \<Rightarrow> 'a \<Rightarrow> 'a option) \<Rightarrow> 'a \<Rightarrow> 'a option" where
  "entries nd work a = (if \<not> is_dir (node_data nd) then None else entries_loop nd work 0 a)"

definition Node_find :: "Node \<Rightarrow> string \<Rightarrow> u32 option" where
  "Node_find nd name = entries nd (\<lambda>number nm out. map_option (\<lambda>eq. if eq then number else out) (kernel_streq name nm)) 0"

definition entry_count :: "Node \<Rightarrow> u32 option" where
  "entry_count nd = entries nd (\<lambda>_ _ count. Some (count + 1)) 0"

subsection \<open>The file system\<close>

record Ext2 =
  fs_disk :: sectors
  blockSize :: u32
  numberOfNodes :: u32
  numberOfBlocks :: u32
  iNodeSize :: u32
  nGroups :: u32
  iNodeTables :: "u32 list"
  iNodesPerGroup :: u32

definition get_node :: "Ext2 \<Rightarrow> u32 \<Rightarrow> Node option" where
  "get_node fs number =
     (if \<not> (number > 0 \<and> number \<le> numberOfNodes fs) then None
      else if iNodesPerGroup fs = 0 then None
      else
        let index = number - 1;
            groupIndex = index div iNodesPerGroup fs;
            indexInGroup = index mod iNodesPerGroup fs
        in if \<not> groupIndex < nGroups fs then None
           else
             let iTableBase = iNodeTables fs ! unat groupIndex
             in if \<not> iTableBase \<le> numberOfBlocks fs then None
                else
                  let nodeOffset = iTableBase * blockSize fs + indexInGroup * iNodeSize fs
                  in map_option (\<lambda>b. \<lparr>node_disk = fs_disk fs, node_number = number, node_block_size = blockSize fs,
                       node_data = NodeData_of b\<rparr>) (ide_read (fs_disk fs) nodeOffset sizeof_NodeData))"

text \<open>The constructor: the mounted file system and its root. A shift by 32 or more is undefined.\<close>

definition Ext2_new :: "sectors \<Rightarrow> (Ext2 \<times> Node) option" where
  "Ext2_new disk =
     (case ide_read disk 1024 sizeof_SuperBlock of
        None \<Rightarrow> None
      | Some b \<Rightarrow>
          let sb = SuperBlock_of b;
              shift = log_block_size sb + 10
          in if shift \<ge> 32 then None
             else if blocks_per_group sb = 0 then None
             else
               let blockSize = push_bit (unat shift) 1;
                   nGroups = (blocks_count sb + blocks_per_group sb - 1) div blocks_per_group sb
               in if \<not> nGroups * blocks_per_group sb \<ge> blocks_count sb then None
                  else
                    let superBlockNumber = 1024 div blockSize;
                        groupTableNumber = superBlockNumber + 1;
                        groupTableSize = sizeof_BlockGroup * nGroups
                    in (case ide_read_all disk (groupTableNumber * blockSize) groupTableSize of
                          None \<Rightarrow> None
                        | Some (cnt, groupTable) \<Rightarrow>
                            if cnt \<noteq> ucast groupTableSize then None
                            else
                              let fs = \<lparr>fs_disk = disk, blockSize = blockSize, numberOfNodes = inodes_count sb,
                                    numberOfBlocks = blocks_count sb, iNodeSize = ucast (inode_size sb), nGroups = nGroups,
                                    iNodeTables = map (\<lambda>i. inode_table (BlockGroup_of (drop (32 * i) groupTable))) [0..<unat nGroups],
                                    iNodesPerGroup = inodes_per_group sb\<rparr>
                              in map_option (\<lambda>root. (fs, root)) (get_node fs 2)))"

lemma rest_shorter:
  assumes "dropWhile (\<lambda>c. c = CHR ''/'') path \<noteq> []"
  shows "length (dropWhile (\<lambda>c. c \<noteq> CHR ''/'') (dropWhile (\<lambda>c. c = CHR ''/'') path)) < length path"
proof -
  let ?p = "dropWhile (\<lambda>c. c = CHR ''/'') path"
  obtain x xs where p: "?p = x # xs" using assms by (cases ?p) auto
  then have "x \<noteq> CHR ''/''" using hd_dropWhile[OF assms] by simp
  then have "length (dropWhile (\<lambda>c. c \<noteq> CHR ''/'') ?p) \<le> length xs" unfolding p by (simp add: length_dropWhile_le)
  also have "\<dots> < length ?p" unfolding p by simp
  also have "\<dots> \<le> length path" by (rule length_dropWhile_le)
  finally show ?thesis .
qed

text \<open>
  \<open>find(current, path)\<close>; the path without its terminator. The outer \<open>None\<close> is a panic, the inner one the null reference.
  A part of 257 characters or more fails the assertion.
\<close>

function fs_find :: "Ext2 \<Rightarrow> Node \<Rightarrow> string \<Rightarrow> Node option option" where
  "fs_find fs current path =
     (let path = dropWhile (\<lambda>c. c = CHR ''/'') path
      in if path = [] then Some (Some current)
         else
           let part = takeWhile (\<lambda>c. c \<noteq> CHR ''/'') path;
               rest = dropWhile (\<lambda>c. c \<noteq> CHR ''/'') path
           in if \<not> length part \<le> 256 then None
              else (case Node_find current (c_string part) of
                      None \<Rightarrow> None
                    | Some number \<Rightarrow>
                        if number = 0 then Some None
                        else (case get_node fs number of None \<Rightarrow> None | Some nd \<Rightarrow> fs_find fs nd rest)))"
  by pat_completeness auto

termination
  by (relation "measure (\<lambda>(fs, current, path). length path)")
    (simp_all only: wf_measure in_measure prod.case rest_shorter not_False_eq_True)

declare fs_find.simps [simp del]

end
