(* ===== verification/Ext2Props.thy ===== *)
theory Ext2Props
  imports Ext2
begin

text \<open>
  What the file system reads. A disk whose sectors can all be read is a block device, and so is every file
  whose blocks lie on it; both are interpretations of the contract of \<open>BlockIO\<close>, the second on top of the first.
\<close>

subsection \<open>The disk\<close>

definition disk_ok :: "sectors \<Rightarrow> bool" where
  "disk_ok disk \<longleftrightarrow> (\<forall>k. unat k < 2 ^ 23 \<longrightarrow> (\<exists>b. disk k = Some b \<and> length b = 512))"

definition disk_byte :: "sectors \<Rightarrow> nat \<Rightarrow> u8" where
  "disk_byte disk i = the (disk (of_nat (i div 512))) ! (i mod 512)"

definition disk_bytes :: "sectors \<Rightarrow> u8 list" where
  "disk_bytes disk = map (disk_byte disk) [0..<unat ide_size_in_bytes]"

lemma ide_size: "unat ide_size_in_bytes = 2 ^ 32 - 1"
  unfolding ide_size_in_bytes_def by (simp add: unsigned_minus_1_eq_mask mask_eq_exp_minus_1)

lemma map_upt_piece:
  "a + n \<le> m \<Longrightarrow> take n (drop a (map f [0..<m])) = map (\<lambda>i. f (a + i)) [0..<n]"
  by (rule nth_equalityI) auto

lemma take_drop_map_upt:
  "take n (drop a (map f [0..<m])) = map (\<lambda>i. f (a + i)) [0..<min n (m - a)]"
  by (rule nth_equalityI) auto

interpretation ide: block_device disk_ok "\<lambda>_. sector_size" "\<lambda>_. ide_size_in_bytes" "\<lambda>disk. disk" disk_bytes
proof
  fix d :: sectors and k :: u32
  assume ok: "disk_ok d" and k: "unat k * unat sector_size < unat ide_size_in_bytes"
  have s: "unat sector_size = 512" by (simp add: sector_size_def)
  have "unat k < 2 ^ 23" using k unfolding s ide_size by simp
  then obtain b where b: "d k = Some b" "length b = 512" using ok unfolding disk_ok_def by blast
  have "take (2 ^ 32 - 1 - unat k * 512) b = take 512 (drop (unat k * 512) (disk_bytes d))"
    unfolding disk_bytes_def ide_size take_drop_map_upt
  proof (rule nth_equalityI)
    fix i assume "i < length (take (2 ^ 32 - 1 - unat k * 512) b)"
    then have i: "i < 512" "i < 2 ^ 32 - 1 - unat k * 512" using b(2) by auto
    have q: "(unat k * 512 + i) div 512 = unat k" "(unat k * 512 + i) mod 512 = i" using i(1) by simp_all
    show "take (2 ^ 32 - 1 - unat k * 512) b ! i = map (\<lambda>i. disk_byte d (unat k * 512 + i)) [0..<min 512 (2 ^ 32 - 1 - unat k * 512)] ! i"
      using i b(1) q by (simp add: disk_byte_def)
  qed (use b(2) in auto)
  then show "\<exists>block. d k = Some block \<and> length block = unat sector_size \<and>
    take (unat ide_size_in_bytes - unat k * unat sector_size) block = take (unat sector_size) (drop (unat k * unat sector_size) (disk_bytes d))"
    using b unfolding s ide_size by blast
qed (simp_all add: sector_size_def disk_bytes_def)

lemma ide_read_bytes:
  assumes "disk_ok disk" "unat a + unat n < 2 ^ 32"
  shows "ide_read disk a n = Some (map (\<lambda>i. disk_byte disk (unat a + i)) [0..<unat n])"
proof -
  have "unat a + unat n \<le> unat ide_size_in_bytes" using assms(2) unfolding ide_size by simp
  with ide.read_thing[OF assms(1) this] show ?thesis
    unfolding ide_read_def disk_bytes_def by (simp only: map_upt_piece)
qed

lemma ide_read_all_bytes:
  assumes "disk_ok disk" "unat a + unat n < 2 ^ 32"
  shows "ide_read_all disk a n = Some (ucast n, map (\<lambda>i. disk_byte disk (unat a + i)) [0..<unat n])"
proof -
  have le: "unat a + unat n \<le> unat ide_size_in_bytes" using assms(2) unfolding ide_size by simp
  have "ide_read_all disk a n = Some (of_nat (unat n), take (unat n) (drop (unat a) (disk_bytes disk)))"
    using ide.read_all[OF assms(1), of a n] le unfolding ide_read_all_def by (simp add: min_absorb1)
  then show ?thesis unfolding disk_bytes_def map_upt_piece[OF le] by simp
qed

subsection \<open>Files\<close>

definition disk_word :: "sectors \<Rightarrow> nat \<Rightarrow> u32" where
  "disk_word disk a = le32 (map (\<lambda>i. disk_byte disk (a + i)) [0..<4]) 0"

text \<open>Where the \<open>k\<close>-th block of a file lies: the direct references, then the indirect block.\<close>

definition file_block :: "Node \<Rightarrow> nat \<Rightarrow> u32" where
  "file_block nd k = (if k < 12 then direct (node_data nd) ! k
     else disk_word (node_disk nd) (unat (indirect_1 (node_data nd)) * unat (node_block_size nd) + (k - 12) * 4))"

definition file_byte :: "Node \<Rightarrow> nat \<Rightarrow> u8" where
  "file_byte nd i = (let bs = unat (node_block_size nd)
     in disk_byte (node_disk nd) (unat (file_block nd (i div bs)) * bs + i mod bs))"

definition file_bytes :: "Node \<Rightarrow> u8 list" where
  "file_bytes nd = map (file_byte nd) [0..<unat (Node_size_in_bytes nd)]"

text \<open>A node whose file can be read: all blocks up to its size are there and lie below 4 GB.\<close>

definition node_ok :: "Node \<Rightarrow> bool" where
  "node_ok nd \<longleftrightarrow> (let bs = unat (node_block_size nd); d = node_data nd
     in disk_ok (node_disk nd) \<and> 512 \<le> bs
        \<and> unat (size_low d) \<le> (unat (n_sectors d) div (bs div 512)) * bs
        \<and> unat (size_low d) \<le> (12 + bs div 4) * bs
        \<and> (12 * bs < unat (size_low d) \<longrightarrow> (unat (indirect_1 d) + 1) * bs < 2 ^ 32)
        \<and> (\<forall>k. k * bs < unat (size_low d) \<longrightarrow> (unat (file_block nd k) + 1) * bs < 2 ^ 32))"

lemma unat_mult_no_wrap: "unat a * unat b < 2 ^ 32 \<Longrightarrow> unat (a * b :: u32) = unat a * unat b"
  by (simp add: unat_word_ariths)

lemma Node_block_index_file:
  assumes "node_ok nd" "unat k * unat (node_block_size nd) < unat (Node_size_in_bytes nd)"
  shows "Node_block_index nd k = Some (file_block nd (unat k))"
proof -
  define bs where "bs = unat (node_block_size nd)"
  define d where "d = node_data nd"
  have ok: "disk_ok (node_disk nd)" "512 \<le> bs" "unat (size_low d) \<le> (12 + bs div 4) * bs"
    "12 * bs < unat (size_low d) \<Longrightarrow> (unat (indirect_1 d) + 1) * bs < 2 ^ 32"
    using assms(1) unfolding node_ok_def Let_def bs_def d_def by auto
  have k: "unat k * bs < unat (size_low d)" using assms(2) by (simp add: Node_size_in_bytes_def bs_def d_def)
  show ?thesis
  proof (cases "k < 12")
    case True
    then show ?thesis by (simp add: Node_block_index_def file_block_def word_less_nat_alt)
  next
    case False
    then have k12: "12 \<le> unat k" by (simp add: word_less_nat_alt)
    then have "12 * bs \<le> unat k * bs" by simp
    then have ind: "(unat (indirect_1 d) + 1) * bs < 2 ^ 32" using ok(4) k by linarith
    have "unat k * bs < (12 + bs div 4) * bs" using k ok(3) by linarith
    then have lt: "unat k < 12 + bs div 4" by simp
    have bs32: "bs < 2 ^ 32" using unsigned_less[of "node_block_size nd", where 'a = nat] by (simp add: bs_def)
    have r: "unat (12 + node_block_size nd div 4) = 12 + bs div 4"
      using bs32 unat_add_no_wrap[of 12 "node_block_size nd div 4"] by (simp add: unat_div bs_def)
    have k': "unat ((k - 12) * 4) = (unat k - 12) * 4"
      using k12 lt bs32 unat_sub[of 12 k] by (subst unat_mult_no_wrap) (auto simp: word_le_nat_alt)
    have off: "(unat k - 12) * 4 + 4 \<le> bs" using lt k12 ok(2) by linarith
    have i: "unat (indirect_1 d * node_block_size nd) = unat (indirect_1 d) * bs"
      using ind by (subst unat_mult_no_wrap) (auto simp: bs_def)
    have a: "unat (indirect_1 d * node_block_size nd + (k - 12) * 4) = unat (indirect_1 d) * bs + (unat k - 12) * 4"
      using ind off i k' by (subst unat_add_no_wrap) auto
    have fits: "unat (indirect_1 d * node_block_size nd + (k - 12) * 4) + unat (4 :: u32) < 2 ^ 32"
      using ind off unfolding a by simp
    have "ide_read (node_disk nd) (indirect_1 d * node_block_size nd + (k - 12) * 4) 4
      = Some (map (\<lambda>i. disk_byte (node_disk nd) (unat (indirect_1 d) * bs + (unat k - 12) * 4 + i)) [0..<4])"
      using ide_read_bytes[OF ok(1) fits] unfolding a by simp
    then show ?thesis
      using False k12 lt r unfolding Node_block_index_def file_block_def Let_def disk_word_def
      by (simp add: word_less_nat_alt d_def[symmetric] bs_def[symmetric])
  qed
qed

interpretation node_file: block_device node_ok node_block_size Node_size_in_bytes Node_read_block file_bytes
proof
  fix nd :: Node and k :: u32
  assume ok: "node_ok nd"
  define bs where "bs = unat (node_block_size nd)"
  define d where "d = node_data nd"
  note n = ok[unfolded node_ok_def Let_def, folded bs_def d_def]
  show "0 < unat (node_block_size nd)" using n by (simp add: bs_def)
  assume "unat k * unat (node_block_size nd) < unat (Node_size_in_bytes nd)"
  note idx = Node_block_index_file[OF ok this]
  then have k: "unat k * bs < unat (size_low d)"
    using \<open>unat k * unat (node_block_size nd) < _\<close> by (simp add: Node_size_in_bytes_def bs_def d_def)
  let ?b = "file_block nd (unat k)"
  have b: "(unat ?b + 1) * bs < 2 ^ 32" using n k by blast
  have "unat k * bs < (unat (n_sectors d) div (bs div 512)) * bs" using n k by linarith
  then have "unat k < unat (n_sectors d) div (bs div 512)" by simp
  then have lt: "k < n_sectors d div (node_block_size nd div 512)"
    by (simp add: word_less_nat_alt unat_div bs_def)
  have nz: "node_block_size nd div 512 \<noteq> 0"
  proof
    assume "node_block_size nd div 512 = 0"
    then have "unat (node_block_size nd div 512) = 0" by simp
    then have "bs div 512 = 0" unfolding bs_def by (simp add: unat_div)
    moreover have "512 \<le> bs" using n by blast
    ultimately show False using div_le_mono[of 512 bs 512] by simp
  qed
  show "\<exists>block. Node_read_block nd k = Some block \<and> length block = unat (node_block_size nd) \<and>
    take (unat (Node_size_in_bytes nd) - unat k * unat (node_block_size nd)) block
      = take (unat (node_block_size nd)) (drop (unat k * unat (node_block_size nd)) (file_bytes nd))"
  proof -
    have base: "unat (?b * node_block_size nd) = unat ?b * bs"
      using b by (subst unat_mult_no_wrap) (auto simp: bs_def)
    then have "unat (?b * node_block_size nd) + unat (node_block_size nd) < 2 ^ 32" using b by (simp add: bs_def)
    from ide_read_all_bytes[OF _ this] n have rd: "ide_read_all (node_disk nd) (?b * node_block_size nd) (node_block_size nd)
      = Some (ucast (node_block_size nd), map (\<lambda>i. disk_byte (node_disk nd) (unat ?b * bs + i)) [0..<bs])"
      unfolding base by (simp add: bs_def)
    let ?block = "map (\<lambda>i. disk_byte (node_disk nd) (unat ?b * bs + i)) [0..<bs]"
    have "Node_read_block nd k = Some ?block"
      using nz lt idx rd unfolding Node_read_block_def Let_def d_def by simp
    moreover have "take (unat (size_low d) - unat k * bs) ?block = take bs (drop (unat k * bs) (file_bytes nd))"
      unfolding file_bytes_def take_drop_map_upt Node_size_in_bytes_def d_def[symmetric]
    proof (rule nth_equalityI)
      fix i assume "i < length (take (unat (size_low d) - unat k * bs) ?block)"
      then have i: "i < bs" "i < unat (size_low d) - unat k * bs" by auto
      have "(unat k * bs + i) div bs = unat k" "(unat k * bs + i) mod bs = i" using i(1) by simp_all
      then show "take (unat (size_low d) - unat k * bs) ?block ! i
        = map (\<lambda>i. file_byte nd (unat k * bs + i)) [0..<min bs (unat (size_low d) - unat k * bs)] ! i"
        using i by (simp add: file_byte_def bs_def[symmetric])
    qed auto
    ultimately show ?thesis by (intro exI[of _ ?block]) (simp add: bs_def[symmetric] Node_size_in_bytes_def d_def[symmetric])
  qed
qed (simp add: file_bytes_def)

lemma Node_read_all_file:
  assumes "node_ok nd" "unat off \<le> unat (Node_size_in_bytes nd)"
  shows "Node_read_all nd off n = Some (of_nat (min (unat n) (unat (Node_size_in_bytes nd) - unat off)),
    take (unat n) (drop (unat off) (file_bytes nd)))"
  unfolding Node_read_all_def by (rule node_file.read_all[OF assms])

lemma Node_read_thing_file:
  assumes "node_ok nd" "unat off + unat n \<le> unat (Node_size_in_bytes nd)"
  shows "Node_read_thing nd off n = Some (take (unat n) (drop (unat off) (file_bytes nd)))"
  unfolding Node_read_thing_def by (rule node_file.read_thing[OF assms])

subsection \<open>Directories\<close>

text \<open>A directory entry and its bytes.\<close>

record dirent =
  d_inode :: u32
  d_name :: string
  d_type :: u8
  d_padding :: "u8 list"

definition dirent_size :: "dirent \<Rightarrow> nat" where
  "dirent_size e = 8 + length (d_name e) + length (d_padding e)"

definition dirent_bytes :: "dirent \<Rightarrow> u8 list" where
  "dirent_bytes e = enc32 (d_inode e) @ enc16 (of_nat (dirent_size e)) @ [of_nat (length (d_name e)), d_type e]
     @ map (\<lambda>c. of_nat (of_char c)) (d_name e) @ d_padding e"

definition dirent_ok :: "dirent \<Rightarrow> bool" where
  "dirent_ok e \<longleftrightarrow> length (d_name e) < 256 \<and> dirent_size e < 65536 \<and> CHR 0x00 \<notin> set (d_name e)"

lemma length_dirent_bytes [simp]: "length (dirent_bytes e) = dirent_size e"
  by (simp add: dirent_bytes_def dirent_size_def enc32_def enc16_def)

lemma byte_char_of_char: "byte_char (of_nat (of_char c)) = c"
proof -
  have "unat (of_nat (of_char c) :: u8) = of_char c"
    using of_char_mod_256[of c, where 'a = nat] by (simp add: unsigned_of_nat take_bit_eq_mod)
  then show ?thesis by (simp add: byte_char_def)
qed

lemma drop_in: "drop (length pre + k) (pre @ xs @ post) = drop k (xs @ post)"
  by simp

lemma dir_entry_at:
  assumes "node_ok nd" "file_bytes nd = pre @ dirent_bytes e @ post" "dirent_ok e"
  shows "dir_entry nd (of_nat (length pre)) = Some (d_inode e, d_name e, of_nat (length pre + dirent_size e))"
proof -
  define off :: u32 where "off = of_nat (length pre)"
  let ?sz = "unat (Node_size_in_bytes nd)"
  have len: "length (file_bytes nd) = ?sz" by (simp add: file_bytes_def)
  have sz: "?sz = length pre + dirent_size e + length post" using len assms(2) by simp
  have lt: "?sz < 2 ^ 32" using unsigned_less[of "Node_size_in_bytes nd", where 'a = nat] by simp
  have ds: "8 + length (d_name e) \<le> dirent_size e" by (simp add: dirent_size_def)
  have o': "unat (off + of_nat k) = length pre + k" if "k \<le> 8" for k
    using that sz lt ds unfolding off_def
    by (simp add: unsigned_of_nat take_bit_nat_eq_self flip: of_nat_add)
  note o0 = o'[of 0] and o4 = o'[of 4] and o6 = o'[of 6] and o8 = o'[of 8]
  have b: "drop (length pre + k) (file_bytes nd) = drop k (dirent_bytes e @ post)" for k
    unfolding assms(2) by simp
  have r0: "Node_read_thing nd off 4 = Some (enc32 (d_inode e))"
    using Node_read_thing_file[OF assms(1), of off 4] sz ds o0 b[of 0] by (simp add: dirent_bytes_def enc32_def)
  have r1: "Node_read_thing nd (off + 4) 2 = Some (enc16 (of_nat (dirent_size e)))"
    using Node_read_thing_file[OF assms(1), of "off + 4" 2] sz ds o4 b[of 4]
    by (simp add: dirent_bytes_def enc32_def enc16_def)
  have r2: "Node_read_thing nd (off + 6) 1 = Some [of_nat (length (d_name e))]"
    using Node_read_thing_file[OF assms(1), of "off + 6" 1] sz ds o6 b[of 6]
    by (simp add: dirent_bytes_def enc32_def enc16_def)
  define l :: u8 where "l = of_nat (length (d_name e))"
  have l: "unat (ucast l :: u32) = length (d_name e)"
    using assms(3) by (simp add: l_def dirent_ok_def unsigned_ucast_eq unsigned_of_nat take_bit_nat_eq_self)
  have "unat (off + 8) \<le> ?sz" using sz ds o8 by simp
  from Node_read_all_file[OF assms(1) this, of "ucast l"]
  moreover have "min (unat (ucast l :: u32)) (?sz - unat (off + 8)) = length (d_name e)"
    unfolding l using sz ds o8 by simp
  moreover have "take (unat (ucast l :: u32)) (drop (unat (off + 8)) (file_bytes nd)) = map (\<lambda>c. of_nat (of_char c)) (d_name e)"
    unfolding l using o8 b[of 8] by (simp add: dirent_bytes_def enc32_def enc16_def)
  moreover have "(of_nat (length (d_name e)) :: i64) = ucast l"
    using assms(3) by (simp add: l_def dirent_ok_def unsigned_of_nat take_bit_nat_eq_self)
  ultimately have r3: "Node_read_all nd (off + 8) (ucast l) = Some (ucast l, map (\<lambda>c. of_nat (of_char c)) (d_name e))"
    by simp
  have t: "ucast (of_nat (dirent_size e) :: u16) = (of_nat (dirent_size e) :: u32)"
    using assms(3) by (simp add: dirent_ok_def unsigned_of_nat take_bit_nat_eq_self)
  have nm: "map byte_char (map (\<lambda>c. of_nat (of_char c)) (d_name e)) = d_name e"
    by (simp add: byte_char_of_char comp_def)
  have next_off: "off + of_nat (dirent_size e) = of_nat (length pre + dirent_size e)" by (simp add: off_def)
  show ?thesis
    unfolding dir_entry_def off_def[symmetric] r0 r1 r2 option.case Let_def nth_Cons_0 l_def[symmetric] r3 prod.case
      le32_enc32 le16_enc16 nm t next_off by simp
qed

text \<open>Enumerating a directory applies the work to each entry in order.\<close>

fun fold_entries :: "(u32 \<Rightarrow> string \<Rightarrow> 'a \<Rightarrow> 'a option) \<Rightarrow> dirent list \<Rightarrow> 'a \<Rightarrow> 'a option" where
  "fold_entries work [] a = Some a"
| "fold_entries work (e # es) a =
     (case work (d_inode e) (c_string (d_name e)) a of None \<Rightarrow> None | Some a \<Rightarrow> fold_entries work es a)"

lemma entries_loop_fold:
  assumes "node_ok nd" "\<forall>e \<in> set es. dirent_ok e" "file_bytes nd = pre @ concat (map dirent_bytes es)"
  shows "entries_loop nd work (of_nat (length pre)) a = fold_entries work es a"
  using assms(2,3)
proof (induction es arbitrary: pre a)
  case Nil
  then have "length pre = unat (size_low (node_data nd))"
    by (metis append_Nil2 concat.simps(1) diff_zero file_bytes_def length_map length_upt list.map(1) Node_size_in_bytes_def)
  then have "\<not> (of_nat (length pre) :: u32) < size_low (node_data nd)" by simp
  then show ?case by (simp add: entries_loop.simps)
next
  case (Cons e es)
  have fb: "file_bytes nd = pre @ dirent_bytes e @ concat (map dirent_bytes es)" using Cons.prems(2) by simp
  have "length (file_bytes nd) = unat (size_low (node_data nd))"
    by (simp add: file_bytes_def Node_size_in_bytes_def)
  then have lt: "length pre < unat (size_low (node_data nd))" unfolding fb by (simp add: dirent_size_def)
  then have "unat (of_nat (length pre) :: u32) = length pre"
    using unsigned_less[of "size_low (node_data nd)", where 'a = nat] by (simp add: unsigned_of_nat take_bit_nat_eq_self)
  then have "(of_nat (length pre) :: u32) < size_low (node_data nd)" using lt by (simp add: word_less_nat_alt)
  moreover note dir_entry_at[OF assms(1) fb]
  moreover have "entries_loop nd work (of_nat (length pre + dirent_size e)) b = fold_entries work es b" for b
    using Cons.IH[of "pre @ dirent_bytes e"] Cons.prems fb by simp
  ultimately show ?case using Cons.prems(1) by (simp add: entries_loop.simps split: option.splits)
qed

lemma find_fold:
  assumes "\<forall>e \<in> set es. dirent_ok e" "CHR 0x00 \<notin> set name"
  shows "fold_entries (\<lambda>number nm out. map_option (\<lambda>eq. if eq then number else out) (kernel_streq (c_string name) nm)) es a
    = Some (last (a # map d_inode (filter (\<lambda>e. d_name e = name) es)))"
  using assms(1) by (induction es arbitrary: a) (auto simp: kernel_streq_eq[OF assms(2)] dirent_ok_def)

lemma Node_find_last:
  assumes "node_ok nd" "is_dir (node_data nd)" "file_bytes nd = concat (map dirent_bytes es)" "\<forall>e \<in> set es. dirent_ok e"
    "CHR 0x00 \<notin> set name"
  shows "Node_find nd (c_string name) = Some (last (0 # map d_inode (filter (\<lambda>e. d_name e = name) es)))"
proof -
  let ?work = "\<lambda>number nm out. map_option (\<lambda>eq. if eq then number else out) (kernel_streq (c_string name) nm)"
  have "entries_loop nd ?work 0 0 = fold_entries ?work es 0"
    using entries_loop_fold[of nd es "[]" ?work 0] assms(1,3,4) by simp
  with assms(2) show ?thesis unfolding Node_find_def entries_def by (simp only: find_fold[OF assms(4,5)] not_True_eq_False if_False)
qed

subsection \<open>Properties\<close>

text \<open>C15. Reading a file returns its bytes. For a file whose blocks lie on the disk, directly referenced or through
  the indirect block, \<open>read_all\<close> at any offset up to the size returns the bytes from there on, as many as asked for
  or as there are, and their number, however the range falls on the file's blocks and the disk's sectors.\<close>

theorem file_read_all:
  assumes "node_ok nd" "unat off \<le> unat (Node_size_in_bytes nd)"
  shows "Node_read_all nd off n = Some (of_nat (min (unat n) (unat (Node_size_in_bytes nd) - unat off)),
    take (unat n) (drop (unat off) (file_bytes nd)))"
  by (rule Node_read_all_file[OF assms])

text \<open>A file of 1500 bytes in the blocks 3 and 7 of a disk whose sectors hold their own number.\<close>

definition demo_disk :: sectors where
  "demo_disk k = Some (replicate 512 (ucast k))"

definition demo_data :: NodeData where
  "demo_data = (NodeData_of (replicate 128 0))\<lparr>size_low := 1500, n_sectors := 4, direct := [3, 7, 0, 0, 0, 0, 0, 0, 0, 0, 0, 0]\<rparr>"

definition demo_node :: Node where
  "demo_node = \<lparr>node_disk = demo_disk, node_number = 12, node_block_size = 1024, node_data = demo_data\<rparr>"

lemma demo_node_ok: "node_ok demo_node"
proof -
  have "unat (file_block demo_node k) \<le> 7" if "k * 1024 < 1500" for k
  proof -
    have "k = 0 \<or> k = 1" using that by arith
    then show ?thesis by (auto simp: file_block_def demo_node_def demo_data_def)
  qed
  then have "(unat (file_block demo_node k) + 1) * 1024 < 2 ^ 32" if "k * 1024 < 1500" for k
    using that by (fastforce dest: le_imp_less_Suc)
  then show ?thesis by (auto simp: node_ok_def disk_ok_def demo_node_def demo_data_def demo_disk_def)
qed

lemma demo_bytes: "take 8 (drop 1020 (file_bytes demo_node)) = [7, 7, 7, 7, 14, 14, 14, 14]"
proof -
  have "take 8 (drop 1020 (file_bytes demo_node)) = map (file_byte demo_node) [1020, 1021, 1022, 1023, 1024, 1025, 1026, 1027]"
    unfolding file_bytes_def take_drop_map_upt
    by (simp add: Node_size_in_bytes_def demo_node_def demo_data_def upt_rec)
  also have "\<dots> = [7, 7, 7, 7, 14, 14, 14, 14]"
    by (simp add: file_byte_def file_block_def demo_node_def demo_data_def disk_byte_def demo_disk_def)
  finally show ?thesis .
qed

theorem file_read_all_witness:
  "Node_read_all demo_node 1020 8 = Some (8, [7, 7, 7, 7, 14, 14, 14, 14])"
proof -
  have sz: "Node_size_in_bytes demo_node = 1500" by (simp add: Node_size_in_bytes_def demo_node_def demo_data_def)
  then have "unat (1020 :: u32) \<le> unat (Node_size_in_bytes demo_node)" by simp
  from file_read_all[OF demo_node_ok this, of 8] show ?thesis by (simp add: demo_bytes sz)
qed

lemma entry_count_fold: "fold_entries (\<lambda>_ _ count. Some (count + 1)) es a = Some (a + of_nat (length es) :: u32)"
  by (induction es arbitrary: a) (simp_all add: add.assoc)

text \<open>C32. A directory reads back. If a directory's bytes are the encodings of a list of entries, whatever padding they
  carry, \<open>find\<close> returns the inode number of the last entry with the name and 0 if there is none; no entry is
  skipped and the enumeration ends.\<close>

theorem directory_find:
  assumes "node_ok nd" "is_dir (node_data nd)" "file_bytes nd = concat (map dirent_bytes es)" "\<forall>e \<in> set es. dirent_ok e"
    "CHR 0x00 \<notin> set name"
  shows "Node_find nd (c_string name) = Some (last (0 # map d_inode (filter (\<lambda>e. d_name e = name) es)))"
  by (rule Node_find_last[OF assms])

text \<open>A directory with the entries \<open>.\<close>, inode 2, and \<open>ab\<close>, inode 11.\<close>

definition demo_entries :: "dirent list" where
  "demo_entries = [\<lparr>d_inode = 2, d_name = ''.'', d_type = 2, d_padding = [0, 0, 0]\<rparr>, \<lparr>d_inode = 11, d_name = ''ab'', d_type = 1, d_padding = [0, 0]\<rparr>]"

definition demo_sector :: "u8 list" where
  "demo_sector = concat (map dirent_bytes demo_entries) @ replicate 488 0"

text \<open>A node of \<open>n\<close> bytes on a disk whose sectors all hold the same bytes.\<close>

definition small_node :: "u8 list \<Rightarrow> u32 \<Rightarrow> u16 \<Rightarrow> Node" where
  "small_node sector n md = \<lparr>node_disk = (\<lambda>_. Some sector), node_number = 2, node_block_size = 1024,
     node_data = demo_data\<lparr>mode := md, size_low := n\<rparr>\<rparr>"

lemma small_node_size [simp]: "Node_size_in_bytes (small_node sector n md) = n"
  by (simp add: small_node_def Node_size_in_bytes_def)

lemma small_node_bytes:
  assumes "length sector = 512" "unat n \<le> 512"
  shows "file_bytes (small_node sector n md) = take (unat n) sector"
proof -
  have "file_byte (small_node sector n md) i = sector ! i" if "i < unat n" for i
  proof -
    have "i < 512" using that assms(2) by simp
    then have "(i + 512 * 6) mod 512 = i" "i div 1024 = 0" "i mod 1024 = i" by (simp_all only: mod_mult_self2) simp_all
    moreover from this have "(3072 + i) mod 512 = i" by (simp add: add.commute)
    ultimately show ?thesis by (simp add: small_node_def file_byte_def file_block_def demo_data_def disk_byte_def)
  qed
  then have "file_bytes (small_node sector n md) = map ((!) sector) [0..<unat n]"
    unfolding file_bytes_def small_node_size by (intro map_cong) simp_all
  also have "\<dots> = take (unat n) sector" using assms by (intro nth_equalityI) simp_all
  finally show ?thesis .
qed

lemma small_node_ok:
  assumes "length sector = 512" "unat n \<le> 512"
  shows "node_ok (small_node sector n md)"
proof -
  have "(unat (file_block (small_node sector n md) k) + 1) * 1024 < 2 ^ 32" if "k * 1024 < unat n" for k
  proof -
    have "k = 0" using that assms(2) by simp
    then show ?thesis by (simp add: file_block_def small_node_def demo_data_def)
  qed
  then show ?thesis using assms unfolding node_ok_def by (simp add: disk_ok_def small_node_def demo_data_def)
qed

lemma demo_dir_ok:
  "length (concat (map dirent_bytes demo_entries)) = 24" "length demo_sector = 512" "take 24 demo_sector = concat (map dirent_bytes demo_entries)"
proof -
  show l: "length (concat (map dirent_bytes demo_entries)) = 24" by (simp add: demo_entries_def dirent_size_def)
  show "length demo_sector = 512" "take 24 demo_sector = concat (map dirent_bytes demo_entries)"
    unfolding demo_sector_def using l by (simp_all del: length_concat)
qed

theorem directory_find_witness:
  "Node_find (small_node demo_sector 24 0x41ED) (c_string ''ab'') = Some 11"
proof -
  let ?nd = "small_node demo_sector 24 0x41ED"
  have "node_ok ?nd" by (rule small_node_ok) (simp_all add: demo_dir_ok(2))
  moreover have "is_dir (node_data ?nd)" by (simp add: is_dir_def get_type_def small_node_def)
  moreover have "file_bytes ?nd = concat (map dirent_bytes demo_entries)"
    using small_node_bytes[OF demo_dir_ok(2), of 24] by (simp add: demo_dir_ok(3))
  moreover have "\<forall>e \<in> set demo_entries. dirent_ok e" by (simp add: demo_entries_def dirent_ok_def dirent_size_def)
  ultimately show ?thesis using directory_find[of ?nd demo_entries "''ab''"] by (simp add: demo_entries_def)
qed

subsection \<open>Paths\<close>

text \<open>The parts of a path, and the walk along them.\<close>

fun split_path :: "string \<Rightarrow> string \<times> string list" where
  "split_path [] = ([], [])"
| "split_path (c # cs) =
     (let (part, parts) = split_path cs
      in if c = CHR ''/'' then ([], if part = [] then parts else part # parts) else (c # part, parts))"

definition components :: "string \<Rightarrow> string list" where
  "components path = (let (part, parts) = split_path path in if part = [] then parts else part # parts)"

fun walk :: "Ext2 \<Rightarrow> Node \<Rightarrow> string list \<Rightarrow> Node option option" where
  "walk fs nd [] = Some (Some nd)"
| "walk fs nd (part # parts) =
     (if 256 < length part then None
      else (case Node_find nd (c_string part) of
              None \<Rightarrow> None
            | Some number \<Rightarrow>
                if number = 0 then Some None
                else (case get_node fs number of None \<Rightarrow> None | Some nd' \<Rightarrow> walk fs nd' parts)))"

lemma split_path_part:
  "split_path cs = (takeWhile (\<lambda>c. c \<noteq> CHR ''/'') cs, components (dropWhile (\<lambda>c. c \<noteq> CHR ''/'') cs))"
proof (induction cs)
  case (Cons c cs)
  show ?case
  proof (cases "c = CHR ''/''")
    case True
    then show ?thesis unfolding components_def by (simp only: takeWhile.simps dropWhile.simps) (simp split: prod.split)
  next
    case False
    then show ?thesis by (simp only: split_path.simps Cons Let_def prod.case if_False takeWhile.simps dropWhile.simps simp_thms if_True)
  qed
qed (simp add: components_def)

lemma components_slash: "components (CHR ''/'' # cs) = components cs"
  unfolding components_def split_path.simps by (simp split: prod.split)

lemma components_skip: "components (dropWhile (\<lambda>c. c = CHR ''/'') cs) = components cs"
proof (induction cs)
  case (Cons c cs)
  then show ?case by (cases "c = CHR ''/''") (simp_all only: dropWhile.simps if_True if_False components_slash simp_thms)
qed simp

lemma components_part:
  assumes "dropWhile (\<lambda>c. c = CHR ''/'') path = x # xs"
  shows "components path = takeWhile (\<lambda>c. c \<noteq> CHR ''/'') (x # xs) # components (dropWhile (\<lambda>c. c \<noteq> CHR ''/'') (x # xs))"
proof -
  have x: "x \<noteq> CHR ''/''" using hd_dropWhile[of "\<lambda>c. c = CHR ''/''" path] assms by simp
  have "components path = components (x # xs)" unfolding components_skip[of path, symmetric] assms ..
  also have "\<dots> = (x # takeWhile (\<lambda>c. c \<noteq> CHR ''/'') xs) # components (dropWhile (\<lambda>c. c \<noteq> CHR ''/'') xs)"
    unfolding components_def[of "x # xs"] split_path.simps split_path_part[of xs] using x by simp
  finally show ?thesis using x by simp
qed

text \<open>A path leads where its parts lead. \<open>find\<close> starts at the given node and looks up the non-empty parts of the
  path in turn, whatever slashes lead, end or repeat in it; it stops with the null reference at the first part that is
  missing, and a part longer than 256 characters stops the kernel.\<close>

theorem find_walks_path: "fs_find fs nd path = walk fs nd (components path)"
proof (induction fs nd path rule: fs_find.induct)
  case (1 fs nd path)
  let ?p = "dropWhile (\<lambda>c. c = CHR ''/'') path"
  let ?part = "takeWhile (\<lambda>c. c \<noteq> CHR ''/'') ?p" and ?rest = "dropWhile (\<lambda>c. c \<noteq> CHR ''/'') ?p"
  note unfold = fs_find.simps[of fs nd path, unfolded Let_def]
  show ?case
  proof (cases "?p = []")
    case True
    have "components path = components []" unfolding components_skip[of path, symmetric] True ..
    then have "components path = []" by (simp add: components_def)
    then show ?thesis unfolding unfold by (simp only: True if_True walk.simps simp_thms)
  next
    case False
    then obtain x xs where p: "?p = x # xs" by (cases ?p) auto
    have c: "components path = ?part # components ?rest" unfolding p by (rule components_part[OF p])
    show ?thesis
    proof (cases "256 < length ?part")
      case True
      then show ?thesis unfolding unfold c walk.simps by (simp only: False not_le if_True if_False)
    next
      case short: False
      have "fs_find fs nd' ?rest = walk fs nd' (components ?rest)"
        if "Node_find nd (c_string ?part) = Some number" "number \<noteq> 0" "get_node fs number = Some nd'" for number nd'
        using 1[OF refl False refl refl] short that by simp
      then show ?thesis
        unfolding unfold c walk.simps using short False by (simp only: not_le if_False not_False_eq_True) (simp split: option.split)
    qed
  qed
qed

end
