(* ===== verification/Elf.thy ===== *)
theory Elf
  imports Ext2Props
begin

text \<open>
  \<open>kernel/elf.h\<close> and \<open>kernel/elf.cc\<close>: loading a program. The memory is the byte at every virtual address; a page
  that is not there yet is mapped by the page fault handler. \<open>None\<close> is a failed assertion (a header that ends
  behind the file) or a panic of the file system.
\<close>

type_synonym memory = "u32 \<Rightarrow> u8"

text \<open>\<open>memcpy\<close> of a list of bytes, and \<open>bzero\<close>, whose counter is signed (\<open>machine.S\<close>); addresses wrap.\<close>

definition write_mem :: "u32 \<Rightarrow> u8 list \<Rightarrow> memory \<Rightarrow> memory" where
  "write_mem p bytes m = (\<lambda>a. if unat (a - p) < length bytes then bytes ! unat (a - p) else m a)"

definition bzero_mem :: "u32 \<Rightarrow> u32 \<Rightarrow> memory \<Rightarrow> memory" where
  "bzero_mem p n m = (\<lambda>a. if 0 < sint n \<and> a - p < n then 0 else m a)"

record ElfHeader =
  e_magic :: "u8 list"
  e_class :: u8
  e_encoding :: u8
  e_header_version :: u8
  e_abi :: u8
  e_abi_version :: u8
  e_type :: u16
  e_machine :: u16
  e_version :: u32
  e_entry :: u32
  e_phoff :: u32
  e_shoff :: u32
  e_flags :: u32
  e_ehsize :: u16
  e_phentsize :: u16
  e_phnum :: u16
  e_shentsize :: u16
  e_shnum :: u16
  e_shstrndx :: u16

definition ElfHeader_of :: "u8 list \<Rightarrow> ElfHeader" where
  "ElfHeader_of b = \<lparr>e_magic = take 4 b, e_class = b ! 4, e_encoding = b ! 5, e_header_version = b ! 6, e_abi = b ! 7,
     e_abi_version = b ! 8, e_type = le16 b 16, e_machine = le16 b 18, e_version = le32 b 20, e_entry = le32 b 24,
     e_phoff = le32 b 28, e_shoff = le32 b 32, e_flags = le32 b 36, e_ehsize = le16 b 40, e_phentsize = le16 b 42,
     e_phnum = le16 b 44, e_shentsize = le16 b 46, e_shnum = le16 b 48, e_shstrndx = le16 b 50\<rparr>"

definition sizeof_ElfHeader :: u32 where "sizeof_ElfHeader = 52"

record ProgramHeader =
  p_type :: u32
  p_offset :: u32
  p_vaddr :: u32
  p_paddr :: u32
  p_filesz :: u32
  p_memsz :: u32
  p_flags :: u32
  p_align :: u32

definition ProgramHeader_of :: "u8 list \<Rightarrow> ProgramHeader" where
  "ProgramHeader_of b = \<lparr>p_type = le32 b 0, p_offset = le32 b 4, p_vaddr = le32 b 8, p_paddr = le32 b 12, p_filesz = le32 b 16,
     p_memsz = le32 b 20, p_flags = le32 b 24, p_align = le32 b 28\<rparr>"

definition sizeof_ProgramHeader :: u32 where "sizeof_ProgramHeader = 32"

definition load_segment :: "Node \<Rightarrow> ProgramHeader \<Rightarrow> memory \<Rightarrow> memory option" where
  "load_segment file ph m =
     (if p_type ph = 1 then
        (case Node_read_all file (p_offset ph) (p_filesz ph) of
           None \<Rightarrow> None
         | Some (cnt, bytes) \<Rightarrow>
             let m = write_mem (p_vaddr ph) bytes m
             in Some (bzero_mem (p_vaddr ph + p_filesz ph) (p_memsz ph - p_filesz ph) m))
      else Some m)"

fun load_loop :: "Node \<Rightarrow> u16 \<Rightarrow> nat \<Rightarrow> u32 \<Rightarrow> memory \<Rightarrow> memory option" where
  "load_loop file phentsize 0 hoff m = Some m"
| "load_loop file phentsize (Suc k) hoff m =
     (case Node_read_thing file hoff sizeof_ProgramHeader of
        None \<Rightarrow> None
      | Some b \<Rightarrow>
          (case load_segment file (ProgramHeader_of b) m of
             None \<Rightarrow> None
           | Some m \<Rightarrow> load_loop file phentsize k (hoff + ucast phentsize) m))"

definition elf_magic :: "u8 list" where "elf_magic = [0x7f, 0x45, 0x4c, 0x46]"

text \<open>The entry point, 0 for no file and for a file that is not an ELF.\<close>

definition ELF_load :: "Node option \<Rightarrow> memory \<Rightarrow> (u32 \<times> memory) option" where
  "ELF_load file m =
     (case file of
        None \<Rightarrow> Some (0, m)
      | Some file \<Rightarrow>
          (case Node_read_thing file 0 sizeof_ElfHeader of
             None \<Rightarrow> None
           | Some b \<Rightarrow>
               let hdr = ElfHeader_of b
               in if e_magic hdr \<noteq> elf_magic then Some (0, m)
                  else map_option (\<lambda>m. (e_entry hdr, m)) (load_loop file (e_phentsize hdr) (unat (e_phnum hdr)) (e_phoff hdr) m)))"

subsection \<open>Properties\<close>

text \<open>The bytes of a file at an offset, and its program headers.\<close>

definition file_slice :: "Node \<Rightarrow> nat \<Rightarrow> nat \<Rightarrow> u8 list" where
  "file_slice file a n = take n (drop a (file_bytes file))"

definition elf_header :: "Node \<Rightarrow> ElfHeader" where
  "elf_header file = ElfHeader_of (file_slice file 0 52)"

definition program_header :: "Node \<Rightarrow> nat \<Rightarrow> ProgramHeader" where
  "program_header file i = ProgramHeader_of (file_slice file (unat (e_phoff (elf_header file)) + i * unat (e_phentsize (elf_header file))) 32)"

text \<open>What a segment puts into memory: its bytes of the file, then zeros up to its size in memory.\<close>

definition segment_image :: "Node \<Rightarrow> ProgramHeader \<Rightarrow> u8 list" where
  "segment_image file ph = file_slice file (unat (p_offset ph)) (unat (p_filesz ph)) @ replicate (unat (p_memsz ph) - unat (p_filesz ph)) 0"

definition place :: "Node \<Rightarrow> ProgramHeader \<Rightarrow> memory \<Rightarrow> memory" where
  "place file ph m = (if p_type ph = 1 then write_mem (p_vaddr ph) (segment_image file ph) m else m)"

text \<open>A segment whose bytes are in the file and whose size in memory is not smaller, nor larger by 2 GB.\<close>

definition segment_ok :: "Node \<Rightarrow> ProgramHeader \<Rightarrow> bool" where
  "segment_ok file ph \<longleftrightarrow> (p_type ph = 1 \<longrightarrow> unat (p_offset ph) + unat (p_filesz ph) \<le> unat (Node_size_in_bytes file)
     \<and> p_filesz ph \<le> p_memsz ph \<and> unat (p_memsz ph) - unat (p_filesz ph) < 2 ^ 31)"

definition elf_ok :: "Node \<Rightarrow> bool" where
  "elf_ok file \<longleftrightarrow> (let h = elf_header file in node_ok file \<and> 52 \<le> unat (Node_size_in_bytes file) \<and> e_magic h = elf_magic
     \<and> (\<forall>i < unat (e_phnum h). unat (e_phoff h) + i * unat (e_phentsize h) + 32 \<le> unat (Node_size_in_bytes file)
          \<and> segment_ok file (program_header file i)))"

lemma sint_below: "unat (w :: u32) < 2 ^ 31 \<Longrightarrow> sint w = int (unat w)"
proof -
  assume "unat w < 2 ^ 31"
  then have "int (unat w) < int (2 ^ 31)" by (simp only: of_nat_less_iff)
  then have "uint w < 2 ^ 31" by simp
  moreover have "- (2 ^ 31) \<le> (0 :: int)" by simp
  then have "- (2 ^ 31) \<le> uint w" using uint_nonnegative[of w] by (rule order_trans)
  ultimately show ?thesis using signed_take_bit_int_eq_self[of 31 "uint w"] by (simp add: sint_uint)
qed

lemma write_bzero:
  assumes "length xs = unat n" "n \<le> k" "unat k - unat n < 2 ^ 31"
  shows "bzero_mem (p + n) (k - n) (write_mem p xs m) = write_mem p (xs @ replicate (unat k - unat n) 0) m"
proof
  fix a :: u32
  have k: "unat (k - n) = unat k - unat n" using assms(2) by (simp add: unat_sub)
  have le: "unat n \<le> unat k" using assms(2) by (simp add: word_le_nat_alt)
  have d: "a - (p + n) = (a - p) - n" by simp
  have pos: "0 < sint (k - n) \<and> x < k - n \<longleftrightarrow> x < k - n" for x
  proof
    assume "x < k - n"
    then have "0 < unat (k - n)" by (simp add: word_less_nat_alt)
    moreover have "sint (k - n) = int (unat (k - n))"
      using assms(3) k by (intro sint_below) simp
    ultimately have "0 < sint (k - n)" by (simp only: of_nat_0_less_iff)
    then show "0 < sint (k - n) \<and> x < k - n" using \<open>x < k - n\<close> by blast
  qed simp
  show "bzero_mem (p + n) (k - n) (write_mem p xs m) a = write_mem p (xs @ replicate (unat k - unat n) 0) m a"
  proof (cases "unat (a - p) < unat n")
    case True
    define c where "c = a - p"
    have "unat (c - n) = unat c + 2 ^ 32 - unat n" using True unat_sub_if' unfolding c_def[symmetric] by (simp add: unat_sub_if_size word_size word_le_nat_alt)
    then have "\<not> c - n < k - n"
      using k le True unsigned_less[of k, where 'a = nat] unfolding c_def[symmetric] word_less_nat_alt by simp
    with True assms(1) show ?thesis unfolding bzero_mem_def d pos c_def[symmetric] by (simp add: write_mem_def nth_append c_def)
  next
    case False
    then have "unat (a - p - n) = unat (a - p) - unat n" by (simp add: unat_sub word_le_nat_alt)
    then show ?thesis using False assms(1) le unfolding bzero_mem_def d pos write_mem_def
      by (auto simp: word_less_nat_alt k nth_append)
  qed
qed

lemma load_segment_place:
  assumes "node_ok file" "segment_ok file ph"
  shows "load_segment file ph m = Some (place file ph m)"
proof (cases "p_type ph = 1")
  case True
  then have s: "unat (p_offset ph) + unat (p_filesz ph) \<le> unat (Node_size_in_bytes file)" "p_filesz ph \<le> p_memsz ph"
      "unat (p_memsz ph) - unat (p_filesz ph) < 2 ^ 31"
    using assms(2) by (auto simp: segment_ok_def)
  have "unat (p_offset ph) \<le> unat (Node_size_in_bytes file)" using s(1) by simp
  note rd = Node_read_all_file[OF assms(1) this, of "p_filesz ph"]
  have len: "length (file_slice file (unat (p_offset ph)) (unat (p_filesz ph))) = unat (p_filesz ph)"
    using s(1) by (simp add: file_slice_def file_bytes_def)
  show ?thesis
    using True rd write_bzero[OF len s(2,3)] by (simp add: load_segment_def place_def segment_image_def file_slice_def)
qed (simp add: load_segment_def place_def)

lemma load_loop_places:
  assumes "node_ok file" "\<forall>i < k. unat hoff + i * unat ps + 32 \<le> unat (Node_size_in_bytes file)
      \<and> segment_ok file (ProgramHeader_of (file_slice file (unat hoff + i * unat ps) 32))"
  shows "load_loop file ps k hoff m
    = Some (fold (\<lambda>i. place file (ProgramHeader_of (file_slice file (unat hoff + i * unat ps) 32))) [0..<k] m)"
  using assms(2)
proof (induction k arbitrary: hoff m)
  case (Suc k)
  have "unat hoff + unat sizeof_ProgramHeader \<le> unat (Node_size_in_bytes file)"
    using Suc.prems[rule_format, of 0] by (simp add: sizeof_ProgramHeader_def)
  note rd = Node_read_thing_file[OF assms(1) this]
  have seg: "segment_ok file (ProgramHeader_of (file_slice file (unat hoff) 32))"
    using Suc.prems[rule_format, of 0] by simp
  have step: "load_loop file ps (Suc k) hoff m = load_loop file ps k (hoff + ucast ps) (place file (ProgramHeader_of (file_slice file (unat hoff) 32)) m)"
    using rd load_segment_place[OF assms(1) seg] by (simp add: file_slice_def sizeof_ProgramHeader_def)
  show ?case
  proof (cases "k = 0")
    case True
    then show ?thesis unfolding step by simp
  next
    case False
    then have "unat hoff + unat ps + 32 \<le> unat (Node_size_in_bytes file)"
      using Suc.prems[rule_format, of 1] by simp
    then have h: "unat (hoff + ucast ps) = unat hoff + unat ps"
      using unsigned_less[of "Node_size_in_bytes file", where 'a = nat] unsigned_less[of ps, where 'a = nat]
      by (subst unat_add_no_wrap) (simp_all add: unsigned_ucast_eq take_bit_nat_eq_self)
    have idx: "unat hoff + unat ps + i * unat ps = unat hoff + Suc i * unat ps" for i by simp
    have "load_loop file ps k (hoff + ucast ps) m' = Some (fold (\<lambda>i. place file (ProgramHeader_of (file_slice file (unat hoff + Suc i * unat ps) 32))) [0..<k] m')" for m'
      using Suc.IH[of "hoff + ucast ps" m'] Suc.prems unfolding h idx by (simp del: mult_Suc)
    then show ?thesis unfolding step upt_Suc_shift fold_simps fold_map comp_def by (simp del: mult_Suc)
  qed
qed simp

lemma ELF_load_image:
  assumes "elf_ok file"
  shows "ELF_load (Some file) m = Some (e_entry (elf_header file),
    fold (\<lambda>i. place file (program_header file i)) [0..<unat (e_phnum (elf_header file))] m)"
proof -
  note ok = assms[unfolded elf_ok_def Let_def program_header_def]
  have "unat (0 :: u32) + unat sizeof_ElfHeader \<le> unat (Node_size_in_bytes file)" using ok by (simp add: sizeof_ElfHeader_def)
  from Node_read_thing_file[OF _ this] ok have "Node_read_thing file 0 sizeof_ElfHeader = Some (file_slice file 0 52)"
    by (simp add: file_slice_def sizeof_ElfHeader_def)
  with ok load_loop_places[of "file"] show ?thesis
    by (simp add: ELF_load_def elf_header_def program_header_def Let_def)
qed


text \<open>A file with one segment of four bytes that takes eight bytes at \<open>0x80000000\<close>.\<close>

definition demo_elf :: "u8 list" where
  "demo_elf = elf_magic @ [1, 1, 1, 0] @ replicate 8 0 @ enc16 2 @ enc16 3 @ enc32 1 @ enc32 0x80000000 @ enc32 52 @ enc32 0 @ enc32 0
     @ enc16 52 @ enc16 32 @ enc16 1 @ enc16 0 @ enc16 0 @ enc16 0
     @ enc32 1 @ enc32 84 @ enc32 0x80000000 @ enc32 0 @ enc32 4 @ enc32 8 @ enc32 5 @ enc32 0 @ [0xA, 0xB, 0xC, 0xD] @ replicate 424 0"

lemma demo_elf_parts:
  "length demo_elf = 512" "ElfHeader_of (take 52 demo_elf) = \<lparr>e_magic = elf_magic, e_class = 1, e_encoding = 1, e_header_version = 1,
     e_abi = 0, e_abi_version = 0, e_type = 2, e_machine = 3, e_version = 1, e_entry = 0x80000000, e_phoff = 52, e_shoff = 0, e_flags = 0,
     e_ehsize = 52, e_phentsize = 32, e_phnum = 1, e_shentsize = 0, e_shnum = 0, e_shstrndx = 0\<rparr>"
  "ProgramHeader_of (take 32 (drop 52 demo_elf)) = \<lparr>p_type = 1, p_offset = 84, p_vaddr = 0x80000000, p_paddr = 0, p_filesz = 4,
     p_memsz = 8, p_flags = 5, p_align = 0\<rparr>"
  "take 4 (drop 84 demo_elf) = [0xA, 0xB, 0xC, 0xD]"
  by code_simp+

lemma four_zeros: "replicate 4 (0 :: u8) = [0, 0, 0, 0]"
  by (simp add: numeral_eq_Suc)

definition demo_program :: Node where
  "demo_program = small_node demo_elf 88 0x81ED"

lemma demo_program_bytes: "file_bytes demo_program = take 88 demo_elf"
  unfolding demo_program_def using small_node_bytes[OF demo_elf_parts(1), of 88] by simp

lemma demo_program_headers:
  "elf_header demo_program = ElfHeader_of (take 52 demo_elf)" "program_header demo_program 0 = ProgramHeader_of (take 32 (drop 52 demo_elf))"
proof -
  show h: "elf_header demo_program = ElfHeader_of (take 52 demo_elf)"
    by (simp add: elf_header_def file_slice_def demo_program_bytes)
  show "program_header demo_program 0 = ProgramHeader_of (take 32 (drop 52 demo_elf))"
    unfolding program_header_def h demo_elf_parts(2) by (simp add: file_slice_def demo_program_bytes drop_take)
qed

lemma demo_program_ok: "elf_ok demo_program"
proof -
  have "node_ok demo_program" unfolding demo_program_def by (rule small_node_ok) (simp_all add: demo_elf_parts(1))
  then show ?thesis
    unfolding elf_ok_def Let_def demo_program_headers demo_elf_parts(2)
    by (simp add: demo_program_headers demo_elf_parts(3) segment_ok_def) (simp add: demo_program_def)
qed


end
