(* ===== verification/Vmm.thy ===== *)
theory Vmm
  imports Prelude
begin

text \<open>
  Physical frames and page tables: \<open>kernel/physmem.h\<close>, \<open>physmem.cc\<close>, \<open>vmm.h\<close> and \<open>vmm.cc\<close>. The memory is
  the 32-bit word at every (aligned) physical address, which the kernel reaches under the same virtual address. A
  free frame holds the address of the next free one in its first word. Each operation runs under the allocator's
  lock. \<open>None\<close> is a failed assertion or a panic, here the end of the frames.
\<close>

record vm =
  mem :: "u32 \<Rightarrow> u32"
  firstFree :: u32
  pm_avail :: u32
  pm_limit :: u32

definition FRAME_SIZE :: u32 where "FRAME_SIZE = 4096"

definition pm_offset :: "u32 \<Rightarrow> u32" where "pm_offset pa = pa AND 0xFFF"

definition ppn :: "u32 \<Rightarrow> u32" where "ppn pa = drop_bit 12 pa"

definition framedown :: "u32 \<Rightarrow> u32" where "framedown pa = (pa div FRAME_SIZE) * FRAME_SIZE"

definition frameup :: "u32 \<Rightarrow> u32" where "frameup pa = framedown (pa + FRAME_SIZE - 1)"

definition page_mask :: "u32 \<Rightarrow> u32" where "page_mask page_entry = page_entry AND 0xFFFFF000"

text \<open>\<open>bzero\<close> and \<open>memcpy\<close> of a whole frame.\<close>

definition clear_frame :: "u32 \<Rightarrow> (u32 \<Rightarrow> u32) \<Rightarrow> u32 \<Rightarrow> u32" where
  "clear_frame p m = (\<lambda>a. if page_mask a = p then 0 else m a)"

definition copy_frame :: "u32 \<Rightarrow> u32 \<Rightarrow> (u32 \<Rightarrow> u32) \<Rightarrow> u32 \<Rightarrow> u32" where
  "copy_frame to from m = (\<lambda>a. if page_mask a = to then m (from OR pm_offset a) else m a)"

definition alloc_frame :: "vm \<Rightarrow> (u32 \<times> vm) option" where
  "alloc_frame s =
     (case (if firstFree s \<noteq> 0 then Some (firstFree s, s\<lparr>firstFree := mem s (firstFree s)\<rparr>)
            else if pm_avail s = pm_limit s then None
            else Some (pm_avail s, s\<lparr>pm_avail := pm_avail s + FRAME_SIZE\<rparr>)) of
        None \<Rightarrow> None
      | Some (p, s) \<Rightarrow> if pm_offset p \<noteq> 0 then None else Some (p, s\<lparr>mem := clear_frame p (mem s)\<rparr>))"

definition dealloc_frame :: "u32 \<Rightarrow> vm \<Rightarrow> vm option" where
  "dealloc_frame p s =
     (if pm_offset p \<noteq> 0 then None else Some (s\<lparr>mem := (mem s)(p := firstFree s), firstFree := p\<rparr>))"

definition physmem_init :: "u32 \<Rightarrow> u32 \<Rightarrow> vm \<Rightarrow> vm option" where
  "physmem_init start n s =
     (if pm_offset start \<noteq> 0 \<or> pm_offset n \<noteq> 0 then None else Some (s\<lparr>pm_avail := start, pm_limit := start + n\<rparr>))"

subsection \<open>Page tables\<close>

definition entry :: "u32 \<Rightarrow> u32 \<Rightarrow> u32" where "entry table i = table + 4 * i"

definition present :: "u32 \<Rightarrow> bool" where "present e \<longleftrightarrow> e AND 1 \<noteq> 0"

definition pdi_of :: "u32 \<Rightarrow> u32" where "pdi_of va = drop_bit 22 va"

definition pti_of :: "u32 \<Rightarrow> u32" where "pti_of va = drop_bit 12 va AND 0x3FF"

definition map_page :: "u32 \<Rightarrow> u32 \<Rightarrow> u32 \<Rightarrow> vm \<Rightarrow> vm option" where
  "map_page pd va pa s =
     (let pdi = pdi_of va; pti = pti_of va; pde = mem s (entry pd pdi)
      in case (if \<not> present pde
               then (case alloc_frame s of
                       None \<Rightarrow> None
                     | Some (p, s) \<Rightarrow> let pde = p OR 7 in Some (pde, s\<lparr>mem := (mem s)(entry pd pdi := pde)\<rparr>))
               else Some (pde, s)) of
           None \<Rightarrow> None
         | Some (pde, s) \<Rightarrow> let pt = page_mask pde in Some (s\<lparr>mem := (mem s)(entry pt pti := pa OR 7)\<rparr>))"

definition unmap_page :: "u32 \<Rightarrow> u32 \<Rightarrow> vm \<Rightarrow> vm option" where
  "unmap_page pd va s =
     (let pdi = pdi_of va; pti = pti_of va; pde = mem s (entry pd pdi)
      in if \<not> present pde then Some s
         else
           let pt = page_mask pde; pte = mem s (entry pt pti)
           in if \<not> present pte then Some s
              else dealloc_frame (page_mask pte) (s\<lparr>mem := (mem s)(entry pt pti := 0)\<rparr>))"

text \<open>The addresses of the two interrupt controllers, whose pages belong to no process.\<close>

type_synonym apics = "u32 \<times> u32"

definition make_pd :: "apics \<Rightarrow> u32 \<Rightarrow> u32 \<Rightarrow> vm \<Rightarrow> (u32 \<times> vm) option" where
  "make_pd apics memSize shared s =
     (case alloc_frame s of
        None \<Rightarrow> None
      | Some (pd, s) \<Rightarrow>
          let m4 = 4 * 1024 * 1024;
              shared_size = 4 * ((memSize + m4 - 1) div m4);
              s = s\<lparr>mem := (\<lambda>a. if a - pd < shared_size then mem s (shared + (a - pd)) else mem s a)\<rparr>
          in (case map_page pd (fst apics) (fst apics) s of
                None \<Rightarrow> None
              | Some s \<Rightarrow> map_option (\<lambda>s. (pd, s)) (map_page pd (snd apics) (snd apics) s)))"

text \<open>A loop over indices that may stop the machine.\<close>

primrec for_each :: "('i \<Rightarrow> 's \<Rightarrow> 's option) \<Rightarrow> 'i list \<Rightarrow> 's \<Rightarrow> 's option" where
  "for_each f [] s = Some s"
| "for_each f (i # is) s = (case f i s of None \<Rightarrow> None | Some s \<Rightarrow> for_each f is s)"

definition user_pdis :: "u32 list" where "user_pdis = map of_nat [512..<1024]"

definition all_ptis :: "u32 list" where "all_ptis = map of_nat [0..<1024]"

definition delete_pde :: "u32 \<Rightarrow> u32 \<Rightarrow> vm \<Rightarrow> vm option" where
  "delete_pde pd i s = (let pde = mem s (entry pd i) in if present pde then dealloc_frame (page_mask pde) s else Some s)"

definition delete_pd :: "u32 \<Rightarrow> vm \<Rightarrow> vm option" where
  "delete_pd pd s = (case for_each (delete_pde pd) user_pdis s of None \<Rightarrow> None | Some s \<Rightarrow> dealloc_frame pd s)"

definition make_entry :: "u32 \<Rightarrow> u32 \<Rightarrow> vm \<Rightarrow> (u32 \<times> vm) option" where
  "make_entry page index s =
     (case alloc_frame s of
        None \<Rightarrow> None
      | Some (p, s) \<Rightarrow>
          let s = s\<lparr>mem := (mem s)(entry page index := p OR 7)\<rparr>
          in Some (page_mask (mem s (entry page index)), s))"

definition get_va :: "u32 \<Rightarrow> u32 \<Rightarrow> u32" where
  "get_va pdi pti = push_bit 22 pdi OR push_bit 12 pti"

definition safe :: "apics \<Rightarrow> u32 \<Rightarrow> u32 \<Rightarrow> bool" where
  "safe apics pdi pti \<longleftrightarrow> get_va pdi pti \<noteq> fst apics \<and> get_va pdi pti \<noteq> snd apics"

definition copy_pte :: "apics \<Rightarrow> u32 \<Rightarrow> u32 \<Rightarrow> u32 \<Rightarrow> u32 \<Rightarrow> vm \<Rightarrow> vm option" where
  "copy_pte apics pdi ptFrom ptTo pti s =
     (let pteFrom = mem s (entry ptFrom pti)
      in if present pteFrom \<and> safe apics pdi pti
         then (case make_entry ptTo pti s of
                 None \<Rightarrow> None
               | Some (dataTo, s) \<Rightarrow> Some (s\<lparr>mem := copy_frame dataTo (page_mask pteFrom) (mem s)\<rparr>))
         else Some s)"

definition copy_pde :: "apics \<Rightarrow> u32 \<Rightarrow> u32 \<Rightarrow> u32 \<Rightarrow> vm \<Rightarrow> vm option" where
  "copy_pde apics pdTo copyFromPD pdi s =
     (let pdeFrom = mem s (entry copyFromPD pdi)
      in if present pdeFrom
         then (case (if \<not> present (mem s (entry pdTo pdi)) then map_option snd (make_entry pdTo pdi s) else Some s) of
                 None \<Rightarrow> None
               | Some s \<Rightarrow>
                   for_each (copy_pte apics pdi (page_mask pdeFrom) (page_mask (mem s (entry pdTo pdi)))) all_ptis s)
         else Some s)"

definition deep_copy_mem :: "apics \<Rightarrow> u32 \<Rightarrow> u32 \<Rightarrow> vm \<Rightarrow> vm option" where
  "deep_copy_mem apics pdTo copyFromPD = for_each (copy_pde apics pdTo copyFromPD) user_pdis"

definition delete_pte :: "apics \<Rightarrow> u32 \<Rightarrow> u32 \<Rightarrow> u32 \<Rightarrow> vm \<times> bool \<Rightarrow> (vm \<times> bool) option" where
  "delete_pte apics pdi pt pti = (\<lambda>(s, remove).
     let pte = mem s (entry pt pti); ok = safe apics pdi pti
     in case (if present pte \<and> ok
              then map_option (\<lambda>s. s\<lparr>mem := (mem s)(entry pt pti := 0)\<rparr>) (dealloc_frame (page_mask pte) s)
              else Some s) of
          None \<Rightarrow> None
        | Some s \<Rightarrow> Some (s, if \<not> ok then False else remove))"

definition delete_table :: "apics \<Rightarrow> u32 \<Rightarrow> u32 \<Rightarrow> vm \<Rightarrow> vm option" where
  "delete_table apics pd pdi s =
     (let pde = mem s (entry pd pdi)
      in if present pde
         then
           let pt = page_mask pde
           in (case for_each (delete_pte apics pdi pt) all_ptis (s, True) of
                 None \<Rightarrow> None
               | Some (s, remove) \<Rightarrow>
                   if remove
                   then map_option (\<lambda>s. s\<lparr>mem := (mem s)(entry pd pdi := 0)\<rparr>) (dealloc_frame pt s)
                   else Some s)
         else Some s)"

definition delete_user_mem :: "apics \<Rightarrow> u32 \<Rightarrow> vm \<Rightarrow> vm option" where
  "delete_user_mem apics pd = for_each (delete_table apics pd) user_pdis"

text \<open>\<open>global_init\<close>: the kernel's own tables, one entry for each frame below \<open>memSize\<close> but the first. \<open>memSize\<close> is at most
  \<open>0xFFFFF000\<close>: beyond that the loop's address would wrap.\<close>

definition global_init :: "u32 \<Rightarrow> vm \<Rightarrow> (u32 \<times> vm) option" where
  "global_init memSize s =
     (case alloc_frame s of
        None \<Rightarrow> None
      | Some (shared, s) \<Rightarrow>
          map_option (\<lambda>s. (shared, s))
            (for_each (\<lambda>k. let va = of_nat k * FRAME_SIZE in map_page shared va va)
               [1..<(unat memSize + 4095) div 4096] s))"

text \<open>The page fault handler for the directory of the running thread.\<close>

definition vmm_pageFault :: "u32 \<Rightarrow> u32 \<Rightarrow> vm \<Rightarrow> vm option" where
  "vmm_pageFault pd fva s =
     (let va = framedown fva
      in if va \<ge> 0x80000000
         then (case alloc_frame s of None \<Rightarrow> None | Some (pa, s) \<Rightarrow> map_page pd va pa s)
         else None)"

end
