(* ===== verification/VmmRep.thy ===== *)
theory VmmRep
  imports Vmm
begin

text \<open>
  What the page tables promise. Every frame in use has one place: it is a directory, a page table or a page of one
  address space. The invariant \<open>vm_ok\<close> says that the places are all different and none is free; each operation
  is an update of the map of places.
\<close>

subsection \<open>Addresses\<close>

lemma page_mask_bits: "bit (page_mask a) n = (bit a n \<and> 12 \<le> n)"
proof -
  have "(0xFFFFF000 :: u32) = push_bit 12 (mask 20)" by (simp add: mask_eq_exp_minus_1)
  then have "bit (0xFFFFF000 :: u32) n = (12 \<le> n \<and> n < 32)" by (simp only: bit_push_bit_iff bit_mask_iff) auto
  then show ?thesis unfolding page_mask_def bit_and_iff using bit_imp_le_length[of a n] by auto
qed

lemma pm_offset_bits: "bit (pm_offset a) n = (bit a n \<and> n < 12)"
  unfolding pm_offset_def mask_u32 by (auto simp: bit_and_iff bit_mask_iff dest: bit_imp_le_length)

lemma aligned_bits: "pm_offset p = 0 \<longleftrightarrow> (\<forall>n < 12. \<not> bit p n)"
proof
  assume z: "pm_offset p = 0"
  have "bit (pm_offset p) n = (bit p n \<and> n < 12)" for n by (rule pm_offset_bits)
  with z show "\<forall>n < 12. \<not> bit p n" by auto
next
  assume "\<forall>n < 12. \<not> bit p n"
  then show "pm_offset p = 0" by (intro bit_word_eqI) (auto simp: pm_offset_bits)
qed

lemma aligned_ge: "pm_offset p = 0 \<Longrightarrow> bit p n \<Longrightarrow> 12 \<le> n"
  by (meson aligned_bits not_le)

lemma page_mask_aligned [simp]: "pm_offset (page_mask a) = 0"
  by (simp add: aligned_bits page_mask_bits)

lemma aligned_page_mask: "pm_offset p = 0 \<Longrightarrow> page_mask p = p"
  by (rule bit_word_eqI) (auto simp: page_mask_bits dest: aligned_ge)

lemma page_split: "page_mask a OR pm_offset a = a"
  by (rule bit_word_eqI) (auto simp: bit_or_iff page_mask_bits pm_offset_bits)

lemma page_mask_or: "pm_offset p = 0 \<Longrightarrow> page_mask (p OR pm_offset a) = p"
  by (rule bit_word_eqI) (auto simp: page_mask_bits bit_or_iff pm_offset_bits dest: aligned_ge)

lemma pm_offset_or: "pm_offset p = 0 \<Longrightarrow> pm_offset (p OR pm_offset a) = pm_offset a"
  by (rule bit_word_eqI) (auto simp: pm_offset_bits bit_or_iff aligned_bits)

lemma pm_offset_0_iff: "pm_offset a = 0 \<longleftrightarrow> unat a mod 4096 = 0"
proof -
  have "unat (pm_offset a) = unat a mod 4096" unfolding pm_offset_def mask_u32(4) unat_and_mask by simp
  then show ?thesis by (metis unat_eq_zero)
qed

lemma mod_0_less_step:
  fixes a l k :: nat
  assumes "a mod k = 0" "l mod k = 0" "a < l"
  shows "a + k \<le> l"
proof -
  have "k dvd a" "k dvd l" using assms(1,2) by auto
  then obtain x y where "a = k * x" "l = k * y" by (auto elim!: dvdE)
  moreover from this have "x < y" using assms(3) by (metis mult_less_cancel1)
  then have "k * Suc x \<le> k * y" by (intro mult_le_mono2) simp
  ultimately show ?thesis by simp
qed

lemma small_bits: "(i :: u32) < 1024 \<Longrightarrow> bit i n \<Longrightarrow> n < 10"
proof -
  assume "i < 1024" "bit i n"
  then have "take_bit 10 i = i"
    by (simp add: word_unat_eq_iff unsigned_take_bit_eq take_bit_nat_eq_self word_less_nat_alt)
  then show "n < 10" using \<open>bit i n\<close> by (metis bit_take_bit_iff)
qed

lemma entry_or:
  assumes "pm_offset t = 0" "i < 1024"
  shows "entry t i = t OR push_bit 2 i"
proof -
  have "t AND push_bit 2 i = 0"
    using assms(1) small_bits[OF assms(2)] by (intro bit_word_eqI) (fastforce simp: bit_and_iff bit_push_bit_iff aligned_bits)
  then show ?thesis by (simp add: entry_def disjunctive_add_eq_or push_bit_eq_mult mult.commute)
qed

lemma entry_page [simp]: "pm_offset t = 0 \<Longrightarrow> i < 1024 \<Longrightarrow> page_mask (entry t i) = t"
  by (rule bit_word_eqI)
    (auto simp: entry_or page_mask_bits bit_or_iff bit_push_bit_iff dest: aligned_ge small_bits)

lemma entry_inj: 
  assumes "pm_offset t = 0" "i < 1024" "j < 1024" "entry t i = entry t j"
  shows "i = j"
proof -
  have "unat (4 * i) = 4 * unat i" "unat (4 * j) = 4 * unat j"
    using assms(2,3) by (simp_all add: unat_word_ariths word_less_nat_alt)
  moreover have "4 * i = 4 * j" using assms(4) by (simp add: entry_def)
  ultimately show ?thesis by (simp add: word_unat_eq_iff)
qed

lemma present_bit: "present e = bit e 0"
  by (simp add: present_def bit_0 and_one_eq odd_iff_mod_2_eq_one)

lemma entry_value [simp]:
  assumes "pm_offset p = 0"
  shows "present (p OR 7)" "page_mask (p OR 7) = p"
proof -
  have seven: "(7 :: u32) = mask 3" by (simp add: mask_eq_exp_minus_1)
  show "present (p OR 7)" by (simp add: present_bit bit_or_iff seven bit_mask_iff)
  show "page_mask (p OR 7) = p"
    using assms by (intro bit_word_eqI) (auto simp: page_mask_bits bit_or_iff seven bit_mask_iff dest: aligned_ge)
qed

lemma not_present_0 [simp]: "\<not> present 0"
  by (simp add: present_def)

subsection \<open>Places and the invariant\<close>

datatype place = Dir u32 | Tab u32 u32 | Page u32 u32 u32

definition frame_at :: "vm \<Rightarrow> u32 \<Rightarrow> u32 \<Rightarrow> u32 option" where
  "frame_at s t i = (if present (mem s (entry t i)) then Some (page_mask (mem s (entry t i))) else None)"

definition table_at :: "u32 set \<Rightarrow> vm \<Rightarrow> u32 \<Rightarrow> u32 \<Rightarrow> u32 option" where
  "table_at D s d i = (if d \<in> D \<and> 512 \<le> i \<and> i < 1024 then frame_at s d i else None)"

fun places :: "apics \<Rightarrow> u32 set \<Rightarrow> vm \<Rightarrow> place \<Rightarrow> u32 option" where
  "places apics D s (Dir d) = (if d \<in> D then Some d else None)"
| "places apics D s (Tab d i) = table_at D s d i"
| "places apics D s (Page d i j) =
     (if j < 1024 \<and> safe apics i j
      then (case table_at D s d i of None \<Rightarrow> None | Some t \<Rightarrow> frame_at s t j)
      else None)"

text \<open>The free frames: the list through their first words, and those never handed out.\<close>

fun free_chain :: "(u32 \<Rightarrow> u32) \<Rightarrow> u32 \<Rightarrow> u32 list \<Rightarrow> bool" where
  "free_chain m p [] = (p = 0)"
| "free_chain m p (x # xs) = (p = x \<and> x \<noteq> 0 \<and> free_chain m (m x) xs)"

definition fresh_frame :: "vm \<Rightarrow> u32 \<Rightarrow> bool" where
  "fresh_frame s p \<longleftrightarrow> pm_avail s \<le> p \<and> p < pm_limit s"

definition in_use :: "u32 list \<Rightarrow> vm \<Rightarrow> u32 \<Rightarrow> bool" where
  "in_use F s p \<longleftrightarrow> pm_offset p = 0 \<and> p \<noteq> 0 \<and> p \<notin> set F \<and> \<not> fresh_frame s p"

definition free_ok :: "u32 list \<Rightarrow> vm \<Rightarrow> bool" where
  "free_ok F s \<longleftrightarrow> free_chain (mem s) (firstFree s) F \<and> distinct F
     \<and> (\<forall>p \<in> set F. pm_offset p = 0 \<and> p \<noteq> 0 \<and> \<not> fresh_frame s p)
     \<and> pm_offset (pm_avail s) = 0 \<and> pm_offset (pm_limit s) = 0 \<and> pm_avail s \<noteq> 0 \<and> pm_avail s \<le> pm_limit s"

definition vm_ok :: "apics \<Rightarrow> u32 set \<Rightarrow> u32 list \<Rightarrow> vm \<Rightarrow> bool" where
  "vm_ok apics D F s \<longleftrightarrow> free_ok F s \<and> (\<forall>x p. places apics D s x = Some p \<longrightarrow> in_use F s p)
     \<and> (\<forall>x y p. places apics D s x = Some p \<longrightarrow> places apics D s y = Some p \<longrightarrow> x = y)"

lemma vm_ok_use: "vm_ok apics D F s \<Longrightarrow> places apics D s x = Some p \<Longrightarrow> in_use F s p"
  by (simp add: vm_ok_def)

lemma vm_ok_inj: "vm_ok apics D F s \<Longrightarrow> places apics D s x = Some p \<Longrightarrow> places apics D s y = Some p \<Longrightarrow> x = y"
  unfolding vm_ok_def by blast

lemma in_useD: "in_use F s p \<Longrightarrow> pm_offset p = 0" "in_use F s p \<Longrightarrow> p \<noteq> 0" "in_use F s p \<Longrightarrow> p \<notin> set F"
  "in_use F s p \<Longrightarrow> \<not> fresh_frame s p"
  by (simp_all add: in_use_def)

lemma free_chain_cong:
  "(\<And>p. p \<in> set F \<Longrightarrow> m' p = m p) \<Longrightarrow> free_chain m' x F = free_chain m x F"
  by (induction F arbitrary: x) auto

lemma free_ok_frame:
  assumes "free_ok F s" "\<And>p. p \<in> set F \<Longrightarrow> m p = mem s p"
  shows "free_ok F (s\<lparr>mem := m\<rparr>)"
  using assms free_chain_cong[of F m "mem s" "firstFree s"] by (auto simp: free_ok_def fresh_frame_def)

text \<open>The places depend on the words of the directories and the tables only.\<close>

lemma places_cong:
  assumes "\<And>d i. d \<in> D \<Longrightarrow> 512 \<le> i \<Longrightarrow> i < 1024 \<Longrightarrow> mem s' (entry d i) = mem s (entry d i)"
    and "\<And>d i t j. table_at D s d i = Some t \<Longrightarrow> j < 1024 \<Longrightarrow> mem s' (entry t j) = mem s (entry t j)"
  shows "places apics D s' = places apics D s"
proof
  fix x
  have tab: "table_at D s' d i = table_at D s d i" for d i
    using assms(1) by (simp add: table_at_def frame_at_def)
  show "places apics D s' x = places apics D s x"
  proof (cases x)
    case (Page d i j)
    show ?thesis unfolding Page places.simps(3) tab
      using assms(2)[of d i _ j] by (auto simp: frame_at_def split: option.split)
  qed (use tab in auto)
qed

lemma vm_ok_dir: "vm_ok apics D F s \<Longrightarrow> d \<in> D \<Longrightarrow> in_use F s d"
  using vm_ok_use[of apics D F s "Dir d" d] by simp

lemma vm_ok_table: "vm_ok apics D F s \<Longrightarrow> table_at D s d i = Some t \<Longrightarrow> in_use F s t"
  using vm_ok_use[of apics D F s "Tab d i" t] by simp

lemma frame_word_eq:
  "pm_offset t = 0 \<Longrightarrow> i < 1024 \<Longrightarrow> page_mask a \<noteq> t \<Longrightarrow> entry t i \<noteq> a"
  using entry_page by blast

text \<open>Memory of frames that are no directory and no table may change freely.\<close>

lemma places_other_frame:
  assumes "vm_ok apics D F s" "\<And>a. m a \<noteq> mem s a \<Longrightarrow> page_mask a = f"
    and "\<And>d. f \<noteq> d \<or> d \<notin> D" "\<And>d i. table_at D s d i \<noteq> Some f"
  shows "places apics D (s\<lparr>mem := m\<rparr>) = places apics D s"
proof (rule places_cong)
  fix d i assume d: "d \<in> D" "512 \<le> i" "i < (1024 :: u32)"
  then have "page_mask (entry d i) = d" using vm_ok_dir[OF assms(1) d(1)] by (simp add: in_use_def)
  then have "page_mask (entry d i) \<noteq> f" using assms(3) d(1) by blast
  then show "mem (s\<lparr>mem := m\<rparr>) (entry d i) = mem s (entry d i)" using assms(2) by auto
next
  fix d i t j assume t: "table_at D s d i = Some t" "j < (1024 :: u32)"
  then have "page_mask (entry t j) = t" using vm_ok_table[OF assms(1) t(1)] by (simp add: in_use_def)
  then have "page_mask (entry t j) \<noteq> f" using assms(4)[of d i] t(1) by auto
  then show "mem (s\<lparr>mem := m\<rparr>) (entry t j) = mem s (entry t j)" using assms(2) by auto
qed

lemma vm_ok_memory:
  assumes "vm_ok apics D F s" "\<And>a. m a \<noteq> mem s a \<Longrightarrow> page_mask a = f" "f \<notin> set F"
    and "\<And>d. f \<noteq> d \<or> d \<notin> D" "\<And>d i. table_at D s d i \<noteq> Some f"
  shows "vm_ok apics D F (s\<lparr>mem := m\<rparr>) \<and> places apics D (s\<lparr>mem := m\<rparr>) = places apics D s"
proof -
  have pl: "places apics D (s\<lparr>mem := m\<rparr>) = places apics D s" by (rule places_other_frame[OF assms(1,2,4,5)])
  have "m p = mem s p" if "p \<in> set F" for p
  proof -
    have "pm_offset p = 0" using assms(1) that by (simp add: vm_ok_def free_ok_def)
    then have "page_mask p = p" by (rule aligned_page_mask)
    then show ?thesis using assms(2,3) that by metis
  qed
  then have "free_ok F (s\<lparr>mem := m\<rparr>)" using assms(1) by (intro free_ok_frame) (auto simp: vm_ok_def)
  then show ?thesis using assms(1) pl by (simp add: vm_ok_def in_use_def fresh_frame_def)
qed

subsection \<open>Allocating and freeing\<close>

text \<open>What a frame handed out is: free before, in use and zero after, and nothing else has changed.\<close>

lemma alloc_frame_ok:
  assumes "vm_ok apics D F s" "alloc_frame s = Some (p, s')"
  shows "\<exists>F'. vm_ok apics D F' s' \<and> places apics D s' = places apics D s \<and> in_use F' s' p \<and> \<not> in_use F s p
    \<and> (\<forall>q. in_use F s q \<longrightarrow> in_use F' s' q) \<and> mem s' = clear_frame p (mem s)"
proof -
  have free: "free_ok F s" using assms(1) by (simp add: vm_ok_def)
  have used: "in_use F s q" if "places apics D s x = Some q" for x q by (rule vm_ok_use[OF assms(1) that])
  have m': "mem s' = clear_frame p (mem s)" "pm_offset p = 0"
    using assms(2) by (auto simp: alloc_frame_def split: if_splits)
  obtain F' where F': "free_ok F' s'" "in_use F' s' p" "\<not> in_use F s p" "\<forall>q. in_use F s q \<longrightarrow> in_use F' s' q"
  proof (cases "firstFree s = 0")
    case False
    then obtain F' where F: "F = p # F'" "free_chain (mem s) (mem s p) F'" "p \<noteq> 0"
      and s': "s' = s\<lparr>firstFree := mem s p, mem := clear_frame p (mem s)\<rparr>"
      using assms(2) free by (cases F) (auto simp: alloc_frame_def free_ok_def split: if_splits)
    have same: "clear_frame p (mem s) q = mem s q" if "q \<in> set F'" for q
      using that free F(1) by (auto simp: clear_frame_def free_ok_def aligned_page_mask)
    have "free_ok F' s'"
      using free F s' free_chain_cong[of F' "clear_frame p (mem s)" "mem s", OF same]
      by (auto simp: free_ok_def fresh_frame_def)
    then show ?thesis
      using that[of F'] free F s' by (auto simp: in_use_def fresh_frame_def free_ok_def)
  next
    case True
    then have F: "F = []" using free by (cases F) (auto simp: free_ok_def)
    have s': "s' = s\<lparr>pm_avail := pm_avail s + FRAME_SIZE, mem := clear_frame p (mem s)\<rparr>" "p = pm_avail s" "pm_avail s \<noteq> pm_limit s"
      using assms(2) True by (auto simp: alloc_frame_def split: if_splits)
    have lim: "pm_offset (pm_avail s) = 0" "pm_offset (pm_limit s) = 0" "pm_avail s \<noteq> 0" "pm_avail s < pm_limit s"
      using free s'(3) by (auto simp: free_ok_def)
    have next_frame: "unat (pm_avail s + FRAME_SIZE) = unat (pm_avail s) + 4096 \<and> unat (pm_avail s) + 4096 \<le> unat (pm_limit s)
      \<and> pm_offset (pm_avail s + FRAME_SIZE) = 0"
    proof -
      have "unat (pm_avail s) mod 4096 = 0" "unat (pm_limit s) mod 4096 = 0"
        using lim(1,2) by (simp_all add: pm_offset_0_iff)
      moreover have "unat (pm_avail s) < unat (pm_limit s)" using lim(4) by (simp add: word_less_nat_alt)
      ultimately have le: "unat (pm_avail s) + 4096 \<le> unat (pm_limit s)" by (rule mod_0_less_step)
      then have "unat (pm_avail s + FRAME_SIZE) = unat (pm_avail s) + 4096"
        using unsigned_less[of "pm_limit s", where 'a = nat] by (subst unat_add_no_wrap) (auto simp: FRAME_SIZE_def)
      then show ?thesis using le lim(1) by (simp add: pm_offset_0_iff)
    qed
    then have fresh: "fresh_frame s' q \<Longrightarrow> fresh_frame s q \<and> q \<noteq> p" for q
      unfolding s' by (auto simp: fresh_frame_def word_le_nat_alt word_less_nat_alt)
    have "fresh_frame s p" using s'(2) lim(4) by (simp add: fresh_frame_def)
    moreover have "free_ok [] s'"
      using next_frame lim True unfolding s' by (auto simp: free_ok_def word_le_nat_alt)
    ultimately show ?thesis using that[of "[]"] F fresh m'(2) lim(3) s'(2) by (auto simp: in_use_def)
  qed
  have pl: "places apics D s' = places apics D s"
  proof (rule places_cong)
    fix d i assume d: "d \<in> D" "512 \<le> i" "i < (1024 :: u32)"
    then have "in_use F s d" by (intro vm_ok_dir[OF assms(1)])
    then have "page_mask (entry d i) = d" "d \<noteq> p" using d in_useD(1) F'(3) by auto
    then show "mem s' (entry d i) = mem s (entry d i)" unfolding m' by (simp add: clear_frame_def)
  next
    fix d i t j assume t: "table_at D s d i = Some t" "j < (1024 :: u32)"
    then have "in_use F s t" by (intro vm_ok_table[OF assms(1)])
    then have "page_mask (entry t j) = t" "t \<noteq> p" using t in_useD(1) F'(3) by auto
    then show "mem s' (entry t j) = mem s (entry t j)" unfolding m' by (simp add: clear_frame_def)
  qed
  have "vm_ok apics D F' s'" using F' used assms(1) pl unfolding vm_ok_def by simp
  with pl F' m' show ?thesis by blast
qed

text \<open>Giving a frame back.\<close>

lemma dealloc_frame_ok:
  assumes "vm_ok apics D F s" "in_use F s p" "\<And>x. places apics D s x \<noteq> Some p"
  shows "\<exists>s'. dealloc_frame p s = Some s' \<and> vm_ok apics D (p # F) s' \<and> places apics D s' = places apics D s
    \<and> (\<forall>q. q \<noteq> p \<longrightarrow> in_use F s q \<longrightarrow> in_use (p # F) s' q) \<and> mem s' = (mem s)(p := firstFree s)"
proof -
  let ?m = "(mem s)(p := firstFree s)"
  have p: "pm_offset p = 0" "p \<noteq> 0" "p \<notin> set F" "\<not> fresh_frame s p" using assms(2) by (auto simp: in_use_def)
  have no_dir: "p \<notin> D" using assms(3)[of "Dir p"] by auto
  have no_table: "table_at D s d i \<noteq> Some p" for d i using assms(3)[of "Tab d i"] by simp
  have m: "vm_ok apics D F (s\<lparr>mem := ?m\<rparr>) \<and> places apics D (s\<lparr>mem := ?m\<rparr>) = places apics D s"
    by (rule vm_ok_memory[OF assms(1), of _ p]) (use p no_dir no_table in \<open>auto simp: aligned_page_mask split: if_splits\<close>)
  let ?s = "s\<lparr>mem := ?m, firstFree := p\<rparr>"
  have "places apics D ?s = places apics D (s\<lparr>mem := ?m\<rparr>)" by (rule places_cong) simp_all
  then have pl: "places apics D ?s = places apics D s" using m by simp
  have "free_chain ?m (firstFree s) F"
    using m by (simp add: vm_ok_def free_ok_def)
  then have f: "free_ok (p # F) ?s" using m p by (auto simp: vm_ok_def free_ok_def fresh_frame_def)
  have "vm_ok apics D (p # F) ?s"
    using f pl assms(1,3) unfolding vm_ok_def by (auto simp: in_use_def fresh_frame_def)
  then show ?thesis using p pl by (intro exI[of _ ?s]) (auto simp: dealloc_frame_def in_use_def fresh_frame_def)
qed

subsection \<open>Writing an entry\<close>

definition entry_frame :: "u32 \<Rightarrow> u32 option" where
  "entry_frame e = (if present e then Some (page_mask e) else None)"

lemma frame_at_entry: "frame_at s t i = entry_frame (mem s (entry t i))"
  by (simp add: frame_at_def entry_frame_def)

lemma places_set_pte:
  assumes "vm_ok apics D F s" "table_at D s d i = Some t" "j < 1024"
  shows "places apics D (s\<lparr>mem := (mem s)(entry t j := e)\<rparr>)
    = (places apics D s)(Page d i j := (if safe apics i j then entry_frame e else None))" (is "places apics D ?s = _")
proof
  fix x
  have t: "pm_offset t = 0" using vm_ok_table[OF assms(1,2)] by (simp add: in_use_def)
  have word: "mem ?s (entry f k) = mem s (entry f k)" if "pm_offset f = 0" "k < 1024" "f \<noteq> t" for f k
    using entry_page[OF that(1,2)] entry_page[OF t assms(3)] that(3) by (metis fun_upd_other vm.select_convs(1) vm.surjective vm.update_convs(1))
  have tab: "table_at D ?s d' i' = table_at D s d' i'" for d' i'
  proof (cases "d' \<in> D \<and> 512 \<le> i' \<and> i' < 1024")
    case True
    then have "pm_offset d' = 0" using vm_ok_dir[OF assms(1)] by (simp add: in_use_def)
    moreover have "d' \<noteq> t" using vm_ok_inj[OF assms(1), of "Dir d'" d' "Tab d i"] assms(2) True by auto
    ultimately show ?thesis using True word by (simp add: table_at_def frame_at_def)
  qed (auto simp: table_at_def)
  show "places apics D ?s x = ((places apics D s)(Page d i j := (if safe apics i j then entry_frame e else None))) x"
  proof (cases x)
    case (Page d' i' j')
    show ?thesis
    proof (cases "x = Page d i j")
      case True
      then show ?thesis using assms(2,3) tab by (simp add: frame_at_entry)
    next
      case False
      have "frame_at ?s t' j' = frame_at s t' j'" if "table_at D s d' i' = Some t'" "j' < 1024" for t'
      proof (cases "t' = t")
        case True
        then have "Tab d' i' = Tab d i" using vm_ok_inj[OF assms(1), of "Tab d' i'" t "Tab d i"] assms(2) that by simp
        then have "j' \<noteq> j" using False Page by auto
        then have "entry t j' \<noteq> entry t j" using entry_inj[OF t that(2) assms(3)] by blast
        then show ?thesis using True by (simp add: frame_at_entry)
      next
        case False
        moreover have "pm_offset t' = 0" using vm_ok_table[OF assms(1) that(1)] by (simp add: in_use_def)
        ultimately show ?thesis using word that(2) by (simp add: frame_at_entry)
      qed
      then show ?thesis using False Page tab by (auto split: option.split)
    qed
  qed (use tab in auto)
qed

lemma places_set_pde:
  assumes "vm_ok apics D F s" "d \<in> D" "512 \<le> i" "i < 1024"
  shows "places apics D (s\<lparr>mem := (mem s)(entry d i := e)\<rparr>) x
    = (case x of Tab d' i' \<Rightarrow> if d' = d \<and> i' = i then entry_frame e else places apics D s x
       | Page d' i' j \<Rightarrow> if d' = d \<and> i' = i
           then (if j < 1024 \<and> safe apics i j then (case entry_frame e of None \<Rightarrow> None | Some t \<Rightarrow> frame_at (s\<lparr>mem := (mem s)(entry d i := e)\<rparr>) t j) else None)
           else places apics D s x
       | Dir d' \<Rightarrow> places apics D s x)" (is "places apics D ?s x = _")
proof -
  have d: "pm_offset d = 0" using vm_ok_dir[OF assms(1,2)] by (simp add: in_use_def)
  have tab: "table_at D ?s d' i' = (if d' = d \<and> i' = i then entry_frame e else table_at D s d' i')" for d' i'
  proof (cases "d' \<in> D \<and> 512 \<le> i' \<and> i' < 1024")
    case True
    then have d': "pm_offset d' = 0" using vm_ok_dir[OF assms(1)] by (simp add: in_use_def)
    have "entry d' i' = entry d i \<longleftrightarrow> d' = d \<and> i' = i"
      using entry_page[OF d' , of i'] entry_page[OF d assms(4)] entry_inj[OF d _ assms(4), of i'] True by metis
    then show ?thesis using True by (simp add: table_at_def frame_at_entry)
  qed (use assms in \<open>auto simp: table_at_def\<close>)
  have same: "frame_at ?s t j = frame_at s t j" if "table_at D s d' i' = Some t" "j < 1024" for d' i' t j
  proof -
    have "t \<noteq> d" using vm_ok_inj[OF assms(1), of "Dir d" d "Tab d' i'"] assms(2) that by auto
    moreover have "pm_offset t = 0" using vm_ok_table[OF assms(1) that(1)] by (simp add: in_use_def)
    ultimately have "entry t j \<noteq> entry d i" using entry_page[OF _ that(2), of t] entry_page[OF d assms(4)] by metis
    then show ?thesis by (simp add: frame_at_entry)
  qed
  show ?thesis using tab same by (auto split: place.split option.split)
qed

lemma vm_ok_places:
  assumes "vm_ok apics D F s" "free_ok F s'" "\<And>q. in_use F s' q = in_use F s q"
    and "\<And>y q. places apics D s' y = Some q \<Longrightarrow> y \<noteq> x \<Longrightarrow> places apics D s y = Some q"
    and "\<And>q. places apics D s' x = Some q \<Longrightarrow> in_use F s q \<and> (\<forall>y. y \<noteq> x \<longrightarrow> places apics D s y \<noteq> Some q)"
  shows "vm_ok apics D F s'"
  unfolding vm_ok_def
proof (intro conjI allI impI)
  fix y q assume "places apics D s' y = Some q"
  then show "in_use F s' q" using vm_ok_use[OF assms(1)] assms(3)[of q] assms(4)[of y q] assms(5)[of q]
    by (cases "y = x") blast+
next
  fix y z q assume yz: "places apics D s' y = Some q" "places apics D s' z = Some q"
  show "y = z"
  proof (rule ccontr)
    assume ne: "y \<noteq> z"
    show False
    proof (cases "y = x \<or> z = x")
      case True
      with ne yz assms(4,5) show False by metis
    next
      case False
      with yz assms(4) vm_ok_inj[OF assms(1)] ne show False by metis
    qed
  qed
qed (rule assms(2))

text \<open>A word of a frame in use lies outside the free list.\<close>

lemma entry_not_free:
  assumes "vm_ok apics D F s" "in_use F s t" "j < 1024"
  shows "free_ok F (s\<lparr>mem := (mem s)(entry t j := e)\<rparr>)" "in_use F (s\<lparr>mem := (mem s)(entry t j := e)\<rparr>) q = in_use F s q"
proof -
  have "entry t j \<noteq> p" if "p \<in> set F" for p
  proof -
    have "pm_offset p = 0" using assms(1) that by (simp add: vm_ok_def free_ok_def)
    then have "page_mask p = p" by (rule aligned_page_mask)
    moreover have "page_mask (entry t j) = t" using assms(2,3) by (simp add: in_use_def)
    ultimately show ?thesis using that assms(2) by (auto simp: in_use_def)
  qed
  then show "free_ok F (s\<lparr>mem := (mem s)(entry t j := e)\<rparr>)"
    using assms(1) by (intro free_ok_frame) (auto simp: vm_ok_def)
  show "in_use F (s\<lparr>mem := (mem s)(entry t j := e)\<rparr>) q = in_use F s q" by (simp add: in_use_def fresh_frame_def)
qed

lemma set_page:
  assumes "vm_ok apics D F s" "table_at D s d i = Some t" "j < 1024" "safe apics i j"
    and "in_use F s p" "\<And>x. places apics D s x \<noteq> Some p"
  shows "vm_ok apics D F (s\<lparr>mem := (mem s)(entry t j := p OR 7)\<rparr>)
    \<and> places apics D (s\<lparr>mem := (mem s)(entry t j := p OR 7)\<rparr>) = (places apics D s)(Page d i j := Some p)"
proof -
  have p: "pm_offset p = 0" using assms(5) by (simp add: in_use_def)
  have pl: "places apics D (s\<lparr>mem := (mem s)(entry t j := p OR 7)\<rparr>) = (places apics D s)(Page d i j := Some p)"
    unfolding places_set_pte[OF assms(1-3)] using assms(4) p by (simp add: entry_frame_def)
  note t = vm_ok_table[OF assms(1,2)]
  have "vm_ok apics D F (s\<lparr>mem := (mem s)(entry t j := p OR 7)\<rparr>)"
    by (rule vm_ok_places[OF assms(1) entry_not_free[OF assms(1) t assms(3)], of _ "Page d i j"])
      (use assms(5,6) in \<open>auto simp: pl\<close>)
  with pl show ?thesis by blast
qed

lemma clear_page:
  assumes "vm_ok apics D F s" "table_at D s d i = Some t" "j < 1024"
  shows "vm_ok apics D F (s\<lparr>mem := (mem s)(entry t j := 0)\<rparr>)
    \<and> places apics D (s\<lparr>mem := (mem s)(entry t j := 0)\<rparr>) = (places apics D s)(Page d i j := None)"
proof -
  have pl: "places apics D (s\<lparr>mem := (mem s)(entry t j := 0)\<rparr>) = (places apics D s)(Page d i j := None)"
    unfolding places_set_pte[OF assms] by (simp add: entry_frame_def)
  note t = vm_ok_table[OF assms(1,2)]
  have "vm_ok apics D F (s\<lparr>mem := (mem s)(entry t j := 0)\<rparr>)"
    by (rule vm_ok_places[OF assms(1) entry_not_free[OF assms(1) t assms(3)], of _ "Page d i j"])
      (auto simp: pl split: if_splits)
  with pl show ?thesis by blast
qed

lemma set_table:
  assumes "vm_ok apics D F s" "d \<in> D" "512 \<le> i" "i < 1024" "table_at D s d i = None"
    and "in_use F s p" "\<And>x. places apics D s x \<noteq> Some p" "\<And>a. page_mask a = p \<Longrightarrow> mem s a = 0"
  shows "vm_ok apics D F (s\<lparr>mem := (mem s)(entry d i := p OR 7)\<rparr>)
    \<and> places apics D (s\<lparr>mem := (mem s)(entry d i := p OR 7)\<rparr>) = (places apics D s)(Tab d i := Some p)"
proof -
  have p: "pm_offset p = 0" using assms(6) by (simp add: in_use_def)
  note d = vm_ok_dir[OF assms(1,2)]
  have "p \<noteq> d" using assms(7)[of "Dir d"] assms(2) by auto
  then have "entry p j \<noteq> entry d i" if "j < 1024" for j
    using entry_page[OF p that] entry_page[of d i] d assms(4) by (metis in_useD(1))
  then have z: "frame_at (s\<lparr>mem := (mem s)(entry d i := p OR 7)\<rparr>) p j = None" if "j < 1024" for j
    using that assms(8)[of "entry p j"] p by (simp add: frame_at_entry entry_frame_def)
  have "places apics D (s\<lparr>mem := (mem s)(entry d i := p OR 7)\<rparr>) x = ((places apics D s)(Tab d i := Some p)) x" for x
    unfolding places_set_pde[OF assms(1-4)] using p z assms(5) by (auto simp: entry_frame_def split: place.split)
  then have pl: "places apics D (s\<lparr>mem := (mem s)(entry d i := p OR 7)\<rparr>) = (places apics D s)(Tab d i := Some p)" by blast
  have "vm_ok apics D F (s\<lparr>mem := (mem s)(entry d i := p OR 7)\<rparr>)"
    by (rule vm_ok_places[OF assms(1) entry_not_free[OF assms(1) d assms(4)], of _ "Tab d i"])
      (use assms(6,7) in \<open>auto simp: pl simp del: places.simps\<close>)
  with pl show ?thesis by blast
qed

subsection \<open>What a process sees\<close>

text \<open>The processor's walk of the page tables, and the word a process reads at an address of its own half.\<close>

definition translate :: "vm \<Rightarrow> u32 \<Rightarrow> u32 \<Rightarrow> u32 option" where
  "translate s pd va =
     (case frame_at s pd (pdi_of va) of
        None \<Rightarrow> None
      | Some t \<Rightarrow> map_option (\<lambda>p. p OR pm_offset va) (frame_at s t (pti_of va)))"

definition user_va :: "apics \<Rightarrow> u32 \<Rightarrow> bool" where
  "user_va apics va \<longleftrightarrow> 0x80000000 \<le> va \<and> page_mask va \<noteq> fst apics \<and> page_mask va \<noteq> snd apics"

definition user_word :: "apics \<Rightarrow> vm \<Rightarrow> u32 \<Rightarrow> u32 \<Rightarrow> u32 option" where
  "user_word apics s pd va = (if user_va apics va then map_option (mem s) (translate s pd va) else None)"

lemma get_va_of: "get_va (pdi_of va) (pti_of va) = page_mask va"
proof (rule bit_word_eqI)
  fix n assume n: "n < LENGTH(32)"
  have m: "(0x3FF :: u32) = mask 10" by (simp add: mask_eq_exp_minus_1)
  show "bit (get_va (pdi_of va) (pti_of va)) n = bit (page_mask va) n"
  proof (cases "22 \<le> n")
    case True
    then have "22 + (n - 22) = n" by simp
    with True n show ?thesis unfolding get_va_def pdi_of_def pti_of_def m
      by (auto simp: bit_or_iff bit_and_iff bit_push_bit_iff bit_drop_bit_eq bit_mask_iff page_mask_bits)
  next
    case False
    then show ?thesis using n unfolding get_va_def pdi_of_def pti_of_def m
      by (auto simp: bit_or_iff bit_and_iff bit_push_bit_iff bit_drop_bit_eq bit_mask_iff page_mask_bits)
  qed
qed

lemma pti_small: "pti_of va < 1024"
proof -
  have "(0x3FF :: u32) = mask 10" by (simp add: mask_eq_exp_minus_1)
  then have "unat (pti_of va) < 1024" unfolding pti_of_def by (simp only: unat_and_mask) simp
  then show ?thesis by (simp add: word_less_nat_alt)
qed

lemma pdi_small: "pdi_of va < 1024"
  using unsigned_less[of va, where 'a = nat] by (simp add: pdi_of_def word_less_nat_alt unat_shiftr)

lemma pdi_user: "512 \<le> pdi_of va \<longleftrightarrow> 0x80000000 \<le> va"
proof -
  have "(512 :: nat) \<le> unat va div 4194304 \<longleftrightarrow> 512 * 4194304 \<le> unat va" by (rule less_eq_div_iff_mult_less_eq) simp
  then show ?thesis by (simp add: pdi_of_def word_le_nat_alt unat_shiftr)
qed

lemma user_word_places:
  assumes "d \<in> D"
  shows "user_word apics s d va
    = map_option (\<lambda>p. mem s (p OR pm_offset va)) (places apics D s (Page d (pdi_of va) (pti_of va)))"
  using assms pti_small[of va] pdi_small[of va]
  by (auto simp: user_word_def user_va_def translate_def safe_def get_va_of table_at_def pdi_user option.map_comp comp_def
      split: option.split)

lemma user_word_cong:
  assumes "d \<in> D" "places apics D s' (Page d (pdi_of va) (pti_of va)) = places apics D s (Page d (pdi_of va) (pti_of va))"
    and "\<And>p. places apics D s (Page d (pdi_of va) (pti_of va)) = Some p \<Longrightarrow> mem s' (p OR pm_offset va) = mem s (p OR pm_offset va)"
  shows "user_word apics s' d va = user_word apics s d va"
  unfolding user_word_places[OF assms(1)] using assms(2,3) by (auto simp del: places.simps intro: map_option_cong)

end
