(* ===== verification/VmmFork.thy ===== *)
theory VmmFork
  imports VmmRep
begin

text \<open>
  The copy of an address space on \<open>fork\<close>: each step adds one copied page and keeps the rest.
\<close>

subsection \<open>Copying an address space\<close>

text \<open>A page frame keeps its contents when nothing in it is written.\<close>

definition content :: "vm \<Rightarrow> u32 \<Rightarrow> u32 \<Rightarrow> u32" where
  "content s p a = mem s (p OR pm_offset a)"

lemma content_other:
  assumes "pm_offset p = 0" "\<And>a. page_mask a = p \<Longrightarrow> mem s' a = mem s a"
  shows "content s' p = content s p"
  unfolding content_def using assms by (simp add: page_mask_or)

lemma make_entry_ok:
  assumes "vm_ok apics D F s" "in_use F s t" "make_entry t j s = Some (p, s')" "j < 1024"
  shows "\<exists>F' s1. vm_ok apics D F' s1 \<and> places apics D s1 = places apics D s \<and> in_use F' s1 p \<and> \<not> in_use F s p
    \<and> (\<forall>q. in_use F s q \<longrightarrow> in_use F' s1 q) \<and> mem s1 = clear_frame p (mem s) \<and> s' = s1\<lparr>mem := (mem s1)(entry t j := p OR 7)\<rparr>"
proof -
  obtain p1 s1 where a: "alloc_frame s = Some (p1, s1)" using assms(3) by (auto simp: make_entry_def split: option.splits)
  then have al: "pm_offset p1 = 0" by (auto simp: alloc_frame_def split: if_splits)
  with a assms(3) have "p = p1" "s' = s1\<lparr>mem := (mem s1)(entry t j := p OR 7)\<rparr>" by (auto simp: make_entry_def Let_def)
  with alloc_frame_ok[OF assms(1) a] show ?thesis by blast
qed

text \<open>A new page: where it is, what it holds, and that all other pages keep their contents.\<close>

lemma make_page:
  assumes "vm_ok apics D F s" "table_at D s d i = Some t" "j < 1024" "safe apics i j" "make_entry t j s = Some (p, s')"
  shows "(\<exists>F'. vm_ok apics D F' s') \<and> places apics D s' = (places apics D s)(Page d i j := Some p)
    \<and> (\<forall>x. places apics D s x \<noteq> Some p) \<and> pm_offset p = 0 \<and> content s' p = (\<lambda>_. 0)
    \<and> (\<forall>q. pm_offset q = 0 \<longrightarrow> q \<noteq> p \<longrightarrow> q \<noteq> t \<longrightarrow> content s' q = content s q)"
proof -
  note t = vm_ok_table[OF assms(1,2)]
  obtain F' s1 where s1: "vm_ok apics D F' s1" "places apics D s1 = places apics D s" "in_use F' s1 p" "\<not> in_use F s p"
    "mem s1 = clear_frame p (mem s)" "s' = s1\<lparr>mem := (mem s1)(entry t j := p OR 7)\<rparr>"
    using make_entry_ok[OF assms(1) t assms(5,3)] by blast
  have no: "places apics D s x \<noteq> Some p" for x using vm_ok_use[OF assms(1)] s1(4) by blast
  have tab: "table_at D s1 d i = Some t" using assms(2) fun_cong[OF s1(2), of "Tab d i"] by simp
  have pl: "vm_ok apics D F' s' \<and> places apics D s' = (places apics D s1)(Page d i j := Some p)"
    unfolding s1(6) by (rule set_page[OF s1(1) tab assms(3,4) s1(3)]) (use no s1(2) in auto)
  have p: "pm_offset p = 0" "pm_offset t = 0" using s1(3) t by (simp_all add: in_use_def)
  have pt: "p \<noteq> t" using s1(4) t by blast
  have pg: "page_mask (entry t j) = t" using p(2) assms(3) by simp
  have "content s' p = (\<lambda>_. 0)"
  proof
    fix a
    have "page_mask (p OR pm_offset a) = p" by (rule page_mask_or[OF p(1)])
    then show "content s' p a = 0" using pg pt unfolding content_def s1(5,6) by (auto simp: clear_frame_def)
  qed
  moreover have "content s' q = content s q" if "pm_offset q = 0" "q \<noteq> p" "q \<noteq> t" for q
  proof (rule content_other[OF that(1)])
    fix a assume "page_mask a = q"
    then show "mem s' a = mem s a" using that pg unfolding s1(5,6) by (auto simp: clear_frame_def)
  qed
  ultimately show ?thesis using pl s1(2) no p(1) by metis
qed

text \<open>A new table, all of whose entries are empty.\<close>

lemma make_table:
  assumes "vm_ok apics D F s" "d \<in> D" "512 \<le> i" "i < 1024" "table_at D s d i = None" "make_entry d i s = Some (p, s')"
  shows "(\<exists>F'. vm_ok apics D F' s') \<and> places apics D s' = (places apics D s)(Tab d i := Some p)
    \<and> (\<forall>x. places apics D s x \<noteq> Some p) \<and> (\<forall>q. pm_offset q = 0 \<longrightarrow> q \<noteq> p \<longrightarrow> q \<noteq> d \<longrightarrow> content s' q = content s q)"
proof -
  note d = vm_ok_dir[OF assms(1,2)]
  obtain F' s1 where s1: "vm_ok apics D F' s1" "places apics D s1 = places apics D s" "in_use F' s1 p" "\<not> in_use F s p"
    "mem s1 = clear_frame p (mem s)" "s' = s1\<lparr>mem := (mem s1)(entry d i := p OR 7)\<rparr>"
    using make_entry_ok[OF assms(1) d assms(6,4)] by blast
  have no: "places apics D s x \<noteq> Some p" for x using vm_ok_use[OF assms(1)] s1(4) by blast
  have tab: "table_at D s1 d i = None" using assms(5) fun_cong[OF s1(2), of "Tab d i"] by simp
  have pl: "vm_ok apics D F' s' \<and> places apics D s' = (places apics D s1)(Tab d i := Some p)"
    unfolding s1(6) by (rule set_table[OF s1(1) assms(2-4) tab s1(3)]) (use no s1(2,5) in \<open>auto simp: clear_frame_def\<close>)
  have pg: "page_mask (entry d i) = d" using d assms(4) by (simp add: in_use_def)
  have "content s' q = content s q" if "pm_offset q = 0" "q \<noteq> p" "q \<noteq> d" for q
  proof (rule content_other[OF that(1)])
    fix a assume "page_mask a = q"
    then show "mem s' a = mem s a" using that pg unfolding s1(5,6) by (auto simp: clear_frame_def)
  qed
  then show ?thesis using pl s1(2) no by metis
qed

text \<open>How far a copy has got: the pages in \<open>done\<close> are copies, those not in it are not there yet.\<close>

fun owner :: "place \<Rightarrow> u32" where
  "owner (Dir d) = d"
| "owner (Tab d i) = d"
| "owner (Page d i j) = d"

fun is_page :: "place \<Rightarrow> bool" where
  "is_page (Page d i j) = True"
| "is_page _ = False"

definition copy_at :: "apics \<Rightarrow> u32 set \<Rightarrow> vm \<Rightarrow> u32 \<Rightarrow> vm \<Rightarrow> u32 \<Rightarrow> u32 \<Rightarrow> u32 \<Rightarrow> bool" where
  "copy_at apics D s0 from s to i j \<longleftrightarrow>
     (case places apics D s0 (Page from i j) of
        None \<Rightarrow> places apics D s (Page to i j) = None
      | Some q \<Rightarrow> (\<exists>p. places apics D s (Page to i j) = Some p \<and> content s p = content s0 q))"

definition copying :: "apics \<Rightarrow> u32 set \<Rightarrow> vm \<Rightarrow> u32 \<Rightarrow> u32 \<Rightarrow> (u32 \<times> u32) set \<Rightarrow> vm \<Rightarrow> bool" where
  "copying apics D s0 from to done s \<longleftrightarrow> (\<exists>F. vm_ok apics D F s)
     \<and> (\<forall>x. owner x \<noteq> to \<longrightarrow> places apics D s x = places apics D s0 x)
     \<and> (\<forall>x p. owner x \<noteq> to \<longrightarrow> is_page x \<longrightarrow> places apics D s0 x = Some p \<longrightarrow> content s p = content s0 p)
     \<and> (\<forall>i j. if (i, j) \<in> done then copy_at apics D s0 from s to i j else places apics D s (Page to i j) = None)"

lemma copyingD:
  assumes "copying apics D s0 from to done s"
  shows "\<exists>F. vm_ok apics D F s" "owner x \<noteq> to \<Longrightarrow> places apics D s x = places apics D s0 x"
    "owner x \<noteq> to \<Longrightarrow> is_page x \<Longrightarrow> places apics D s0 x = Some p \<Longrightarrow> content s p = content s0 p"
    "(i, j) \<in> done \<Longrightarrow> copy_at apics D s0 from s to i j" "(i, j) \<notin> done \<Longrightarrow> places apics D s (Page to i j) = None"
  using assms unfolding copying_def by (blast, blast, blast, meson, meson)

text \<open>A step that adds at most one page to \<open>to\<close> and keeps the contents of all other pages.\<close>

lemma copying_update:
  assumes "copying apics D s0 from to done s" "vm_ok apics D F s'"
    and "\<And>x. is_page x \<Longrightarrow> x \<noteq> Page to i j \<Longrightarrow> places apics D s' x = places apics D s x"
    and "\<And>x. owner x \<noteq> to \<Longrightarrow> places apics D s' x = places apics D s x"
    and "\<And>x p. is_page x \<Longrightarrow> places apics D s x = Some p \<Longrightarrow> content s' p = content s p"
    and "copy_at apics D s0 from s' to i j" "(i, j) \<notin> done"
  shows "copying apics D s0 from to (insert (i, j) done) s'"
  unfolding copying_def
proof (intro conjI allI impI)
  note c = copyingD[OF assms(1)]
  show "\<exists>F. vm_ok apics D F s'" using assms(2) by blast
  show "places apics D s' x = places apics D s0 x" if "owner x \<noteq> to" for x
    using assms(4)[OF that] c(2)[OF that] by simp
  show "content s' p = content s0 p" if "owner x \<noteq> to" "is_page x" "places apics D s0 x = Some p" for x p
    using assms(5)[OF that(2)] c(2)[OF that(1)] c(3)[OF that] that(3) by simp
  show "if (i', j') \<in> insert (i, j) done then copy_at apics D s0 from s' to i' j' else places apics D s' (Page to i' j') = None" for i' j'
  proof (cases "(i', j') = (i, j)")
    case False
    then have pl: "places apics D s' (Page to i' j') = places apics D s (Page to i' j')" by (intro assms(3)) auto
    show ?thesis
    proof (cases "(i', j') \<in> done")
      case True
      from c(4)[OF this] pl assms(5)[of "Page to i' j'"] show ?thesis
        using True unfolding copy_at_def by (auto simp del: places.simps split: option.splits)
    next
      case not_done: False
      with c(5)[OF this] pl False show ?thesis by (auto simp del: places.simps)
    qed
  qed (use assms(6) in simp)
qed

lemma copy_pte_copies:
  assumes "copying apics D s0 from to done s" "from \<noteq> to" "table_at D s from i = Some tf" "table_at D s to i = Some tt"
    and "j < 1024" "(i, j) \<notin> done" "copy_pte apics i tf tt j s = Some s'"
  shows "copying apics D s0 from to (insert (i, j) done) s' \<and> table_at D s' from i = Some tf \<and> table_at D s' to i = Some tt"
proof -
  note c = copyingD[OF assms(1)]
  obtain F where ok: "vm_ok apics D F s" using c(1) by blast
  have src: "places apics D s (Page from i j) = (if safe apics i j then entry_frame (mem s (entry tf j)) else None)"
    using assms(3,5) by (simp add: frame_at_entry)
  have src0: "places apics D s0 (Page from i j) = places apics D s (Page from i j)"
    using c(2)[of "Page from i j"] assms(2) by simp
  show ?thesis
  proof (cases "present (mem s (entry tf j)) \<and> safe apics i j")
    case False
    then have "s' = s" "places apics D s (Page from i j) = None" using assms(7) src by (auto simp: copy_pte_def entry_frame_def)
    then have "copy_at apics D s0 from s' to i j" using src0 c(5)[OF assms(6)] unfolding copy_at_def by simp
    then show ?thesis
      using copying_update[OF assms(1), of F s' i j] ok assms(3,4,6) \<open>s' = s\<close> by simp
  next
    case True
    define q where "q = page_mask (mem s (entry tf j))"
    have q: "places apics D s (Page from i j) = Some q" using True src by (simp add: entry_frame_def q_def)
    obtain p s1 where mk: "make_entry tt j s = Some (p, s1)" and s': "s' = s1\<lparr>mem := copy_frame p q (mem s1)\<rparr>"
      using assms(7) True by (auto simp: copy_pte_def q_def split: option.splits)
    from make_page[OF ok assms(4,5) _ mk] True obtain F' where
      m: "vm_ok apics D F' s1" "places apics D s1 = (places apics D s)(Page to i j := Some p)" "\<forall>x. places apics D s x \<noteq> Some p"
      "pm_offset p = 0" "\<forall>r. pm_offset r = 0 \<longrightarrow> r \<noteq> p \<longrightarrow> r \<noteq> tt \<longrightarrow> content s1 r = content s r" by blast
    have placed: "places apics D s1 (Page to i j) = Some p" using m(2) by simp
    have inF: "p \<notin> set F'" using vm_ok_use[OF m(1) placed] by (simp add: in_use_def)
    have nodir: "p \<noteq> d \<or> d \<notin> D" for d using m(3)[rule_format, of "Dir d"] by auto
    have notab: "table_at D s1 d k \<noteq> Some p" for d k
      using vm_ok_inj[OF m(1) placed, of "Tab d k"] by auto
    have v: "vm_ok apics D F' s' \<and> places apics D s' = places apics D s1"
      unfolding s' by (rule vm_ok_memory[OF m(1) _ inF nodir notab]) (simp add: copy_frame_def split: if_splits)
    have other: "content s' r = content s1 r" if "pm_offset r = 0" "r \<noteq> p" for r
      using that by (intro content_other) (simp_all add: s' copy_frame_def)
    have page: "content s' r = content s r" if "is_page x" "places apics D s x = Some r" for x r
    proof -
      have "x \<noteq> Tab to i" using that(1) by auto
      then have "r \<noteq> tt" using vm_ok_inj[OF ok that(2), of "Tab to i"] assms(4) by auto
      moreover have "r \<noteq> p" using m(3) that(2) by auto
      moreover have "pm_offset r = 0" using vm_ok_use[OF ok that(2)] by (simp add: in_use_def)
      ultimately show ?thesis using other m(5) by simp
    qed
    have "content s' p = content s0 q"
    proof
      fix a
      have "content s' p a = content s1 q a"
        unfolding content_def s' using m(4) by (simp add: copy_frame_def page_mask_or pm_offset_or)
      moreover have "q \<noteq> p" "q \<noteq> tt" "pm_offset q = 0"
        using m(3) q vm_ok_inj[OF ok q, of "Tab to i"] assms(4) vm_ok_use[OF ok q] by (auto simp: in_use_def simp del: places.simps(3))
      ultimately have "content s' p a = content s q a" using m(5) by simp
      moreover have "content s q = content s0 q" using c(3)[of "Page from i j" q] assms(2) q src0 by simp
      ultimately show "content s' p a = content s0 q a" by simp
    qed
    then have new: "copy_at apics D s0 from s' to i j"
      using v placed q src0 unfolding copy_at_def by (simp del: places.simps)
    have upd: "places apics D s' = (places apics D s)(Page to i j := Some p)" using v m(2) by simp
    have "copying apics D s0 from to (insert (i, j) done) s'"
      by (rule copying_update[OF assms(1) conjunct1[OF v] _ _ page new assms(6)]) (auto simp: upd simp del: places.simps)
    moreover have "table_at D s' d k = table_at D s d k" for d k
      using fun_cong[OF upd, of "Tab d k"] by simp
    ultimately show ?thesis using assms(3,4) by simp
  qed
qed

lemma copy_ptes:
  assumes "copying apics D s0 from to done s" "from \<noteq> to" "table_at D s from i = Some tf" "table_at D s to i = Some tt"
    and "\<forall>j \<in> set js. j < 1024 \<and> (i, j) \<notin> done" "distinct js" "for_each (copy_pte apics i tf tt) js s = Some s'"
  shows "copying apics D s0 from to (done \<union> {i} \<times> set js) s'"
  using assms(1,3-)
proof (induction js arbitrary: "done" s)
  case (Cons j js)
  obtain s1 where s1: "copy_pte apics i tf tt j s = Some s1" "for_each (copy_pte apics i tf tt) js s1 = Some s'"
    using Cons.prems(6) by (auto split: option.splits)
  from copy_pte_copies[OF Cons.prems(1) assms(2) Cons.prems(2,3) _ _ s1(1)] Cons.prems(4)
  have c: "copying apics D s0 from to (insert (i, j) done) s1" "table_at D s1 from i = Some tf" "table_at D s1 to i = Some tt" by auto
  from Cons.IH[OF c _ _ s1(2)] Cons.prems(4,5)
  have "copying apics D s0 from to (insert (i, j) done \<union> {i} \<times> set js) s'" by auto
  moreover have "insert (i, j) done \<union> {i} \<times> set js = done \<union> {i} \<times> set (j # js)" by auto
  ultimately show ?case by simp
qed simp

lemma copying_new_table:
  assumes "copying apics D s0 from to done s" "to \<in> D" "512 \<le> i" "i < 1024" "table_at D s to i = None"
    and "make_entry to i s = Some (p, s')" "(i, j) \<notin> done"
  shows "copying apics D s0 from to done s' \<and> table_at D s' to i = Some p"
proof -
  obtain F where ok: "vm_ok apics D F s" using copyingD(1)[OF assms(1)] by blast
  from make_table[OF ok assms(2-6)] obtain F' where m: "vm_ok apics D F' s'"
    "places apics D s' = (places apics D s)(Tab to i := Some p)" "\<forall>x. places apics D s x \<noteq> Some p"
    "\<forall>q. pm_offset q = 0 \<longrightarrow> q \<noteq> p \<longrightarrow> q \<noteq> to \<longrightarrow> content s' q = content s q" by blast
  have page: "content s' r = content s r" if "is_page x" "places apics D s x = Some r" for x r
  proof -
    have "r \<noteq> to" using vm_ok_inj[OF ok that(2), of "Dir to"] assms(2) that(1) by auto
    moreover have "r \<noteq> p" using m(3) that(2) by auto
    moreover have "pm_offset r = 0" using vm_ok_use[OF ok that(2)] by (simp add: in_use_def)
    ultimately show ?thesis using m(4) by simp
  qed
  have pl: "places apics D s' x = places apics D s x" if "x \<noteq> Tab to i" for x using that m(2) by simp
  note c = copyingD[OF assms(1)]
  have "copying apics D s0 from to done s'"
    unfolding copying_def
  proof (intro conjI allI impI)
    show "\<exists>F. vm_ok apics D F s'" using m(1) by blast
    show "places apics D s' x = places apics D s0 x" if "owner x \<noteq> to" for x
    proof -
      have "x \<noteq> Tab to i" using that by auto
      with pl c(2)[OF that] show ?thesis by (simp del: places.simps)
    qed
    show "content s' p = content s0 p" if "owner x \<noteq> to" "is_page x" "places apics D s0 x = Some p" for x p
      using page[OF that(2)] c(2)[OF that(1)] c(3)[OF that] that(3) by simp
    show "if (i', j') \<in> done then copy_at apics D s0 from s' to i' j' else places apics D s' (Page to i' j') = None" for i' j'
    proof (cases "(i', j') \<in> done")
      case True
      from c(4)[OF this] pl[of "Page to i' j'"] page[of "Page to i' j'"] True show ?thesis
        unfolding copy_at_def by (auto simp del: places.simps split: option.splits)
    next
      case False
      with c(5)[OF this] pl[of "Page to i' j'"] show ?thesis by (simp del: places.simps)
    qed
  qed
  moreover have "table_at D s' to i = Some p" using fun_cong[OF m(2), of "Tab to i"] by simp
  ultimately show ?thesis by blast
qed

lemma table_at_present:
  "d \<in> D \<Longrightarrow> 512 \<le> i \<Longrightarrow> i < 1024 \<Longrightarrow>
    table_at D s d i = (if present (mem s (entry d i)) then Some (page_mask (mem s (entry d i))) else None)"
  by (simp add: table_at_def frame_at_def)

lemma index_of_nat: "k < 1024 \<Longrightarrow> unat (of_nat k :: u32) = k"
  by (simp add: unsigned_of_nat take_bit_nat_eq_self)

lemma index_inj: "inj_on (of_nat :: nat \<Rightarrow> u32) {0..<1024}"
  by (rule inj_on_inverseI[of _ unat]) (simp add: index_of_nat)

lemma all_ptis_set: "j \<in> set all_ptis \<longleftrightarrow> j < 1024" "distinct all_ptis"
proof -
  note u = index_of_nat
  show "j \<in> set all_ptis \<longleftrightarrow> j < 1024"
  proof
    assume "j < 1024"
    then have "unat j < 1024" "j = of_nat (unat j)" by (simp_all add: word_less_nat_alt)
    then show "j \<in> set all_ptis" unfolding all_ptis_def set_map set_upt by (intro image_eqI[of _ _ "unat j"]) auto
  next
    assume "j \<in> set all_ptis"
    then obtain k where "j = of_nat k" "k < 1024" unfolding all_ptis_def set_map set_upt by auto
    then show "j < 1024" using u by (simp add: word_less_nat_alt)
  qed
  show "distinct all_ptis" unfolding all_ptis_def distinct_map set_upt by (intro conjI distinct_upt index_inj)
qed

lemma user_pdis_set: "i \<in> set user_pdis \<longleftrightarrow> 512 \<le> i \<and> i < 1024" "distinct user_pdis"
proof -
  note u = index_of_nat
  show "i \<in> set user_pdis \<longleftrightarrow> 512 \<le> i \<and> i < 1024"
  proof
    assume "512 \<le> i \<and> i < 1024"
    then have "512 \<le> unat i \<and> unat i < 1024" "i = of_nat (unat i)" by (simp_all add: word_less_nat_alt word_le_nat_alt)
    then show "i \<in> set user_pdis" unfolding user_pdis_def set_map set_upt by (intro image_eqI[of _ _ "unat i"]) auto
  next
    assume "i \<in> set user_pdis"
    then obtain k where "i = of_nat k" "512 \<le> k" "k < 1024" unfolding user_pdis_def set_map set_upt by auto
    then show "512 \<le> i \<and> i < 1024" using u by (simp add: word_less_nat_alt word_le_nat_alt)
  qed
  show "distinct user_pdis" unfolding user_pdis_def distinct_map set_upt
    by (intro conjI distinct_upt inj_on_subset[OF index_inj] ivl_subset[THEN iffD2]) simp
qed

lemma copy_pde_copies:
  assumes "copying apics D s0 from to done s" "from \<noteq> to" "from \<in> D" "to \<in> D" "512 \<le> i" "i < 1024"
    and "\<forall>j. (i, j) \<notin> done" "copy_pde apics to from i s = Some s'"
  shows "copying apics D s0 from to (done \<union> {i} \<times> set all_ptis) s'"
proof -
  note tf = table_at_present[OF assms(3,5,6), of s] and tt = table_at_present[OF assms(4,5,6)]
  show ?thesis
  proof (cases "present (mem s (entry from i))")
    case False
    then have s': "s' = s" using assms(8) by (simp add: copy_pde_def)
    have none: "places apics D s0 (Page from i j) = None" for j
    proof -
      have "places apics D s (Page from i j) = None" using tf False by simp
      with copyingD(2)[OF assms(1), of "Page from i j"] assms(2) show ?thesis by (simp del: places.simps)
    qed
    have "if (i', j') \<in> done \<union> {i} \<times> set all_ptis then copy_at apics D s0 from s to i' j'
      else places apics D s (Page to i' j') = None" for i' j'
    proof (cases "(i', j') \<in> done")
      case True
      then show ?thesis using copyingD(4)[OF assms(1)] by simp
    next
      case False
      note n = copyingD(5)[OF assms(1) this]
      then have "copy_at apics D s0 from s to i j'" if "i' = i"
        using that none by (simp add: copy_at_def del: places.simps)
      with n False show ?thesis by (auto simp del: places.simps)
    qed
    then show ?thesis unfolding s' copying_def using copyingD(1,2,3)[OF assms(1)] by blast
  next
    case True
    define pf where "pf = page_mask (mem s (entry from i))"
    have f: "table_at D s from i = Some pf" using tf True by (simp add: pf_def)
    obtain s1 where s1: "copying apics D s0 from to done s1" "table_at D s1 from i = Some pf"
      "table_at D s1 to i = Some (page_mask (mem s1 (entry to i)))"
      "for_each (copy_pte apics i pf (page_mask (mem s1 (entry to i)))) all_ptis s1 = Some s'"
    proof (cases "present (mem s (entry to i))")
      case True
      with that[of s] assms(1,8) f tt[of s] \<open>present (mem s (entry from i))\<close> show ?thesis by (simp add: copy_pde_def pf_def)
    next
      case False
      then obtain p s1 where mk: "make_entry to i s = Some (p, s1)"
        and rest: "for_each (copy_pte apics i pf (page_mask (mem s1 (entry to i)))) all_ptis s1 = Some s'"
        using assms(8) True by (auto simp: copy_pde_def pf_def split: option.splits)
      have "table_at D s to i = None" using tt[of s] False by simp
      from copying_new_table[OF assms(1,4,5,6) this mk] assms(7)
      have c: "copying apics D s0 from to done s1" "table_at D s1 to i = Some p" by auto
      have "table_at D s1 from i = table_at D s from i"
        using copyingD(2)[OF assms(1), of "Tab from i"] copyingD(2)[OF c(1), of "Tab from i"] assms(2) by simp
      with c rest f tt[of s1] show ?thesis by (intro that[of s1]) (auto split: if_splits)
    qed
    show ?thesis
      by (rule copy_ptes[OF s1(1) assms(2) s1(2,3) _ all_ptis_set(2) s1(4)]) (use assms(7) all_ptis_set(1) in auto)
  qed
qed

lemma copy_pdes:
  assumes "copying apics D s0 from to done s" "from \<noteq> to" "from \<in> D" "to \<in> D"
    and "\<forall>i \<in> set is. 512 \<le> i \<and> i < 1024 \<and> (\<forall>j. (i, j) \<notin> done)" "distinct is" "for_each (copy_pde apics to from) is s = Some s'"
  shows "copying apics D s0 from to (done \<union> set is \<times> set all_ptis) s'"
  using assms(1,5-)
proof (induction "is" arbitrary: "done" s)
  case (Cons i "is")
  obtain s1 where s1: "copy_pde apics to from i s = Some s1" "for_each (copy_pde apics to from) is s1 = Some s'"
    using Cons.prems(4) by (auto split: option.splits)
  from copy_pde_copies[OF Cons.prems(1) assms(2-4) _ _ _ s1(1)] Cons.prems(2)
  have c: "copying apics D s0 from to (done \<union> {i} \<times> set all_ptis) s1" by auto
  from Cons.IH[OF c _ _ s1(2)] Cons.prems(2,3)
  have "copying apics D s0 from to (done \<union> {i} \<times> set all_ptis \<union> set is \<times> set all_ptis) s'" by auto
  moreover have "done \<union> {i} \<times> set all_ptis \<union> set is \<times> set all_ptis = done \<union> set (i # is) \<times> set all_ptis" by auto
  ultimately show ?case by simp
qed simp

lemma deep_copy:
  assumes "vm_ok apics D F s0" "from \<noteq> to" "from \<in> D" "to \<in> D" "\<And>i j. places apics D s0 (Page to i j) = None"
    and "deep_copy_mem apics to from s0 = Some s"
  shows "copying apics D s0 from to UNIV s"
proof -
  have start: "copying apics D s0 from to {} s0" using assms(1,5) unfolding copying_def by auto
  have c: "copying apics D s0 from to ({} \<union> set user_pdis \<times> set all_ptis) s"
    by (rule copy_pdes[OF start assms(2-4) _ user_pdis_set(2) assms(6)[unfolded deep_copy_mem_def]])
      (use user_pdis_set(1) in auto)
  have "copy_at apics D s0 from s to i j" for i j
  proof (cases "(i, j) \<in> set user_pdis \<times> set all_ptis")
    case True
    then show ?thesis using copyingD(4)[OF c] by simp
  next
    case False
    then have "\<not> (512 \<le> i \<and> i < 1024) \<or> \<not> j < 1024" using all_ptis_set(1) user_pdis_set(1) by auto
    then show ?thesis by (auto simp: copy_at_def table_at_def)
  qed
  with c show ?thesis unfolding copying_def by simp
qed

end
