(* ===== verification/VmmProps.thy ===== *)
theory VmmProps
  imports VmmFork
begin

text \<open>
  What processes see of their memory: copies on \<open>fork\<close>, isolated stores, page faults, and deletion.
\<close>

subsection \<open>Properties\<close>

text \<open>C6. A forked address space is a copy and shares nothing. If the child's directory has no pages yet and the copy
  succeeds, the child reads at every address of the user half what the parent reads there, nobody else's
  memory has changed, and every frame still has one place, so no later write of one process shows in another.\<close>

theorem fork_copies_memory:
  assumes "vm_ok apics D F s" "parent \<in> D" "child \<in> D" "parent \<noteq> child" "\<forall>i j. places apics D s (Page child i j) = None"
    and "deep_copy_mem apics child parent s = Some s'"
  shows "(\<exists>F'. vm_ok apics D F' s') \<and> user_word apics s' child va = user_word apics s parent va
    \<and> (d \<in> D \<and> d \<noteq> child \<longrightarrow> user_word apics s' d va = user_word apics s d va)"
proof -
  have c: "copying apics D s parent child UNIV s'" by (rule deep_copy[OF assms(1,4,2,3) _ assms(6)]) (use assms(5) in blast)
  note cd = copyingD[OF c]
  have "user_word apics s' child va = user_word apics s parent va"
    unfolding user_word_places[OF assms(3)] user_word_places[OF assms(2)]
    using cd(4)[of "pdi_of va" "pti_of va"] by (auto simp: copy_at_def content_def fun_eq_iff simp del: places.simps split: option.splits)
  moreover have "user_word apics s' d va = user_word apics s d va" if "d \<in> D" "d \<noteq> child"
  proof (rule user_word_cong[OF that(1)])
    let ?x = "Page d (pdi_of va) (pti_of va)"
    show "places apics D s' ?x = places apics D s ?x" using cd(2)[of ?x] that by (simp del: places.simps)
    show "mem s' (p OR pm_offset va) = mem s (p OR pm_offset va)" if p: "places apics D s ?x = Some p" for p
      using cd(3)[of ?x p] p \<open>d \<noteq> child\<close> by (simp add: content_def fun_eq_iff del: places.simps)
  qed
  ultimately show ?thesis using cd(1) by blast
qed

text \<open>Storing a word through a page of one process.\<close>

definition user_store :: "vm \<Rightarrow> u32 \<Rightarrow> u32 \<Rightarrow> u32 \<Rightarrow> vm option" where
  "user_store s pd va v = map_option (\<lambda>a. s\<lparr>mem := (mem s)(a := v)\<rparr>) (translate s pd va)"

lemma translate_places:
  assumes "d \<in> D" "user_va apics va"
  shows "translate s d va = map_option (\<lambda>p. p OR pm_offset va) (places apics D s (Page d (pdi_of va) (pti_of va)))"
  using assms pti_small[of va] pdi_small[of va]
  by (auto simp: user_va_def translate_def safe_def get_va_of table_at_def pdi_user split: option.split)

lemma same_page_va: "pdi_of va = pdi_of va' \<Longrightarrow> pti_of va = pti_of va' \<Longrightarrow> pm_offset va = pm_offset va' \<Longrightarrow> va = va'"
  using get_va_of[of va] get_va_of[of va'] page_split[of va] page_split[of va'] by simp

text \<open>Address spaces are isolated. A process that stores a word at an address of its own half changes that word
  for itself and nothing else: not its other words, not another process, not the page tables or the free frames.\<close>

theorem user_store_isolated:
  assumes "vm_ok apics D F s" "d \<in> D" "user_va apics va" "user_store s d va v = Some s'" "d' \<in> D"
  shows "vm_ok apics D F s' \<and> user_word apics s' d' va' = (if d' = d \<and> va' = va then Some v else user_word apics s d' va')"
proof -
  let ?x = "Page d (pdi_of va) (pti_of va)" and ?y = "Page d' (pdi_of va') (pti_of va')"
  obtain p where p: "places apics D s ?x = Some p" and s': "s' = s\<lparr>mem := (mem s)(p OR pm_offset va := v)\<rparr>"
    using assms(4) translate_places[OF assms(2,3)] by (auto simp: user_store_def simp del: places.simps)
  note use = vm_ok_use[OF assms(1) p]
  then have al: "pm_offset p = 0" "p \<notin> set F" by (simp_all add: in_use_def)
  have ok: "vm_ok apics D F s' \<and> places apics D s' = places apics D s"
    unfolding s'
  proof (rule vm_ok_memory[OF assms(1) _ al(2)])
    show "page_mask a = p" if "((mem s)(p OR pm_offset va := v)) a \<noteq> mem s a" for a
      using that al(1) by (auto simp: page_mask_or split: if_splits)
    show "p \<noteq> d \<or> d \<notin> D" for d using vm_ok_inj[OF assms(1) p, of "Dir d"] by auto
    show "table_at D s d i \<noteq> Some p" for d i using vm_ok_inj[OF assms(1) p, of "Tab d i"] by auto
  qed
  have pl: "places apics D s' ?y = places apics D s ?y" using ok by simp
  show ?thesis
  proof (cases "d' = d \<and> va' = va")
    case True
    then show ?thesis using ok p unfolding user_word_places[OF assms(5)] by (simp add: s' del: places.simps)
  next
    case False
    have "mem s' (q OR pm_offset va') = mem s (q OR pm_offset va')" if q: "places apics D s ?y = Some q" for q
    proof -
      have qa: "pm_offset q = 0" using vm_ok_use[OF assms(1) q] by (simp add: in_use_def)
      have "q OR pm_offset va' \<noteq> p OR pm_offset va"
      proof
        assume eq: "q OR pm_offset va' = p OR pm_offset va"
        then have "q = p" "pm_offset va' = pm_offset va"
          using page_mask_or[OF qa, of va'] page_mask_or[OF al(1), of va] pm_offset_or[OF qa, of va'] pm_offset_or[OF al(1), of va] by auto
        from this(1) have "?y = ?x" using vm_ok_inj[OF assms(1) q] p by blast
        with \<open>pm_offset va' = pm_offset va\<close> False same_page_va[of va' va] show False by simp
      qed
      then show ?thesis by (simp add: s')
    qed
    with False user_word_cong[OF assms(5) pl] ok show ?thesis by auto
  qed
qed

lemma framedown_page_mask: "framedown a = page_mask a"
proof -
  have "page_mask a = push_bit 12 (drop_bit 12 a)"
    by (rule bit_word_eqI) (auto simp: page_mask_bits bit_push_bit_iff bit_drop_bit_eq)
  moreover have "push_bit 12 (drop_bit 12 a) = a div FRAME_SIZE * FRAME_SIZE"
    by (simp add: push_bit_eq_mult drop_bit_eq_div FRAME_SIZE_def)
  ultimately show ?thesis by (simp add: framedown_def)
qed

text \<open>Mapping a fresh page: the table is made if it is not there.\<close>

lemma map_page_ok:
  assumes "vm_ok apics D F s" "d \<in> D" "user_va apics va" "in_use F s p" "\<And>x. places apics D s x \<noteq> Some p"
    and "map_page d va p s = Some s'" "places apics D s (Page d (pdi_of va) (pti_of va)) = None"
  shows "(\<exists>F'. vm_ok apics D F' s') \<and> (\<forall>x. is_page x \<longrightarrow> places apics D s' x = ((places apics D s)(Page d (pdi_of va) (pti_of va) := Some p)) x)
    \<and> (\<forall>q. (q = p \<or> (\<exists>x. is_page x \<and> places apics D s x = Some q)) \<longrightarrow> content s' q = content s q)"
proof -
  let ?i = "pdi_of va" and ?j = "pti_of va"
  have i: "512 \<le> ?i" "?i < 1024" "?j < 1024" "safe apics ?i ?j"
    using assms(3) pdi_small pti_small by (auto simp: user_va_def pdi_user safe_def get_va_of)
  note tab = table_at_present[OF assms(2) i(1,2)]
  have p: "pm_offset p = 0" using assms(4) by (simp add: in_use_def)
  obtain F1 s1 t where s1: "vm_ok apics D F1 s1" "table_at D s1 d ?i = Some t" "in_use F1 s1 p"
    "\<And>x. places apics D s1 x \<noteq> Some p" "\<And>x. is_page x \<Longrightarrow> places apics D s1 x = places apics D s x"
    "\<And>q. (q = p \<or> (\<exists>x. is_page x \<and> places apics D s x = Some q)) \<Longrightarrow> content s1 q = content s q"
    and s': "s' = s1\<lparr>mem := (mem s1)(entry t ?j := p OR 7)\<rparr>"
  proof (cases "present (mem s (entry d ?i))")
    case True
    with assms(6) have "s' = s\<lparr>mem := (mem s)(entry (page_mask (mem s (entry d ?i))) ?j := p OR 7)\<rparr>"
      by (simp add: map_page_def Let_def)
    with that[of F s "page_mask (mem s (entry d ?i))"] assms(1,4,5) tab[of s] True show ?thesis by auto
  next
    case False
    then obtain t s0 where al: "alloc_frame s = Some (t, s0)"
      and s': "s' = s0\<lparr>mem := (mem s0)(entry d ?i := t OR 7, entry (page_mask (t OR 7)) ?j := p OR 7)\<rparr>"
      using assms(6) by (auto simp: map_page_def Let_def split: option.splits)
    obtain F1 where a: "vm_ok apics D F1 s0" "places apics D s0 = places apics D s" "in_use F1 s0 t" "\<not> in_use F s t"
      "\<forall>q. in_use F s q \<longrightarrow> in_use F1 s0 q" "mem s0 = clear_frame t (mem s)"
      using alloc_frame_ok[OF assms(1) al] by blast
    have t: "pm_offset t = 0" "t \<noteq> p" using a(3,4) assms(4) by (auto simp: in_use_def)
    have no: "places apics D s0 x \<noteq> Some t" for x using vm_ok_use[OF assms(1)] a(2,4) by metis
    let ?s1 = "s0\<lparr>mem := (mem s0)(entry d ?i := t OR 7)\<rparr>"
    have none: "table_at D s0 d ?i = None" using False tab[of s] fun_cong[OF a(2), of "Tab d ?i"] by simp
    have st: "vm_ok apics D F1 ?s1 \<and> places apics D ?s1 = (places apics D s0)(Tab d ?i := Some t)"
      by (rule set_table[OF a(1) assms(2) i(1,2) none a(3) no]) (simp add: a(6) clear_frame_def)
    note d = vm_ok_dir[OF a(1) assms(2)]
    have pg: "page_mask (entry d ?i) = d" using d i(2) by (simp add: in_use_def)
    show ?thesis
    proof (rule that[of F1 ?s1 t])
      show "table_at D ?s1 d ?i = Some t" using fun_cong[OF conjunct2[OF st], of "Tab d ?i"] by simp
      show "in_use F1 ?s1 p" using a(5) assms(4) entry_not_free(2)[OF a(1) d i(2)] by blast
      show "places apics D ?s1 x \<noteq> Some p" for x using st a(2) assms(5) t(2) by (simp del: places.simps)
      show "places apics D ?s1 x = places apics D s x" if "is_page x" for x
        using st a(2) that by (auto simp del: places.simps)
      show "content ?s1 q = content s q" if q: "q = p \<or> (\<exists>x. is_page x \<and> places apics D s x = Some q)" for q
      proof -
        have use: "in_use F s q" using q assms(4) vm_ok_use[OF assms(1)] by blast
        have "q \<noteq> d"
        proof
          assume qd: "q = d"
          have dp: "d \<noteq> p" using assms(2) assms(5)[of "Dir d"] by auto
          obtain x where x: "is_page x" "places apics D s x = Some d" using q qd dp by blast
          have "x = Dir d" by (rule vm_ok_inj[OF assms(1) x(2)]) (use assms(2) in simp)
          with x(1) show False by simp
        qed
        moreover have "q \<noteq> t" using use a(4) by blast
        ultimately show ?thesis using use pg by (intro content_other) (auto simp: in_use_def a(6) clear_frame_def)
      qed
    qed (use st s' t(1) in auto)
  qed
  have sp: "vm_ok apics D F1 s' \<and> places apics D s' = (places apics D s1)(Page d ?i ?j := Some p)"
    unfolding s' by (rule set_page[OF s1(1,2) i(3,4) s1(3,4)])
  have pg: "page_mask (entry t ?j) = t" using vm_ok_table[OF s1(1,2)] i(3) by (simp add: in_use_def)
  have "content s' q = content s1 q" if q: "q = p \<or> (\<exists>x. is_page x \<and> places apics D s x = Some q)" for q
  proof -
    have "q \<noteq> t"
    proof
      assume "q = t"
      with q s1(2) s1(4)[of "Tab d ?i"] vm_ok_inj[OF s1(1), of _ t "Tab d ?i"] s1(5) show False by fastforce
    qed
    moreover have "in_use F s q" using q assms(4) vm_ok_use[OF assms(1)] by blast
    ultimately show ?thesis using pg by (intro content_other) (auto simp: in_use_def s')
  qed
  with s1(5,6) sp show ?thesis by (auto simp del: places.simps)
qed

lemma page_mask_index [simp]: "pdi_of (page_mask va) = pdi_of va" "pti_of (page_mask va) = pti_of va"
  unfolding pdi_of_def pti_of_def by (rule bit_word_eqI, simp add: bit_and_iff bit_drop_bit_eq page_mask_bits)+

lemma same_page: "pdi_of va = pdi_of va' \<and> pti_of va = pti_of va' \<longleftrightarrow> page_mask va = page_mask va'"
  by (metis get_va_of page_mask_index)

lemma page_fault_places:
  assumes "vm_ok apics D F s" "d \<in> D" "user_va apics va" "translate s d va = None" "vmm_pageFault d va s = Some s'"
  shows "\<exists>F' p. vm_ok apics D F' s' \<and> pm_offset p = 0 \<and> content s' p = (\<lambda>_. 0)
    \<and> (\<forall>x. is_page x \<longrightarrow> places apics D s' x = ((places apics D s)(Page d (pdi_of va) (pti_of va) := Some p)) x)
    \<and> (\<forall>q x. is_page x \<longrightarrow> places apics D s x = Some q \<longrightarrow> content s' q = content s q)"
proof -
  let ?va = "page_mask va" and ?x = "Page d (pdi_of va) (pti_of va)"
  have none: "places apics D s ?x = None" using assms(4) translate_places[OF assms(2,3)] by (auto simp del: places.simps)
  have uva: "user_va apics ?va"
    using assms(3) pdi_user[of va] pdi_user[of ?va] by (simp add: user_va_def aligned_page_mask)
  obtain p s1 where al: "alloc_frame s = Some (p, s1)" and mp: "map_page d ?va p s1 = Some s'"
    using assms(5) by (auto simp: vmm_pageFault_def framedown_page_mask Let_def split: option.splits if_splits)
  obtain F1 where a: "vm_ok apics D F1 s1" "places apics D s1 = places apics D s" "in_use F1 s1 p" "\<not> in_use F s p"
    "mem s1 = clear_frame p (mem s)" using alloc_frame_ok[OF assms(1) al] by blast
  have no: "places apics D s1 x \<noteq> Some p" for x using vm_ok_use[OF assms(1)] a(2,4) by metis
  have none1: "places apics D s1 ?x = None" using none a(2) by simp
  note mo = map_page_ok[OF a(1) assms(2) uva a(3) no mp, unfolded page_mask_index, OF none1]
  note m1 = conjunct1[OF mo] and m2 = conjunct1[OF conjunct2[OF mo]] and m3 = conjunct2[OF conjunct2[OF mo], rule_format]
  have p: "pm_offset p = 0" using a(3) by (simp add: in_use_def)
  have zero: "content s' p = (\<lambda>_. 0)"
    unfolding m3[OF disjI1, OF refl] using p by (simp add: fun_eq_iff content_def a(5) clear_frame_def page_mask_or)
  have keep: "content s' q = content s q" if x: "is_page x" "places apics D s x = Some q" for q x
  proof -
    have "content s' q = content s1 q" using m3[OF disjI2, OF exI, OF conjI, of x q] x by (simp add: a(2) del: places.simps)
    moreover have "content s1 q = content s q"
      using vm_ok_use[OF assms(1) x(2)] a(4) by (intro content_other) (auto simp: in_use_def a(5) clear_frame_def)
    ultimately show ?thesis by simp
  qed
  from m1 obtain F' where "vm_ok apics D F' s'" by blast
  then show ?thesis
    using p zero m2[unfolded a(2)] keep by (intro exI[of _ F'] exI[of _ p] conjI) (auto simp del: places.simps)
qed

text \<open>C17. A page fault gives the process a page of zeros. At an address of the user half that has no page, the handler
  maps a frame that was free; the process then reads zeros in that page, every other word of every process stays as it
  was, and no frame gets two places.\<close>

theorem page_fault_maps_zeros:
  assumes "vm_ok apics D F s" "d \<in> D" "user_va apics va" "translate s d va = None" "vmm_pageFault d va s = Some s'" "d' \<in> D"
  shows "(\<exists>F'. vm_ok apics D F' s')
    \<and> user_word apics s' d' va' = (if d' = d \<and> page_mask va' = page_mask va then Some 0 else user_word apics s d' va')"
proof -
  let ?x = "Page d (pdi_of va) (pti_of va)" and ?y = "Page d' (pdi_of va') (pti_of va')"
  obtain F' p where ok: "vm_ok apics D F' s'" and p: "pm_offset p = 0" "content s' p = (\<lambda>_. 0)"
    and pl: "\<forall>x. is_page x \<longrightarrow> places apics D s' x = ((places apics D s)(?x := Some p)) x"
    and keep: "\<forall>q x. is_page x \<longrightarrow> places apics D s x = Some q \<longrightarrow> content s' q = content s q"
    using page_fault_places[OF assms(1-5)] by blast
  have y: "places apics D s' ?y = ((places apics D s)(?x := Some p)) ?y" using pl[rule_format, of ?y] by simp
  have same: "?y = ?x \<longleftrightarrow> d' = d \<and> page_mask va' = page_mask va" using same_page[of va' va] by auto
  have "user_word apics s' d' va' = (if ?y = ?x then Some 0 else user_word apics s d' va')"
  proof (cases "?y = ?x")
    case True
    with y fun_cong[OF p(2), of va'] show ?thesis
      unfolding user_word_places[OF assms(6)] by (simp add: content_def del: places.simps)
  next
    case False
    have "user_word apics s' d' va' = user_word apics s d' va'"
    proof (rule user_word_cong[OF assms(6)])
      show "places apics D s' ?y = places apics D s ?y" using y unfolding fun_upd_other[OF False] .
      show "mem s' (q OR pm_offset va') = mem s (q OR pm_offset va')" if "places apics D s ?y = Some q" for q
        using keep[rule_format, OF _ that] by (simp add: content_def fun_eq_iff)
    qed
    then show ?thesis unfolding if_not_P[OF False] .
  qed
  with ok show ?thesis unfolding same by blast
qed

subsection \<open>Deleting an address space\<close>

lemma dealloc_then_clear:
  assumes "vm_ok apics D F s2" "s2 = s\<lparr>mem := (mem s)(a := 0)\<rparr>" "in_use F s2 p" "\<And>x. places apics D s2 x \<noteq> Some p" "page_mask a \<noteq> p"
  shows "\<exists>s1. dealloc_frame p s = Some s1 \<and> vm_ok apics D (p # F) (s1\<lparr>mem := (mem s1)(a := 0)\<rparr>)
    \<and> places apics D (s1\<lparr>mem := (mem s1)(a := 0)\<rparr>) = places apics D s2
    \<and> (\<forall>b. page_mask b \<noteq> p \<longrightarrow> b \<noteq> a \<longrightarrow> mem (s1\<lparr>mem := (mem s1)(a := 0)\<rparr>) b = mem s b)"
proof -
  have al: "pm_offset p = 0" using assms(3) by (simp add: in_use_def)
  then have pa: "a \<noteq> p" "page_mask p = p" using assms(5) aligned_page_mask by auto
  obtain s3 where s3: "dealloc_frame p s2 = Some s3" "vm_ok apics D (p # F) s3" "places apics D s3 = places apics D s2"
    using dealloc_frame_ok[OF assms(1,3,4)] by blast
  let ?s1 = "s\<lparr>mem := (mem s)(p := firstFree s), firstFree := p\<rparr>"
  have d: "dealloc_frame p s = Some ?s1" using al by (simp add: dealloc_frame_def)
  have "s3 = s2\<lparr>mem := (mem s2)(p := firstFree s2), firstFree := p\<rparr>" using s3(1) al by (simp add: dealloc_frame_def)
  then have "s3 = ?s1\<lparr>mem := (mem ?s1)(a := 0)\<rparr>"
    by (intro vm.equality) (simp_all add: assms(2) fun_upd_twist[OF pa(1)])
  with d s3(2,3) pa(2) show ?thesis by (intro exI[of _ ?s1]) auto
qed

definition deleting :: "apics \<Rightarrow> u32 set \<Rightarrow> vm \<Rightarrow> u32 \<Rightarrow> (u32 \<times> u32) set \<Rightarrow> vm \<Rightarrow> bool" where
  "deleting apics D s0 d done s \<longleftrightarrow> (\<exists>F. vm_ok apics D F s)
     \<and> (\<forall>x. owner x \<noteq> d \<longrightarrow> places apics D s x = places apics D s0 x)
     \<and> (\<forall>x p. owner x \<noteq> d \<longrightarrow> is_page x \<longrightarrow> places apics D s0 x = Some p \<longrightarrow> content s p = content s0 p)
     \<and> (\<forall>i j. (i, j) \<in> done \<longrightarrow> places apics D s (Page d i j) = None)"

lemma deletingD:
  assumes "deleting apics D s0 d done s"
  shows "\<exists>F. vm_ok apics D F s" "owner x \<noteq> d \<Longrightarrow> places apics D s x = places apics D s0 x"
    "owner x \<noteq> d \<Longrightarrow> is_page x \<Longrightarrow> places apics D s0 x = Some p \<Longrightarrow> content s p = content s0 p"
    "(i, j) \<in> done \<Longrightarrow> places apics D s (Page d i j) = None"
  using assms unfolding deleting_def by blast+

text \<open>Removing the frame of one place of \<open>d\<close>, whose word in frame \<open>f\<close> (itself a place of \<open>d\<close>) is cleared.\<close>

lemma deleting_remove:
  assumes "deleting apics D s0 d done s" "vm_ok apics D F s" "places apics D s y = Some p" "owner y = d"
    and "places apics D s z = Some f" "owner z = d" "z \<noteq> y" "j < 1024"
    and "vm_ok apics D F (s\<lparr>mem := (mem s)(entry f j := 0)\<rparr>)"
    and "places apics D (s\<lparr>mem := (mem s)(entry f j := 0)\<rparr>) = (places apics D s)(y := None)"
  shows "\<exists>s1. dealloc_frame p s = Some s1 \<and> deleting apics D s0 d done (s1\<lparr>mem := (mem s1)(entry f j := 0)\<rparr>)
    \<and> places apics D (s1\<lparr>mem := (mem s1)(entry f j := 0)\<rparr>) = (places apics D s)(y := None)"
proof -
  let ?a = "entry f j"
  note p = vm_ok_use[OF assms(2,3)] and f = vm_ok_use[OF assms(2,5)]
  have pg: "page_mask ?a = f" using f assms(8) by (simp add: in_use_def)
  have "f \<noteq> p" using vm_ok_inj[OF assms(2,3), of z] assms(5,7) by auto
  then have ne: "page_mask ?a \<noteq> p" using pg by simp
  have no: "places apics D (s\<lparr>mem := (mem s)(?a := 0)\<rparr>) x \<noteq> Some p" for x
    unfolding assms(10) using vm_ok_inj[OF assms(2,3), of x] by auto
  have use: "in_use F (s\<lparr>mem := (mem s)(?a := 0)\<rparr>) p" using p by (simp add: in_use_def fresh_frame_def)
  obtain s1 where s1: "dealloc_frame p s = Some s1" "vm_ok apics D (p # F) (s1\<lparr>mem := (mem s1)(?a := 0)\<rparr>)"
    "places apics D (s1\<lparr>mem := (mem s1)(?a := 0)\<rparr>) = (places apics D s)(y := None)"
    "\<forall>b. page_mask b \<noteq> p \<longrightarrow> b \<noteq> ?a \<longrightarrow> mem (s1\<lparr>mem := (mem s1)(?a := 0)\<rparr>) b = mem s b"
    using dealloc_then_clear[OF assms(9) refl use no ne] assms(10) by auto
  note dd = deletingD[OF assms(1)]
  have "deleting apics D s0 d done (s1\<lparr>mem := (mem s1)(?a := 0)\<rparr>)"
    unfolding deleting_def
  proof (intro conjI allI impI)
    show "\<exists>F. vm_ok apics D F (s1\<lparr>mem := (mem s1)(?a := 0)\<rparr>)" using s1(2) by blast
    show "places apics D (s1\<lparr>mem := (mem s1)(?a := 0)\<rparr>) x = places apics D s0 x" if "owner x \<noteq> d" for x
      using dd(2)[OF that] s1(3) assms(4) that by auto
    show "places apics D (s1\<lparr>mem := (mem s1)(?a := 0)\<rparr>) (Page d i j) = None" if "(i, j) \<in> done" for i j
      using dd(4)[OF that] s1(3) by (simp del: places.simps)
    show "content (s1\<lparr>mem := (mem s1)(?a := 0)\<rparr>) q = content s0 q"
      if x: "owner x \<noteq> d" "is_page x" "places apics D s0 x = Some q" for x q
    proof -
      have xs: "places apics D s x = Some q" using dd(2)[OF x(1)] x(3) by simp
      have "q \<noteq> p" "q \<noteq> f" using vm_ok_inj[OF assms(2) xs] assms(3-6) x(1) by auto
      moreover have "pm_offset q = 0" using vm_ok_use[OF assms(2) xs] by (simp add: in_use_def)
      ultimately have "content (s1\<lparr>mem := (mem s1)(?a := 0)\<rparr>) q = content s q"
        using s1(4) pg by (intro content_other) auto
      then show ?thesis using dd(3)[OF x] by simp
    qed
  qed
  with s1(1,3) show ?thesis by blast
qed

lemma deleting_more: "deleting apics D s0 d done s \<Longrightarrow> (\<And>i j. (i, j) \<in> done' \<Longrightarrow> places apics D s (Page d i j) = None)
  \<Longrightarrow> deleting apics D s0 d done' s"
  unfolding deleting_def by blast

lemma delete_pte_deletes:
  assumes "deleting apics D s0 d done s" "table_at D s d i = Some t" "j < 1024"
  shows "\<exists>s'. delete_pte apics i t j (s, r) = Some (s', r \<and> safe apics i j) \<and> deleting apics D s0 d (insert (i, j) done) s'
    \<and> table_at D s' d i = Some t"
proof -
  obtain F where ok: "vm_ok apics D F s" using deletingD(1)[OF assms(1)] by blast
  have pl: "places apics D s (Page d i j) = (if safe apics i j then entry_frame (mem s (entry t j)) else None)"
    using assms(2,3) by (simp add: frame_at_entry)
  show ?thesis
  proof (cases "present (mem s (entry t j)) \<and> safe apics i j")
    case False
    then have "places apics D s (Page d i j) = None" using pl by (auto simp: entry_frame_def)
    then have "deleting apics D s0 d (insert (i, j) done) s"
      using deletingD(4)[OF assms(1)] by (intro deleting_more[OF assms(1)]) (auto simp del: places.simps)
    with False assms(2) show ?thesis by (auto simp: delete_pte_def Let_def)
  next
    case True
    define p where "p = page_mask (mem s (entry t j))"
    have y: "places apics D s (Page d i j) = Some p" using True pl by (simp add: entry_frame_def p_def)
    have z: "places apics D s (Tab d i) = Some t" using assms(2) by simp
    note c = clear_page[OF ok assms(2,3)]
    obtain s1 where s1: "dealloc_frame p s = Some s1" "deleting apics D s0 d done (s1\<lparr>mem := (mem s1)(entry t j := 0)\<rparr>)"
      "places apics D (s1\<lparr>mem := (mem s1)(entry t j := 0)\<rparr>) = (places apics D s)(Page d i j := None)"
      using deleting_remove[OF assms(1) ok y _ z _ _ assms(3)] c by auto
    let ?s' = "s1\<lparr>mem := (mem s1)(entry t j := 0)\<rparr>"
    have "deleting apics D s0 d (insert (i, j) done) ?s'"
      using deletingD(4)[OF assms(1)] s1(3) by (intro deleting_more[OF s1(2)]) (auto simp del: places.simps)
    moreover have "table_at D ?s' d i = Some t" using fun_cong[OF s1(3), of "Tab d i"] assms(2) by simp
    ultimately show ?thesis using True s1(1) by (auto simp: delete_pte_def Let_def p_def)
  qed
qed

lemma delete_ptes:
  assumes "deleting apics D s0 d done s" "table_at D s d i = Some t" "\<forall>j \<in> set js. j < 1024"
  shows "\<exists>s'. for_each (delete_pte apics i t) js (s, r) = Some (s', r \<and> (\<forall>j \<in> set js. safe apics i j))
    \<and> deleting apics D s0 d (done \<union> {i} \<times> set js) s' \<and> table_at D s' d i = Some t"
  using assms
proof (induction js arbitrary: "done" s r)
  case (Cons j js)
  obtain s1 where s1: "delete_pte apics i t j (s, r) = Some (s1, r \<and> safe apics i j)"
    "deleting apics D s0 d (insert (i, j) done) s1" "table_at D s1 d i = Some t"
    using delete_pte_deletes[OF Cons.prems(1,2), of j r] Cons.prems(3) by auto
  from Cons.IH[OF s1(2,3), of "r \<and> safe apics i j"] Cons.prems(3) obtain s' where
    "for_each (delete_pte apics i t) js (s1, r \<and> safe apics i j) = Some (s', (r \<and> safe apics i j) \<and> (\<forall>j \<in> set js. safe apics i j))"
    "deleting apics D s0 d (insert (i, j) done \<union> {i} \<times> set js) s'" "table_at D s' d i = Some t" by auto
  moreover have "insert (i, j) done \<union> {i} \<times> set js = done \<union> {i} \<times> set (j # js)" by auto
  ultimately show ?case using s1(1) by auto
qed simp

lemma delete_table_deletes:
  assumes "deleting apics D s0 d done s" "d \<in> D" "512 \<le> i" "i < 1024"
  shows "\<exists>s'. delete_table apics d i s = Some s' \<and> deleting apics D s0 d (done \<union> {i} \<times> set all_ptis) s'"
proof (cases "present (mem s (entry d i))")
  case False
  then have "places apics D s (Page d i j) = None" for j using table_at_present[OF assms(2-4), of s] by simp
  then have "deleting apics D s0 d (done \<union> {i} \<times> set all_ptis) s"
    using deletingD(4)[OF assms(1)] by (intro deleting_more[OF assms(1)]) (auto simp del: places.simps)
  with False show ?thesis by (simp add: delete_table_def)
next
  case True
  define t where "t = page_mask (mem s (entry d i))"
  have tab: "table_at D s d i = Some t" using True table_at_present[OF assms(2-4), of s] by (simp add: t_def)
  obtain s1 where s1: "for_each (delete_pte apics i t) all_ptis (s, True) = Some (s1, \<forall>j \<in> set all_ptis. safe apics i j)"
    "deleting apics D s0 d (done \<union> {i} \<times> set all_ptis) s1" "table_at D s1 d i = Some t"
    using delete_ptes[OF assms(1) tab, of all_ptis True] all_ptis_set(1) by auto
  show ?thesis
  proof (cases "\<forall>j \<in> set all_ptis. safe apics i j")
    case False
    with True s1 show ?thesis by (simp add: delete_table_def Let_def t_def)
  next
    case remove: True
    obtain F where ok: "vm_ok apics D F s1" using deletingD(1)[OF s1(2)] by blast
    note d = vm_ok_dir[OF ok assms(2)]
    have empty: "places apics D s1 (Page d i j) = None" for j
    proof (cases "j < 1024")
      case True
      then have "(i, j) \<in> done \<union> {i} \<times> set all_ptis" using all_ptis_set(1) by auto
      then show ?thesis by (rule deletingD(4)[OF s1(2)])
    qed simp
    let ?s2 = "s1\<lparr>mem := (mem s1)(entry d i := 0)\<rparr>"
    have pl: "places apics D ?s2 = (places apics D s1)(Tab d i := None)"
    proof
      fix x
      show "places apics D ?s2 x = ((places apics D s1)(Tab d i := None)) x"
        unfolding places_set_pde[OF ok assms(2-4)] using empty by (auto simp: entry_frame_def simp del: places.simps split: place.split)
    qed
    have ok2: "vm_ok apics D F ?s2"
      by (rule vm_ok_places[OF ok entry_not_free[OF ok d assms(4)], of _ "Tab d i"]) (auto simp: pl simp del: places.simps split: if_splits)
    have y: "places apics D s1 (Tab d i) = Some t" "places apics D s1 (Dir d) = Some d" using s1(3) assms(2) by simp_all
    obtain s3 where "dealloc_frame t s1 = Some s3" "deleting apics D s0 d (done \<union> {i} \<times> set all_ptis) (s3\<lparr>mem := (mem s3)(entry d i := 0)\<rparr>)"
      using deleting_remove[OF s1(2) ok y(1) _ y(2) _ _ assms(4) ok2 pl] by auto
    with True s1(1) remove show ?thesis by (simp add: delete_table_def Let_def t_def)
  qed
qed

lemma delete_tables:
  assumes "deleting apics D s0 d done s" "d \<in> D" "\<forall>i \<in> set is. 512 \<le> i \<and> i < 1024"
  shows "\<exists>s'. for_each (delete_table apics d) is s = Some s' \<and> deleting apics D s0 d (done \<union> set is \<times> set all_ptis) s'"
  using assms(1,3)
proof (induction "is" arbitrary: "done" s)
  case (Cons i "is")
  obtain s1 where s1: "delete_table apics d i s = Some s1" "deleting apics D s0 d (done \<union> {i} \<times> set all_ptis) s1"
    using delete_table_deletes[OF Cons.prems(1) assms(2), of i] Cons.prems(2) by auto
  from Cons.IH[OF s1(2)] Cons.prems(2) obtain s' where "for_each (delete_table apics d) is s1 = Some s'"
    "deleting apics D s0 d (done \<union> {i} \<times> set all_ptis \<union> set is \<times> set all_ptis) s'" by auto
  moreover have "done \<union> {i} \<times> set all_ptis \<union> set is \<times> set all_ptis = done \<union> set (i # is) \<times> set all_ptis" by auto
  ultimately show ?case using s1(1) by auto
qed simp

text \<open>C18. Deleting a process's memory removes all of it and nothing else. It always succeeds; afterwards the process
  has no page in its own half, every word of every other process is as before, and every frame given back was
  in use exactly once, so the free list stays sound.\<close>

theorem delete_user_mem_exact:
  assumes "vm_ok apics D F s" "d \<in> D" "d' \<in> D"
  shows "\<exists>s'. delete_user_mem apics d s = Some s' \<and> (\<exists>F'. vm_ok apics D F' s')
    \<and> user_word apics s' d' va = (if d' = d then None else user_word apics s d' va)"
proof -
  have start: "deleting apics D s d {} s" using assms(1) by (auto simp: deleting_def)
  obtain s' where s': "delete_user_mem apics d s = Some s'" "deleting apics D s d (set user_pdis \<times> set all_ptis) s'"
    using delete_tables[OF start assms(2), of user_pdis] user_pdis_set(1) by (auto simp: delete_user_mem_def)
  note dd = deletingD[OF s'(2)]
  have "user_word apics s' d' va = (if d' = d then None else user_word apics s d' va)"
  proof (cases "d' = d")
    case True
    have "places apics D s' (Page d (pdi_of va) (pti_of va)) = None"
    proof (cases "512 \<le> pdi_of va")
      case True
      then show ?thesis using pdi_small pti_small all_ptis_set(1) user_pdis_set(1) by (intro dd(4)) auto
    qed (simp add: table_at_def)
    then show ?thesis using True unfolding user_word_places[OF assms(3)] by (simp del: places.simps)
  next
    case False
    let ?x = "Page d' (pdi_of va) (pti_of va)"
    have "places apics D s' ?x = places apics D s ?x" using dd(2)[of ?x] False by (simp del: places.simps)
    moreover have "mem s' (p OR pm_offset va) = mem s (p OR pm_offset va)" if "places apics D s ?x = Some p" for p
      using dd(3)[of ?x p] that False by (simp add: content_def fun_eq_iff del: places.simps)
    ultimately have "user_word apics s' d' va = user_word apics s d' va" by (rule user_word_cong[OF assms(3)])
    then show ?thesis unfolding if_not_P[OF False] .
  qed
  with s'(1) dd(1) show ?thesis by blast
qed

subsection \<open>Witnesses\<close>

text \<open>Two processes with empty user halves, then the first one after a page fault at \<open>0x80000123\<close>.\<close>

definition demo_apics :: apics where "demo_apics = (0xFEC00000, 0xFEE00000)"

definition demo_dirs :: "u32 set" where "demo_dirs = {0x1000, 0x2000}"

definition demo_vm :: vm where
  "demo_vm = \<lparr>mem = \<lambda>_. 0, firstFree = 0, pm_avail = 0x3000, pm_limit = 0x100000\<rparr>"

definition demo_faulted :: vm where
  "demo_faulted = \<lparr>mem = (\<lambda>_. 0)(0x1800 := 0x4007, 0x4000 := 0x3007), firstFree = 0, pm_avail = 0x5000, pm_limit = 0x100000\<rparr>"

lemma demo_vm_ok: "vm_ok demo_apics demo_dirs [] demo_vm"
proof -
  have none: "table_at demo_dirs demo_vm d i = None" for d i by (simp add: table_at_def frame_at_def demo_vm_def)
  have pl: "places demo_apics demo_dirs demo_vm x = (case x of Dir d \<Rightarrow> if d \<in> demo_dirs then Some d else None | _ \<Rightarrow> None)" for x
    by (cases x) (simp_all add: none)
  show ?thesis
    unfolding vm_ok_def pl
    by (auto simp: free_ok_def demo_vm_def in_use_def fresh_frame_def demo_dirs_def pm_offset_def split: place.splits if_splits)
qed

lemma clear_zero [simp]: "clear_frame p (\<lambda>_. 0) = (\<lambda>_. 0)" "copy_frame p q (\<lambda>_. 0) = (\<lambda>_. 0)"
  by (auto simp: clear_frame_def copy_frame_def)

lemma demo_fault: "vmm_pageFault 0x1000 0x80000123 demo_vm = Some demo_faulted"
  by (simp add: vmm_pageFault_def framedown_def FRAME_SIZE_def alloc_frame_def map_page_def demo_vm_def demo_faulted_def
      pdi_of_def pti_of_def entry_def present_def pm_offset_def page_mask_def Let_def)

lemma demo_user_va: "user_va demo_apics 0x80000123" "user_va demo_apics 0x80000010"
  by (simp_all add: user_va_def demo_apics_def page_mask_def)

lemma demo_translate: "translate demo_vm 0x1000 0x80000123 = None" "translate demo_faulted 0x1000 0x80000010 = Some 0x3010"
  by (simp_all add: translate_def frame_at_def demo_vm_def demo_faulted_def pdi_of_def pti_of_def entry_def present_def
      page_mask_def pm_offset_def)

theorem page_fault_maps_zeros_witness:
  "\<exists>F s. vm_ok demo_apics demo_dirs F s \<and> vmm_pageFault 0x1000 0x80000123 s = Some demo_faulted
    \<and> user_word demo_apics s 0x1000 0x80000010 = None \<and> user_word demo_apics demo_faulted 0x1000 0x80000010 = Some 0"
proof -
  have D: "(0x1000 :: u32) \<in> demo_dirs" by (simp add: demo_dirs_def)
  have pg: "page_mask 0x80000010 = page_mask 0x80000123" by (simp add: page_mask_def)
  have none: "user_word demo_apics demo_vm 0x1000 0x80000010 = None"
    by (simp add: user_word_def translate_def frame_at_def demo_vm_def)
  show ?thesis
    using page_fault_maps_zeros[OF demo_vm_ok D demo_user_va(1) demo_translate(1) demo_fault D, of "0x80000010"]
      demo_vm_ok demo_fault none pg by auto
qed

lemma demo_faulted_ok: "\<exists>F. vm_ok demo_apics demo_dirs F demo_faulted"
  using page_fault_places[OF demo_vm_ok _ demo_user_va(1) demo_translate(1) demo_fault] by (auto simp: demo_dirs_def)

theorem user_store_isolated_witness:
  "\<exists>F. vm_ok demo_apics demo_dirs F demo_faulted \<and> (\<exists>s'. user_store demo_faulted 0x1000 0x80000010 7 = Some s'
    \<and> user_word demo_apics s' 0x1000 0x80000010 = Some 7 \<and> user_word demo_apics s' 0x1000 0x80000123 = Some 0)"
proof -
  obtain F where F: "vm_ok demo_apics demo_dirs F demo_faulted" using demo_faulted_ok by blast
  have D: "(0x1000 :: u32) \<in> demo_dirs" by (simp add: demo_dirs_def)
  obtain s' where s': "user_store demo_faulted 0x1000 0x80000010 7 = Some s'" by (simp add: user_store_def demo_translate)
  have "user_word demo_apics demo_faulted 0x1000 0x80000123 = Some 0"
    using demo_user_va by (simp add: user_word_def translate_def frame_at_def demo_faulted_def pdi_of_def pti_of_def entry_def
      present_def page_mask_def pm_offset_def)
  then show ?thesis
    using user_store_isolated[OF F D demo_user_va(2) s' D, of "0x80000010"]
      user_store_isolated[OF F D demo_user_va(2) s' D, of "0x80000123"] F s' by auto
qed

theorem delete_user_mem_exact_witness:
  "\<exists>F s'. vm_ok demo_apics demo_dirs F demo_faulted \<and> delete_user_mem demo_apics 0x1000 demo_faulted = Some s'
    \<and> user_word demo_apics s' 0x1000 0x80000010 = None"
proof -
  obtain F where F: "vm_ok demo_apics demo_dirs F demo_faulted" using demo_faulted_ok by blast
  have D: "(0x1000 :: u32) \<in> demo_dirs" by (simp add: demo_dirs_def)
  from delete_user_mem_exact[OF F D D, of "0x80000010"] F show ?thesis by auto
qed

text \<open>The copy of the first process into the second one.\<close>

definition demo_copied :: "u32 \<Rightarrow> u32" where
  "demo_copied = (\<lambda>_. 0)(0x1800 := 0x4007, 0x4000 := 0x3007, 0x2800 := 0x5007, 0x5000 := 0x6007)"

definition demo_forked :: vm where
  "demo_forked = \<lparr>mem = demo_copied, firstFree = 0, pm_avail = 0x7000, pm_limit = 0x100000\<rparr>"

lemma for_each_skip: "\<forall>i \<in> set js. f i s = Some s \<Longrightarrow> for_each f js s = Some s"
  by (induction js) auto

lemma for_each_one: "f i s = Some s' \<Longrightarrow> \<forall>j \<in> set js. f j s' = Some s' \<Longrightarrow> for_each f (i # js) s = Some s'"
  by (simp add: for_each_skip)

lemma clear_frame_upd: "page_mask a \<noteq> f \<Longrightarrow> clear_frame f (m(a := v)) = (clear_frame f m)(a := v)"
  by (auto simp: clear_frame_def fun_eq_iff)

lemma copy_frame_upd:
  assumes "pm_offset f = 0" "page_mask a \<noteq> f" "page_mask a \<noteq> t"
  shows "copy_frame t f (m(a := v)) = (copy_frame t f m)(a := v)"
proof -
  have "f OR pm_offset x \<noteq> a" for x using page_mask_or[OF assms(1), of x] assms(2) by auto
  then show ?thesis using assms(3) by (auto simp: copy_frame_def fun_eq_iff)
qed

lemma demo_copy_pte: "copy_pte demo_apics 512 0x4000 0x5000 0
    \<lparr>mem = (\<lambda>_. 0)(0x1800 := 0x4007, 0x4000 := 0x3007, 0x2800 := 0x5007), firstFree = 0, pm_avail = 0x6000, pm_limit = 0x100000\<rparr>
  = Some demo_forked"
  by (simp add: copy_pte_def make_entry_def alloc_frame_def safe_def get_va_def demo_apics_def entry_def present_def page_mask_def
    pm_offset_def FRAME_SIZE_def demo_forked_def demo_copied_def clear_frame_upd copy_frame_upd Let_def)

lemma demo_word: "pm_offset t = 0 \<Longrightarrow> i < 1024 \<Longrightarrow> (t, i) \<notin> {(0x1000, 512), (0x2000, 512), (0x4000, 0), (0x5000, 0)}
  \<Longrightarrow> mem demo_forked (entry t i) = 0"
proof -
  assume t: "pm_offset t = 0" "i < 1024" "(t, i) \<notin> {(0x1000, 512), (0x2000, 512), (0x4000, 0), (0x5000, 0)}"
  have ne: "entry t i \<noteq> entry f k" if "(t, i) \<noteq> (f, k)" "pm_offset f = 0" "k < 1024" for f k
    using entry_page[OF t(1,2)] entry_page[OF that(2,3)] entry_inj[OF t(1,2) that(3)] that(1) by auto
  have "entry t i \<noteq> 0x1800" "entry t i \<noteq> 0x2800" "entry t i \<noteq> 0x4000" "entry t i \<noteq> 0x5000"
    using t(3) ne[of "0x1000" 512] ne[of "0x2000" 512] ne[of "0x4000" 0] ne[of "0x5000" 0] by (auto simp: entry_def pm_offset_def)
  then show ?thesis by (simp add: demo_forked_def demo_copied_def)
qed

lemma all_ptis_Cons: "all_ptis = 0 # map of_nat [1..<1024]"
  unfolding all_ptis_def by (subst upt_conv_Cons) (simp_all del: upt_rec_numeral)

lemma user_pdis_Cons: "user_pdis = 512 # map of_nat [513..<1024]"
  unfolding user_pdis_def by (subst upt_conv_Cons) (simp_all del: upt_rec_numeral)

lemma demo_copy_pde: "copy_pde demo_apics 0x2000 0x1000 512 demo_faulted = Some demo_forked"
proof -
  let ?s = "\<lparr>mem = (\<lambda>_. 0)(0x1800 := 0x4007, 0x4000 := 0x3007, 0x2800 := 0x5007), firstFree = 0, pm_avail = 0x6000, pm_limit = 0x100000\<rparr>"
  have "copy_pte demo_apics 512 0x4000 0x5000 j demo_forked = Some demo_forked" if j: "j \<in> set (map of_nat [1..<1024])" for j
  proof -
    have "j < 1024" "j \<noteq> 0" using j index_of_nat by (auto simp: word_less_nat_alt word_unat_eq_iff simp del: upt_rec_numeral)
    then have "mem demo_forked (entry 0x4000 j) = 0" by (intro demo_word) (auto simp: pm_offset_def)
    then show ?thesis by (simp add: copy_pte_def)
  qed
  then have rest: "\<forall>j \<in> set (map of_nat [1..<1024]). copy_pte demo_apics 512 0x4000 0x5000 j demo_forked = Some demo_forked" by blast
  have "for_each (copy_pte demo_apics 512 0x4000 0x5000) all_ptis ?s = Some demo_forked"
    unfolding all_ptis_Cons by (rule for_each_one, rule demo_copy_pte, rule rest)
  then show ?thesis
    by (simp add: copy_pde_def make_entry_def alloc_frame_def demo_faulted_def entry_def present_def pm_offset_def
        page_mask_def FRAME_SIZE_def clear_frame_upd Let_def)
qed

lemma demo_copy: "deep_copy_mem demo_apics 0x2000 0x1000 demo_faulted = Some demo_forked"
proof -
  have "copy_pde demo_apics 0x2000 0x1000 i demo_forked = Some demo_forked" if i: "i \<in> set (map of_nat [513..<1024])" for i
  proof -
    have "i < 1024" "i \<noteq> 512" using i index_of_nat by (auto simp: word_less_nat_alt word_unat_eq_iff simp del: upt_rec_numeral)
    then have "mem demo_forked (entry 0x1000 i) = 0" by (intro demo_word) (auto simp: pm_offset_def)
    then show ?thesis by (simp add: copy_pde_def)
  qed
  then have rest: "\<forall>i \<in> set (map of_nat [513..<1024]). copy_pde demo_apics 0x2000 0x1000 i demo_forked = Some demo_forked" by blast
  show ?thesis unfolding deep_copy_mem_def user_pdis_Cons by (rule for_each_one, rule demo_copy_pde, rule rest)
qed

theorem fork_copies_memory_witness:
  "\<exists>F s'. vm_ok demo_apics demo_dirs F demo_faulted \<and> deep_copy_mem demo_apics 0x2000 0x1000 demo_faulted = Some s'
    \<and> user_word demo_apics s' 0x2000 0x80000010 = Some 0"
proof -
  obtain F where F: "vm_ok demo_apics demo_dirs F demo_faulted" using demo_faulted_ok by blast
  have D: "(0x1000 :: u32) \<in> demo_dirs" "(0x2000 :: u32) \<in> demo_dirs" "(0x1000 :: u32) \<noteq> 0x2000" by (simp_all add: demo_dirs_def)
  have "mem demo_faulted (entry 0x2000 i) = 0" if i: "i < 1024" for i
  proof -
    have "page_mask (entry 0x2000 i) = 0x2000" using i by (intro entry_page) (simp_all add: pm_offset_def)
    then have "entry 0x2000 i \<noteq> 0x1800" "entry 0x2000 i \<noteq> 0x4000" by (auto simp: page_mask_def)
    then show ?thesis by (simp add: demo_faulted_def)
  qed
  then have "places demo_apics demo_dirs demo_faulted (Page 0x2000 i j) = None" for i j by (simp add: table_at_def frame_at_def)
  then have empty: "\<forall>i j. places demo_apics demo_dirs demo_faulted (Page 0x2000 i j) = None" by blast
  have "user_word demo_apics demo_faulted 0x1000 0x80000010 = Some 0"
    using demo_user_va by (simp add: user_word_def demo_translate) (simp add: demo_faulted_def)
  with fork_copies_memory[OF F D empty demo_copy, of "0x80000010" "0x1000"] F demo_copy show ?thesis by auto
qed

text \<open>A directory is deleted with its page tables, but not with the pages: the frame of the demo's page is in no
  free list and was already handed out, so it is never used again.\<close>

lemma delete_pd_leaks:
  "\<exists>s'. delete_pd 0x1000 demo_faulted = Some s' \<and> free_chain (mem s') (firstFree s') [0x1000, 0x4000]
    \<and> \<not> fresh_frame s' 0x3000"
proof -
  let ?s = "\<lparr>mem = (\<lambda>_. 0)(0x1800 := 0x4007), firstFree = 0x4000, pm_avail = 0x5000, pm_limit = 0x100000\<rparr>"
  have first: "delete_pde 0x1000 512 demo_faulted = Some ?s"
    by (simp add: delete_pde_def demo_faulted_def entry_def present_def page_mask_def dealloc_frame_def pm_offset_def fun_eq_iff)
  have "delete_pde 0x1000 i ?s = Some ?s" if i: "i \<in> set (map of_nat [513..<1024])" for i
  proof -
    have "i < 1024" "i \<noteq> 512" using i index_of_nat by (auto simp: word_less_nat_alt word_unat_eq_iff simp del: upt_rec_numeral)
    then have "entry 0x1000 i \<noteq> 0x1800" using entry_inj[of "0x1000" i 512] by (auto simp: entry_def pm_offset_def)
    then show ?thesis by (simp add: delete_pde_def)
  qed
  then have rest: "\<forall>i \<in> set (map of_nat [513..<1024]). delete_pde 0x1000 i ?s = Some ?s" by blast
  have "for_each (delete_pde 0x1000) user_pdis demo_faulted = Some ?s"
    unfolding user_pdis_Cons by (rule for_each_one, rule first, rule rest)
  then show ?thesis by (simp add: delete_pd_def dealloc_frame_def pm_offset_def fresh_frame_def)
qed

end
