(* ===== verification/Processes.thy ===== *)
theory Processes
  imports Ext2Props
begin

text \<open>
  The descriptor table of a process: \<open>kernel/processes.h\<close> and \<open>processes.cc\<close>. A descriptor is a file with its own
  offset, a semaphore or a child process; the table has thirty slots, ten for each kind, and a counter per kind.
  Semaphores and processes are shared objects, named by numbers. A slot that was never written holds a wild pointer
  (\<open>None\<close>). An operation is \<open>None\<close> when it follows a wild pointer, writes outside the table, or panics. Numbers that
  a system call returns are 32-bit words; \<open>-1\<close> is the error.
\<close>

subsection \<open>Descriptors\<close>

datatype DescriptorType = NoneDT | FileDT | SemaphoreDT | ChildDT

fun type_code :: "DescriptorType \<Rightarrow> u32" where
  "type_code NoneDT = 0"
| "type_code FileDT = 1"
| "type_code SemaphoreDT = 2"
| "type_code ChildDT = 3"

datatype Descriptor =
    NoDescriptor
  | FileDescriptor (fd_offset: u32) (fd_permission: u32) (fd_file: "Node option")
  | SemaphoreDescriptor nat
  | ChildProcessDescriptor nat

fun descriptor_type :: "Descriptor \<Rightarrow> DescriptorType" where
  "descriptor_type NoDescriptor = NoneDT"
| "descriptor_type (FileDescriptor _ _ _) = FileDT"
| "descriptor_type (SemaphoreDescriptor _) = SemaphoreDT"
| "descriptor_type (ChildProcessDescriptor _) = ChildDT"

definition is_nothing :: "Descriptor \<Rightarrow> bool" where
  "is_nothing d \<longleftrightarrow> descriptor_type d = NoneDT"

text \<open>\<open>copy\<close>: a child process descriptor does not override it and becomes an empty one.\<close>

fun descriptor_copy :: "Descriptor \<Rightarrow> Descriptor" where
  "descriptor_copy (FileDescriptor off permission node) = FileDescriptor off permission node"
| "descriptor_copy (SemaphoreDescriptor s) = SemaphoreDescriptor s"
| "descriptor_copy (ChildProcessDescriptor child) = NoDescriptor"
| "descriptor_copy NoDescriptor = NoDescriptor"

text \<open>\<open>read\<close>: the value returned, the bytes put at \<open>buf\<close>, and the descriptor afterwards. \<open>bytes_read\<close> is unsigned.\<close>

fun descriptor_read :: "Descriptor \<Rightarrow> u32 \<Rightarrow> u32 \<Rightarrow> (u32 \<times> u8 list \<times> Descriptor) option" where
  "descriptor_read (FileDescriptor off permission (Some node)) buf nbyte =
     (if buf \<ge> 0x80000000
      then (case Node_read_all node off nbyte of
              None \<Rightarrow> None
            | Some (cnt, bytes) \<Rightarrow>
                let bytes_read = ucast cnt :: u32;
                    off' = off + bytes_read
                in if bytes_read < 0 then Some (- 1, bytes, FileDescriptor (off' - bytes_read) permission (Some node))
                   else Some (bytes_read, bytes, FileDescriptor off' permission (Some node)))
      else Some (- 1, [], FileDescriptor off permission (Some node)))"
| "descriptor_read d buf nbyte = Some (- 1, [], d)"

fun descriptor_len :: "Descriptor \<Rightarrow> u32" where
  "descriptor_len (FileDescriptor off permission (Some node)) = Node_size_in_bytes node"
| "descriptor_len d = - 1"

fun descriptor_seek :: "Descriptor \<Rightarrow> u32 \<Rightarrow> u32 \<times> Descriptor" where
  "descriptor_seek (FileDescriptor off permission (Some node)) off' = (off', FileDescriptor off' permission (Some node))"
| "descriptor_seek d off' = (- 1, d)"

text \<open>\<open>write\<close>: every file descriptor writes on the console. \<open>apics\<close> are the two addresses refused.\<close>

fun descriptor_write :: "u32 \<times> u32 \<Rightarrow> Descriptor \<Rightarrow> (u32 \<Rightarrow> u8) \<Rightarrow> u32 \<Rightarrow> u32 \<Rightarrow> u32 \<times> u8 list" where
  "descriptor_write apics (FileDescriptor off permission node) m buf nbyte =
     (if buf \<noteq> 0 \<and> buf \<ge> 0x80000000 \<and> buf \<noteq> fst apics \<and> buf \<noteq> snd apics
      then (nbyte, map (\<lambda>c. m (buf + of_nat c)) [0..<unat nbyte])
      else (- 1, []))"
| "descriptor_write apics d m buf nbyte = (- 1, [])"

subsection \<open>The table\<close>

record PCB =
  pcb_pid :: u32
  dt :: "Descriptor option list"
  dcount :: "u32 list"

definition NUM_DESCRIPTORS :: u32 where "NUM_DESCRIPTORS = 10"

definition NUM_DESCRIPTOR_TYPES :: u32 where "NUM_DESCRIPTOR_TYPES = 3"

definition num_descriptors :: "DescriptorType \<Rightarrow> PCB \<Rightarrow> u32" where
  "num_descriptors type p = dcount p ! unat (type_code type - 1)"

definition next_dti :: "DescriptorType \<Rightarrow> PCB \<Rightarrow> u32 \<times> PCB" where
  "next_dti type p =
     (let type_index = type_code type - 1;
          dti = dcount p ! unat type_index
      in if dti \<ge> NUM_DESCRIPTORS then (- 1, p)
         else (dti + NUM_DESCRIPTORS * type_index, p\<lparr>dcount := (dcount p)[unat type_index := dti + 1]\<rparr>))"

definition reserve_child_descriptor :: "PCB \<Rightarrow> u32 \<times> PCB" where
  "reserve_child_descriptor = next_dti ChildDT"

definition set_descriptor :: "u32 \<Rightarrow> Descriptor \<Rightarrow> PCB \<Rightarrow> PCB option" where
  "set_descriptor dti d p = (if unat dti < length (dt p) then Some (p\<lparr>dt := (dt p)[unat dti := Some d]\<rparr>) else None)"

text \<open>The index is unsigned, so \<open>dti >= 0\<close> always holds.\<close>

definition add_descriptor :: "Descriptor \<Rightarrow> PCB \<Rightarrow> (u32 \<times> PCB) option" where
  "add_descriptor d p =
     (let (dti, p) = next_dti (descriptor_type d) p
      in if dti \<ge> 0 then map_option (\<lambda>p. (dti, p)) (set_descriptor dti d p) else Some (dti, p))"

definition get_descriptor :: "u32 \<Rightarrow> PCB \<Rightarrow> Descriptor option" where
  "get_descriptor dti p = (if dti < NUM_DESCRIPTORS * NUM_DESCRIPTOR_TYPES then dt p ! unat dti else Some NoDescriptor)"

text \<open>The constructor; the counters and the slots are what the heap's memory held before.\<close>

definition PCB_new :: "u32 list \<Rightarrow> u32 \<Rightarrow> PCB option" where
  "PCB_new heap_words pid =
     (let std = FileDescriptor 0 0 None;
          p = \<lparr>pcb_pid = pid, dt = replicate 30 None, dcount = heap_words\<rparr>
      in case add_descriptor std p of None \<Rightarrow> None | Some (_, p) \<Rightarrow>
         (case add_descriptor std p of None \<Rightarrow> None | Some (_, p) \<Rightarrow>
         (case add_descriptor std p of None \<Rightarrow> None | Some (_, p) \<Rightarrow>
            Some (p\<lparr>dt := take 3 (dt p) @ replicate 27 (Some NoDescriptor)\<rparr>))))"

definition pcb_open :: "Ext2 \<Rightarrow> Node \<Rightarrow> string \<Rightarrow> PCB \<Rightarrow> (u32 \<times> PCB) option" where
  "pcb_open fs root fn p =
     (case fs_find fs root fn of
        None \<Rightarrow> None
      | Some None \<Rightarrow> Some (- 1, p)
      | Some (Some node) \<Rightarrow> add_descriptor (FileDescriptor 0 0 (Some node)) p)"

definition pcb_close :: "u32 \<Rightarrow> PCB \<Rightarrow> (u32 \<times> PCB) option" where
  "pcb_close dti p =
     (case get_descriptor dti p of
        None \<Rightarrow> None
      | Some d \<Rightarrow>
          let type_index = type_code (descriptor_type d) - 1;
              count_d = dti - NUM_DESCRIPTORS * type_index
          in if \<not> is_nothing d \<and> count_d < dcount p ! unat type_index
             then Some (0, p\<lparr>dt := (dt p)[unat dti := Some NoDescriptor],
                            dcount := (dcount p)[unat type_index := dcount p ! unat type_index - 1]\<rparr>)
             else Some (- 1, p))"

definition pcb_len :: "u32 \<Rightarrow> PCB \<Rightarrow> u32 option" where
  "pcb_len dti p = map_option descriptor_len (get_descriptor dti p)"

definition put_back :: "u32 \<Rightarrow> Descriptor \<Rightarrow> PCB \<Rightarrow> PCB" where
  "put_back dti d p = (if dti < NUM_DESCRIPTORS * NUM_DESCRIPTOR_TYPES then p\<lparr>dt := (dt p)[unat dti := Some d]\<rparr> else p)"

definition pcb_read :: "u32 \<Rightarrow> u32 \<Rightarrow> u32 \<Rightarrow> PCB \<Rightarrow> (u32 \<times> u8 list \<times> PCB) option" where
  "pcb_read dti buffer nbyte p =
     (case get_descriptor dti p of
        None \<Rightarrow> None
      | Some d \<Rightarrow> map_option (\<lambda>(n, bytes, d). (n, bytes, put_back dti d p)) (descriptor_read d buffer nbyte))"

definition pcb_seek :: "u32 \<Rightarrow> u32 \<Rightarrow> PCB \<Rightarrow> (u32 \<times> PCB) option" where
  "pcb_seek dti off p =
     map_option (\<lambda>d. let (r, d) = descriptor_seek d off in (r, put_back dti d p)) (get_descriptor dti p)"

definition pcb_write :: "u32 \<times> u32 \<Rightarrow> u32 \<Rightarrow> (u32 \<Rightarrow> u8) \<Rightarrow> u32 \<Rightarrow> u32 \<Rightarrow> PCB \<Rightarrow> (u32 \<times> u8 list) option" where
  "pcb_write apics dti m buf nbyte p = map_option (\<lambda>d. descriptor_write apics d m buf nbyte) (get_descriptor dti p)"

text \<open>\<open>sem\<close>, with the number of the new semaphore.\<close>

definition pcb_sem :: "nat \<Rightarrow> PCB \<Rightarrow> (u32 \<times> PCB) option" where
  "pcb_sem s = add_descriptor (SemaphoreDescriptor s)"

text \<open>\<open>copy_from\<close>, the part on the table: the counters are not copied.\<close>

definition copy_slot :: "Descriptor option \<Rightarrow> Descriptor option \<Rightarrow> Descriptor option option" where
  "copy_slot mine theirs =
     (case theirs of None \<Rightarrow> None | Some d \<Rightarrow> Some (if \<not> is_nothing d then Some (descriptor_copy d) else mine))"

definition copy_descriptors :: "PCB \<Rightarrow> PCB \<Rightarrow> PCB option" where
  "copy_descriptors from p =
     (let slots = map (\<lambda>i. copy_slot (dt p ! i) (dt from ! i)) [0..<30]
      in if None \<in> set slots then None else Some (p\<lparr>dt := map the slots\<rparr>))"

definition add_child :: "nat \<Rightarrow> u32 \<Rightarrow> PCB \<Rightarrow> (u32 \<times> PCB) option" where
  "add_child child child_pid p =
     map_option (\<lambda>p. (child_pid, p)) (set_descriptor child_pid (ChildProcessDescriptor child) p)"

end
