(* ===== verification/ProcessProps.thy ===== *)
theory ProcessProps
  imports Processes
begin

text \<open>
  What the descriptor table promises: \<open>table_ok\<close> says that the live descriptors of each kind fill its ten slots
  from the first one up to the counter.
\<close>

subsection \<open>The table\<close>

definition slot_of :: "nat \<Rightarrow> nat \<Rightarrow> PCB \<Rightarrow> Descriptor option" where
  "slot_of k i p = dt p ! (10 * k + i)"

definition live_slot :: "DescriptorType \<Rightarrow> Descriptor option \<Rightarrow> bool" where
  "live_slot type s \<longleftrightarrow> (\<exists>d. s = Some d \<and> descriptor_type d = type)"

definition type_no :: "DescriptorType \<Rightarrow> nat" where
  "type_no type = unat (type_code type - 1)"

definition table_ok :: "PCB \<Rightarrow> bool" where
  "table_ok p \<longleftrightarrow> length (dt p) = 30 \<and> length (dcount p) = 3
     \<and> (\<forall>type. type \<noteq> NoneDT \<longrightarrow> unat (num_descriptors type p) \<le> 10
          \<and> (\<forall>i < 10. if i < unat (num_descriptors type p) then live_slot type (slot_of (type_no type) i p)
                      else slot_of (type_no type) i p = Some NoDescriptor))"

lemma type_no_simps [simp]: "type_no FileDT = 0" "type_no SemaphoreDT = 1" "type_no ChildDT = 2"
  by (simp_all add: type_no_def)

lemma type_no_less: "type \<noteq> NoneDT \<Longrightarrow> type_no type < 3"
  by (cases type) simp_all

lemma type_no_inj: "a \<noteq> NoneDT \<Longrightarrow> b \<noteq> NoneDT \<Longrightarrow> type_no a = type_no b \<Longrightarrow> a = b"
  by (cases a; cases b) auto

lemma slot_index: "i < 10 \<Longrightarrow> j < 10 \<Longrightarrow> 10 * k + i = 10 * l + j \<longleftrightarrow> k = l \<and> (i :: nat) = j"
  by (cases k l rule: linorder_cases) auto

lemma num_of_no: "num_descriptors type p = dcount p ! type_no type"
  by (simp add: num_descriptors_def type_no_def)

lemma table_okD:
  assumes "table_ok p" "type \<noteq> NoneDT"
  shows "length (dt p) = 30" "length (dcount p) = 3" "unat (num_descriptors type p) \<le> 10"
    "i < unat (num_descriptors type p) \<Longrightarrow> live_slot type (slot_of (type_no type) i p)"
    "unat (num_descriptors type p) \<le> i \<Longrightarrow> i < 10 \<Longrightarrow> slot_of (type_no type) i p = Some NoDescriptor"
  using assms unfolding table_ok_def by (auto split: if_splits)

text \<open>The index a new descriptor gets.\<close>

lemma le_ten: "(10 :: u32) \<le> w \<longleftrightarrow> 10 \<le> unat w"
  by (simp add: word_le_nat_alt)

lemma next_dti_ok:
  "next_dti type p = (if 10 \<le> unat (num_descriptors type p) then (- 1, p)
    else (of_nat (10 * type_no type) + num_descriptors type p, p\<lparr>dcount := (dcount p)[type_no type := num_descriptors type p + 1]\<rparr>))"
  unfolding le_ten[symmetric] by (simp add: next_dti_def num_descriptors_def type_no_def NUM_DESCRIPTORS_def Let_def add.commute)

lemma unat_small: "n < 2 ^ 32 \<Longrightarrow> unat (of_nat n :: u32) = n"
  by (simp add: unsigned_of_nat take_bit_nat_eq_self)

lemma index_no_wrap:
  assumes "type \<noteq> NoneDT" "i < 10"
  shows "unat (of_nat (10 * type_no type) + of_nat i :: u32) = 10 * type_no type + i"
proof -
  have "10 * type_no type + i < 2 ^ 32" using type_no_less[OF assms(1)] assms(2) by simp
  then have "unat (of_nat (10 * type_no type + i) :: u32) = 10 * type_no type + i"
    by (rule unat_small)
  then show ?thesis by (simp only: of_nat_add)
qed

text \<open>Adding a descriptor while its kind has a free slot.\<close>

lemma slot_of_update:
  assumes "length (dt p) = 30" "type \<noteq> NoneDT" "type' \<noteq> NoneDT" "i < 10" "j < 10"
  shows "slot_of (type_no type') j (p\<lparr>dt := (dt p)[10 * type_no type + i := s]\<rparr>)
    = (if type' = type \<and> j = i then s else slot_of (type_no type') j p)"
proof -
  have "10 * type_no type + i < length (dt p)" "10 * type_no type' + j < length (dt p)"
    using type_no_less[OF assms(2)] type_no_less[OF assms(3)] assms(1,4,5) by auto
  then show ?thesis
    using slot_index[OF assms(4,5), of "type_no type" "type_no type'"] type_no_inj[OF assms(2,3)]
    by (auto simp: slot_of_def nth_list_update)
qed

lemma num_update:
  assumes "length (dcount p) = 3" "type \<noteq> NoneDT" "type' \<noteq> NoneDT"
  shows "num_descriptors type' (p\<lparr>dt := x, dcount := (dcount p)[type_no type := c]\<rparr>) = (if type' = type then c else num_descriptors type' p)"
  using assms type_no_less[OF assms(2)] type_no_less[OF assms(3)] type_no_inj[OF assms(2,3)]
  by (auto simp: num_of_no nth_list_update)

lemma add_descriptor_ok:
  assumes "length (dt p) = 30" "descriptor_type d \<noteq> NoneDT"
  defines "n \<equiv> unat (num_descriptors (descriptor_type d) p)" and "k \<equiv> type_no (descriptor_type d)"
  shows "add_descriptor d p = (if n < 10
    then Some (of_nat (10 * k + n), p\<lparr>dt := (dt p)[10 * k + n := Some d], dcount := (dcount p)[k := of_nat (n + 1)]\<rparr>)
    else None)"
proof -
  let ?t = "descriptor_type d"
  have num: "num_descriptors ?t p = of_nat n" by (simp add: n_def)
  show ?thesis
  proof (cases "n < 10")
    case True
    have u: "unat (of_nat (10 * k) + of_nat n :: u32) = 10 * k + n" unfolding k_def by (rule index_no_wrap[OF assms(2) True])
    have in_table: "10 * k + n < length (dt p)" using assms(1) type_no_less[OF assms(2)] True by (simp add: k_def)
    have "next_dti ?t p = (of_nat (10 * k) + of_nat n, p\<lparr>dcount := (dcount p)[k := of_nat n + 1]\<rparr>)"
      using True unfolding next_dti_ok num k_def by (simp add: n_def)
    then show ?thesis using True in_table u
      by (simp add: add_descriptor_def set_descriptor_def add.commute)
  next
    case False
    then have "next_dti ?t p = (- 1, p)" unfolding next_dti_ok by (simp add: n_def)
    then show ?thesis using False assms(1)
      by (simp add: add_descriptor_def set_descriptor_def unsigned_minus_1_eq_mask mask_eq_exp_minus_1)
  qed
qed

lemma unat_succ: "unat (c :: u32) < 10 \<Longrightarrow> unat (c + 1) = unat c + 1"
  by (simp add: unat_word_ariths)

lemma add_descriptor_table:
  assumes "table_ok p" "descriptor_type d \<noteq> NoneDT" "add_descriptor d p = Some (dti, p')"
  shows "table_ok p'"
proof -
  let ?t = "descriptor_type d"
  define n where "n = unat (num_descriptors ?t p)"
  have len: "length (dt p) = 30" "length (dcount p) = 3" using assms(1) by (simp_all add: table_ok_def)
  have n: "n < 10" and p': "p' = p\<lparr>dt := (dt p)[10 * type_no ?t + n := Some d], dcount := (dcount p)[type_no ?t := of_nat (n + 1)]\<rparr>"
    using assms(3) add_descriptor_ok[OF len(1) assms(2)] unfolding n_def[symmetric] by (simp_all split: if_splits)
  have num: "unat (num_descriptors t p') = (if t = ?t then n + 1 else unat (num_descriptors t p))" if "t \<noteq> NoneDT" for t
    unfolding p' num_update[OF len(2) assms(2) that] using n unat_small[of "n + 1"] by (simp del: of_nat_add)
  have slot: "slot_of (type_no t) i p' = (if t = ?t \<and> i = n then Some d else slot_of (type_no t) i p)" if "t \<noteq> NoneDT" "i < 10" for t i
    using slot_of_update[OF len(1) assms(2) that(1) n that(2), of "Some d"] unfolding p' by (simp add: slot_of_def)
  show ?thesis
    unfolding table_ok_def
  proof (intro conjI allI impI)
    fix t :: DescriptorType assume t: "t \<noteq> NoneDT"
    note ok = table_okD[OF assms(1) t]
    show "unat (num_descriptors t p') \<le> 10" using num[OF t] ok(3) n by simp
    fix i :: nat assume i: "i < 10"
    show "if i < unat (num_descriptors t p') then live_slot t (slot_of (type_no t) i p') else slot_of (type_no t) i p' = Some NoDescriptor"
    proof (cases "t = ?t")
      case True
      then have nt: "unat (num_descriptors t p) = n" by (simp add: n_def)
      from True show ?thesis
        using num[OF t] slot[OF t i] ok(4)[of i] ok(5)[of i] i unfolding nt by (auto simp: live_slot_def)
    next
      case False
      then show ?thesis using num[OF t] slot[OF t i] ok(4)[of i] ok(5)[of i] i by auto
    qed
  qed (use len p' in simp_all)
qed

lemma get_slot: "unat dti < 30 \<Longrightarrow> get_descriptor dti p = dt p ! unat dti"
  by (simp add: get_descriptor_def NUM_DESCRIPTORS_def NUM_DESCRIPTOR_TYPES_def word_less_nat_alt)

lemma get_other: "\<not> unat dti < 30 \<Longrightarrow> get_descriptor dti p = Some NoDescriptor"
  by (simp add: get_descriptor_def NUM_DESCRIPTORS_def NUM_DESCRIPTOR_TYPES_def word_less_nat_alt)

text \<open>C31. Opening adds a descriptor and touches no other. While the live descriptors of each kind fill its slots from
  the first one on, a new descriptor gets a number that was unused, every other number keeps its
  descriptor, and the table keeps that form; this fails, by a write in front of the table, only when all ten slots of the kind
  are taken.\<close>

theorem add_descriptor_fresh:
  assumes "table_ok p" "descriptor_type d \<noteq> NoneDT"
  shows "case add_descriptor d p of
      None \<Rightarrow> num_descriptors (descriptor_type d) p = 10
    | Some (dti, p') \<Rightarrow> table_ok p' \<and> get_descriptor dti p = Some NoDescriptor \<and> get_descriptor dti p' = Some d
        \<and> (\<forall>x. x \<noteq> dti \<longrightarrow> get_descriptor x p' = get_descriptor x p)"
proof -
  let ?t = "descriptor_type d"
  define n where "n = unat (num_descriptors ?t p)"
  note ok = table_okD[OF assms(1,2)]
  note add = add_descriptor_ok[OF ok(1) assms(2), folded n_def]
  show ?thesis
  proof (cases "n < 10")
    case False
    then have "unat (num_descriptors ?t p) = 10" using ok(3) by (simp add: n_def)
    with False show ?thesis unfolding add by (simp add: word_unat_eq_iff)
  next
    case True
    let ?i = "10 * type_no ?t + n"
    let ?p = "p\<lparr>dt := (dt p)[?i := Some d], dcount := (dcount p)[type_no ?t := of_nat (n + 1)]\<rparr>"
    have i: "?i < 30" using type_no_less[OF assms(2)] True by simp
    have u: "unat (of_nat ?i :: u32) = ?i" by (rule unat_small) (use i in simp)
    have a: "add_descriptor d p = Some (of_nat ?i, ?p)" using add True by simp
    have "dt p ! ?i = Some NoDescriptor" using ok(5)[of n] True by (simp add: n_def slot_of_def)
    moreover have "get_descriptor x ?p = get_descriptor x p" if "x \<noteq> of_nat ?i" for x
    proof (cases "unat x < 30")
      case True
      have "unat x \<noteq> ?i" using that u by (metis word_unat_eq_iff)
      with True show ?thesis by (simp add: get_slot)
    qed (simp add: get_other)
    ultimately show ?thesis
      using add_descriptor_table[OF assms a] i u ok(1) unfolding a by (simp add: get_slot del: of_nat_add of_nat_mult)
  qed
qed

text \<open>Closing a descriptor that is not the last of its kind loses another one. The counter goes down, so the next
  descriptor of that kind is put over the last live one, while the closed number stays empty.\<close>

theorem close_then_open_overwrites:
  assumes "table_ok p" "type \<noteq> NoneDT" "i + 1 < unat (num_descriptors type p)" "descriptor_type d = type"
  defines "m \<equiv> unat (num_descriptors type p) - 1"
  shows "\<exists>p1 p2. pcb_close (of_nat (10 * type_no type + i)) p = Some (0, p1)
    \<and> live_slot type (slot_of (type_no type) m p1) \<and> add_descriptor d p1 = Some (of_nat (10 * type_no type + m), p2)
    \<and> slot_of (type_no type) m p2 = Some d \<and> slot_of (type_no type) i p2 = Some NoDescriptor"
proof -
  note ok = table_okD[OF assms(1,2)]
  define k where "k = type_no type"
  have k: "k < 3" using type_no_less[OF assms(2)] by (simp add: k_def)
  have l: "i < m" "m < 10" "unat (num_descriptors type p) = m + 1" "i < 10" using assms(3) ok(3) by (auto simp: m_def)
  have li: "live_slot type (slot_of k i p)" "live_slot type (slot_of k m p)" using ok(4) l unfolding k_def by auto
  then obtain e where e: "dt p ! (10 * k + i) = Some e" "descriptor_type e = type" by (auto simp: live_slot_def slot_of_def)
  let ?i = "of_nat (10 * k + i) :: u32"
  have u: "unat ?i = 10 * k + i" by (rule unat_small) (use k l in simp)
  have tc: "type_code type - 1 = of_nat k" by (simp add: k_def type_no_def)
  have "?i - NUM_DESCRIPTORS * (type_code type - 1) = of_nat i" unfolding tc by (simp add: NUM_DESCRIPTORS_def)
  then have small: "?i - NUM_DESCRIPTORS * (type_code type - 1) < num_descriptors type p"
    using l by (simp add: word_less_nat_alt unat_small)
  let ?p1 = "p\<lparr>dt := (dt p)[10 * k + i := Some NoDescriptor], dcount := (dcount p)[k := num_descriptors type p - 1]\<rparr>"
  have get: "get_descriptor ?i p = Some e" using u e(1) k l by (simp add: get_slot del: of_nat_add of_nat_mult)
  have close: "pcb_close ?i p = Some (0, ?p1)"
    using get small e(2) assms(2) u unfolding pcb_close_def num_descriptors_def Let_def k_def type_no_def
    by (simp add: is_nothing_def del: of_nat_add of_nat_mult)
  have len: "length (dt p) = 30" "length (dcount p) = 3" by (rule ok)+
  have dec: "num_descriptors type p - 1 = of_nat m" using arg_cong[OF l(3), of "of_nat :: nat \<Rightarrow> u32"] by simp
  have num: "num_descriptors type ?p1 = of_nat m" unfolding k_def num_update[OF len(2) assms(2,2)] using dec by simp
  have slots: "slot_of k j ?p1 = (if j = i then Some NoDescriptor else slot_of k j p)" if "j < 10" for j
    using slot_of_update[OF len(1) assms(2,2) l(4) that, of "Some NoDescriptor"] by (simp add: k_def slot_of_def)
  have un: "unat (num_descriptors type ?p1) = m" unfolding num by (rule unat_small) (use l in simp)
  have len1: "length (dt ?p1) = 30" using len by simp
  note add = add_descriptor_ok[OF len1, of d, unfolded assms(4) un, OF assms(2), folded k_def]
  let ?p2 = "?p1\<lparr>dt := (dt ?p1)[10 * k + m := Some d], dcount := (dcount ?p1)[k := of_nat (m + 1)]\<rparr>"
  have slots2: "slot_of k j ?p2 = (if j = m then Some d else slot_of k j ?p1)" if "j < 10" for j
    using slot_of_update[OF len1 assms(2,2) l(2) that, of "Some d"] by (simp add: k_def slot_of_def)
  have "add_descriptor d ?p1 = Some (of_nat (10 * k + m), ?p2)" using add l(2) by simp
  moreover have "slot_of k m ?p2 = Some d" "slot_of k i ?p2 = Some NoDescriptor" "live_slot type (slot_of k m ?p1)"
    using slots slots2 l li by auto
  ultimately show ?thesis using close unfolding k_def[symmetric] by blast
qed

subsection \<open>New and forked processes\<close>

definition std :: Descriptor where "std = FileDescriptor 0 0 None"

text \<open>A new process whose counters happen to start at 0: three standard files, nothing else.\<close>

definition fresh_PCB :: "u32 \<Rightarrow> PCB" where
  "fresh_PCB pid = \<lparr>pcb_pid = pid, dt = replicate 3 (Some std) @ replicate 27 (Some NoDescriptor), dcount = [3, 0, 0]\<rparr>"

lemma add_std: "length ds = 30 \<Longrightarrow> c < 10 \<Longrightarrow> add_descriptor (FileDescriptor 0 0 None) \<lparr>pcb_pid = pid, dt = ds, dcount = c # cs\<rparr>
  = Some (c, \<lparr>pcb_pid = pid, dt = ds[unat c := Some (FileDescriptor 0 0 None)], dcount = (c + 1) # cs\<rparr>)"
  by (simp add: add_descriptor_def next_dti_def set_descriptor_def NUM_DESCRIPTORS_def Let_def word_less_nat_alt word_le_nat_alt)

lemma PCB_new_fresh: "PCB_new [0, 0, 0] pid = Some (fresh_PCB pid)"
proof -
  have upd: "take 3 ((((x # y # z # xs)[0 := a])[1 := b])[Suc (Suc 0) := c]) = [a, b, c]" for x y z xs and a b c :: "Descriptor option"
    by (simp add: numeral_3_eq_3)
  have r: "replicate 30 (None :: Descriptor option) = None # None # None # replicate 27 None"
    by (simp add: numeral_eq_Suc)
  show ?thesis
    unfolding PCB_new_def Let_def by (simp add: add_std) (simp add: r fresh_PCB_def std_def numeral_3_eq_3)
qed

lemma all_types: "(\<forall>type. type \<noteq> NoneDT \<longrightarrow> P type) \<longleftrightarrow> P FileDT \<and> P SemaphoreDT \<and> P ChildDT"
  by (metis DescriptorType.distinct(1,3,5) DescriptorType.exhaust)

lemma fresh_PCB_ok: "table_ok (fresh_PCB pid)"
  unfolding table_ok_def all_types
  by (auto simp: fresh_PCB_def num_of_no slot_of_def live_slot_def std_def nth_append)

text \<open>The counters are not initialised: with what is left in memory from a freed block they may be anything.\<close>

lemma PCB_new_wild: "10 \<le> c \<Longrightarrow> PCB_new (c # cs) pid = None"
  by (simp add: PCB_new_def add_descriptor_def next_dti_def set_descriptor_def NUM_DESCRIPTORS_def
      unsigned_minus_1_eq_mask mask_eq_exp_minus_1)

definition inherited :: "Descriptor option \<Rightarrow> Descriptor option" where
  "inherited s = (case s of Some (ChildProcessDescriptor _) \<Rightarrow> Some NoDescriptor | s' \<Rightarrow> s')"

lemma table_ok_slot:
  assumes "table_ok p" "i < 30"
  shows "\<exists>d. dt p ! i = Some d"
proof -
  have "i div 10 < 3" using assms(2) by (simp add: less_mult_imp_div_less)
  then have "i div 10 = 0 \<or> i div 10 = 1 \<or> i div 10 = 2" by arith
  then obtain t where t: "t \<noteq> NoneDT" "type_no t = i div 10" by (metis DescriptorType.distinct(1,3,5) type_no_simps)
  have "slot_of (type_no t) (i mod 10) p = dt p ! i" unfolding slot_of_def t(2) by simp
  moreover have "\<exists>d. slot_of (type_no t) (i mod 10) p = Some d"
    using table_okD(4)[OF assms(1) t(1), of "i mod 10"] table_okD(5)[OF assms(1) t(1), of "i mod 10"]
    by (cases "i mod 10 < unat (num_descriptors t p)") (auto simp: live_slot_def not_less)
  ultimately show ?thesis by simp
qed

lemma copy_slot_some: "copy_slot mine (Some d) = Some (if is_nothing d then mine else Some (descriptor_copy d))"
  by (simp add: copy_slot_def)

lemma copy_descriptors_ok:
  assumes "table_ok p" "3 \<le> unat (num_descriptors FileDT p)" 
  shows "\<exists>c. copy_descriptors p (fresh_PCB pid) = Some c \<and> (\<forall>i < 30. dt c ! i = inherited (dt p ! i))
    \<and> length (dt c) = 30 \<and> dcount c = [3, 0, 0]"
proof -
  let ?s = "\<lambda>i. copy_slot (dt (fresh_PCB pid) ! i) (dt p ! i)"
  have slot: "?s i = Some (inherited (dt p ! i))" if i: "i < 30" for i
  proof -
    obtain d where d: "dt p ! i = Some d" using table_ok_slot[OF assms(1) i] by blast
    show ?thesis
    proof (cases "is_nothing d")
      case True
      then have nd: "d = NoDescriptor" by (cases d) (simp_all add: is_nothing_def)
      have "\<not> i < 3"
      proof
        assume "i < 3"
        then have "live_slot FileDT (slot_of 0 i p)" using table_okD(4)[OF assms(1), of FileDT i] assms(2) by simp
        then show False using d nd by (simp add: live_slot_def slot_of_def)
      qed
      then have "dt (fresh_PCB pid) ! i = Some NoDescriptor" using i by (simp add: fresh_PCB_def nth_append)
      then show ?thesis using d nd True by (simp add: copy_slot_some inherited_def)
    next
      case False
      then show ?thesis using d by (cases d) (simp_all add: copy_slot_some inherited_def is_nothing_def)
    qed
  qed
  have ne: "None \<notin> set (map ?s [0..<30])" using slot by (auto simp del: upt_rec_numeral)
  have "copy_descriptors p (fresh_PCB pid) = Some (fresh_PCB pid\<lparr>dt := map the (map ?s [0..<30])\<rparr>)"
    unfolding copy_descriptors_def Let_def using ne by (simp del: upt_rec_numeral)
  moreover have "\<forall>i < 30. map the (map ?s [0..<30]) ! i = inherited (dt p ! i)" using slot by (simp del: upt_rec_numeral)
  ultimately show ?thesis
    by (intro exI[of _ "fresh_PCB pid\<lparr>dt := map the (map ?s [0..<30])\<rparr>"]) (simp add: fresh_PCB_def del: upt_rec_numeral)
qed


text \<open>The child's counters are not copied, so its first open replaces an inherited file. When the parent
  has more than three files, the child holds the fourth one under the number 3, cannot close it,
  and the next file it opens is put in its place.\<close>

theorem child_open_overwrites:
  assumes "table_ok p" "3 < num_descriptors FileDT p" "descriptor_type d = FileDT"
  shows "\<exists>c c1 c2. PCB_new [0, 0, 0] pid = Some c \<and> copy_descriptors p c = Some c1
    \<and> live_slot FileDT (get_descriptor 3 c1) \<and> pcb_close 3 c1 = Some (- 1, c1)
    \<and> add_descriptor d c1 = Some (3, c2) \<and> get_descriptor 3 c2 = Some d"
proof -
  have n: "3 < unat (num_descriptors FileDT p)" using assms(2) by (simp add: word_less_nat_alt)
  then obtain c1 where c1: "copy_descriptors p (fresh_PCB pid) = Some c1" "\<forall>i < 30. dt c1 ! i = inherited (dt p ! i)"
    "length (dt c1) = 30" "dcount c1 = [3, 0, 0]" using copy_descriptors_ok[OF assms(1), of pid] by auto
  obtain f where f: "dt p ! 3 = Some f" "descriptor_type f = FileDT"
    using table_okD(4)[OF assms(1), of FileDT 3] n by (auto simp: live_slot_def slot_of_def)
  then have "dt c1 ! 3 = Some f" using c1(2) by (cases f) (simp_all add: inherited_def)
  then have get: "get_descriptor 3 c1 = Some f" by (simp add: get_slot)
  have close: "pcb_close 3 c1 = Some (- 1, c1)" using get f(2) c1(4) by (simp add: pcb_close_def is_nothing_def Let_def)
  have num: "unat (num_descriptors FileDT c1) = 3" using c1(4) by (simp add: num_of_no)
  obtain c2 where c2: "add_descriptor d c1 = Some (3, c2)" "dt c2 ! 3 = Some d"
    using add_descriptor_ok[OF c1(3), of d] c1(3) unfolding assms(3) num by simp
  then have "get_descriptor 3 c2 = Some d" by (simp add: get_slot)
  moreover have "live_slot FileDT (get_descriptor 3 c1)" using get f(2) by (simp add: live_slot_def)
  ultimately show ?thesis using PCB_new_fresh c1(1) close c2(1) by blast
qed

subsection \<open>Reading a file\<close>

lemma descriptor_read_ok:
  assumes "node_ok nd" "unat off \<le> unat (Node_size_in_bytes nd)" "0x80000000 \<le> buf"
  shows "\<exists>bytes. bytes = take (unat n) (drop (unat off) (file_bytes nd))
    \<and> descriptor_read (FileDescriptor off perm (Some nd)) buf n
        = Some (of_nat (length bytes), bytes, FileDescriptor (off + of_nat (length bytes)) perm (Some nd))
    \<and> unat (off + of_nat (length bytes)) = unat off + length bytes \<and> unat off + length bytes \<le> unat (Node_size_in_bytes nd)"
proof -
  let ?bytes = "take (unat n) (drop (unat off) (file_bytes nd))"
  have len: "length ?bytes = min (unat n) (unat (Node_size_in_bytes nd) - unat off)" by (simp add: file_bytes_def min.commute)
  have r: "Node_read_all nd off n = Some (of_nat (length ?bytes), ?bytes)" unfolding len by (rule Node_read_all_file[OF assms(1,2)])
  have small: "unat off + length ?bytes \<le> unat (Node_size_in_bytes nd)" using len assms(2) by simp
  then have "unat off + length ?bytes < 2 ^ 32" using unsigned_less[of "Node_size_in_bytes nd", where 'a = nat] by simp
  then have "unat (off + of_nat (length ?bytes)) = unat off + length ?bytes" by (rule unat_add_of_nat)
  moreover have "ucast (of_nat (length ?bytes) :: i64) = (of_nat (length ?bytes) :: u32)"
    using \<open>unat off + length ?bytes < 2 ^ 32\<close> by (simp add: unsigned_of_nat take_bit_nat_eq_self)
  ultimately show ?thesis using assms(3) r small by (intro exI[of _ ?bytes]) (simp add: Let_def)
qed

text \<open>A process that reads again and again from one descriptor, with buffers and sizes of its choice.\<close>

primrec read_seq :: "u32 \<Rightarrow> (u32 \<times> u32) list \<Rightarrow> PCB \<Rightarrow> (u8 list \<times> PCB) option" where
  "read_seq dti [] p = Some ([], p)"
| "read_seq dti (r # rs) p =
     (case pcb_read dti (fst r) (snd r) p of
        None \<Rightarrow> None
      | Some (n, bytes, p) \<Rightarrow> map_option (\<lambda>(more, p). (bytes @ more, p)) (read_seq dti rs p))"

lemma pcb_read_file:
  assumes "node_ok nd" "unat off \<le> unat (Node_size_in_bytes nd)" "0x80000000 \<le> buf" "unat dti < 30" "length (dt p) = 30"
    and "get_descriptor dti p = Some (FileDescriptor off perm (Some nd))"
  shows "\<exists>bytes off' p'. bytes = take (unat n) (drop (unat off) (file_bytes nd)) \<and> pcb_read dti buf n p = Some (of_nat (length bytes), bytes, p')
    \<and> get_descriptor dti p' = Some (FileDescriptor off' perm (Some nd)) \<and> unat off' = unat off + length bytes
    \<and> unat off' \<le> unat (Node_size_in_bytes nd) \<and> length (dt p') = 30 \<and> (\<forall>x. x \<noteq> dti \<longrightarrow> get_descriptor x p' = get_descriptor x p)"
proof -
  obtain bytes where b: "bytes = take (unat n) (drop (unat off) (file_bytes nd))"
    and r: "descriptor_read (FileDescriptor off perm (Some nd)) buf n
        = Some (of_nat (length bytes), bytes, FileDescriptor (off + of_nat (length bytes)) perm (Some nd))"
    and o: "unat (off + of_nat (length bytes)) = unat off + length bytes" "unat off + length bytes \<le> unat (Node_size_in_bytes nd)"
    using descriptor_read_ok[OF assms(1-3)] by blast
  let ?d = "FileDescriptor (off + of_nat (length bytes)) perm (Some nd)"
  have in_table: "dti < NUM_DESCRIPTORS * NUM_DESCRIPTOR_TYPES"
    using assms(4) by (simp add: NUM_DESCRIPTORS_def NUM_DESCRIPTOR_TYPES_def word_less_nat_alt)
  have read: "pcb_read dti buf n p = Some (of_nat (length bytes), bytes, put_back dti ?d p)"
    using assms(6) r by (simp add: pcb_read_def)
  have pb: "put_back dti ?d p = p\<lparr>dt := (dt p)[unat dti := Some ?d]\<rparr>" using in_table by (simp add: put_back_def)
  have other: "get_descriptor x (put_back dti ?d p) = get_descriptor x p" if "x \<noteq> dti" for x
    using that unfolding pb by (cases "unat x < 30") (simp_all add: get_slot get_other word_unat_eq_iff)
  have "get_descriptor dti (put_back dti ?d p) = Some ?d" unfolding pb using assms(4,5) by (simp add: get_slot)
  moreover have "length (dt (put_back dti ?d p)) = 30" unfolding pb using assms(5) by simp
  ultimately show ?thesis using b read o other
    by (intro exI[of _ bytes] exI[of _ "off + of_nat (length bytes)"] exI[of _ "put_back dti ?d p"]) simp
qed

lemma read_seq_file:
  assumes "node_ok nd" "\<forall>r \<in> set rs. 0x80000000 \<le> fst r" "unat dti < 30" "length (dt p) = 30"
    and "unat off \<le> unat (Node_size_in_bytes nd)" "get_descriptor dti p = Some (FileDescriptor off perm (Some nd))"
  shows "\<exists>p'. read_seq dti rs p = Some (take (sum_list (map (\<lambda>r. unat (snd r)) rs)) (drop (unat off) (file_bytes nd)), p')
    \<and> (\<forall>x. x \<noteq> dti \<longrightarrow> get_descriptor x p' = get_descriptor x p)"
  using assms(2-)
proof (induction rs arbitrary: p off)
  case (Cons r rs)
  have "0x80000000 \<le> fst r" using Cons.prems(1) by simp
  from pcb_read_file[OF assms(1) Cons.prems(4) this Cons.prems(2,3,5), of "snd r"] obtain bytes off' p1 where
    b: "bytes = take (unat (snd r)) (drop (unat off) (file_bytes nd))" and r: "pcb_read dti (fst r) (snd r) p = Some (of_nat (length bytes), bytes, p1)"
    and p1: "get_descriptor dti p1 = Some (FileDescriptor off' perm (Some nd))" "length (dt p1) = 30"
    and o: "unat off' = unat off + length bytes" "unat off' \<le> unat (Node_size_in_bytes nd)"
    and other: "\<forall>x. x \<noteq> dti \<longrightarrow> get_descriptor x p1 = get_descriptor x p" by blast
  from Cons.IH[OF _ Cons.prems(2) p1(2) o(2) p1(1)] Cons.prems(1) obtain p' where
    p': "read_seq dti rs p1 = Some (take (sum_list (map (\<lambda>r. unat (snd r)) rs)) (drop (unat off') (file_bytes nd)), p')"
    "\<forall>x. x \<noteq> dti \<longrightarrow> get_descriptor x p' = get_descriptor x p1" by auto
  let ?fb = "drop (unat off) (file_bytes nd)" and ?k = "sum_list (map (\<lambda>r. unat (snd r)) rs)"
  have "drop (unat off') (file_bytes nd) = drop (length bytes) ?fb" unfolding o(1) by (simp add: add.commute)
  moreover have "take (unat (snd r)) ?fb @ take k (drop (length bytes) ?fb) = take (unat (snd r) + k) ?fb" for k
    unfolding b by (cases "unat (snd r) \<le> length ?fb") (simp_all add: take_add)
  ultimately have "bytes @ take ?k (drop (unat off') (file_bytes nd)) = take (unat (snd r) + ?k) ?fb" by (simp add: b)
  then show ?case using r p' other by auto
qed simp

text \<open>C20. Reading a file in pieces gives its bytes in order. However a process splits its reads through one descriptor,
  and whatever falls behind the end, the pieces together are the file's bytes from the descriptor's
  offset on, and its other descriptors stay as they are.\<close>

theorem reads_are_consecutive:
  assumes "node_ok nd" "\<forall>r \<in> set rs. 0x80000000 \<le> fst r" "table_ok p" "dti < 30"
    and "get_descriptor dti p = Some (FileDescriptor off perm (Some nd))" "off \<le> Node_size_in_bytes nd"
  shows "\<exists>p'. read_seq dti rs p = Some (take (sum_list (map (\<lambda>r. unat (snd r)) rs)) (drop (unat off) (file_bytes nd)), p')
    \<and> (\<forall>x. x \<noteq> dti \<longrightarrow> get_descriptor x p' = get_descriptor x p)"
  by (rule read_seq_file[OF assms(1,2) _ _ _ assms(5)])
    (use assms(3,4,6) in \<open>simp_all add: table_ok_def word_less_nat_alt word_le_nat_alt\<close>)

text \<open>A failed read moves the offset back by one, since the count \<open>-1\<close> is added to it before the sign test, and the
  unsigned test never succeeds.\<close>

lemma failed_read_moves_offset:
  assumes "Node_size_in_bytes nd < off" "n \<noteq> 0" "0x80000000 \<le> buf"
  shows "descriptor_read (FileDescriptor off perm (Some nd)) buf n = Some (- 1, [], FileDescriptor (off - 1) perm (Some nd))"
proof -
  have "Node_read_all nd off n = Some (- 1, [])"
    unfolding Node_read_all_def by (rule read_all_behind) (use assms in auto)
  moreover have "ucast (- 1 :: i64) = (- 1 :: u32)" by (rule bit_word_eqI) (simp add: bit_unsigned_iff)
  ultimately show ?thesis using assms(3) by (simp add: Let_def)
qed

subsection \<open>Witnesses\<close>

text \<open>A process with a fourth file, at offset 1020 of the demo file of \<open>Ext2Props\<close>.\<close>

definition demo_PCB :: PCB where
  "demo_PCB = \<lparr>pcb_pid = 7, dt = replicate 3 (Some std) @ [Some (FileDescriptor 1020 0 (Some demo_node))] @ replicate 26 (Some NoDescriptor),
     dcount = [4, 0, 0]\<rparr>"

lemma demo_PCB_ok: "table_ok demo_PCB"
proof -
  have "dt demo_PCB ! i = (if i < 3 then Some std else if i = 3 then Some (FileDescriptor 1020 0 (Some demo_node)) else Some NoDescriptor)"
    if "i < 30" for i using that by (simp add: demo_PCB_def nth_append nth_Cons')
  then show ?thesis
    unfolding table_ok_def all_types by (auto simp: num_of_no slot_of_def live_slot_def std_def) (simp_all add: demo_PCB_def)
qed

lemma demo_PCB_get: "get_descriptor 3 demo_PCB = Some (FileDescriptor 1020 0 (Some demo_node))" "num_descriptors FileDT demo_PCB = 4"
  by (simp_all add: get_slot num_of_no demo_PCB_def nth_append)

theorem add_descriptor_fresh_witness:
  "\<exists>dti p'. add_descriptor (SemaphoreDescriptor 5) demo_PCB = Some (dti, p') \<and> table_ok p' \<and> get_descriptor dti p' = Some (SemaphoreDescriptor 5)
    \<and> get_descriptor 3 p' = get_descriptor 3 demo_PCB"
proof -
  let ?d = "SemaphoreDescriptor 5"
  have "num_descriptors (descriptor_type ?d) demo_PCB \<noteq> 10" by (simp add: num_of_no demo_PCB_def)
  moreover have k: "descriptor_type ?d \<noteq> NoneDT" by simp
  ultimately obtain dti p' where a: "add_descriptor ?d demo_PCB = Some (dti, p')" "table_ok p'" "get_descriptor dti demo_PCB = Some NoDescriptor"
    "get_descriptor dti p' = Some ?d" "\<forall>x. x \<noteq> dti \<longrightarrow> get_descriptor x p' = get_descriptor x demo_PCB"
    using add_descriptor_fresh[OF demo_PCB_ok k] by (auto split: option.splits)
  have "dti \<noteq> 3" using a(3) demo_PCB_get by auto
  with a show ?thesis by auto
qed

theorem close_then_open_overwrites_witness:
  "\<exists>p1 p2. pcb_close 0 demo_PCB = Some (0, p1) \<and> get_descriptor 3 p1 \<noteq> Some NoDescriptor \<and> add_descriptor std p1 = Some (3, p2)
    \<and> get_descriptor 3 p2 = Some std"
proof -
  have c: "FileDT \<noteq> NoneDT" "0 + 1 < unat (num_descriptors FileDT demo_PCB)" "descriptor_type std = FileDT"
    by (simp_all add: demo_PCB_get std_def)
  from close_then_open_overwrites[OF demo_PCB_ok c] show ?thesis
    by (auto simp: demo_PCB_get slot_of_def get_slot live_slot_def)
qed


theorem child_open_overwrites_witness:
  "\<exists>c c1 c2. PCB_new [0, 0, 0] 21 = Some c \<and> copy_descriptors demo_PCB c = Some c1 \<and> live_slot FileDT (get_descriptor 3 c1)
    \<and> pcb_close 3 c1 = Some (- 1, c1) \<and> add_descriptor std c1 = Some (3, c2) \<and> get_descriptor 3 c2 = Some std"
  by (rule child_open_overwrites[OF demo_PCB_ok]) (simp_all add: demo_PCB_get std_def)

theorem reads_are_consecutive_witness:
  "\<exists>p'. read_seq 3 [(0x80000000, 3), (0x80001000, 5)] demo_PCB = Some ([7, 7, 7, 7, 14, 14, 14, 14], p')
    \<and> get_descriptor 0 p' = Some std"
proof -
  have rs: "\<forall>r \<in> set [(0x80000000, 3), (0x80001000, 5)]. (0x80000000 :: u32) \<le> fst r" by simp
  have "(1020 :: u32) \<le> Node_size_in_bytes demo_node" by (simp add: Node_size_in_bytes_def demo_node_def demo_data_def)
  from reads_are_consecutive[OF demo_node_ok rs demo_PCB_ok _ demo_PCB_get(1) this] obtain p' where
    p': "read_seq 3 [(0x80000000, 3), (0x80001000, 5)] demo_PCB = Some (take 8 (drop 1020 (file_bytes demo_node)), p')"
    "\<forall>x. x \<noteq> 3 \<longrightarrow> get_descriptor x p' = get_descriptor x demo_PCB" by auto
  moreover have "get_descriptor 0 demo_PCB = Some std" by (simp add: get_slot demo_PCB_def nth_append)
  ultimately show ?thesis unfolding demo_bytes by auto
qed

end
