(* ===== verification/Exec.thy ===== *)
theory Exec
  imports Elf
begin

text \<open>
  Starting a program: \<open>SYS::save_args_call_exec\<close>, \<open>SYS::exec\<close> and \<open>SYS::setup_exec_stack\<close> of \<open>kernel/sys.cc\<close>. A
  process sees the memory as bytes; in its own half, from \<open>0x80000000\<close> up, a page that is not there reads as zeros,
  which is what the page fault handler makes of it. The copies of the arguments on the kernel's heap are blocks of
  bytes whose padding is whatever the block held before. \<open>None\<close> is a panic, a fault or a loop without end.
\<close>

subsection \<open>Words and strings in memory\<close>

definition store_word :: "u32 \<Rightarrow> u32 \<Rightarrow> memory \<Rightarrow> memory" where
  "store_word p w m = write_mem p (enc32 w) m"

partial_function (option) strlen_at :: "memory \<Rightarrow> u32 \<Rightarrow> u32 option" where
  "strlen_at m p = (if m p = 0 then Some 0 else Option.bind (strlen_at m (p + 1)) (\<lambda>n. Some (n + 1)))"

definition bytes_at :: "memory \<Rightarrow> u32 \<Rightarrow> nat \<Rightarrow> u8 list" where
  "bytes_at m p n = map (\<lambda>k. m (p + of_nat k)) [0..<n]"

definition align4 :: "u32 \<Rightarrow> u32" where
  "align4 n = (n + 3) div 4 * 4"

subsection \<open>Saving the arguments\<close>

text \<open>The loop that counts the arguments, from \<open>user_stack[i]\<close> on.\<close>

partial_function (option) count_args :: "memory \<Rightarrow> u32 \<Rightarrow> u32 \<Rightarrow> u32 option" where
  "count_args m user_stack i =
     (if load_word m (user_stack + 4 * i) = 0 then Some 0
      else Option.bind (count_args m user_stack (i + 1)) (\<lambda>argc. Some (argc + 1)))"

text \<open>One argument in a new block; \<open>junk\<close> is what the block held.\<close>

definition copy_arg :: "memory \<Rightarrow> (nat \<Rightarrow> u8) \<Rightarrow> u32 \<Rightarrow> u8 list option" where
  "copy_arg m junk current_arg =
     (case strlen_at m current_arg of
        None \<Rightarrow> None
      | Some n \<Rightarrow>
          let arg_len = n + 1;
              byte_aligned_arg_len = align4 arg_len
          in Some (bytes_at m current_arg (unat arg_len) @ map junk [unat arg_len..<unat byte_aligned_arg_len]))"

definition save_args :: "memory \<Rightarrow> (nat \<Rightarrow> nat \<Rightarrow> u8) \<Rightarrow> u32 \<Rightarrow> (u8 list \<times> u8 list list) option" where
  "save_args m junk user_stack =
     (case count_args m user_stack 2 of
        None \<Rightarrow> None
      | Some argc \<Rightarrow>
          (case those (map (\<lambda>arg. copy_arg m (junk arg) (load_word m (user_stack + 4 * (of_nat arg + 2)))) [0..<unat argc]) of
             None \<Rightarrow> None
           | Some argv \<Rightarrow>
               let path = load_word m (user_stack + 4)
               in (case strlen_at m path of
                     None \<Rightarrow> None
                   | Some n \<Rightarrow> Some (bytes_at m path (unat n), argv))))"

subsection \<open>The stack of the new program\<close>

text \<open>The length of the string in a block, the words it takes, and the bytes of stack all of them need.\<close>

definition strlen_block :: "u8 list \<Rightarrow> u32" where
  "strlen_block block = of_nat (length (takeWhile (\<lambda>b. b \<noteq> 0) block))"

definition arg_words :: "u8 list \<Rightarrow> u32" where
  "arg_words block = align4 (strlen_block block + 1) div 4"

definition bytes_needed :: "u8 list list \<Rightarrow> u32" where
  "bytes_needed argv =
     fold (\<lambda>block bytes. bytes + align4 (strlen_block block + 1)) argv (4 + 4 * (of_nat (length argv) + 1) + 4)"

text \<open>Fresh frames under the stack: the pages from \<open>va\<close> on, one for each 4096 bytes begun.\<close>

definition map_stack :: "u32 \<Rightarrow> u32 \<Rightarrow> memory \<Rightarrow> memory" where
  "map_stack va bytes m = (\<lambda>a. if unat (a - va) < 4096 * ((unat bytes + 4095) div 4096) then 0 else m a)"

text \<open>The loops from the last argument to the first: the strings with their addresses, then the pointers.\<close>

definition push_string :: "u8 list \<Rightarrow> u32 \<times> u32 list \<times> memory \<Rightarrow> u32 \<times> u32 list \<times> memory" where
  "push_string block = (\<lambda>(esp, addrs, m).
     let esp = esp - 4 * arg_words block
     in (esp, esp # addrs, write_mem esp (take (unat (4 * arg_words block)) block) m))"

definition push_word :: "u32 \<Rightarrow> u32 \<times> memory \<Rightarrow> u32 \<times> memory" where
  "push_word w = (\<lambda>(esp, m). (esp - 4, store_word (esp - 4) w m))"

definition setup_exec_stack :: "u8 list list \<Rightarrow> u32 \<Rightarrow> u32 \<Rightarrow> memory \<Rightarrow> memory" where
  "setup_exec_stack argv userEsp bytes m =
     (let m = map_stack userEsp (bytes + 4) m;
          (esp, addrs, m) = foldr push_string argv (userEsp + bytes, [], m);
          (esp, m) = push_word 0 (esp, m);
          (esp, m) = foldr push_word addrs (esp, m);
          (esp, m) = push_word esp (esp, m);
          (esp, m) = push_word (of_nat (length argv)) (esp, m)
      in m)"

subsection \<open>exec\<close>

datatype exec_result = Enter u32 u32 memory | Failed memory

definition remove_user_space :: "memory \<Rightarrow> memory" where
  "remove_user_space m = (\<lambda>a. if a \<ge> 0x80000000 then 0 else m a)"

definition sys_exec :: "Ext2 \<Rightarrow> Node \<Rightarrow> u8 list \<Rightarrow> u8 list list \<Rightarrow> memory \<Rightarrow> exec_result option" where
  "sys_exec fs root path argv m =
     (let m = remove_user_space m
      in case fs_find fs root (map byte_char path) of
           None \<Rightarrow> None
         | Some init \<Rightarrow>
             (case ELF_load init m of
                None \<Rightarrow> None
              | Some (e, m) \<Rightarrow>
                  if e = 0 \<or> e < 0x80000000 then Some (Failed m)
                  else
                    let userEsp = 0xefffe000
                    in Some (Enter e userEsp (setup_exec_stack argv userEsp (bytes_needed argv) m))))"

definition save_args_call_exec :: "Ext2 \<Rightarrow> Node \<Rightarrow> (nat \<Rightarrow> nat \<Rightarrow> u8) \<Rightarrow> u32 \<Rightarrow> memory \<Rightarrow> exec_result option" where
  "save_args_call_exec fs root junk user_stack m =
     (case save_args m junk user_stack of
        None \<Rightarrow> None
      | Some (path, argv) \<Rightarrow> sys_exec fs root path argv m)"

subsection \<open>Writing downwards\<close>

lemma write_mem_append:
  assumes "length xs + length ys \<le> 2 ^ 32" "q = p + of_nat (length xs)"
  shows "write_mem p xs (write_mem q ys m) = write_mem p (xs @ ys) m"
proof
  fix a :: u32
  define c where "c = a - p"
  have q: "a - q = c - of_nat (length xs)" by (simp add: assms(2) c_def)
  have c32: "unat c < 2 ^ 32" using unsigned_less[of c, where 'a = nat] by simp
  show "write_mem p xs (write_mem q ys m) a = write_mem p (xs @ ys) m a"
  proof (cases "unat c < length xs")
    case True
    then show ?thesis by (simp add: write_mem_def c_def nth_append)
  next
    case False
    then have "length xs < 2 ^ 32" using c32 by simp
    then have n: "unat (of_nat (length xs) :: u32) = length xs" by (simp add: unsigned_of_nat take_bit_nat_eq_self)
    then have "unat (c - of_nat (length xs)) = unat c - length xs" using False by (simp add: unat_sub word_le_nat_alt)
    with False show ?thesis unfolding write_mem_def q c_def[symmetric] by (auto simp: nth_append)
  qed
qed

lemma write_mem_nil [simp]: "write_mem p [] m = m"
  by (simp add: write_mem_def)

text \<open>A block that holds the string \<open>s\<close>, with padding up to whole words.\<close>

definition holds :: "u8 list \<Rightarrow> u8 list \<Rightarrow> bool" where
  "holds block s \<longleftrightarrow> (\<exists>pad. block = s @ 0 # pad) \<and> 0 \<notin> set s \<and> length block = 4 * ((length s + 4) div 4)"

lemma unat_of_nat_small: "n < 2 ^ 32 \<Longrightarrow> unat (of_nat n :: u32) = n"
  by (simp add: unsigned_of_nat take_bit_nat_eq_self)

lemma of_nat_div4: "n < 2 ^ 32 \<Longrightarrow> (of_nat n :: u32) div 4 = of_nat (n div 4)"
  by (simp add: word_unat_eq_iff unat_div unat_of_nat_small)

lemma holds_words:
  assumes "holds block s" "length block < 2 ^ 32 - 8"
  shows "strlen_block block = of_nat (length s)" "align4 (strlen_block block + 1) = of_nat (length block)"
    "4 * arg_words block = of_nat (length block)"
proof -
  obtain pad where block: "block = s @ 0 # pad" and s: "0 \<notin> set s" and l: "length block = 4 * ((length s + 4) div 4)"
    using assms(1) by (auto simp: holds_def)
  have "takeWhile (\<lambda>b. b \<noteq> 0) block = s" unfolding block using s by (subst takeWhile_append2) auto
  then show len: "strlen_block block = of_nat (length s)" by (simp add: strlen_block_def)
  have small: "length s + 4 < 2 ^ 32" using assms(2) block by simp
  have "strlen_block block + 1 + 3 = of_nat (length s + 4)" unfolding len by simp
  then show al: "align4 (strlen_block block + 1) = of_nat (length block)"
    unfolding align4_def l by (simp only: of_nat_div4[OF small] of_nat_mult of_nat_numeral mult.commute)
  have "4 * (of_nat (length block) div 4 :: u32) = of_nat (4 * (length block div 4))"
    using assms(2) by (simp add: of_nat_div4)
  also have "4 * (length block div 4) = length block" unfolding l by simp
  finally show "4 * arg_words block = of_nat (length block)" by (simp add: arg_words_def al)
qed

primrec addr_list :: "u32 \<Rightarrow> u8 list list \<Rightarrow> u32 list" where
  "addr_list p [] = []"
| "addr_list p (b # bs) = p # addr_list (p + of_nat (length b)) bs"

lemma push_strings:
  assumes "length (concat argv) < 2 ^ 32 - 8" "list_all2 holds argv ss"
  shows "foldr push_string argv (e, [], m) = (e - of_nat (length (concat argv)), addr_list (e - of_nat (length (concat argv))) argv,
    write_mem (e - of_nat (length (concat argv))) (concat argv) m)"
  using assms
proof (induction argv arbitrary: ss)
  case (Cons b bs)
  obtain s ts where ss: "ss = s # ts" "holds b s" "list_all2 holds bs ts" using Cons.prems(2) by (cases ss) auto
  have len: "length b < 2 ^ 32 - 8" "length (concat bs) < 2 ^ 32 - 8" using Cons.prems(1) by auto
  note b = holds_words(3)[OF ss(2) len(1)]
  have u: "unat (4 * arg_words b) = length b" unfolding b by (rule unat_of_nat_small) (use len in simp)
  define p where "p = e - of_nat (length (concat (b # bs)))"
  have e: "e - of_nat (length (concat bs)) - 4 * arg_words b = p" unfolding b p_def by simp
  have q: "e - of_nat (length (concat bs)) = p + of_nat (length b)" unfolding p_def by simp
  have w: "write_mem p b (write_mem (e - of_nat (length (concat bs))) (concat bs) m) = write_mem p (b @ concat bs) m"
    by (rule write_mem_append[OF _ q]) (use Cons.prems(1) in simp)
  have "foldr push_string (b # bs) (e, [], m) = (p, p # addr_list (e - of_nat (length (concat bs))) bs, write_mem p (b @ concat bs) m)"
    by (simp only: foldr.simps comp_apply Cons.IH[OF len(2) ss(3)] push_string_def prod.case Let_def e u w take_all order_refl)
  then show ?case unfolding p_def[symmetric] q by simp
qed simp

lemma push_words:
  assumes "4 * length ws < 2 ^ 32"
  shows "foldr push_word ws (e, m) = (e - of_nat (4 * length ws), write_mem (e - of_nat (4 * length ws)) (concat (map enc32 ws)) m)"
  using assms
proof (induction ws)
  case (Cons w ws)
  have len: "length (enc32 w) = 4" "length (concat (map enc32 ws)) = 4 * length ws"
    by (simp_all add: enc32_def length_concat comp_def sum_list_triv)
  show ?case
    using Cons write_mem_append[of "enc32 w" "concat (map enc32 ws)" "e - of_nat (4 * length ws)" "e - of_nat (4 * length (w # ws))"] len
    by (simp add: push_word_def store_word_def algebra_simps)
qed simp

lemma bytes_needed_sum:
  assumes "length (concat argv) < 2 ^ 32 - 8" "list_all2 holds argv ss"
  shows "bytes_needed argv = of_nat (12 + 4 * length argv + length (concat argv))"
proof -
  have "fold (\<lambda>block bytes. bytes + align4 (strlen_block block + 1)) bs b0 = b0 + of_nat (length (concat bs))"
    if "length (concat bs) < 2 ^ 32 - 8" "list_all2 holds bs ts" for bs ts b0
    using that
  proof (induction bs arbitrary: ts b0)
    case (Cons b bs)
    obtain t ts' where "holds b t" "list_all2 holds bs ts'" using Cons.prems(2) by (cases ts) auto
    with Cons.IH[of ts'] Cons.prems(1) holds_words(2)[of b t] show ?case by (simp add: algebra_simps)
  qed simp
  from this[OF assms] show ?thesis unfolding bytes_needed_def by (simp add: algebra_simps)
qed

text \<open>The words and strings from the stack pointer up.\<close>

definition stack_image :: "u32 \<Rightarrow> u8 list list \<Rightarrow> u8 list" where
  "stack_image esp argv = enc32 (of_nat (length argv)) @ enc32 (esp + 8)
     @ concat (map enc32 (addr_list (esp + of_nat (12 + 4 * length argv)) argv)) @ enc32 0 @ concat argv"

lemma length_addr_list [simp]: "length (addr_list p bs) = length bs"
  by (induction bs arbitrary: p) simp_all

lemma length_enc32 [simp]: "length (enc32 w) = 4"
  by (simp add: enc32_def)

lemma length_words [simp]: "length (concat (map enc32 ws)) = 4 * length ws"
  by (induction ws) simp_all

lemma push_word_write:
  assumes "length ys + 4 \<le> 2 ^ 32" "esp = p + 4"
  shows "push_word w (esp, write_mem esp ys m) = (p, write_mem p (enc32 w @ ys) m)"
  using write_mem_append[of "enc32 w" ys esp p m] assms by (simp add: push_word_def store_word_def)

lemma setup_exec_stack_image:
  assumes "12 + 4 * length argv + length (concat argv) < 2 ^ 32 - 8" "list_all2 holds argv ss"
  shows "setup_exec_stack argv esp (bytes_needed argv) m = write_mem esp (stack_image esp argv) (map_stack esp (bytes_needed argv + 4) m)"
proof -
  let ?n = "length argv" and ?L = "length (concat argv)"
  define m0 where "m0 = map_stack esp (bytes_needed argv + 4) m"
  define e1 where "e1 = esp + of_nat (12 + 4 * ?n)"
  define addrs where "addrs = addr_list e1 argv"
  have L: "?L < 2 ^ 32 - 8" using assms(1) by simp
  have e: "esp + bytes_needed argv - of_nat ?L = e1"
    unfolding bytes_needed_sum[OF L assms(2)] e1_def by simp
  have s1: "foldr push_string argv (esp + bytes_needed argv, [], m0) = (e1, addrs, write_mem e1 (concat argv) m0)"
    unfolding push_strings[OF L assms(2)] e addrs_def ..
  define e2 where "e2 = esp + of_nat (8 + 4 * ?n)"
  have s2: "push_word 0 (e1, write_mem e1 (concat argv) m0) = (e2, write_mem e2 (enc32 0 @ concat argv) m0)"
    by (rule push_word_write) (use assms(1) in \<open>simp_all add: e1_def e2_def\<close>)
  define e3 where "e3 = esp + 8"
  let ?ps = "concat (map enc32 addrs)"
  have n: "length addrs = ?n" by (simp add: addrs_def)
  have "4 * length addrs < 2 ^ 32" using assms(1) n by simp
  note pw = push_words[OF this, of e2]
  have e3: "e2 - of_nat (4 * length addrs) = e3" unfolding n e2_def e3_def by simp
  have s3: "foldr push_word addrs (e2, write_mem e2 (enc32 0 @ concat argv) m0) = (e3, write_mem e3 (?ps @ enc32 0 @ concat argv) m0)"
    unfolding pw e3
    by (subst write_mem_append) (use assms(1) n in \<open>simp_all add: e2_def e3_def\<close>)
  have s4: "push_word e3 (e3, write_mem e3 (?ps @ enc32 0 @ concat argv) m0)
    = (esp + 4, write_mem (esp + 4) (enc32 e3 @ ?ps @ enc32 0 @ concat argv) m0)"
    by (rule push_word_write) (use assms(1) n in \<open>simp_all add: e3_def\<close>)
  have s5: "push_word (of_nat ?n) (esp + 4, write_mem (esp + 4) (enc32 e3 @ ?ps @ enc32 0 @ concat argv) m0)
    = (esp, write_mem esp (enc32 (of_nat ?n) @ enc32 e3 @ ?ps @ enc32 0 @ concat argv) m0)"
    by (rule push_word_write) (use assms(1) n in simp_all)
  have "setup_exec_stack argv esp (bytes_needed argv) m = write_mem esp (enc32 (of_nat ?n) @ enc32 e3 @ ?ps @ enc32 0 @ concat argv) m0"
    unfolding setup_exec_stack_def Let_def m0_def[symmetric] s1 prod.case s2 s3 s4 s5 ..
  then show ?thesis unfolding stack_image_def addrs_def e1_def e3_def m0_def .
qed

text \<open>Reading back what lies in an image.\<close>

lemma bytes_at_write:
  assumes "length (xs @ zs @ ys) \<le> 2 ^ 32" "zs \<noteq> []" "q = p + of_nat (length xs)"
  shows "bytes_at (write_mem p (xs @ zs @ ys) m) q (length zs) = zs"
proof (rule nth_equalityI)
  fix k assume "k < length (bytes_at (write_mem p (xs @ zs @ ys) m) q (length zs))"
  then have k: "k < length zs" by (simp add: bytes_at_def)
  then have lt: "length xs + k < 2 ^ 32" using assms(1) by simp
  have "unat (q + of_nat k - p) = length xs + k"
    using unat_of_nat_small[OF lt] by (simp add: assms(3))
  then show "bytes_at (write_mem p (xs @ zs @ ys) m) q (length zs) ! k = zs ! k"
    using k by (simp add: bytes_at_def write_mem_def nth_append)
qed (simp add: bytes_at_def)

lemma load_word_bytes: "load_word m p = le32 (bytes_at m p 4) 0"
  by (simp add: load_word_def bytes_at_def upt_rec)

lemma load_word_write:
  assumes "length (xs @ enc32 w @ ys) \<le> 2 ^ 32" "q = p + of_nat (length xs)"
  shows "load_word (write_mem p (xs @ enc32 w @ ys) m) q = w"
proof -
  have "enc32 w \<noteq> []" by (simp add: enc32_def)
  from bytes_at_write[OF assms(1) this assms(2)] show ?thesis by (simp add: load_word_bytes le32_enc32)
qed

lemma addr_list_nth: "i < length bs \<Longrightarrow> addr_list p bs ! i = p + of_nat (length (concat (take i bs)))"
proof (induction bs arbitrary: p i)
  case (Cons b bs)
  then show ?case by (cases i) (simp_all add: add.assoc)
qed simp

lemma split_nth: "i < length xs \<Longrightarrow> xs = take i xs @ xs ! i # drop (Suc i) xs"
  by (rule id_take_nth_drop)

text \<open>What \<open>main\<close> finds: \<open>argc\<close>, \<open>argv\<close>, each argument and the final null pointer.\<close>

definition main_sees :: "memory \<Rightarrow> u32 \<Rightarrow> u8 list list \<Rightarrow> bool" where
  "main_sees m esp ss \<longleftrightarrow> (let argv = load_word m (esp + 4)
     in load_word m esp = of_nat (length ss) \<and> load_word m (argv + 4 * of_nat (length ss)) = 0
        \<and> (\<forall>i < length ss. bytes_at m (load_word m (argv + 4 * of_nat i)) (length (ss ! i) + 1) = ss ! i @ [0]))"

lemma image_main_sees:
  assumes "12 + 4 * length argv + length (concat argv) < 2 ^ 32" "list_all2 holds argv ss"
  shows "main_sees (write_mem esp (stack_image esp argv) m) esp ss"
proof -
  let ?n = "length argv" and ?base = "esp + of_nat (12 + 4 * length argv)"
  let ?m = "write_mem esp (stack_image esp argv) m"
  define addrs where "addrs = addr_list ?base argv"
  have n: "length ss = ?n" "length addrs = ?n" using assms(2) by (simp_all add: list_all2_lengthD addrs_def)
  have img: "stack_image esp argv = enc32 (of_nat ?n) @ enc32 (esp + 8) @ concat (map enc32 addrs) @ enc32 0 @ concat argv"
    by (simp add: stack_image_def addrs_def)
  have small: "length (stack_image esp argv) < 2 ^ 32" using assms(1) n unfolding img by simp
  have argc: "load_word ?m esp = of_nat ?n"
    using load_word_write[of "[]" "of_nat ?n" _ esp esp m] small unfolding img by simp
  have argv: "load_word ?m (esp + 4) = esp + 8"
    using load_word_write[of "enc32 (of_nat ?n)" "esp + 8" _ "esp + 4" esp m] small unfolding img by simp
  have null: "load_word ?m (esp + 8 + 4 * of_nat ?n) = 0"
    using load_word_write[of "enc32 (of_nat ?n) @ enc32 (esp + 8) @ concat (map enc32 addrs)" 0 _ "esp + 8 + 4 * of_nat ?n" esp m] small n
    unfolding img by (simp add: add.assoc)
  have arg: "bytes_at ?m (load_word ?m (esp + 8 + 4 * of_nat i)) (length (ss ! i) + 1) = ss ! i @ [0]" if i: "i < ?n" for i
  proof -
    have "concat (map enc32 addrs) = concat (map enc32 (take i addrs)) @ enc32 (addrs ! i) @ concat (map enc32 (drop (Suc i) addrs))"
      using split_nth[of i addrs] i n(2) by (metis concat.simps(2) concat_append list.simps(9) map_append)
    then have p: "load_word ?m (esp + 8 + 4 * of_nat i) = addrs ! i"
      using load_word_write[of "enc32 (of_nat ?n) @ enc32 (esp + 8) @ concat (map enc32 (take i addrs))" "addrs ! i"
          "concat (map enc32 (drop (Suc i) addrs)) @ enc32 0 @ concat argv" "esp + 8 + 4 * of_nat i" esp m] small n i
      unfolding img by (simp add: add.assoc)
    obtain pad where b: "argv ! i = ss ! i @ 0 # pad" using list_all2_nthD[OF assms(2) i] by (auto simp: holds_def)
    have cat: "concat argv = concat (take i argv) @ (ss ! i @ [0]) @ pad @ concat (drop (Suc i) argv)"
      using split_nth[of i argv] i b by (metis append.assoc append_Cons append_Nil concat.simps(2) concat_append)
    have "addrs ! i = ?base + of_nat (length (concat (take i argv)))" unfolding addrs_def by (rule addr_list_nth[OF i])
    then have "bytes_at ?m (addrs ! i) (length (ss ! i @ [0])) = ss ! i @ [0]"
      using bytes_at_write[of "enc32 (of_nat ?n) @ enc32 (esp + 8) @ concat (map enc32 addrs) @ enc32 0 @ concat (take i argv)" "ss ! i @ [0]"
          "pad @ concat (drop (Suc i) argv)" "addrs ! i" esp m] small n
      unfolding img cat by (simp add: algebra_simps)
    then show ?thesis unfolding p by simp
  qed
  show ?thesis unfolding main_sees_def Let_def argc argv using n null arg by simp
qed

subsection \<open>Reading the caller's arguments\<close>

definition stores_string :: "memory \<Rightarrow> u32 \<Rightarrow> u8 list \<Rightarrow> bool" where
  "stores_string m p s \<longleftrightarrow> 0 \<notin> set s \<and> bytes_at m p (length s + 1) = s @ [0]"

text \<open>The call \<open>execl(path, arg0, ..., 0)\<close>, seen from the kernel.\<close>

definition caller_args :: "memory \<Rightarrow> u32 \<Rightarrow> u8 list \<Rightarrow> u8 list list \<Rightarrow> bool" where
  "caller_args m user_stack path ss \<longleftrightarrow> stores_string m (load_word m (user_stack + 4)) path
     \<and> (\<forall>i < length ss. load_word m (user_stack + 4 * (of_nat i + 2)) \<noteq> 0
          \<and> stores_string m (load_word m (user_stack + 4 * (of_nat i + 2))) (ss ! i))
     \<and> load_word m (user_stack + 4 * (of_nat (length ss) + 2)) = 0"

lemma bytes_at_Suc: "bytes_at m p (Suc n) = m p # bytes_at m (p + 1) n"
  unfolding bytes_at_def upt_conv_Cons[OF zero_less_Suc] map_Suc_upt[symmetric] by (simp add: comp_def add.assoc)

lemma strlen_at_string: "stores_string m p s \<Longrightarrow> strlen_at m p = Some (of_nat (length s))"
proof (induction s arbitrary: p)
  case Nil
  then show ?case by (subst strlen_at.simps) (simp add: stores_string_def bytes_at_Suc)
next
  case (Cons c s)
  then have "m p = c" "c \<noteq> 0" "stores_string m (p + 1) s" by (auto simp: stores_string_def bytes_at_Suc)
  with Cons.IH show ?case by (subst strlen_at.simps) (simp add: add.commute)
qed

lemma count_args_list:
  assumes "caller_args m user_stack path ss" "i \<le> length ss"
  shows "count_args m user_stack (of_nat i + 2) = Some (of_nat (length ss - i))"
  using assms(2)
proof (induction "length ss - i" arbitrary: i)
  case 0
  then have "i = length ss" by simp
  then show ?case using assms(1) by (subst count_args.simps) (simp add: caller_args_def)
next
  case (Suc n)
  then have i: "i < length ss" by simp
  have "count_args m user_stack (of_nat (Suc i) + 2) = Some (of_nat (length ss - Suc i))"
    by (rule Suc.hyps(1)) (use Suc.hyps(2) i in simp_all)
  moreover have "of_nat (Suc i) + 2 = of_nat i + 2 + (1 :: u32)" by simp
  moreover have "load_word m (user_stack + 4 * (of_nat i + 2)) \<noteq> 0" using assms(1) i by (simp add: caller_args_def)
  moreover have "length ss - i = Suc (length ss - Suc i)" using i by simp
  ultimately show ?case by (subst count_args.simps) (simp add: add.commute)
qed

lemma copy_arg_holds:
  assumes "stores_string m p s" "length s < 2 ^ 32 - 16"
  shows "\<exists>block. copy_arg m junk p = Some block \<and> holds block s"
proof -
  have n: "unat (of_nat (length s) + 1 :: u32) = length s + 1"
    using assms(2) unat_of_nat_small[of "length s + 1"] by (simp add: add.commute)
  have "of_nat (length s) + 1 + 3 = (of_nat (length s + 4) :: u32)" by simp
  then have al: "align4 (of_nat (length s) + 1) = of_nat (4 * ((length s + 4) div 4))"
    unfolding align4_def using assms(2) by (simp only: of_nat_div4) (simp add: mult.commute)
  have bound: "4 * ((length s + 4) div 4) \<le> length s + 4" by simp
  then have u: "unat (align4 (of_nat (length s) + 1)) = 4 * ((length s + 4) div 4)"
    unfolding al by (rule unat_of_nat_small[OF le_less_trans]) (use assms(2) in simp)
  have le: "length s + 1 \<le> 4 * ((length s + 4) div 4)" by presburger
  show ?thesis
    using assms(1) strlen_at_string[OF assms(1)] le
    by (simp add: copy_arg_def Let_def n u holds_def stores_string_def)
qed

lemma those_some: "\<forall>i < length xs. xs ! i = Some (ys ! i) \<Longrightarrow> length ys = length xs \<Longrightarrow> those xs = Some ys"
proof (induction xs arbitrary: ys)
  case (Cons x xs)
  then obtain y zs where ys: "ys = y # zs" by (cases ys) auto
  have "those xs = Some zs" by (rule Cons.IH) (use Cons.prems ys in fastforce)+
  moreover have "x = Some y" using Cons.prems(1)[rule_format, of 0] ys by simp
  ultimately show ?case using ys by simp
qed simp

lemma save_args_ok:
  assumes "caller_args m user_stack path ss" "length path < 2 ^ 32" "length ss < 2 ^ 32" "\<forall>s \<in> set ss. length s < 2 ^ 32 - 16"
  shows "\<exists>argv. save_args m junk user_stack = Some (path, argv) \<and> list_all2 holds argv ss"
proof -
  let ?copy = "\<lambda>arg. copy_arg m (junk arg) (load_word m (user_stack + 4 * (of_nat arg + 2)))"
  have c: "count_args m user_stack 2 = Some (of_nat (length ss))" using count_args_list[OF assms(1), of 0] by simp
  have "\<exists>block. ?copy i = Some block \<and> holds block (ss ! i)" if "i < length ss" for i
    using assms(1,4) that by (intro copy_arg_holds) (simp_all add: caller_args_def)
  then obtain f where f: "\<And>i. i < length ss \<Longrightarrow> ?copy i = Some (f i) \<and> holds (f i) (ss ! i)" by metis
  define argv where "argv = map f [0..<length ss]"
  have t: "those (map ?copy [0..<length ss]) = Some argv" by (rule those_some) (use f in \<open>simp_all add: argv_def\<close>)
  have h: "list_all2 holds argv ss" using f by (intro list_all2_all_nthI) (simp_all add: argv_def)
  have s: "stores_string m (load_word m (user_stack + 4)) path" using assms(1) by (simp add: caller_args_def)
  then have "bytes_at m (load_word m (user_stack + 4)) (length path) = path"
    unfolding stores_string_def bytes_at_def by simp
  with c t h strlen_at_string[OF s] assms(2,3) show ?thesis
    by (simp add: save_args_def Let_def unat_of_nat_small)
qed

text \<open>The bytes of stack that the arguments take.\<close>

definition stack_bytes :: "u8 list list \<Rightarrow> nat" where
  "stack_bytes ss = 12 + 4 * length ss + sum_list (map (\<lambda>s. 4 * ((length s + 4) div 4)) ss)"

lemma holds_length: "list_all2 holds argv ss \<Longrightarrow> length (concat argv) = sum_list (map (\<lambda>s. 4 * ((length s + 4) div 4)) ss)"
  by (induction rule: list_all2_induct) (simp_all add: holds_def)

lemma stack_bytes_member: "s \<in> set ss \<Longrightarrow> length s \<le> stack_bytes ss"
proof -
  assume "s \<in> set ss"
  then have "4 * ((length s + 4) div 4) \<le> sum_list (map (\<lambda>s. 4 * ((length s + 4) div 4)) ss)" by (intro member_le_sum_list) auto
  moreover have "length s \<le> 4 * ((length s + 4) div 4)" by presburger
  ultimately show ?thesis by (simp add: stack_bytes_def)
qed

lemma below_stack:
  assumes "a < 0xefffe000" "n \<le> 0x10001fff"
  shows "\<not> unat (a - 0xefffe000 :: u32) < n"
proof -
  have "unat a < 0xefffe000" using assms(1) by (simp add: word_less_nat_alt)
  then have "unat (a - 0xefffe000) = unat a + 2 ^ 32 - 0xefffe000" by (simp add: unat_sub_if_size word_size)
  with assms(2) show ?thesis by simp
qed

text \<open>The program a file holds, over an empty user half.\<close>

definition program_image :: "Node \<Rightarrow> memory \<Rightarrow> memory" where
  "program_image node m =
     fold (\<lambda>i. place node (program_header node i)) [0..<unat (e_phnum (elf_header node))] (remove_user_space m)"

lemma sys_exec_enters:
  assumes "fs_find fs root (map byte_char path) = Some (Some node)" "elf_ok node" "0x80000000 \<le> e_entry (elf_header node)"
    and "list_all2 holds argv ss" "stack_bytes ss \<le> 0x10000000"
  shows "\<exists>m'. sys_exec fs root path argv m = Some (Enter (e_entry (elf_header node)) 0xefffe000 m') \<and> main_sees m' 0xefffe000 ss
    \<and> (\<forall>a < 0xefffe000. m' a = program_image node m a)"
proof -
  let ?e = "e_entry (elf_header node)"
  have load: "ELF_load (Some node) (remove_user_space m) = Some (?e, program_image node m)"
    unfolding program_image_def by (rule ELF_load_image[OF assms(2)])
  have "length argv = length ss" by (rule list_all2_lengthD[OF assms(4)])
  then have total: "12 + 4 * length argv + length (concat argv) = stack_bytes ss"
    using holds_length[OF assms(4)] by (simp add: stack_bytes_def)
  define m' where "m' = setup_exec_stack argv 0xefffe000 (bytes_needed argv) (program_image node m)"
  have small: "12 + 4 * length argv + length (concat argv) < 2 ^ 32 - 8" using total assms(5) by simp
  have m': "m' = write_mem 0xefffe000 (stack_image 0xefffe000 argv) (map_stack 0xefffe000 (bytes_needed argv + 4) (program_image node m))"
    unfolding m'_def by (rule setup_exec_stack_image[OF small assms(4)])
  have "main_sees m' 0xefffe000 ss" unfolding m' using small by (intro image_main_sees assms(4)) simp
  moreover have "m' a = program_image node m a" if a: "a < 0xefffe000" for a
  proof -
    have L: "length (concat argv) < 2 ^ 32 - 8" using small by simp
    have "bytes_needed argv = of_nat (stack_bytes ss)" unfolding bytes_needed_sum[OF L assms(4)] total ..
    then have "bytes_needed argv + 4 = of_nat (stack_bytes ss + 4)" by simp
    then have "unat (bytes_needed argv + 4) = stack_bytes ss + 4" using unat_of_nat_small[of "stack_bytes ss + 4"] assms(5) by simp
    then have pages: "4096 * ((unat (bytes_needed argv + 4) + 4095) div 4096) \<le> 0x10001fff" using assms(5) by simp
    have "length (stack_image 0xefffe000 argv) \<le> 0x10001fff" using total assms(5) by (simp add: stack_image_def)
    with below_stack[OF a pages] below_stack[OF a this] show ?thesis by (simp add: m' write_mem_def map_stack_def)
  qed
  moreover have "\<not> (?e = 0 \<or> ?e < 0x80000000)" using assms(3) by (auto simp: not_less)
  ultimately show ?thesis using assms(1) load by (simp add: sys_exec_def m'_def Let_def)
qed


text \<open>A failed \<open>execl\<close> destroys its caller. The user half is wiped before the file is looked up, so when the path
  names nothing the call returns \<open>-1\<close> to a program whose memory, code and stack included, is all zeros.\<close>

theorem exec_failure_wipes:
  assumes "save_args m junk user_stack = Some (path, argv)" "fs_find fs root (map byte_char path) = Some None"
  shows "\<exists>m'. save_args_call_exec fs root junk user_stack m = Some (Failed m') \<and> (\<forall>a \<ge> 0x80000000. m' a = 0)
    \<and> (\<forall>a < 0x80000000. m' a = m a)"
  using assms by (auto simp: save_args_call_exec_def sys_exec_def ELF_load_def remove_user_space_def)

text \<open>The test of the entry point comes after the loading: a program whose segments lie in the kernel's half is
  written over the kernel, and then the call returns \<open>-1\<close>.\<close>

lemma exec_loads_into_kernel:
  assumes "fs_find fs root (map byte_char path) = Some (Some node)" "elf_ok node" "e_entry (elf_header node) < 0x80000000"
  shows "sys_exec fs root path argv m = Some (Failed (program_image node m))"
  using assms ELF_load_image[OF assms(2), of "remove_user_space m"] by (simp add: sys_exec_def program_image_def Let_def)

subsection \<open>Witnesses\<close>

text \<open>A caller whose stack at \<open>0x80001000\<close> holds the call \<open>execl(path, "ab", "", 0)\<close>, the path being one character \<open>c\<close>,
  on a file system whose root node is the demo program of \<open>Elf\<close>.\<close>

definition demo_call :: "u8 \<Rightarrow> memory" where
  "demo_call c = write_mem 0x80001000 (enc32 0 @ enc32 0x80001014 @ enc32 0x80001018 @ enc32 0x8000101C @ enc32 0
     @ [c, 0, 0, 0, 97, 98, 0, 0, 0]) (\<lambda>_. 0)"

definition demo_fs :: Ext2 where
  "demo_fs = \<lparr>fs_disk = (\<lambda>_. None), blockSize = 1024, numberOfNodes = 0, numberOfBlocks = 0, iNodeSize = 128, nGroups = 0,
     iNodeTables = [], iNodesPerGroup = 0\<rparr>"

lemma demo_call_words:
  "load_word (demo_call c) 0x80001004 = 0x80001014" "load_word (demo_call c) 0x80001008 = 0x80001018"
  "load_word (demo_call c) 0x8000100C = 0x8000101C" "load_word (demo_call c) 0x80001010 = 0"
  by (simp_all add: load_word_def demo_call_def write_mem_def enc32_def le32_def)

lemma demo_call_strings:
  "c \<noteq> 0 \<Longrightarrow> stores_string (demo_call c) 0x80001014 [c]" "stores_string (demo_call c) 0x80001018 [97, 98]"
  "stores_string (demo_call c) 0x8000101C []"
  by (simp_all add: stores_string_def bytes_at_Suc bytes_at_def demo_call_def write_mem_def enc32_def)

lemma demo_call_args: "c \<noteq> 0 \<Longrightarrow> caller_args (demo_call c) 0x80001000 [c] [[97, 98], []]"
  by (auto simp: caller_args_def demo_call_words demo_call_strings less_Suc_eq)

lemma byte_chars: "byte_char 47 = CHR ''/''" "byte_char 97 = CHR ''a''"
  by code_simp+


text \<open>The same call with a path that names nothing: the root directory is empty.\<close>

theorem exec_failure_wipes_witness:
  "\<exists>m'. save_args_call_exec demo_fs (small_node (replicate 512 0) 0 0x4000) (\<lambda>_ _. 0) 0x80001000 (demo_call 97) = Some (Failed m')
    \<and> m' 0x80001018 = 0"
proof -
  let ?dir = "small_node (replicate 512 0) 0 0x4000"
  have "caller_args (demo_call 97) 0x80001000 [97] [[97, 98], []]" by (rule demo_call_args) simp
  from save_args_ok[OF this, of "\<lambda>_ _. 0"] obtain argv where
    s: "save_args (demo_call 97) (\<lambda>_ _. 0) 0x80001000 = Some ([97], argv)" by auto
  have "Node_find ?dir (c_string ''a'') = Some 0"
    by (simp add: Node_find_def entries_def entries_loop.simps small_node_def is_dir_def get_type_def)
  then have f: "fs_find demo_fs ?dir (map byte_char [97]) = Some None"
    by (simp add: fs_find.simps byte_chars)
  from exec_failure_wipes[OF s f] show ?thesis by auto
qed

end
