(* ===== verification/Sys.thy ===== *)
theory Sys
  imports Processes Semaphores Exec
begin

text \<open>
  System calls: \<open>kernel/sys.cc\<close> with the parts of \<open>processes.cc\<close>, \<open>future.h\<close> and \<open>threads.h\<close> they run. Process \<open>t\<close> is thread
  \<open>t\<close> of the system of \<open>Semaphores\<close>; the shared part of the state holds the processes, their status futures and the
  memory: one user half for each process and one kernel half for all. Every call is one step up to the point where it
  blocks. \<open>None\<close> is a failed assertion, a panic, a fault or the loss of the descriptor table; the page at
  address 0 is not mapped, the rest of the kernel's half counts as mapped.
\<close>

subsection \<open>State\<close>

record future =
  go :: nat
  isReady :: bool
  future_t :: u32

record kshared =
  pcbs :: "PCB list"
  futures :: "future list"
  nsems :: nat
  umem :: "nat \<Rightarrow> memory"
  kmem :: memory
  console :: "u8 list"
  powered :: bool

text \<open>Where a process is: in its own code with the last result, behind a \<open>down\<close>, in \<open>get\<close> of the future of a child, or
  in \<open>stop\<close> after \<open>exit\<close>.\<close>

datatype label = User u32 | AfterDown | AfterGet nat u32 | Stopped u32

type_synonym kernel = "(kshared, label) tsys"

definition touches_null :: "u32 \<Rightarrow> nat \<Rightarrow> bool" where
  "touches_null p n \<longleftrightarrow> (\<exists>k \<in> set [0..<n]. p + of_nat k < 4096)"

definition kview :: "kshared \<Rightarrow> nat \<Rightarrow> memory" where
  "kview sh t = (\<lambda>a. if a \<ge> 0x80000000 then umem sh t a else kmem sh a)"

definition set_view :: "nat \<Rightarrow> memory \<Rightarrow> kshared \<Rightarrow> kshared" where
  "set_view t m sh = sh\<lparr>umem := (umem sh)(t := (\<lambda>a. if a \<ge> 0x80000000 then m a else umem sh t a)),
     kmem := (\<lambda>a. if a \<ge> 0x80000000 then kmem sh a else m a)\<rparr>"

definition user_arg :: "memory \<Rightarrow> u32 \<Rightarrow> u32 option" where
  "user_arg m p = (if touches_null p 4 then None else Some (load_word m p))"

definition put_bytes :: "nat \<Rightarrow> u32 \<Rightarrow> u8 list \<Rightarrow> kshared \<Rightarrow> kshared option" where
  "put_bytes t p bytes sh = (if touches_null p (length bytes) then None else Some (set_view t (write_mem p bytes (kview sh t)) sh))"

definition set_pcb :: "nat \<Rightarrow> PCB \<Rightarrow> kshared \<Rightarrow> kshared" where
  "set_pcb t p sh = sh\<lparr>pcbs := (pcbs sh)[t := p]\<rparr>"

subsection \<open>Semaphores and futures\<close>

text \<open>\<open>down\<close> by thread \<open>t\<close>: it goes on at \<open>l\<close>, or waits and will go on there.\<close>

definition k_down :: "nat \<Rightarrow> nat \<Rightarrow> label \<Rightarrow> kernel \<Rightarrow> kernel option" where
  "k_down t s l c =
     (case sem_down t (sems c s) (links_of c) of
        None \<Rightarrow> None
      | Some (passed, sem, nx) \<Rightarrow>
          Some (c\<lparr>sems := (sems c)(s := sem), links_of := nx, threads := (threads c)[t := (if passed then Run l else Wait s l)]\<rparr>))"

text \<open>\<open>up\<close> by a running thread: the first waiting thread is made ready.\<close>

definition k_up :: "nat \<Rightarrow> kernel \<Rightarrow> kernel option" where
  "k_up s c =
     (let (next, sem, nx) = sem_up (sems c s) (links_of c);
          c' = c\<lparr>sems := (sems c)(s := sem), links_of := nx\<rparr>
      in case next of
           None \<Rightarrow> Some c'
         | Some u \<Rightarrow>
             if u < length (threads c)
             then (case threads c ! u of Wait _ m \<Rightarrow> Some (c'\<lparr>threads := (threads c)[u := Run m]\<rparr>) | _ \<Rightarrow> None)
             else None)"

definition set_thread :: "nat \<Rightarrow> label \<Rightarrow> kernel \<Rightarrow> kernel" where
  "set_thread t l c = c\<lparr>threads := (threads c)[t := Run l]\<rparr>"

definition future_set :: "nat \<Rightarrow> u32 \<Rightarrow> kernel \<Rightarrow> kernel option" where
  "future_set f v c =
     (let fu = futures (shared c) ! f
      in if isReady fu then None
         else k_up (go fu) (c\<lparr>shared := (shared c)\<lparr>futures := (futures (shared c))[f := fu\<lparr>future_t := v, isReady := True\<rparr>]\<rparr>\<rparr>))"

subsection \<open>The calls\<close>

text \<open>The result of a call: the value for \<open>eax\<close> and the new state.\<close>

definition returns :: "nat \<Rightarrow> u32 \<Rightarrow> kernel \<Rightarrow> kernel" where
  "returns t v c = set_thread t (User v) c"

text \<open>\<open>exit\<close>: the status is set, then \<open>stop\<close>.\<close>

definition sys_exit :: "nat \<Rightarrow> u32 \<Rightarrow> kernel \<Rightarrow> kernel option" where
  "sys_exit t rc c = map_option (set_thread t (Stopped rc)) (future_set t rc c)"

definition sys_write :: "u32 \<times> u32 \<Rightarrow> nat \<Rightarrow> u32 \<Rightarrow> u32 \<Rightarrow> u32 \<Rightarrow> kernel \<Rightarrow> kernel option" where
  "sys_write apics t fd buf nbyte c =
     (case pcb_write apics fd (kview (shared c) t) buf nbyte (pcbs (shared c) ! t) of
        None \<Rightarrow> None
      | Some (r, out) \<Rightarrow>
          if touches_null buf (length out) then None
          else Some (returns t r (c\<lparr>shared := (shared c)\<lparr>console := console (shared c) @ out\<rparr>\<rparr>)))"

definition sys_sem :: "nat \<Rightarrow> u32 \<Rightarrow> kernel \<Rightarrow> kernel option" where
  "sys_sem t count c =
     (let s = nsems (shared c)
      in case pcb_sem s (pcbs (shared c) ! t) of
           None \<Rightarrow> None
         | Some (sd, p) \<Rightarrow>
             Some (returns t sd (c\<lparr>sems := (sems c)(s := Semaphore_new count),
                                   shared := (set_pcb t p (shared c))\<lparr>nsems := s + 1\<rparr>\<rparr>)))"

definition sys_up :: "nat \<Rightarrow> u32 \<Rightarrow> kernel \<Rightarrow> kernel option" where
  "sys_up t sd c =
     (case get_descriptor sd (pcbs (shared c) ! t) of
        None \<Rightarrow> None
      | Some (SemaphoreDescriptor s) \<Rightarrow> map_option (returns t 0) (k_up s c)
      | Some _ \<Rightarrow> Some (returns t (- 1) c))"

definition sys_down :: "nat \<Rightarrow> u32 \<Rightarrow> kernel \<Rightarrow> kernel option" where
  "sys_down t sd c =
     (case get_descriptor sd (pcbs (shared c) ! t) of
        None \<Rightarrow> None
      | Some (SemaphoreDescriptor s) \<Rightarrow>
          map_option (\<lambda>c. if threads c ! t = Run AfterDown then returns t 0 c else c) (k_down t s AfterDown c)
      | Some _ \<Rightarrow> Some (returns t (- 1) c))"

definition sys_close :: "nat \<Rightarrow> u32 \<Rightarrow> kernel \<Rightarrow> kernel option" where
  "sys_close t dti c =
     map_option (\<lambda>(r, p). returns t r (c\<lparr>shared := set_pcb t p (shared c)\<rparr>)) (pcb_close dti (pcbs (shared c) ! t))"

definition sys_shutdown :: "nat \<Rightarrow> kernel \<Rightarrow> kernel option" where
  "sys_shutdown t c = Some (returns t (- 1) (c\<lparr>shared := (shared c)\<lparr>powered := False\<rparr>\<rparr>))"

text \<open>The value of \<open>get\<close> is stored through the caller's pointer, which nothing checks.\<close>

definition finish_wait :: "nat \<Rightarrow> u32 \<Rightarrow> u32 \<Rightarrow> kernel \<Rightarrow> kernel option" where
  "finish_wait t ptr v c = map_option (\<lambda>sh. returns t v (c\<lparr>shared := sh\<rparr>)) (put_bytes t ptr (enc32 v) (shared c))"

definition sys_wait :: "nat \<Rightarrow> u32 \<Rightarrow> u32 \<Rightarrow> kernel \<Rightarrow> kernel option" where
  "sys_wait t cd ptr c =
     (case get_descriptor cd (pcbs (shared c) ! t) of
        None \<Rightarrow> None
      | Some (ChildProcessDescriptor f) \<Rightarrow>
          let fu = futures (shared c) ! f
          in if \<not> isReady fu then k_down t (go fu) (AfterGet f ptr) c
             else finish_wait t ptr (future_t fu) c
      | Some _ \<Rightarrow> finish_wait t ptr (- 1) c)"

definition sys_open :: "Ext2 \<Rightarrow> Node \<Rightarrow> nat \<Rightarrow> u32 \<Rightarrow> kernel \<Rightarrow> kernel option" where
  "sys_open fs root t fn c =
     (let m = kview (shared c) t
      in case strlen_at m fn of
           None \<Rightarrow> None
         | Some n \<Rightarrow>
             map_option (\<lambda>(r, p). returns t r (c\<lparr>shared := set_pcb t p (shared c)\<rparr>))
               (pcb_open fs root (map byte_char (bytes_at m fn (unat n))) (pcbs (shared c) ! t)))"

definition sys_len :: "nat \<Rightarrow> u32 \<Rightarrow> kernel \<Rightarrow> kernel option" where
  "sys_len t fd c = map_option (\<lambda>r. returns t r c) (pcb_len fd (pcbs (shared c) ! t))"

definition sys_read :: "nat \<Rightarrow> u32 \<Rightarrow> u32 \<Rightarrow> u32 \<Rightarrow> kernel \<Rightarrow> kernel option" where
  "sys_read t fd buf nbyte c =
     (case pcb_read fd buf nbyte (pcbs (shared c) ! t) of
        None \<Rightarrow> None
      | Some (r, bytes, p) \<Rightarrow>
          map_option (\<lambda>sh. returns t r (c\<lparr>shared := sh\<rparr>)) (put_bytes t buf bytes (set_pcb t p (shared c))))"

definition sys_seek :: "nat \<Rightarrow> u32 \<Rightarrow> u32 \<Rightarrow> kernel \<Rightarrow> kernel option" where
  "sys_seek t fd off c =
     map_option (\<lambda>(r, p). returns t r (c\<lparr>shared := set_pcb t p (shared c)\<rparr>)) (pcb_seek fd off (pcbs (shared c) ! t))"

text \<open>
  \<open>fork\<close>: the child is a new thread, which goes on in user code with 0. Its descriptor counters are what the heap held.
  \<open>child_pid\<close> is unsigned, so the test for a full table never fails.
\<close>

definition sys_fork :: "u32 list \<Rightarrow> nat \<Rightarrow> kernel \<Rightarrow> kernel option" where
  "sys_fork heap_words t c =
     (let sh = shared c;
          (child_pid, p) = reserve_child_descriptor (pcbs sh ! t);
          child = length (pcbs sh)
      in if child_pid < 0 then Some (returns t child_pid (c\<lparr>shared := set_pcb t p sh\<rparr>))
         else
           (case PCB_new heap_words child_pid of None \<Rightarrow> None | Some q \<Rightarrow>
           (case copy_descriptors p q of None \<Rightarrow> None | Some q \<Rightarrow>
           (case add_child child (pcb_pid q) p of None \<Rightarrow> None | Some (pid, p) \<Rightarrow>
              Some ((returns t pid c)\<lparr>
                shared := sh\<lparr>pcbs := (pcbs sh)[t := p] @ [q],
                             futures := futures sh @ [\<lparr>go = nsems sh, isReady = False, future_t = 0\<rparr>],
                             nsems := nsems sh + 1, umem := (umem sh)(child := umem sh t)\<rparr>,
                sems := (sems c)(nsems sh := Semaphore_new 0),
                threads := threads (returns t pid c) @ [Run (User 0)]\<rparr>)))))"

definition sys_execl :: "Ext2 \<Rightarrow> Node \<Rightarrow> (nat \<Rightarrow> nat \<Rightarrow> u8) \<Rightarrow> nat \<Rightarrow> u32 \<Rightarrow> kernel \<Rightarrow> kernel option" where
  "sys_execl fs root junk t user_stack c =
     (case save_args_call_exec fs root junk user_stack (kview (shared c) t) of
        None \<Rightarrow> None
      | Some (Enter pc esp m) \<Rightarrow> Some (returns t 0 (c\<lparr>shared := set_view t m (shared c)\<rparr>))
      | Some (Failed m) \<Rightarrow> Some (returns t (- 1) (c\<lparr>shared := set_view t m (shared c)\<rparr>)))"

subsection \<open>The handler\<close>

text \<open>The dispatch on \<open>eax\<close>; the arguments lie above the return address on the user's stack.\<close>

definition sysHandler ::
  "Ext2 \<Rightarrow> Node \<Rightarrow> u32 \<times> u32 \<Rightarrow> u32 list \<Rightarrow> (nat \<Rightarrow> nat \<Rightarrow> u8) \<Rightarrow> u32 \<Rightarrow> u32 \<Rightarrow> nat \<Rightarrow> kernel \<Rightarrow> kernel option" where
  "sysHandler fs root apics heap_words junk eax user_stack t c =
     (let arg = (\<lambda>i. user_arg (kview (shared c) t) (user_stack + 4 * i))
      in if eax = 0 then Option.bind (arg 1) (\<lambda>rc. sys_exit t rc c)
         else if eax = 1 then Option.bind (arg 1) (\<lambda>fd. Option.bind (arg 2) (\<lambda>buf. Option.bind (arg 3) (\<lambda>n. sys_write apics t fd buf n c)))
         else if eax = 2 then sys_fork heap_words t c
         else if eax = 3 then Option.bind (arg 1) (\<lambda>count. sys_sem t count c)
         else if eax = 4 then Option.bind (arg 1) (\<lambda>sd. sys_up t sd c)
         else if eax = 5 then Option.bind (arg 1) (\<lambda>sd. sys_down t sd c)
         else if eax = 6 then Option.bind (arg 1) (\<lambda>d. sys_close t d c)
         else if eax = 7 then sys_shutdown t c
         else if eax = 8 then Option.bind (arg 1) (\<lambda>cd. Option.bind (arg 2) (\<lambda>ptr. sys_wait t cd ptr c))
         else if eax = 9 then sys_execl fs root junk t user_stack c
         else if eax = 10 then Option.bind (arg 1) (\<lambda>fn. Option.bind (arg 2) (\<lambda>flags. sys_open fs root t fn c))
         else if eax = 11 then Option.bind (arg 1) (\<lambda>fd. sys_len t fd c)
         else if eax = 12 then Option.bind (arg 1) (\<lambda>fd. Option.bind (arg 2) (\<lambda>buf. Option.bind (arg 3) (\<lambda>n. sys_read t fd buf n c)))
         else if eax = 13 then Option.bind (arg 1) (\<lambda>fd. Option.bind (arg 2) (\<lambda>off. sys_seek t fd off c))
         else Some (returns t (- 1) c))"

text \<open>A woken process goes on: behind the \<open>down\<close> of a semaphore, or with \<open>go.up()\<close> and the value of the future.\<close>

definition resume :: "nat \<Rightarrow> kernel \<Rightarrow> kernel option" where
  "resume t c =
     (case threads c ! t of
        Run AfterDown \<Rightarrow> Some (returns t 0 c)
      | Run (AfterGet f ptr) \<Rightarrow>
          let fu = futures (shared c) ! f
          in (case k_up (go fu) c of None \<Rightarrow> None | Some c \<Rightarrow> finish_wait t ptr (future_t fu) c)
      | _ \<Rightarrow> None)"

text \<open>A run: user code changes its own half and its registers as it likes, traps into the handler, and woken processes go on.\<close>

inductive kstep :: "Ext2 \<Rightarrow> Node \<Rightarrow> u32 \<times> u32 \<Rightarrow> kernel \<Rightarrow> kernel \<Rightarrow> bool" for fs root apics where
  compute: "t < length (threads c) \<Longrightarrow> threads c ! t = Run (User v) \<Longrightarrow>
    kstep fs root apics c (returns t v' (c\<lparr>shared := (shared c)\<lparr>umem := (umem (shared c))(t := m)\<rparr>\<rparr>))"
| syscall: "t < length (threads c) \<Longrightarrow> threads c ! t = Run (User v) \<Longrightarrow>
    sysHandler fs root apics heap_words junk eax user_stack t c = Some c' \<Longrightarrow> kstep fs root apics c c'"
| woken: "t < length (threads c) \<Longrightarrow> resume t c = Some c' \<Longrightarrow> kstep fs root apics c c'"

text \<open>The first process.\<close>

definition kstart :: "memory \<Rightarrow> memory \<Rightarrow> kernel" where
  "kstart user kern = \<lparr>shared = \<lparr>pcbs = [\<lparr>pcb_pid = 1, dt = replicate 3 (Some (FileDescriptor 0 0 None)) @ replicate 27 (Some NoDescriptor),
       dcount = [3, 0, 0]\<rparr>], futures = [\<lparr>go = 0, isReady = False, future_t = 0\<rparr>], nsems = 1, umem = (\<lambda>_. user), kmem = kern,
       console = [], powered = True\<rparr>,
     sems = (\<lambda>_. Semaphore_new 0), links_of = (\<lambda>_. None), threads = [Run (User 0)]\<rparr>"

end
