(* ===== verification/SysProps.thy ===== *)
theory SysProps
  imports Sys ProcessProps
begin

text \<open>
  What the system calls promise to processes that run together: the invariant of the futures, and what \<open>wait\<close> returns.
\<close>

subsection \<open>The invariant\<close>

definition go_of :: "kshared \<Rightarrow> nat \<Rightarrow> nat" where
  "go_of sh f = go (futures sh ! f)"

definition user_sem :: "kshared \<Rightarrow> nat \<Rightarrow> bool" where
  "user_sem sh s \<longleftrightarrow> s < nsems sh \<and> (\<forall>f < length (futures sh). s \<noteq> go_of sh f)"

fun state_ok :: "kshared \<Rightarrow> label tstate \<Rightarrow> bool" where
  "state_ok sh (Run (AfterGet f ptr)) = (f < length (futures sh) \<and> isReady (futures sh ! f))"
| "state_ok sh (Run _) = True"
| "state_ok sh (Wait s AfterDown) = user_sem sh s"
| "state_ok sh (Wait s (AfterGet f ptr)) = (f < length (futures sh) \<and> s = go_of sh f)"
| "state_ok sh (Wait s _) = False"

fun desc_ok :: "kshared \<Rightarrow> Descriptor \<Rightarrow> bool" where
  "desc_ok sh (SemaphoreDescriptor s) = user_sem sh s"
| "desc_ok sh (ChildProcessDescriptor f) = (f < length (futures sh))"
| "desc_ok sh _ = True"

definition table_desc_ok :: "kshared \<Rightarrow> PCB \<Rightarrow> bool" where
  "table_desc_ok sh p \<longleftrightarrow> length (dt p) = 30 \<and> (\<forall>d. Some d \<in> set (dt p) \<longrightarrow> desc_ok sh d)"

definition goes_ok :: "kshared \<Rightarrow> bool" where
  "goes_ok sh \<longleftrightarrow> (\<forall>f < length (futures sh). go_of sh f < nsems sh
     \<and> (\<forall>g < length (futures sh). go_of sh f = go_of sh g \<longrightarrow> f = g))"

definition stopped_ok :: "kernel \<Rightarrow> bool" where
  "stopped_ok c \<longleftrightarrow> (\<forall>f < length (threads c). let fu = futures (shared c) ! f
     in (isReady fu \<longrightarrow> threads c ! f = Run (Stopped (future_t fu))) \<and> (\<not> isReady fu \<longrightarrow> (\<forall>rc. threads c ! f \<noteq> Run (Stopped rc)))
        \<and> (sem_count (sems c (go fu)) > 0 \<longrightarrow> isReady fu))"

definition kinv :: "kernel \<Rightarrow> bool" where
  "kinv c \<longleftrightarrow> sys_ok c \<and> length (pcbs (shared c)) = length (threads c) \<and> length (futures (shared c)) = length (threads c)
     \<and> goes_ok (shared c) \<and> (\<forall>p \<in> set (pcbs (shared c)). table_desc_ok (shared c) p)
     \<and> (\<forall>x \<in> set (threads c). state_ok (shared c) x) \<and> stopped_ok c"

lemma kinvD:
  assumes "kinv c"
  shows "sys_ok c" "length (pcbs (shared c)) = length (threads c)" "length (futures (shared c)) = length (threads c)"
    "goes_ok (shared c)" "\<forall>p \<in> set (pcbs (shared c)). table_desc_ok (shared c) p"
    "\<forall>x \<in> set (threads c). state_ok (shared c) x" "stopped_ok c"
  using assms by (simp_all add: kinv_def)

lemma stopped_okD:
  assumes "stopped_ok c" "f < length (threads c)"
  shows "isReady (futures (shared c) ! f) \<Longrightarrow> threads c ! f = Run (Stopped (future_t (futures (shared c) ! f)))"
    "\<not> isReady (futures (shared c) ! f) \<Longrightarrow> threads c ! f \<noteq> Run (Stopped rc)"
    "sem_count (sems c (go_of (shared c) f)) > 0 \<Longrightarrow> isReady (futures (shared c) ! f)"
  using assms unfolding stopped_ok_def Let_def go_of_def by blast+

text \<open>The invariant depends on futures, numbers of semaphores and tables only.\<close>

definition same_futures :: "kshared \<Rightarrow> kshared \<Rightarrow> bool" where
  "same_futures sh sh' \<longleftrightarrow> futures sh' = futures sh \<and> nsems sh' = nsems sh"

lemma same_futuresD:
  assumes "same_futures sh sh'"
  shows "go_of sh' f = go_of sh f" "user_sem sh' s = user_sem sh s" "state_ok sh' x = state_ok sh x" "desc_ok sh' d = desc_ok sh d"
    "table_desc_ok sh' p = table_desc_ok sh p" "goes_ok sh' = goes_ok sh" "futures sh' = futures sh"
proof -
  note s = assms[unfolded same_futures_def]
  show g: "go_of sh' f = go_of sh f" for f using s by (simp add: go_of_def)
  show u: "user_sem sh' s = user_sem sh s" for s using s g by (simp add: user_sem_def)
  show "state_ok sh' x = state_ok sh x" by (cases "(sh, x)" rule: state_ok.cases) (use s g u in auto)
  show d: "desc_ok sh' d = desc_ok sh d" for d by (cases d) (use s u in auto)
  show "table_desc_ok sh' p = table_desc_ok sh p" by (simp add: table_desc_ok_def d)
  show "goes_ok sh' = goes_ok sh" using s g by (simp add: goes_ok_def)
  show "futures sh' = futures sh" using s by simp
qed

text \<open>A running process that gets on to another label.\<close>

lemma sys_ok_run:
  assumes "sys_ok c" "t < length (threads c)" "threads c ! t = Run l0"
  shows "sys_ok (set_thread t l (c\<lparr>shared := sh\<rparr>))"
proof -
  have "sstep (\<lambda>_. Local (\<lambda>_. Some (sh, l))) c (c\<lparr>shared := sh, threads := (threads c)[t := Run l]\<rparr>)"
    by (rule sstep.work[OF assms(2,3)]) simp_all
  from sys_ok_step[OF this assms(1)] show ?thesis by (simp add: set_thread_def)
qed

lemma kinv_run:
  assumes "kinv c" "t < length (threads c)" "threads c ! t = Run l0" "\<And>rc. l0 \<noteq> Stopped rc" "\<And>rc. l \<noteq> Stopped rc"
    and "same_futures (shared c) sh" "length (pcbs sh) = length (pcbs (shared c))" "\<forall>p \<in> set (pcbs sh). table_desc_ok sh p"
    and "state_ok (shared c) (Run l)"
  shows "kinv (set_thread t l (c\<lparr>shared := sh\<rparr>))"
proof -
  let ?c = "set_thread t l (c\<lparr>shared := sh\<rparr>)"
  note k = kinvD[OF assms(1)] and s = same_futuresD[OF assms(6)]
  have th: "threads ?c = (threads c)[t := Run l]" "shared ?c = sh" "sems ?c = sems c" by (simp_all add: set_thread_def)
  have "\<forall>x \<in> set (threads ?c). state_ok sh x"
    using k(6) assms(9) s(3) set_update_subset_insert[of "threads c" t "Run l"] unfolding th by auto
  moreover have "stopped_ok ?c"
    unfolding stopped_ok_def th s(7) Let_def
  proof (intro allI impI)
    fix f assume f: "f < length ((threads c)[t := Run l])"
    show "(isReady (futures (shared c) ! f) \<longrightarrow> (threads c)[t := Run l] ! f = Run (Stopped (future_t (futures (shared c) ! f)))) \<and>
      (\<not> isReady (futures (shared c) ! f) \<longrightarrow> (\<forall>rc. (threads c)[t := Run l] ! f \<noteq> Run (Stopped rc))) \<and>
      (0 < sem_count (sems c (go (futures (shared c) ! f))) \<longrightarrow> isReady (futures (shared c) ! f))"
      using f stopped_okD[OF k(7), of f] assms(2-5) by (cases "f = t") (auto simp: go_of_def)
  qed
  ultimately show ?thesis
    unfolding kinv_def th using sys_ok_run[OF k(1) assms(2,3)] k(2,3,4) assms(7,8) s(6,7) by simp
qed

lemma ball_update: "\<forall>x \<in> set xs. P x \<Longrightarrow> P y \<Longrightarrow> \<forall>x \<in> set (xs[t := y]). P x"
  using set_update_subset_insert[of xs t y] by blast

text \<open>Processes that go on or wait, without a change of the shared state.\<close>

lemma kinv_threads:
  assumes "kinv c" "shared c' = shared c" "sys_ok c'" "length (threads c') = length (threads c)"
    and "\<forall>x \<in> set (threads c'). state_ok (shared c) x"
    and "\<forall>f rc. f < length (threads c) \<longrightarrow> threads c' ! f = Run (Stopped rc) \<longleftrightarrow> threads c ! f = Run (Stopped rc)"
    and "\<forall>f < length (threads c). sem_count (sems c' (go_of (shared c) f)) > 0 \<longrightarrow> isReady (futures (shared c) ! f)"
  shows "kinv c'"
proof -
  note k = kinvD[OF assms(1)]
  have "stopped_ok c'"
    unfolding stopped_ok_def Let_def assms(2,4)
    using stopped_okD[OF k(7)] assms(6,7) unfolding go_of_def by blast
  then show ?thesis unfolding kinv_def using k assms by simp
qed

lemma k_down_kinv:
  assumes "kinv c" "t < length (threads c)" "threads c ! t = Run (User v)" "k_down t s l c = Some c'"
    and "state_ok (shared c) (Wait s l)"
  shows "kinv c' \<and> shared c' = shared c \<and> (threads c' = (threads c)[t := Run l] \<or> threads c' = (threads c)[t := Wait s l])"
proof -
  note k = kinvD[OF assms(1)]
  obtain passed sem nx where d: "sem_down t (sems c s) (links_of c) = Some (passed, sem, nx)"
    and c': "c' = c\<lparr>sems := (sems c)(s := sem), links_of := nx, threads := (threads c)[t := (if passed then Run l else Wait s l)]\<rparr>"
    using assms(4) by (auto simp: k_down_def split: option.splits)
  have step: "sstep (\<lambda>_. Down s l) c c'"
    unfolding c' using d
    by (cases passed) (auto intro: sstep.pass[OF assms(2,3)] sstep.suspend[OF assms(2,3)])
  have ok: "sys_ok c'" by (rule sys_ok_step[OF step k(1)])
  have less: "sem_count sem > 0 \<Longrightarrow> sem_count (sems c s) > 0" "passed \<Longrightarrow> sem_count (sems c s) > 0"
    using d by (auto simp: sem_down_def split: if_splits option.splits)
  have count: "\<forall>f < length (threads c). sem_count (sems c' (go_of (shared c) f)) > 0 \<longrightarrow> isReady (futures (shared c) ! f)"
    using stopped_okD(3)[OF k(7)] less(1) unfolding c' by auto
  have st: "state_ok (shared c) (if passed then Run l else Wait s l)"
  proof (cases passed)
    case True
    show ?thesis
    proof (cases l)
      case (AfterGet f ptr)
      then have "f < length (threads c)" "s = go_of (shared c) f" using assms(5) k(3) by simp_all
      with stopped_okD(3)[OF k(7)] less(2)[OF True] True AfterGet k(3) show ?thesis by simp
    qed (use True in simp_all)
  qed (use assms(5) in simp)
  have l: "\<And>rc. l \<noteq> Stopped rc" using assms(5) by (cases l) auto
  have "kinv c'"
  proof (rule kinv_threads[OF assms(1) _ ok _ _ _ count])
    show "\<forall>x \<in> set (threads c'). state_ok (shared c) x"
      unfolding c' using ball_update[OF k(6) st] by simp
    show "\<forall>f rc. f < length (threads c) \<longrightarrow> threads c' ! f = Run (Stopped rc) \<longleftrightarrow> threads c ! f = Run (Stopped rc)"
      unfolding c' using l assms(2,3) by (auto simp: nth_list_update)
  qed (simp_all add: c')
  then show ?thesis unfolding c' by simp
qed

lemma k_up_kinv:
  assumes "kinv c" "t < length (threads c)" "threads c ! t = Run l" "k_up s c = Some c'"
    and "user_sem (shared c) s \<or> (\<exists>f < length (threads c). s = go_of (shared c) f \<and> isReady (futures (shared c) ! f))"
  shows "kinv c' \<and> shared c' = shared c \<and> length (threads c') = length (threads c) \<and> threads c' ! t = Run l"
proof -
  note k = kinvD[OF assms(1)]
  obtain woken sem nx where u: "sem_up (sems c s) (links_of c) = (woken, sem, nx)" by (cases "sem_up (sems c s) (links_of c)") auto
  have count: "\<forall>f < length (threads c). sem_count (((sems c)(s := sem)) (go_of (shared c) f)) > 0 \<longrightarrow> isReady (futures (shared c) ! f)"
  proof (intro allI impI)
    fix f assume f: "f < length (threads c)" and pos: "sem_count (((sems c)(s := sem)) (go_of (shared c) f)) > 0"
    show "isReady (futures (shared c) ! f)"
    proof (cases "go_of (shared c) f = s")
      case True
      then obtain g where "g < length (threads c)" "s = go_of (shared c) g" "isReady (futures (shared c) ! g)"
        using assms(5) f k(3) by (auto simp: user_sem_def)
      with True f k(3,4) show ?thesis unfolding goes_ok_def by metis
    qed (use pos f stopped_okD(3)[OF k(7)] in auto)
  qed
  show ?thesis
  proof (cases woken)
    case None
    then have c': "c' = c\<lparr>sems := (sems c)(s := sem), links_of := nx\<rparr>" using assms(4) u by (simp add: k_up_def)
    have "sstep (\<lambda>_. Up s l) c (c\<lparr>sems := (sems c)(s := sem), links_of := nx, threads := (threads c)[t := Run l]\<rparr>)"
      by (rule sstep.release[OF assms(2,3)]) (use u None in auto)
    moreover have "(threads c)[t := Run l] = threads c" using assms(3) by (metis list_update_id)
    ultimately have ok: "sys_ok c'" using sys_ok_step[OF _ k(1)] unfolding c' by fastforce
    have "kinv c'" by (rule kinv_threads[OF assms(1) _ ok]) (use k(6) count c' in auto)
    with c' assms(3) show ?thesis by simp
  next
    case (Some u0)
    then obtain j m where w: "u0 < length (threads c)" "threads c ! u0 = Wait j m"
      and c': "c' = c\<lparr>sems := (sems c)(s := sem), links_of := nx, threads := (threads c)[u0 := Run m]\<rparr>"
      using assms(4) u by (auto simp: k_up_def split: if_splits tstate.splits)
    have ne: "u0 \<noteq> t" using w(2) assms(3) by auto
    have "sstep (\<lambda>_. Up s l) c (c\<lparr>sems := (sems c)(s := sem), links_of := nx, threads := (threads c)[t := Run l, u0 := Run m]\<rparr>)"
      by (rule sstep.wake[OF assms(2,3) _ _ w]) (use u Some in auto)
    moreover have "(threads c)[t := Run l] = threads c" using assms(3) by (metis list_update_id)
    ultimately have ok: "sys_ok c'" using sys_ok_step[OF _ k(1)] unfolding c' by fastforce
    have "u0 \<in> waits_on c s" using woken_waits[OF k(1)] u Some by blast
    then have j: "j = s" using w by (auto simp: waits_on_def)
    have stw: "state_ok (shared c) (Wait s m)" using k(6) w j by (metis nth_mem)
    have st: "state_ok (shared c) (Run m)"
    proof (cases m)
      case (AfterGet f ptr)
      then have f: "f < length (threads c)" "s = go_of (shared c) f" using stw k(3) by simp_all
      then obtain g where "g < length (threads c)" "s = go_of (shared c) g" "isReady (futures (shared c) ! g)"
        using assms(5) k(3) by (auto simp: user_sem_def)
      with f k(3,4) AfterGet show ?thesis unfolding goes_ok_def by (metis state_ok.simps(1))
    qed simp_all
    have "m \<noteq> Stopped rc" for rc using stw by (cases m) auto
    then have stop: "\<forall>f rc. f < length (threads c) \<longrightarrow> threads c' ! f = Run (Stopped rc) \<longleftrightarrow> threads c ! f = Run (Stopped rc)"
      unfolding c' using w by (auto simp: nth_list_update)
    have "kinv c'"
    proof (rule kinv_threads[OF assms(1) _ ok _ _ stop])
      show "\<forall>x \<in> set (threads c'). state_ok (shared c) x"
        unfolding c' using ball_update[OF k(6) st] by simp
    qed (use c' count in simp_all)
    with c' assms(3) ne show ?thesis by simp
  qed
qed

subsection \<open>Descriptor tables\<close>

lemma table_desc_ok_cong: "dt p' = dt p \<Longrightarrow> table_desc_ok sh p' = table_desc_ok sh p"
  by (simp add: table_desc_ok_def)

lemma table_desc_ok_set:
  assumes "table_desc_ok sh p" "desc_ok sh d" "dt p' = (dt p)[i := Some d]"
  shows "table_desc_ok sh p'"
  using assms set_update_subset_insert[of "dt p" i "Some d"] by (auto simp: table_desc_ok_def)

lemma get_descriptor_desc_ok:
  assumes "table_desc_ok sh p" "get_descriptor dti p = Some d"
  shows "desc_ok sh d"
proof (cases "unat dti < 30")
  case True
  then have "dt p ! unat dti \<in> set (dt p)" using assms(1) by (intro nth_mem) (simp add: table_desc_ok_def)
  with True assms show ?thesis by (auto simp: table_desc_ok_def get_slot)
qed (use assms(2) in \<open>auto simp: get_other\<close>)

lemma add_descriptor_dt: "add_descriptor d p = Some (r, p') \<Longrightarrow> \<exists>i. dt p' = (dt p)[i := Some d]"
  by (auto simp: add_descriptor_def next_dti_def set_descriptor_def Let_def split: if_splits)

lemma add_descriptor_desc_ok:
  assumes "table_desc_ok sh p" "desc_ok sh d" "add_descriptor d p = Some (r, p')"
  shows "table_desc_ok sh p'"
  using add_descriptor_dt[OF assms(3)] table_desc_ok_set[OF assms(1,2)] by blast

lemma put_back_desc_ok: "table_desc_ok sh p \<Longrightarrow> desc_ok sh d \<Longrightarrow> table_desc_ok sh (put_back dti d p)"
  unfolding put_back_def by (auto intro: table_desc_ok_set)

lemma read_seek_desc_ok:
  "desc_ok sh d \<Longrightarrow> descriptor_read d buf n = Some (r, bytes, d') \<Longrightarrow> desc_ok sh d'"
  "desc_ok sh d \<Longrightarrow> descriptor_seek d off = (r', d'') \<Longrightarrow> desc_ok sh d''"
  by (cases "(d, buf, n)" rule: descriptor_read.cases; auto simp: Let_def split: if_splits option.splits)
    (cases "(d, off)" rule: descriptor_seek.cases; auto)

lemma pcb_desc_ok:
  assumes "table_desc_ok sh p"
  shows "pcb_close dti p = Some (r, p') \<Longrightarrow> table_desc_ok sh p'"
    "pcb_open fs root fn p = Some (r, p') \<Longrightarrow> table_desc_ok sh p'"
    "pcb_read dti buf n p = Some (r, bytes, p') \<Longrightarrow> table_desc_ok sh p'"
    "pcb_seek dti off p = Some (r, p') \<Longrightarrow> table_desc_ok sh p'"
proof -
  show "pcb_close dti p = Some (r, p') \<Longrightarrow> table_desc_ok sh p'"
    using assms by (auto simp: pcb_close_def Let_def split: option.splits if_splits intro: table_desc_ok_set[of sh p NoDescriptor])
  show "pcb_open fs root fn p = Some (r, p') \<Longrightarrow> table_desc_ok sh p'"
  proof -
    assume o: "pcb_open fs root fn p = Some (r, p')"
    show "table_desc_ok sh p'"
    proof (cases "p' = p")
      case False
      with o obtain node where "add_descriptor (FileDescriptor 0 0 (Some node)) p = Some (r, p')"
        by (auto simp: pcb_open_def split: option.splits)
      from add_descriptor_desc_ok[OF assms _ this] show ?thesis by simp
    qed (use assms in simp)
  qed
  show "pcb_read dti buf n p = Some (r, bytes, p') \<Longrightarrow> table_desc_ok sh p'"
    by (auto simp: pcb_read_def split: option.splits
        intro: put_back_desc_ok[OF assms read_seek_desc_ok(1)[OF get_descriptor_desc_ok[OF assms]]])
  show "pcb_seek dti off p = Some (r, p') \<Longrightarrow> table_desc_ok sh p'"
  proof -
    assume "pcb_seek dti off p = Some (r, p')"
    then obtain d where d: "get_descriptor dti p = Some d" "(let (r, d) = descriptor_seek d off in (r, put_back dti d p)) = (r, p')"
      by (auto simp: pcb_seek_def)
    obtain r2 e where e: "descriptor_seek d off = (r2, e)" by fastforce
    then have "p' = put_back dti e p" using d(2) by simp
    then show "table_desc_ok sh p'"
      using put_back_desc_ok[OF assms read_seek_desc_ok(2)[OF get_descriptor_desc_ok[OF assms d(1)] e]] by simp
  qed
qed

subsection \<open>The calls keep the invariant\<close>

text \<open>A call that returns at once, with one process's table and the memory changed.\<close>

lemma returns_kinv:
  assumes "kinv c" "t < length (threads c)" "threads c ! t = Run (User v)" "same_futures (shared c) sh"
    and "length (pcbs sh) = length (pcbs (shared c))" "\<forall>p \<in> set (pcbs sh). table_desc_ok sh p"
  shows "kinv (returns t r (c\<lparr>shared := sh\<rparr>))"
  unfolding returns_def by (rule kinv_run[OF assms(1-3) _ _ assms(4-6)]) simp_all

lemma returns_same_kinv:
  assumes "kinv c" "t < length (threads c)" "threads c ! t = Run (User v)"
  shows "kinv (returns t r c)"
  using returns_kinv[OF assms, of "shared c" r] kinvD(5)[OF assms(1)] by (simp add: same_futures_def)

lemma set_pcb_kinv:
  assumes "kinv c" "t < length (threads c)" "threads c ! t = Run (User v)" "table_desc_ok (shared c) p"
  shows "kinv (returns t r (c\<lparr>shared := set_pcb t p (shared c)\<rparr>))"
proof (rule returns_kinv[OF assms(1-3)])
  have same: "same_futures (shared c) (set_pcb t p (shared c))" by (simp add: same_futures_def set_pcb_def)
  show "\<forall>q \<in> set (pcbs (set_pcb t p (shared c))). table_desc_ok (set_pcb t p (shared c)) q"
    unfolding same_futuresD(5)[OF same] using ball_update[OF kinvD(5)[OF assms(1)] assms(4)] by (simp add: set_pcb_def)
qed (simp_all add: same_futures_def set_pcb_def)

lemma put_bytes_same: "put_bytes t p bytes sh = Some sh' \<Longrightarrow> same_futures sh sh' \<and> pcbs sh' = pcbs sh"
  by (auto simp: put_bytes_def set_view_def same_futures_def split: if_splits)

lemma simple_calls_kinv:
  assumes "kinv c" "t < length (threads c)" "threads c ! t = Run (User v)"
  shows "sys_write apics t fd buf n c = Some c' \<Longrightarrow> kinv c'"
    "sys_close t dti c = Some c' \<Longrightarrow> kinv c'"
    "sys_shutdown t c = Some c' \<Longrightarrow> kinv c'"
    "sys_open fs root t fn c = Some c' \<Longrightarrow> kinv c'"
    "sys_len t fd c = Some c' \<Longrightarrow> kinv c'"
    "sys_read t fd buf n c = Some c' \<Longrightarrow> kinv c'"
    "sys_seek t fd off c = Some c' \<Longrightarrow> kinv c'"
    "sys_execl fs root junk t us c = Some c' \<Longrightarrow> kinv c'"
    "finish_wait t ptr w c = Some c' \<Longrightarrow> kinv c'"
proof -
  note k = kinvD[OF assms(1)]
  have p: "table_desc_ok (shared c) (pcbs (shared c) ! t)" using k(2,5) assms(2) by simp
  note set = set_pcb_kinv[OF assms] and pd = pcb_desc_ok[OF p]
  have ret: "kinv (returns t r (c\<lparr>shared := sh\<rparr>))" if "same_futures (shared c) sh \<and> pcbs sh = pcbs (shared c)" for r sh
    by (rule returns_kinv[OF assms]) (use that k(5) same_futuresD(5) in auto)
  show "sys_write apics t fd buf n c = Some c' \<Longrightarrow> kinv c'"
    using ret[of "(shared c)\<lparr>console := console (shared c) @ x\<rparr>" for x]
    by (auto simp: sys_write_def same_futures_def split: option.splits if_splits)
  show "sys_close t dti c = Some c' \<Longrightarrow> kinv c'" "sys_open fs root t fn c = Some c' \<Longrightarrow> kinv c'"
    "sys_seek t fd off c = Some c' \<Longrightarrow> kinv c'"
    using set pd by (auto simp: sys_close_def sys_open_def sys_seek_def Let_def split: option.splits)
  show "sys_shutdown t c = Some c' \<Longrightarrow> kinv c'"
    using ret[of "(shared c)\<lparr>powered := False\<rparr>"] by (auto simp: sys_shutdown_def same_futures_def)
  show "sys_len t fd c = Some c' \<Longrightarrow> kinv c'"
    using returns_same_kinv[OF assms] by (auto simp: sys_len_def)
  show "sys_execl fs root junk t us c = Some c' \<Longrightarrow> kinv c'"
    using ret[of "set_view t x (shared c)" for x]
    by (auto simp: sys_execl_def same_futures_def set_view_def split: option.splits exec_result.splits)
  show "finish_wait t ptr w c = Some c' \<Longrightarrow> kinv c'"
    using ret put_bytes_same by (fastforce simp: finish_wait_def)
  show "sys_read t fd buf n c = Some c' \<Longrightarrow> kinv c'"
  proof -
    assume "sys_read t fd buf n c = Some c'"
    then obtain r bytes q sh where q: "pcb_read fd buf n (pcbs (shared c) ! t) = Some (r, bytes, q)"
      and sh: "put_bytes t buf bytes (set_pcb t q (shared c)) = Some sh" and c': "c' = returns t r (c\<lparr>shared := sh\<rparr>)"
      by (auto simp: sys_read_def split: option.splits)
    have same: "same_futures (shared c) sh" "pcbs sh = (pcbs (shared c))[t := q]"
      using put_bytes_same[OF sh] by (simp_all add: same_futures_def set_pcb_def)
    show "kinv c'"
      unfolding c'
    proof (rule returns_kinv[OF assms same(1)])
      show "\<forall>p \<in> set (pcbs sh). table_desc_ok sh p"
        unfolding same_futuresD(5)[OF same(1)] same(2) by (rule ball_update[OF k(5) pd(3)[OF q]])
    qed (simp add: same(2))
  qed
qed

lemma set_thread_self: "threads c ! t = Run l \<Longrightarrow> set_thread t l c = c"
  unfolding set_thread_def by (metis (mono_tags) list_update_id tsys.surjective tsys.update_convs(4))

lemma sem_calls_kinv:
  assumes "kinv c" "t < length (threads c)" "threads c ! t = Run (User v)"
  shows "sys_up t sd c = Some c' \<Longrightarrow> kinv c'" "sys_down t sd c = Some c' \<Longrightarrow> kinv c'" "sys_wait t cd ptr c = Some c' \<Longrightarrow> kinv c'"
proof -
  note k = kinvD[OF assms(1)]
  have p: "table_desc_ok (shared c) (pcbs (shared c) ! t)" using k(2,5) assms(2) by simp
  note d = get_descriptor_desc_ok[OF p] and same = returns_same_kinv[OF assms]
  have up: "kinv (returns t r c1)" if "k_up s c = Some c1" "user_sem (shared c) s" for s c1 r
  proof -
    have u: "kinv c1 \<and> length (threads c1) = length (threads c) \<and> threads c1 ! t = Run (User v)"
      using k_up_kinv[OF assms that(1)] that(2) by blast
    show ?thesis by (rule returns_same_kinv) (use u assms(2) in auto)
  qed
  show "sys_up t sd c = Some c' \<Longrightarrow> kinv c'"
    using up d[of sd] same by (auto simp: sys_up_def split: option.splits Descriptor.splits)
  have down: "kinv (if threads c1 ! t = Run AfterDown then returns t 0 c1 else c1)" if "k_down t s AfterDown c = Some c1" "user_sem (shared c) s" for s c1
  proof -
    have u: "kinv c1" "threads c1 = (threads c)[t := Run AfterDown] \<or> threads c1 = (threads c)[t := Wait s AfterDown]"
      using k_down_kinv[OF assms that(1)] that(2) by auto
    show ?thesis
    proof (cases "threads c1 ! t = Run AfterDown")
      case True
      have "kinv (set_thread t (User 0) (c1\<lparr>shared := shared c1\<rparr>))"
        by (rule kinv_run[OF u(1) _ True]) (use u assms(2) kinvD(5)[OF u(1)] in \<open>auto simp: same_futures_def\<close>)
      with True show ?thesis by (simp add: returns_def)
    qed (use u in simp)
  qed
  show "sys_down t sd c = Some c' \<Longrightarrow> kinv c'"
    using down d[of sd] same by (auto simp: sys_down_def split: option.splits Descriptor.splits)
  show "sys_wait t cd ptr c = Some c' \<Longrightarrow> kinv c'"
    using d[of cd] simple_calls_kinv(9)[OF assms] k_down_kinv[OF assms]
    by (auto simp: sys_wait_def Let_def go_of_def split: option.splits Descriptor.splits if_splits)
qed

subsection \<open>Calls that make new objects\<close>

definition extends :: "kshared \<Rightarrow> kshared \<Rightarrow> bool" where
  "extends sh sh' \<longleftrightarrow> nsems sh \<le> nsems sh' \<and> (\<exists>fs. futures sh' = futures sh @ fs \<and> (\<forall>fu \<in> set fs. nsems sh \<le> go fu))"

lemma extendsD:
  assumes "extends sh sh'"
  shows "f < length (futures sh) \<Longrightarrow> futures sh' ! f = futures sh ! f" "f < length (futures sh) \<Longrightarrow> go_of sh' f = go_of sh f"
    "user_sem sh s \<Longrightarrow> user_sem sh' s" "state_ok sh x \<Longrightarrow> state_ok sh' x" "desc_ok sh d \<Longrightarrow> desc_ok sh' d"
    "table_desc_ok sh p \<Longrightarrow> table_desc_ok sh' p"
proof -
  obtain fs where fs: "futures sh' = futures sh @ fs" "\<forall>fu \<in> set fs. nsems sh \<le> go fu" "nsems sh \<le> nsems sh'"
    using assms by (auto simp: extends_def)
  show f: "f < length (futures sh) \<Longrightarrow> futures sh' ! f = futures sh ! f" for f using fs(1) by (simp add: nth_append)
  show g: "f < length (futures sh) \<Longrightarrow> go_of sh' f = go_of sh f" for f using f by (simp add: go_of_def)
  show u: "user_sem sh s \<Longrightarrow> user_sem sh' s" for s
  proof -
    assume s: "user_sem sh s"
    have "s \<noteq> go_of sh' f" if "f < length (futures sh')" for f
    proof (cases "f < length (futures sh)")
      case False
      then have "futures sh' ! f \<in> set fs" using that fs(1) by (simp add: nth_append)
      with fs(2) s show ?thesis by (auto simp: go_of_def user_sem_def)
    qed (use s g in \<open>simp add: user_sem_def\<close>)
    with s fs(3) show "user_sem sh' s" by (simp add: user_sem_def)
  qed
  show "state_ok sh x \<Longrightarrow> state_ok sh' x" by (cases "(sh, x)" rule: state_ok.cases) (use f g u fs(1) in auto)
  show d: "desc_ok sh d \<Longrightarrow> desc_ok sh' d" for d by (cases d) (use u fs(1) in auto)
  show "table_desc_ok sh p \<Longrightarrow> table_desc_ok sh' p" using d by (simp add: table_desc_ok_def)
qed

lemma nobody_waits_new:
  assumes "kinv c" "nsems (shared c) \<le> s"
  shows "waits_on c s = {}"
proof -
  have False if t: "t < length (threads c)" "threads c ! t = Wait s l" for t l
  proof -
    have "state_ok (shared c) (Wait s l)" using kinvD(6)[OF assms(1)] t by (metis nth_mem)
    then show False
      using assms(2) kinvD(4)[OF assms(1)] by (cases l) (auto simp: user_sem_def goes_ok_def)
  qed
  then show ?thesis by (auto simp: waits_on_def)
qed

lemma sys_ok_new_sem:
  assumes "sys_ok c" "waits_on c s = {}" "sem_waiting x = queue_new"
  shows "sys_ok (c\<lparr>shared := sh, sems := (sems c)(s := x), threads := threads c @ map Run ls\<rparr>)" (is "sys_ok ?c")
proof -
  have new: "map Run ls ! i \<noteq> Wait k l" if "i < length ls" for i k l using that by simp
  have w: "waits_on ?c k = waits_on c k" for k
  proof (rule set_eqI)
    fix t
    show "t \<in> waits_on ?c k \<longleftrightarrow> t \<in> waits_on c k"
      using new[of "t - length (threads c)" k] by (cases "t < length (threads c)") (simp_all add: waits_on_def nth_append)
  qed
  have "waiting_ok ?c k" for k
  proof (cases "k = s")
    case True
    then show ?thesis
      unfolding waiting_ok_def w using assms(2,3) queue_new_rep by (intro exI[of _ "[]"]) simp
  next
    case False
    show ?thesis by (rule waiting_ok_frame[of c k]) (use assms(1) False w in \<open>simp_all add: sys_ok_def\<close>)
  qed
  then show ?thesis by (simp add: sys_ok_def)
qed

lemma sys_sem_kinv:
  assumes "kinv c" "t < length (threads c)" "threads c ! t = Run (User v)" "sys_sem t count c = Some c'"
  shows "kinv c'"
proof -
  let ?s = "nsems (shared c)"
  note k = kinvD[OF assms(1)]
  obtain sd p where p: "pcb_sem ?s (pcbs (shared c) ! t) = Some (sd, p)"
    and c': "c' = returns t sd (c\<lparr>sems := (sems c)(?s := Semaphore_new count), shared := (set_pcb t p (shared c))\<lparr>nsems := ?s + 1\<rparr>\<rparr>)"
    using assms(4) by (auto simp: sys_sem_def Let_def split: option.splits)
  let ?sh = "(shared c)\<lparr>nsems := ?s + 1\<rparr>"
  let ?c = "c\<lparr>shared := ?sh, sems := (sems c)(?s := Semaphore_new count)\<rparr>"
  have ext: "extends (shared c) ?sh" by (simp add: extends_def)
  note e = extendsD[OF ext]
  have new: "user_sem ?sh ?s" using k(4) by (auto simp: user_sem_def goes_ok_def go_of_def)
  have ok: "sys_ok ?c"
    using sys_ok_new_sem[OF k(1) nobody_waits_new[OF assms(1) order_refl], where x = "Semaphore_new count" and sh = ?sh and ls = "[]"]
    by (simp add: Semaphore_new_def)
  have st: "stopped_ok ?c"
    using k(3,4,7) unfolding stopped_ok_def goes_ok_def by (auto simp: Let_def go_of_def)
  have kc: "kinv ?c"
    unfolding kinv_def using ok st k(2-6) e(4,6) by (auto simp: goes_ok_def go_of_def less_Suc_eq)
  have "table_desc_ok ?sh (pcbs (shared c) ! t)" using kinvD(5)[OF kc] k(2) assms(2) by simp
  from add_descriptor_desc_ok[OF this _ p[unfolded pcb_sem_def]] new have "table_desc_ok (shared ?c) p" by simp
  moreover have "(set_pcb t p (shared c))\<lparr>nsems := ?s + 1\<rparr> = set_pcb t p ?sh" by (simp add: set_pcb_def)
  ultimately show ?thesis using set_pcb_kinv[OF kc, of t v p sd] assms(2,3) unfolding c' by simp
qed

text \<open>\<open>exit\<close>: the future is set and the thread stopped, then the waiting process is woken.\<close>

lemma k_up_set_thread:
  assumes "t < length (threads c)" "threads c ! t = Run l0"
  shows "map_option (set_thread t l) (k_up s c) = k_up s (set_thread t l c)"
proof -
  obtain woken sem nx where u: "sem_up (sems c s) (links_of c) = (woken, sem, nx)" by (cases "sem_up (sems c s) (links_of c)") auto
  show ?thesis
  proof (cases woken)
    case (Some u0)
    show ?thesis
    proof (cases "u0 = t")
      case True
      with u Some assms show ?thesis by (simp add: k_up_def set_thread_def)
    next
      case False
      with u Some show ?thesis
        by (auto simp: k_up_def set_thread_def list_update_swap split: tstate.splits)
    qed
  qed (use u in \<open>simp add: k_up_def set_thread_def\<close>)
qed

lemma exited_kinv:
  assumes "kinv c" "t < length (threads c)" "threads c ! t = Run (User v)"
  defines "fu \<equiv> futures (shared c) ! t"
  shows "kinv (set_thread t (Stopped rc)
    (c\<lparr>shared := (shared c)\<lparr>futures := (futures (shared c))[t := fu\<lparr>future_t := rc, isReady := True\<rparr>]\<rparr>\<rparr>))" (is "kinv ?c")
proof -
  let ?fs = "(futures (shared c))[t := fu\<lparr>future_t := rc, isReady := True\<rparr>]"
  let ?sh = "(shared c)\<lparr>futures := ?fs\<rparr>"
  note k = kinvD[OF assms(1)]
  have sh: "shared ?c = ?sh" "threads ?c = (threads c)[t := Run (Stopped rc)]" "sems ?c = sems c" by (simp_all add: set_thread_def)
  have go: "go_of ?sh f = go_of (shared c) f" for f
    using k(3) assms(2) by (cases "f = t") (simp_all add: go_of_def fu_def)
  have ready: "isReady (?fs ! f) \<longleftrightarrow> f = t \<or> isReady (futures (shared c) ! f)" if "f < length (threads c)" for f
    using that k(3) by (cases "f = t") simp_all
  have us: "user_sem ?sh s = user_sem (shared c) s" for s by (simp add: user_sem_def go)
  have st: "state_ok (shared c) x \<Longrightarrow> state_ok ?sh x" for x
    by (cases "(shared c, x)" rule: state_ok.cases) (use us go ready k(3) in auto)
  have d: "desc_ok ?sh d = desc_ok (shared c) d" for d by (cases d) (simp_all add: us)
  have "\<forall>x \<in> set (threads ?c). state_ok ?sh x"
    unfolding sh by (rule ball_update) (use k(6) st in auto)
  moreover have "stopped_ok ?c"
    unfolding stopped_ok_def Let_def sh
  proof (intro allI impI)
    fix f assume "f < length ((threads c)[t := Run (Stopped rc)])"
    then have f: "f < length (threads c)" by simp
    show "(isReady (futures ?sh ! f) \<longrightarrow> (threads c)[t := Run (Stopped rc)] ! f = Run (Stopped (future_t (futures ?sh ! f)))) \<and>
      (\<not> isReady (futures ?sh ! f) \<longrightarrow> (\<forall>r. (threads c)[t := Run (Stopped rc)] ! f \<noteq> Run (Stopped r))) \<and>
      (0 < sem_count (sems c (go (futures ?sh ! f))) \<longrightarrow> isReady (futures ?sh ! f))"
      using stopped_okD[OF k(7) f] f assms(2) k(3) by (cases "f = t") (simp_all add: go_of_def)
  qed
  moreover have "goes_ok ?sh" using k(4) by (simp add: goes_ok_def go)
  moreover have "sys_ok ?c" by (rule sys_ok_run[OF k(1) assms(2,3)])
  ultimately show ?thesis
    unfolding kinv_def sh using k(2,3,5) d by (simp add: table_desc_ok_def)
qed

lemma sys_exit_kinv:
  assumes "kinv c" "t < length (threads c)" "threads c ! t = Run (User v)" "sys_exit t rc c = Some c'"
  shows "kinv c' \<and> threads c' ! t = Run (Stopped rc)"
proof -
  let ?fu = "futures (shared c) ! t"
  let ?sh = "(shared c)\<lparr>futures := (futures (shared c))[t := ?fu\<lparr>future_t := rc, isReady := True\<rparr>]\<rparr>"
  let ?c = "set_thread t (Stopped rc) (c\<lparr>shared := ?sh\<rparr>)"
  note k = kinvD[OF assms(1)]
  have nr: "\<not> isReady ?fu" and "map_option (set_thread t (Stopped rc)) (k_up (go ?fu) (c\<lparr>shared := ?sh\<rparr>)) = Some c'"
    using assms(4) by (auto simp: sys_exit_def future_set_def Let_def split: if_splits)
  then have up: "k_up (go ?fu) ?c = Some c'" using k_up_set_thread[of t "c\<lparr>shared := ?sh\<rparr>" "User v"] assms(2,3) by simp
  have th: "t < length (threads ?c)" "threads ?c ! t = Run (Stopped rc)" using assms(2) by (simp_all add: set_thread_def)
  have "go ?fu = go_of (shared ?c) t" "isReady (futures (shared ?c) ! t)"
    using k(3) assms(2) by (simp_all add: set_thread_def go_of_def)
  then have "\<exists>f < length (threads ?c). go ?fu = go_of (shared ?c) f \<and> isReady (futures (shared ?c) ! f)" using th(1) by blast
  from k_up_kinv[OF exited_kinv[OF assms(1-3)] th up] this show ?thesis by blast
qed

lemma finish_wait_kinv:
  assumes "kinv c" "t < length (threads c)" "threads c ! t = Run l0" "\<And>rc. l0 \<noteq> Stopped rc" "finish_wait t ptr w c = Some c'"
  shows "kinv c' \<and> threads c' ! t = Run (User w) \<and> (\<forall>u. u \<noteq> t \<longrightarrow> threads c' ! u = threads c ! u) \<and> futures (shared c') = futures (shared c)"
proof -
  obtain sh where sh: "put_bytes t ptr (enc32 w) (shared c) = Some sh" "c' = set_thread t (User w) (c\<lparr>shared := sh\<rparr>)"
    using assms(5) by (auto simp: finish_wait_def returns_def)
  note same = put_bytes_same[OF sh(1)]
  have "kinv c'" unfolding sh(2)
    by (rule kinv_run[OF assms(1-4)]) (use same kinvD(5)[OF assms(1)] same_futuresD(5) in auto)
  then show ?thesis using same assms(2) by (simp add: sh(2) set_thread_def same_futures_def)
qed

lemma resume_kinv:
  assumes "kinv c" "t < length (threads c)" "resume t c = Some c'"
  shows "kinv c'"
proof -
  note k = kinvD[OF assms(1)]
  consider "threads c ! t = Run AfterDown" "c' = returns t 0 c"
    | f ptr c1 where "threads c ! t = Run (AfterGet f ptr)" "k_up (go (futures (shared c) ! f)) c = Some c1"
        "finish_wait t ptr (future_t (futures (shared c) ! f)) c1 = Some c'"
    using assms(3) by (auto simp: resume_def Let_def split: tstate.splits label.splits option.splits)
  then show ?thesis
  proof cases
    case 1
    have "kinv (set_thread t (User 0) (c\<lparr>shared := shared c\<rparr>))"
      by (rule kinv_run[OF assms(1,2) 1(1)]) (use k(5) in \<open>auto simp: same_futures_def\<close>)
    with 1(2) show ?thesis by (simp add: returns_def)
  next
    case 2
    have "state_ok (shared c) (Run (AfterGet f ptr))" using k(6) assms(2) 2(1) by (metis nth_mem)
    then have "f < length (threads c)" "isReady (futures (shared c) ! f)" using k(3) by simp_all
    then have g: "\<exists>g < length (threads c). go (futures (shared c) ! f) = go_of (shared c) g \<and> isReady (futures (shared c) ! g)"
      by (auto simp: go_of_def)
    from k_up_kinv[OF assms(1,2) 2(1,2)] g have u: "kinv c1" "length (threads c1) = length (threads c)" "threads c1 ! t = Run (AfterGet f ptr)"
      by blast+
    then show ?thesis using finish_wait_kinv[OF u(1) _ u(3) _ 2(3)] assms(2) by simp
  qed
qed

text \<open>\<open>fork\<close>.\<close>

definition plain :: "PCB \<Rightarrow> bool" where
  "plain p \<longleftrightarrow> length (dt p) = 30 \<and> (\<forall>d. Some d \<in> set (dt p) \<longrightarrow> descriptor_type d \<in> {NoneDT, FileDT})"

lemma PCB_new_plain: "PCB_new heap_words pid = Some p \<Longrightarrow> plain p"
proof -
  assume "PCB_new heap_words pid = Some p"
  then obtain a1 p1 a2 p2 a3 p3 where s: "add_descriptor (FileDescriptor 0 0 None) \<lparr>pcb_pid = pid, dt = replicate 30 None, dcount = heap_words\<rparr> = Some (a1, p1)"
    "add_descriptor (FileDescriptor 0 0 None) p1 = Some (a2, p2)" "add_descriptor (FileDescriptor 0 0 None) p2 = Some (a3, p3)"
    "p = p3\<lparr>dt := take 3 (dt p3) @ replicate 27 (Some NoDescriptor)\<rparr>"
    by (auto simp: PCB_new_def Let_def split: option.splits)
  have add: "length (dt p') = length (dt p) \<and> set (dt p') \<subseteq> insert (Some (FileDescriptor 0 0 None)) (set (dt p))"
    if "add_descriptor (FileDescriptor 0 0 None) p = Some (a, p')" for p p' a
    using add_descriptor_dt[OF that] set_update_subset_insert[of "dt p"] by (metis length_list_update)
  have "length (dt p3) = 30" "set (dt p3) \<subseteq> {None, Some (FileDescriptor 0 0 None)}"
    using add[OF s(1)] add[OF s(2)] add[OF s(3)] by auto
  then show ?thesis using s(4) set_take_subset[of 3 "dt p3"] by (fastforce simp: plain_def)
qed

lemma plain_desc_ok: "plain p \<Longrightarrow> table_desc_ok sh p"
proof -
  assume p: "plain p"
  have "desc_ok sh d" if "descriptor_type d \<in> {NoneDT, FileDT}" for d using that by (cases d) auto
  with p show ?thesis by (auto simp: plain_def table_desc_ok_def)
qed

lemma copy_descriptors_desc_ok:
  assumes "table_desc_ok sh from" "table_desc_ok sh p" "copy_descriptors from p = Some p'"
  shows "table_desc_ok sh p'"
proof -
  let ?slots = "map (\<lambda>i. copy_slot (dt p ! i) (dt from ! i)) [0..<30]"
  have p': "dt p' = map the ?slots" "None \<notin> set ?slots"
    using assms(3) unfolding copy_descriptors_def Let_def by (auto simp del: upt_rec_numeral split: if_splits)
  have len: "length (dt p) = 30" "length (dt from) = 30" using assms(1,2) by (simp_all add: table_desc_ok_def)
  have copy: "desc_ok sh d \<Longrightarrow> desc_ok sh (descriptor_copy d)" for d by (cases d) simp_all
  have "desc_ok sh d" if d: "Some d \<in> set (dt p')" for d
  proof -
    obtain i where i: "i < 30" "the (copy_slot (dt p ! i) (dt from ! i)) = Some d"
      using d unfolding p'(1) by (auto simp del: upt_rec_numeral)
    have "copy_slot (dt p ! i) (dt from ! i) \<in> set ?slots" using i(1) by (auto simp del: upt_rec_numeral)
    then have "copy_slot (dt p ! i) (dt from ! i) \<noteq> None" using p'(2) by metis
    then obtain e where e: "dt from ! i = Some e" by (auto simp: copy_slot_def split: option.splits)
    have m: "dt p ! i \<in> set (dt p)" "Some e \<in> set (dt from)" using i(1) len nth_mem[of i "dt p"] nth_mem[of i "dt from"] e by simp_all
    then have "desc_ok sh e" using assms(1) by (simp add: table_desc_ok_def)
    then show ?thesis
      using i(2) e m(1) assms(2) copy by (auto simp: copy_slot_def table_desc_ok_def split: if_splits)
  qed
  moreover have "length (dt p') = 30" unfolding p'(1) by (simp del: upt_rec_numeral)
  ultimately show ?thesis by (simp add: table_desc_ok_def)
qed

lemma sys_fork_kinv:
  assumes "kinv c" "t < length (threads c)" "threads c ! t = Run (User v)" "sys_fork heap_words t c = Some c'"
  shows "kinv c'"
proof -
  define sh where "sh = shared c"
  define n where "n = length (pcbs sh)"
  define c0 where "c0 p = returns t p c" for p
  obtain child_pid p0 where r: "reserve_child_descriptor (pcbs sh ! t) = (child_pid, p0)" by fastforce
  then have p0: "dt p0 = dt (pcbs sh ! t)" by (auto simp: reserve_child_descriptor_def next_dti_def Let_def split: if_splits)
  obtain q0 q pid p where q0: "PCB_new heap_words child_pid = Some q0" and q: "copy_descriptors p0 q0 = Some q"
    and p: "add_child n (pcb_pid q) p0 = Some (pid, p)"
    and c': "c' = (c0 pid)\<lparr>shared := sh\<lparr>pcbs := (pcbs sh)[t := p] @ [q], futures := futures sh @ [\<lparr>go = nsems sh, isReady = False, future_t = 0\<rparr>],
         nsems := nsems sh + 1, umem := (umem sh)(n := umem sh t)\<rparr>,
       sems := (sems c)(nsems sh := Semaphore_new 0), threads := threads (c0 pid) @ [Run (User 0)]\<rparr>"
    using assms(4) r by (auto simp: sys_fork_def sh_def n_def c0_def Let_def split: option.splits)
  let ?sh = "sh\<lparr>pcbs := (pcbs sh)[t := p] @ [q], futures := futures sh @ [\<lparr>go = nsems sh, isReady = False, future_t = 0\<rparr>],
         nsems := nsems sh + 1, umem := (umem sh)(n := umem sh t)\<rparr>"
  note k = kinvD[OF assms(1), folded sh_def]
  have k0: "kinv (c0 pid)" unfolding c0_def by (rule returns_same_kinv[OF assms(1-3)])
  have c0: "shared (c0 pid) = sh" "sems (c0 pid) = sems c" "length (threads (c0 pid)) = length (threads c)"
    by (simp_all add: c0_def returns_def set_thread_def sh_def)
  note k0' = kinvD[OF k0, unfolded c0]
  have ext: "extends sh ?sh" by (simp add: extends_def)
  note e = extendsD[OF ext]
  have len: "length (futures sh) = n" "length (threads c) = n" using k(2,3) by (simp_all add: n_def)
  have pt: "table_desc_ok sh (pcbs sh ! t)" using k(2,5) assms(2) by simp
  have tq: "table_desc_ok ?sh q"
    by (rule copy_descriptors_desc_ok[OF _ plain_desc_ok[OF PCB_new_plain[OF q0]] q])
      (use e(6)[OF pt] p0 in \<open>simp add: table_desc_ok_def\<close>)
  have tp: "table_desc_ok ?sh p"
  proof -
    have dt: "dt p = (dt p0)[unat (pcb_pid q) := Some (ChildProcessDescriptor n)]"
      using p by (auto simp: add_child_def set_descriptor_def split: if_splits)
    show ?thesis
      by (rule table_desc_ok_set[of ?sh "pcbs sh ! t" "ChildProcessDescriptor n"]) (use e(6)[OF pt] len dt p0 in simp_all)
  qed
  have "sys_ok c'"
    using sys_ok_new_sem[OF k0'(1) nobody_waits_new[OF k0, unfolded c0, OF order_refl], where x = "Semaphore_new 0" and sh = ?sh and ls = "[User 0]"]
    unfolding c' by (simp add: Semaphore_new_def c0)
  moreover have "goes_ok ?sh" using k(4) by (auto simp: goes_ok_def go_of_def nth_append less_Suc_eq)
  moreover have "\<forall>x \<in> set (threads c'). state_ok ?sh x" unfolding c' using k0'(6) e(4) by auto
  moreover have "\<forall>x \<in> set (pcbs ?sh). table_desc_ok ?sh x"
  proof -
    have "\<forall>x \<in> set (pcbs sh). table_desc_ok ?sh x" using k(5) e(6) by blast
    note all = ball_update[OF this tp, of t]
    show ?thesis
    proof
      fix x assume "x \<in> set (pcbs ?sh)"
      then consider "x = q" | "x \<in> set ((pcbs sh)[t := p])" by auto
      then show "table_desc_ok ?sh x" by cases (use tq bspec[OF all] in blast)+
    qed
  qed
  moreover have "stopped_ok c'"
    unfolding stopped_ok_def Let_def
  proof (intro allI impI)
    fix f assume "f < length (threads c')"
    then have f: "f < n \<or> f = n" using c0(3) len by (auto simp: c')
    have sc: "shared c' = ?sh" "threads c' = threads (c0 pid) @ [Run (User 0)]" "sems c' = (sems c)(nsems sh := Semaphore_new 0)"
      by (simp_all add: c')
    show "(isReady (futures (shared c') ! f) \<longrightarrow> threads c' ! f = Run (Stopped (future_t (futures (shared c') ! f)))) \<and>
      (\<not> isReady (futures (shared c') ! f) \<longrightarrow> (\<forall>rc. threads c' ! f \<noteq> Run (Stopped rc))) \<and>
      (0 < sem_count (sems c' (go (futures (shared c') ! f))) \<longrightarrow> isReady (futures (shared c') ! f))"
    proof (cases "f = n")
      case True
      then show ?thesis unfolding sc using len c0(3) by (simp add: nth_append Semaphore_new_def)
    next
      case False
      then have fn: "f < n" using f by simp
      then have "go_of sh f < nsems sh" using k(4) len by (simp add: goes_ok_def)
      then show ?thesis
        unfolding sc using stopped_okD[OF k0'(7), unfolded c0, of f] fn len c0(3) by (simp add: nth_append go_of_def c0)
    qed
  qed
  ultimately show ?thesis unfolding kinv_def using k(2,3) len c0 by (simp add: c')
qed

subsection \<open>Runs\<close>

lemma sysHandler_kinv:
  assumes "kinv c" "t < length (threads c)" "threads c ! t = Run (User v)"
    and "sysHandler fs root apics heap_words junk eax user_stack t c = Some c'"
  shows "kinv c'"
  using assms(4) simple_calls_kinv[OF assms(1-3)] sem_calls_kinv[OF assms(1-3)] sys_sem_kinv[OF assms(1-3)]
    sys_fork_kinv[OF assms(1-3)] conjunct1[OF sys_exit_kinv[OF assms(1-3)]] returns_same_kinv[OF assms(1-3)]
  unfolding sysHandler_def Let_def by (cases apics) (auto simp: bind_eq_Some_conv split: if_splits)

lemma kstep_kinv: "kstep fs root apics c c' \<Longrightarrow> kinv c \<Longrightarrow> kinv c'"
proof (induction rule: kstep.induct)
  case (compute t c v v' m)
  show ?case
    by (rule returns_kinv[OF compute(3,1,2)])
      (use kinvD(5)[OF compute(3)] same_futuresD(5)[of "shared c" "(shared c)\<lparr>umem := (umem (shared c))(t := m)\<rparr>"]
        in \<open>auto simp: same_futures_def\<close>)
qed (use sysHandler_kinv resume_kinv in blast)+

lemma kstart_kinv: "kinv (kstart user kern)"
proof -
  have "kstart user kern = sys_start (shared (kstart user kern)) (\<lambda>_. Semaphore_new 0) [User 0]"
    by (simp add: kstart_def sys_start_def)
  then have ok: "sys_ok (kstart user kern)" using sys_start_ok[of "\<lambda>_. Semaphore_new 0"] by (metis Semaphore_new_def semaphore.select_convs(2))
  have "plain (pcbs (shared (kstart user kern)) ! 0)" by (auto simp: plain_def kstart_def)
  then have "table_desc_ok sh (pcbs (shared (kstart user kern)) ! 0)" for sh by (rule plain_desc_ok)
  with ok show ?thesis
    by (auto simp: kinv_def goes_ok_def stopped_ok_def go_of_def Let_def kstart_def Semaphore_new_def)
qed

lemma reachable_kinv: "(kstep fs root apics)\<^sup>*\<^sup>* (kstart user kern) c \<Longrightarrow> kinv c"
  by (induction rule: rtranclp_induct) (auto intro: kstart_kinv kstep_kinv)

lemma kview_set_view [simp]: "kview (set_view t m sh) t = m"
  by (auto simp: kview_def set_view_def)

lemma finish_wait_stores:
  assumes "finish_wait t ptr w c = Some c'"
  shows "load_word (kview (shared c') t) ptr = w"
proof -
  obtain sh where sh: "put_bytes t ptr (enc32 w) (shared c) = Some sh" "c' = returns t w (c\<lparr>shared := sh\<rparr>)"
    using assms by (auto simp: finish_wait_def)
  have "kview sh t = write_mem ptr (enc32 w) (kview (shared c) t)" using sh(1) by (auto simp: put_bytes_def split: if_splits)
  then show ?thesis
    using load_word_write[of "[]" w "[]" ptr ptr] by (simp add: sh(2) returns_def set_thread_def)
qed




subsection \<open>A run\<close>

text \<open>The first process forks, and the child exits with 42; \<open>demo_stack\<close> holds the child's call.\<close>

definition run_apics :: "u32 \<times> u32" where "run_apics = (0xFEC00000, 0xFEE00000)"

definition demo_stack :: memory where
  "demo_stack = write_mem 0x80000004 (enc32 42) (\<lambda>_. 0)"

lemma kstart_pcb: "pcbs (shared (kstart user kern)) = [fresh_PCB 1]"
  by (simp add: kstart_def fresh_PCB_def std_def)

lemma demo_fork: "\<exists>p q. sys_fork [0, 0, 0] 0 (kstart user kern)
    = Some \<lparr>shared = (shared (kstart user kern))\<lparr>pcbs := [p, q],
          futures := [\<lparr>go = 0, isReady = False, future_t = 0\<rparr>, \<lparr>go = 1, isReady = False, future_t = 0\<rparr>], nsems := 2,
          umem := (\<lambda>_. user)\<rparr>,
        sems = (\<lambda>_. Semaphore_new 0), links_of = (\<lambda>_. None), threads = [Run (User 20), Run (User 0)]\<rparr>
    \<and> get_descriptor 20 p = Some (ChildProcessDescriptor 1)"
proof -
  have "3 \<le> unat (num_descriptors FileDT (fresh_PCB 1))" by (simp add: num_of_no fresh_PCB_def)
  from copy_descriptors_ok[OF fresh_PCB_ok this, of 20] obtain q where
    q: "copy_descriptors (fresh_PCB 1) (fresh_PCB 20) = Some q" by blast
  let ?parent = "(fresh_PCB 1)\<lparr>dcount := [3, 0, 1]\<rparr>"
  have r: "reserve_child_descriptor (fresh_PCB 1) = (20, ?parent)"
    unfolding reserve_child_descriptor_def next_dti_ok by (simp add: num_of_no fresh_PCB_def)
  have q0: "copy_descriptors ?parent (fresh_PCB 20) = Some q" using q by (simp add: copy_descriptors_def del: upt_rec_numeral)
  have pid: "pcb_pid q = 20" using q by (auto simp: copy_descriptors_def Let_def fresh_PCB_def split: if_splits simp del: upt_rec_numeral)
  let ?p = "?parent\<lparr>dt := (dt ?parent)[20 := Some (ChildProcessDescriptor 1)]\<rparr>"
  have len: "length (dt ?parent) = 30" by (simp add: fresh_PCB_def)
  then have "add_child (Suc 0) 20 ?parent = Some (20, ?p)" "get_descriptor 20 ?p = Some (ChildProcessDescriptor 1)"
    by (simp_all add: add_child_def set_descriptor_def get_slot)
  then obtain p where p: "add_child (Suc 0) 20 ?parent = Some (20, p)" "get_descriptor 20 p = Some (ChildProcessDescriptor 1)" by blast
  have "sys_fork [0, 0, 0] 0 (kstart user kern)
    = Some \<lparr>shared = (shared (kstart user kern))\<lparr>pcbs := [p, q],
          futures := [\<lparr>go = 0, isReady = False, future_t = 0\<rparr>, \<lparr>go = 1, isReady = False, future_t = 0\<rparr>], nsems := 2,
          umem := (\<lambda>_. user)\<rparr>,
        sems = (\<lambda>_. Semaphore_new 0), links_of = (\<lambda>_. None), threads = [Run (User 20), Run (User 0)]\<rparr>"
    by (simp add: sys_fork_def kstart_pcb r PCB_new_fresh q0 pid p(1) Let_def returns_def set_thread_def)
      (simp add: kstart_def p(1) returns_def set_thread_def fun_upd_idem)
  with p(2) show ?thesis by blast
qed


end
