(* ===== verification/Locks.thy ===== *)
theory Locks
  imports Prelude
begin

text \<open>
  The locks of \<open>kernel/atomic.h\<close>: \<open>SpinLock\<close>, \<open>InterruptSafeLock\<close> and \<open>ISL\<close>, down to the single accesses. A strand is a
  thread with the interrupt handlers that run on top of it: its interrupt flag and a stack of positions in the code. Any
  strand may take the next step, as if it had a core of its own. An interrupt comes only while the flag
  is set; it clears the flag and starts a handler, which may use the same lock. The first \<open>bool\<close> of a position
  is the flag at the call of \<open>lock\<close>; it is a ghost, which no instruction reads. \<open>monitor\<close>, \<open>mwait\<close> and \<open>pause\<close> change nothing.
\<close>

subsection \<open>Instructions\<close>

datatype 'l linstr =
    Skip 'l
  | Flags "bool \<Rightarrow> 'l"
  | CLI 'l
  | STI 'l
  | Exchange "bool \<Rightarrow> 'l"
  | SetFree 'l
  | PutWas bool 'l
  | GetWas "bool \<Rightarrow> 'l"

text \<open>One instruction on \<open>taken\<close>, \<open>was\<close> and the interrupt flag; \<open>Flags\<close> is \<open>Interrupts::isDisabled\<close>.\<close>

fun lexec :: "'l linstr \<Rightarrow> bool \<Rightarrow> bool \<Rightarrow> bool \<Rightarrow> bool \<times> bool \<times> bool \<times> 'l" where
  "lexec (Skip l) taken was f = (taken, was, f, l)"
| "lexec (Flags k) taken was f = (taken, was, f, k (\<not> f))"
| "lexec (CLI l) taken was f = (taken, was, False, l)"
| "lexec (STI l) taken was f = (taken, was, True, l)"
| "lexec (Exchange k) taken was f = (True, was, f, k taken)"
| "lexec (SetFree l) taken was f = (False, was, f, l)"
| "lexec (PutWas b l) taken was f = (taken, b, f, l)"
| "lexec (GetWas k) taken was f = (taken, was, f, k was)"

subsection \<open>The locks\<close>

text \<open>Positions: outside, in \<open>lock\<close>, inside the critical section, in \<open>unlock\<close>, and back from it.\<close>

datatype position =
    Outside
  | Asking bool
  | Disable bool bool
  | Trying bool bool
  | Undo bool bool
  | KeepWas bool bool
  | Inside bool bool
  | Leaving bool
  | Freeing bool bool
  | Restore bool bool
  | Back bool

text \<open>\<open>Interrupts::restore\<close>.\<close>

definition restore :: "bool \<Rightarrow> 'l \<Rightarrow> 'l linstr" where
  "restore wasDisabled l = (if \<not> wasDisabled then STI l else Skip l)"

text \<open>\<open>Interrupts::disable\<close> is \<open>Flags\<close> and this.\<close>

definition disable :: "bool \<Rightarrow> 'l \<Rightarrow> 'l linstr" where
  "disable wasDisabled l = (if \<not> wasDisabled then CLI l else Skip l)"

fun InterruptSafeLock :: "position \<Rightarrow> position linstr" where
  "InterruptSafeLock Outside = Flags (\<lambda>disabled. Asking (\<not> disabled))"
| "InterruptSafeLock (Asking f) = Flags (\<lambda>wasDisabled. Disable f wasDisabled)"
| "InterruptSafeLock (Disable f wasDisabled) = disable wasDisabled (Trying f wasDisabled)"
| "InterruptSafeLock (Trying f wasDisabled) = Exchange (\<lambda>taken. if \<not> taken then KeepWas f wasDisabled else Undo f wasDisabled)"
| "InterruptSafeLock (KeepWas f wasDisabled) = PutWas wasDisabled (Inside f wasDisabled)"
| "InterruptSafeLock (Undo f wasDisabled) = restore wasDisabled (Asking f)"
| "InterruptSafeLock (Inside f _) = Skip (Leaving f)"
| "InterruptSafeLock (Leaving f) = GetWas (\<lambda>wasDisabled. Freeing f wasDisabled)"
| "InterruptSafeLock (Freeing f wasDisabled) = SetFree (Restore f wasDisabled)"
| "InterruptSafeLock (Restore f wasDisabled) = restore wasDisabled (Back f)"
| "InterruptSafeLock (Back f) = Skip Outside"

text \<open>\<open>ISL\<close>: \<open>lock\<close> returns the old state, the caller hands it to \<open>unlock\<close>.\<close>

fun ISL :: "position \<Rightarrow> position linstr" where
  "ISL Outside = Flags (\<lambda>disabled. Asking (\<not> disabled))"
| "ISL (Asking f) = Flags (\<lambda>wasDisabled. Disable f wasDisabled)"
| "ISL (Disable f wasDisabled) = disable wasDisabled (Trying f wasDisabled)"
| "ISL (Trying f wasDisabled) = Exchange (\<lambda>taken. if \<not> taken then Inside f wasDisabled else Undo f wasDisabled)"
| "ISL (Undo f wasDisabled) = restore wasDisabled (Asking f)"
| "ISL (Inside f was) = Skip (Freeing f was)"
| "ISL (Freeing f was) = SetFree (Restore f was)"
| "ISL (Restore f was) = (if was then CLI (Back f) else STI (Back f))"
| "ISL (Back f) = Skip Outside"
| "ISL l = Skip l"

fun SpinLock :: "position \<Rightarrow> position linstr" where
  "SpinLock Outside = Flags (\<lambda>disabled. Trying (\<not> disabled) disabled)"
| "SpinLock (Trying f w) = Exchange (\<lambda>taken. if taken then Trying f w else Inside f w)"
| "SpinLock (Inside f w) = Skip (Freeing f w)"
| "SpinLock (Freeing f w) = SetFree (Back f)"
| "SpinLock (Back f) = Skip Outside"
| "SpinLock l = Skip l"

subsection \<open>The machine\<close>

record machine =
  taken :: bool
  was :: bool
  strands :: "(bool \<times> position list) list"

text \<open>Outside the code changes the flag as it likes. A handler returns with the flag of the code it interrupted, which was set.\<close>

inductive lstep :: "(position \<Rightarrow> position linstr) \<Rightarrow> machine \<Rightarrow> machine \<Rightarrow> bool" for prog where
  exec: "s < length (strands c) \<Longrightarrow> strands c ! s = (f, l # ls) \<Longrightarrow> lexec (prog l) (taken c) (was c) f = (t', w', f', l') \<Longrightarrow>
    lstep prog c \<lparr>taken = t', was = w', strands = (strands c)[s := (f', l' # ls)]\<rparr>"
| own: "s < length (strands c) \<Longrightarrow> strands c ! s = (f, Outside # ls) \<Longrightarrow>
    lstep prog c (c\<lparr>strands := (strands c)[s := (f', Outside # ls)]\<rparr>)"
| interrupt: "s < length (strands c) \<Longrightarrow> strands c ! s = (True, ls) \<Longrightarrow>
    lstep prog c (c\<lparr>strands := (strands c)[s := (False, Outside # ls)]\<rparr>)"
| iret: "s < length (strands c) \<Longrightarrow> strands c ! s = (f, Outside # l # ls) \<Longrightarrow>
    lstep prog c (c\<lparr>strands := (strands c)[s := (True, l # ls)]\<rparr>)"

lemma lstep_exec:
  assumes "s < length (strands c)" "strands c ! s = (f, l # ls)" "lexec (prog l) (taken c) (was c) f = r"
  shows "lstep prog c \<lparr>taken = fst r, was = fst (snd r), strands = (strands c)[s := (fst (snd (snd r)), snd (snd (snd r)) # ls)]\<rparr>"
  by (rule lstep.exec[of s c f l ls]) (use assms in simp_all)

definition lstart :: "bool list \<Rightarrow> machine" where
  "lstart flags = \<lparr>taken = False, was = False, strands = map (\<lambda>f. (f, [Outside])) flags\<rparr>"

subsection \<open>Mutual exclusion\<close>

text \<open>
  A protocol: which positions hold the lock. Only the exchange that finds it free takes it, only the store
  of false gives it back.
\<close>

locale lock_protocol =
  fixes prog :: "position \<Rightarrow> position linstr" and holds :: "position \<Rightarrow> bool"
  assumes outside_free: "\<not> holds Outside"
    and exec_law: "lexec (prog l) t w f = (t', w', f', l') \<Longrightarrow>
      holds l = holds l' \<and> t' = t \<or> \<not> holds l \<and> holds l' = (\<not> t) \<and> t' \<or> holds l \<and> \<not> holds l' \<and> \<not> t'"
begin

definition holders :: "machine \<Rightarrow> nat" where
  "holders c = sum_list (map (\<lambda>s. length (filter holds (snd s))) (strands c))"

definition one_holder :: "machine \<Rightarrow> bool" where
  "one_holder c \<longleftrightarrow> holders c = (if taken c then 1 else 0)"

lemma holders_update:
  assumes "s < length (strands c)"
  shows "holders (c\<lparr>strands := (strands c)[s := x]\<rparr>) + length (filter holds (snd (strands c ! s)))
    = holders c + length (filter holds (snd x))"
proof -
  have "strands c = take s (strands c) @ strands c ! s # drop (Suc s) (strands c)" by (rule id_take_nth_drop[OF assms])
  then have "holders c = sum_list (map (\<lambda>s. length (filter holds (snd s))) (take s (strands c) @ strands c ! s # drop (Suc s) (strands c)))"
    by (simp add: holders_def)
  then show ?thesis using assms by (simp add: holders_def upd_conv_take_nth_drop)
qed

lemma one_holder_step:
  assumes "lstep prog c c'" "one_holder c"
  shows "one_holder c'"
  using assms(1)
proof (cases rule: lstep.cases)
  case (exec s f l ls t' w' f' l')
  have "holders c' = holders (c\<lparr>strands := (strands c)[s := (f', l' # ls)]\<rparr>)" by (simp add: exec(1) holders_def)
  then have n: "holders c' + (if holds l then 1 else 0) = holders c + (if holds l' then 1 else 0)"
    using holders_update[OF exec(2), of "(f', l' # ls)"] by (simp add: exec(3) split: if_splits)
  have t: "t' = taken c'" using exec(1) by simp
  from exec_law[OF exec(4)] show ?thesis
  proof (elim disjE)
    assume "holds l = holds l' \<and> t' = taken c"
    then show ?thesis using n t assms(2) by (simp add: one_holder_def)
  next
    assume "\<not> holds l \<and> holds l' = (\<not> taken c) \<and> t'"
    then show ?thesis using n t assms(2) by (cases "taken c") (simp_all add: one_holder_def)
  next
    assume "holds l \<and> \<not> holds l' \<and> \<not> t'"
    then show ?thesis using n t assms(2) by (cases "taken c") (simp_all add: one_holder_def)
  qed
next
  case (own s f ls f')
  show ?thesis using holders_update[OF own(2), of "(f', Outside # ls)"] own(3) assms(2) outside_free unfolding own(1) one_holder_def by simp
next
  case (interrupt s ls)
  show ?thesis
    using holders_update[OF interrupt(2), of "(False, Outside # ls)"] interrupt(3) assms(2) outside_free unfolding interrupt(1) one_holder_def by simp
next
  case (iret s f l ls)
  show ?thesis using holders_update[OF iret(2), of "(True, l # ls)"] iret(3) assms(2) outside_free unfolding iret(1) one_holder_def by simp
qed

lemma one_holder_start: "one_holder (lstart flags)"
  using outside_free by (simp add: one_holder_def holders_def lstart_def comp_def)

lemma one_holder_reachable: "(lstep prog)\<^sup>*\<^sup>* (lstart flags) c \<Longrightarrow> one_holder c"
  by (induction rule: rtranclp_induct) (auto intro: one_holder_start one_holder_step)

lemma filter_at: "k < length ls \<Longrightarrow> holds (ls ! k) \<Longrightarrow> 1 \<le> length (filter holds ls)"
  by (metis One_nat_def Suc_leI filter_empty_conv length_greater_0_conv nth_mem)

lemma filter_two:
  assumes "i < j" "j < length ls" "holds (ls ! i)" "holds (ls ! j)"
  shows "2 \<le> length (filter holds ls)"
proof -
  have "filter holds ls = filter holds (take j ls) @ filter holds (drop j ls)" by (metis append_take_drop_id filter_append)
  moreover have "1 \<le> length (filter holds (take j ls))" using filter_at[of i "take j ls"] assms by simp
  moreover have "1 \<le> length (filter holds (drop j ls))" using filter_at[of 0 "drop j ls"] assms by simp
  ultimately show ?thesis by simp
qed

text \<open>Two positions of all strands that hold the lock are the same one.\<close>

lemma exclusion:
  assumes "one_holder c" "s < length (strands c)" "i < length (snd (strands c ! s))" "holds (snd (strands c ! s) ! i)"
    and "t < length (strands c)" "j < length (snd (strands c ! t))" "holds (snd (strands c ! t) ! j)"
  shows "s = t \<and> i = j"
proof -
  let ?n = "\<lambda>s. length (filter holds (snd s))"
  have one: "holders c \<le> 1" using assms(1) by (simp add: one_holder_def split: if_splits)
  have le: "?n (strands c ! s) \<le> holders c" if "s < length (strands c)" for s
    unfolding holders_def by (rule member_le_sum_list) (use that in auto)
  have "s = t"
  proof (rule ccontr)
    assume ne: "s \<noteq> t"
    have h: "holders (c\<lparr>strands := (strands c)[s := (True, [])]\<rparr>) + ?n (strands c ! s) = holders c"
      using holders_update[OF assms(2), of "(True, [])"] by simp
    have "?n (strands c ! t) \<le> holders (c\<lparr>strands := (strands c)[s := (True, [])]\<rparr>)"
      unfolding holders_def by (rule member_le_sum_list) (use assms(5) ne in \<open>auto simp: in_set_conv_nth image_iff intro!: bexI[of _ "strands c ! t"] exI[of _ t]\<close>)
    with h one filter_at[OF assms(3,4)] filter_at[OF assms(6,7)] show False by simp
  qed
  moreover have "i = j"
  proof (rule ccontr)
    assume "i \<noteq> j"
    then have "2 \<le> ?n (strands c ! s)" using assms \<open>s = t\<close> filter_two[of i j] filter_two[of j i] by (metis nat_neq_iff)
    with one le[OF assms(2)] show False by simp
  qed
  ultimately show ?thesis ..
qed

end

text \<open>
  A protocol that is safe with interrupts: at each position the interrupt flag is known or free (\<open>None\<close>), it is off
  while the lock is held, and what \<open>was\<close> holds then is known. \<open>good\<close> relates the values a position carries.
\<close>

definition agrees :: "bool option \<Rightarrow> bool \<Rightarrow> bool" where
  "agrees e b \<longleftrightarrow> e = None \<or> e = Some b"

locale interrupt_protocol = lock_protocol prog holds
  for prog :: "position \<Rightarrow> position linstr" and holds :: "position \<Rightarrow> bool" +
  fixes flag :: "position \<Rightarrow> bool option" and kept :: "position \<Rightarrow> bool option" and good :: "position \<Rightarrow> bool"
  assumes outside_good: "good Outside" "flag Outside = None" "kept Outside = None"
    and held_off: "holds l \<Longrightarrow> flag l = Some False"
    and kept_held: "kept l \<noteq> None \<Longrightarrow> holds l"
    and was_held: "lexec (prog l) t w f = (t', w', f', l') \<Longrightarrow> \<not> holds l \<Longrightarrow> w' = w"
    and good_law: "lexec (prog l) t w f = (t', w', f', l') \<Longrightarrow> good l \<Longrightarrow> agrees (flag l) f \<Longrightarrow> agrees (kept l) w \<Longrightarrow>
      good l' \<and> agrees (flag l') f' \<and> agrees (kept l') w'"
begin

definition strand_ok :: "bool \<Rightarrow> bool \<times> position list \<Rightarrow> bool" where
  "strand_ok w x \<longleftrightarrow> (\<exists>l ls. snd x = l # ls \<and> agrees (flag l) (fst x) \<and> (\<forall>l \<in> set ls. agrees (flag l) True)
     \<and> (\<forall>l \<in> set (l # ls). good l \<and> agrees (kept l) w))"

definition lock_safe :: "machine \<Rightarrow> bool" where
  "lock_safe c \<longleftrightarrow> one_holder c \<and> (\<forall>x \<in> set (strands c). strand_ok (was c) x)"

lemma strand_okI:
  "agrees (flag l) f \<Longrightarrow> \<forall>l \<in> set ls. agrees (flag l) True \<Longrightarrow> \<forall>l \<in> set (l # ls). good l \<and> agrees (kept l) w \<Longrightarrow> strand_ok w (f, l # ls)"
  unfolding strand_ok_def by simp

lemma strand_okD:
  assumes "strand_ok w (f, l # ls)"
  shows "agrees (flag l) f" "\<forall>l \<in> set ls. agrees (flag l) True" "\<forall>l \<in> set (l # ls). good l \<and> agrees (kept l) w"
  using assms unfolding strand_ok_def by auto

text \<open>Another strand is not affected, since \<open>was\<close> changes only under the lock.\<close>

lemma other_strand:
  assumes "lock_safe c" "s < length (strands c)" "strands c ! s = (f, l # ls)" "lexec (prog l) (taken c) (was c) f = (t', w', f', l')"
    and "t < length (strands c)" "s \<noteq> t"
  shows "strand_ok w' (strands c ! t)"
proof (cases "holds l")
  case False
  then show ?thesis using was_held[OF assms(4)] assms(1,5) by (simp add: lock_safe_def)
next
  case True
  have ok: "strand_ok (was c) (strands c ! t)" using assms(1,5) by (simp add: lock_safe_def)
  have "kept m = None" if m: "m \<in> set (snd (strands c ! t))" for m
  proof (rule ccontr)
    assume "kept m \<noteq> None"
    with kept_held have h: "holds m" by blast
    obtain j where "j < length (snd (strands c ! t))" "snd (strands c ! t) ! j = m" using m by (metis in_set_conv_nth)
    with exclusion[of c s 0 t j] assms(1,2,3,5,6) True h show False by (simp add: lock_safe_def)
  qed
  with ok show ?thesis unfolding strand_ok_def agrees_def by fastforce
qed

lemma safe_strand: "lock_safe c \<Longrightarrow> s < length (strands c) \<Longrightarrow> strands c ! s = x \<Longrightarrow> strand_ok (was c) x"
  unfolding lock_safe_def by auto

lemma safe_update:
  assumes "lock_safe c" "one_holder (c\<lparr>strands := (strands c)[s := x]\<rparr>)" "strand_ok (was c) x"
  shows "lock_safe (c\<lparr>strands := (strands c)[s := x]\<rparr>)"
  using assms set_update_subset_insert[of "strands c" s x] unfolding lock_safe_def by auto

lemma lower_kept:
  assumes "lock_safe c" "s < length (strands c)" "strands c ! s = (f, l # ls)" "holds l" "m \<in> set ls"
  shows "kept m = None"
proof -
  obtain j where j: "j < length ls" "ls ! j = m" using assms(5) by (metis in_set_conv_nth)
  have one: "one_holder c" using assms(1) by (simp add: lock_safe_def)
  have "\<not> holds m"
  proof
    assume "holds m"
    then have "s = s \<and> 0 = Suc j"
      by (intro exclusion[OF one assms(2) _ _ assms(2)]) (use assms(3,4) j in simp_all)
    then show False by simp
  qed
  then show ?thesis using kept_held[of m] by blast
qed

lemma exec_strand:
  assumes "lock_safe c" "s < length (strands c)" "strands c ! s = (f, l # ls)" "lexec (prog l) (taken c) (was c) f = (t', w', f', l')"
  shows "strand_ok w' (f', l' # ls)"
proof -
  note d = strand_okD[OF safe_strand[OF assms(1-3)]]
  have l: "good l" "agrees (kept l) (was c)" using d(3) by simp_all
  note g = good_law[OF assms(4) l(1) d(1) l(2)]
  have rest: "agrees (kept m) w'" if m: "m \<in> set ls" for m
  proof (cases "holds l")
    case False
    have "agrees (kept m) (was c)" using d(3) m by simp
    then show ?thesis unfolding was_held[OF assms(4) False] .
  next
    case True
    show ?thesis by (simp add: agrees_def lower_kept[OF assms(1-3) True m])
  qed
  show ?thesis
    by (rule strand_okI[OF _ d(2)]) (use g d(3) rest in simp_all)
qed

lemma safe_step:
  assumes "lstep prog c c'" "lock_safe c"
  shows "lock_safe c'"
proof -
  have one: "one_holder c'" using one_holder_step[OF assms(1)] assms(2) by (simp add: lock_safe_def)
  show ?thesis
    using assms(1)
  proof (cases rule: lstep.cases)
    case (exec s f l ls t' w' f' l')
    note e = assms(2) exec(2-4)
    have "strand_ok w' ((strands c)[s := (f', l' # ls)] ! t)" if t: "t < length (strands c)" for t
    proof (cases "s = t")
      case True
      with t exec_strand[OF e] show ?thesis by simp
    next
      case False
      with other_strand[OF e t] show ?thesis by simp
    qed
    then have "\<forall>x \<in> set (strands c'). strand_ok (was c') x"
      unfolding exec(1) machine.simps by (metis in_set_conv_nth length_list_update)
    with one show ?thesis unfolding lock_safe_def by blast
  next
    case (own s f ls f')
    have ok: "strand_ok (was c) (f, Outside # ls)" by (rule safe_strand[OF assms(2) own(2,3)])
    have "strand_ok (was c) (f', Outside # ls)"
      by (rule strand_okI) (use strand_okD[OF ok] outside_good in \<open>simp_all add: agrees_def\<close>)
    then show ?thesis using safe_update[OF assms(2)] one unfolding own(1) by simp
  next
    case (interrupt s ls)
    have "strand_ok (was c) (True, ls)" by (rule safe_strand[OF assms(2) interrupt(2,3)])
    then have "strand_ok (was c) (False, Outside # ls)"
      unfolding strand_ok_def using outside_good by (auto simp: agrees_def)
    then show ?thesis using safe_update[OF assms(2)] one unfolding interrupt(1) by simp
  next
    case (iret s f l ls)
    have ok: "strand_ok (was c) (f, Outside # l # ls)" by (rule safe_strand[OF assms(2) iret(2,3)])
    have "strand_ok (was c) (True, l # ls)" by (rule strand_okI) (use strand_okD[OF ok] in simp_all)
    then show ?thesis using safe_update[OF assms(2)] one unfolding iret(1) by simp
  qed
qed

lemma safe_start: "lock_safe (lstart flags)"
  using one_holder_start outside_good unfolding lock_safe_def lstart_def by (auto intro!: strand_okI simp: agrees_def)

lemma safe_reachable: "(lstep prog)\<^sup>*\<^sup>* (lstart flags) c \<Longrightarrow> lock_safe c"
  by (induction rule: rtranclp_induct) (auto intro: safe_start safe_step)

lemma strand_reachable:
  assumes "(lstep prog)\<^sup>*\<^sup>* (lstart flags) c" "s < length (strands c)"
  shows "strand_ok (was c) (strands c ! s)"
  using safe_reachable[OF assms(1)] assms(2) by (simp add: lock_safe_def)

text \<open>A holder is never under an interrupt handler, and its interrupts are off.\<close>

lemma holder_on_top:
  assumes "(lstep prog)\<^sup>*\<^sup>* (lstart flags) c" "s < length (strands c)" "strands c ! s = (f, ls)" "i < length ls" "holds (ls ! i)"
  shows "i = 0 \<and> \<not> f"
proof -
  obtain l ms where ls: "ls = l # ms" "agrees (flag l) f" "\<forall>l \<in> set ms. agrees (flag l) True"
    using strand_reachable[OF assms(1,2)] assms(3) by (auto simp: strand_ok_def)
  have off: "flag (ls ! i) = Some False" by (rule held_off[OF assms(5)])
  show ?thesis
  proof (cases i)
    case 0
    with off ls show ?thesis by (simp add: agrees_def)
  next
    case (Suc j)
    then have "ls ! i \<in> set ms" using assms(4) ls(1) by simp
    then have "agrees (flag (ls ! i)) True" using ls(3) by blast
    with off show ?thesis by (simp add: agrees_def)
  qed
qed

lemma top_flag:
  assumes "(lstep prog)\<^sup>*\<^sup>* (lstart flags) c" "s < length (strands c)" "strands c ! s = (f, l # ls)" "flag l = Some b"
  shows "f = b"
  using strand_reachable[OF assms(1,2)] assms(3,4) by (auto simp: strand_ok_def agrees_def)

end

subsection \<open>The three locks\<close>

text \<open>From the exchange that found the lock free to the store that frees it.\<close>

fun holding :: "position \<Rightarrow> bool" where
  "holding (KeepWas _ _) = True" | "holding (Inside _ _) = True" | "holding (Leaving _) = True" | "holding (Freeing _ _) = True"
| "holding _ = False"

fun flag_at :: "position \<Rightarrow> bool option" where
  "flag_at Outside = None" | "flag_at (Asking f) = Some f" | "flag_at (Disable f _) = Some f" | "flag_at (Back f) = Some f"
| "flag_at _ = Some False"

text \<open>The old state that a position remembers is that of the call.\<close>

fun remembers :: "position \<Rightarrow> bool" where
  "remembers (Disable f w) = (w = (\<not> f))" | "remembers (Trying f w) = (w = (\<not> f))" | "remembers (Undo f w) = (w = (\<not> f))"
| "remembers (KeepWas f w) = (w = (\<not> f))" | "remembers (Inside f w) = (w = (\<not> f))" | "remembers (Freeing f w) = (w = (\<not> f))"
| "remembers (Restore f w) = (w = (\<not> f))" | "remembers _ = True"

fun kept_was :: "position \<Rightarrow> bool option" where
  "kept_was (Inside f _) = Some (\<not> f)" | "kept_was (Leaving f) = Some (\<not> f)" | "kept_was _ = None"

interpretation safe_lock: interrupt_protocol InterruptSafeLock holding flag_at kept_was remembers
proof
  fix l l' t w f t' w' f'
  assume e: "lexec (InterruptSafeLock l) t w f = (t', w', f', l')"
  show "holding l = holding l' \<and> t' = t \<or> \<not> holding l \<and> holding l' = (\<not> t) \<and> t' \<or> holding l \<and> \<not> holding l' \<and> \<not> t'"
    using e by (cases l) (auto simp: restore_def disable_def split: if_splits)
  show "w' = w" if "\<not> holding l" using e that by (cases l) (auto simp: restore_def disable_def split: if_splits)
  show "remembers l' \<and> agrees (flag_at l') f' \<and> agrees (kept_was l') w'" if "remembers l" "agrees (flag_at l) f" "agrees (kept_was l) w"
    using e that by (cases l) (auto simp: restore_def disable_def agrees_def split: if_splits)
next
  fix l
  show "flag_at l = Some False" if "holding l" using that by (cases l) auto
  show "holding l" if "kept_was l \<noteq> None" using that by (cases l) auto
qed simp_all

interpretation isl: interrupt_protocol ISL holding flag_at "\<lambda>_. None" remembers
proof
  fix l l' t w f t' w' f'
  assume e: "lexec (ISL l) t w f = (t', w', f', l')"
  show "holding l = holding l' \<and> t' = t \<or> \<not> holding l \<and> holding l' = (\<not> t) \<and> t' \<or> holding l \<and> \<not> holding l' \<and> \<not> t'"
    using e by (cases l) (auto simp: restore_def disable_def split: if_splits)
  show "w' = w" if "\<not> holding l" using e that by (cases l) (auto simp: restore_def disable_def split: if_splits)
  show "remembers l' \<and> agrees (flag_at l') f' \<and> agrees None w'" if "remembers l" "agrees (flag_at l) f" "agrees None w"
    using e that by (cases l) (auto simp: restore_def disable_def agrees_def split: if_splits)
next
  fix l
  show "flag_at l = Some False" if "holding l" using that by (cases l) auto
qed simp_all

interpretation spin: lock_protocol SpinLock holding
proof
  fix l l' t w f t' w' f'
  assume e: "lexec (SpinLock l) t w f = (t', w', f', l')"
  show "holding l = holding l' \<and> t' = t \<or> \<not> holding l \<and> holding l' = (\<not> t) \<and> t' \<or> holding l \<and> \<not> holding l' \<and> \<not> t'"
    using e by (cases l) (auto split: if_splits)
qed simp

subsection \<open>What the locks guarantee\<close>

text \<open>C11. \<open>InterruptSafeLock\<close> and \<open>ISL\<close> exclude, also against interrupts. However many strands use the lock and wherever
  interrupts arrive, at most one position of all strands holds it; the holder has its interrupts off and no
  handler on top of it, so nothing that runs on its core can wait for it.\<close>

theorem interrupt_locks_exclude:
  assumes "L = InterruptSafeLock \<or> L = ISL" "(lstep L)\<^sup>*\<^sup>* (lstart flags) c"
    and "s < length (strands c)" "strands c ! s = (f, ls)" "i < length ls" "holding (ls ! i)"
  shows "i = 0 \<and> \<not> f \<and> (\<forall>t < length (strands c). \<forall>j < length (snd (strands c ! t)).
    holding (snd (strands c ! t) ! j) \<longrightarrow> t = s \<and> j = i)"
proof (intro conjI allI impI)
  have top: "i = 0 \<and> \<not> f"
    using assms(1) safe_lock.holder_on_top[OF _ assms(3-6)] isl.holder_on_top[OF _ assms(3-6)] assms(2) by blast
  then show "i = 0" "\<not> f" by simp_all
  have one: "safe_lock.one_holder c" using assms(1,2) safe_lock.one_holder_reachable isl.one_holder_reachable by blast
  fix t j assume "t < length (strands c)" "j < length (snd (strands c ! t))" "holding (snd (strands c ! t) ! j)"
  then have "t = s \<and> j = i" by (intro safe_lock.exclusion[OF one]) (use assms(3-6) in simp_all)
  then show "t = s" "j = i" by simp_all
qed

text \<open>C23. \<open>unlock\<close> restores the interrupt flag of its own \<open>lock\<close>. The saved state lies in the shared lock, which the next
  holder overwrites, and handlers use the same lock; still, when a call of \<open>unlock\<close> returns, interrupts are
  enabled if and only if they were at the matching \<open>lock\<close>.\<close>

theorem interrupt_locks_restore:
  assumes "L = InterruptSafeLock \<or> L = ISL" "(lstep L)\<^sup>*\<^sup>* (lstart flags) c"
    and "s < length (strands c)" "strands c ! s = (f, Back f0 # ls)"
  shows "f = f0"
  using assms(1) safe_lock.top_flag[OF _ assms(3,4)] isl.top_flag[OF _ assms(3,4)] assms(2) by auto

lemma holder_exists:
  assumes "safe_lock.one_holder c" "taken c"
  shows "\<exists>s i. s < length (strands c) \<and> i < length (snd (strands c ! s)) \<and> holding (snd (strands c ! s) ! i)"
proof -
  have "sum_list (map (\<lambda>s. length (filter holding (snd s))) (strands c)) \<noteq> 0"
    using assms by (simp add: safe_lock.one_holder_def safe_lock.holders_def)
  then obtain x where "x \<in> set (strands c)" "filter holding (snd x) \<noteq> []" by (auto simp: sum_list_eq_0_iff)
  then obtain l where "x \<in> set (strands c)" "l \<in> set (snd x)" "holding l" by (auto simp: filter_empty_conv)
  then show ?thesis by (metis in_set_conv_nth)
qed

definition steps_to_free :: "position \<Rightarrow> nat" where
  "steps_to_free l = (case l of KeepWas _ _ \<Rightarrow> 4 | Inside _ _ \<Rightarrow> 3 | Leaving _ \<Rightarrow> 2 | Freeing _ _ \<Rightarrow> 1 | _ \<Rightarrow> 0)"

lemma holder_frees:
  assumes "s < length (strands c)" "strands c ! s = (f, l # ls)" "holding l"
  shows "\<exists>c'. (lstep InterruptSafeLock)\<^sup>*\<^sup>* c c' \<and> \<not> taken c'"
  using assms
proof (induction "steps_to_free l" arbitrary: c f l rule: less_induct)
  case less
  obtain t' w' f' l' where e: "lexec (InterruptSafeLock l) (taken c) (was c) f = (t', w', f', l')" by (metis prod_cases4)
  let ?c = "\<lparr>taken = t', was = w', strands = (strands c)[s := (f', l' # ls)]\<rparr>"
  have st: "lstep InterruptSafeLock c ?c" using lstep_exec[of s c f l ls InterruptSafeLock] less.prems(1,2) e by simp
  have l': "\<not> t' \<or> holding l' \<and> steps_to_free l' < steps_to_free l"
    using e less.prems(3) by (cases l) (auto simp: steps_to_free_def)
  show ?case
  proof (cases t')
    case False
    with st show ?thesis by (intro exI[of _ ?c]) auto
  next
    case True
    with l' obtain c' where "(lstep InterruptSafeLock)\<^sup>*\<^sup>* ?c c'" "\<not> taken c'"
      using less.hyps[of l' ?c f'] less.prems(1) by auto
    with st show ?thesis by (meson converse_rtranclp_into_rtranclp)
  qed
qed

text \<open>In every reachable state the lock can become free again.\<close>

lemma safe_lock_gets_free:
  assumes "(lstep InterruptSafeLock)\<^sup>*\<^sup>* (lstart flags) c"
  shows "\<exists>c'. (lstep InterruptSafeLock)\<^sup>*\<^sup>* c c' \<and> \<not> taken c'"
proof (cases "taken c")
  case True
  obtain s i where s: "s < length (strands c)" "i < length (snd (strands c ! s))" "holding (snd (strands c ! s) ! i)"
    using holder_exists[OF safe_lock.one_holder_reachable[OF assms] True] by blast
  obtain f ls where fl: "strands c ! s = (f, ls)" by fastforce
  have "i = 0" using safe_lock.holder_on_top[OF assms s(1) fl] s(2,3) fl by simp
  with s fl obtain l ms where "ls = l # ms" "holding l" by (cases ls) auto
  with holder_frees[OF s(1)] fl show ?thesis by blast
qed blast

text \<open>\<open>SpinLock\<close> excludes too, but a handler that interrupts the holder and asks for the lock spins for ever.\<close>

lemma spin_lock_excludes:
  assumes "(lstep SpinLock)\<^sup>*\<^sup>* (lstart flags) c" "s < length (strands c)" "i < length (snd (strands c ! s))" "holding (snd (strands c ! s) ! i)"
    and "t < length (strands c)" "j < length (snd (strands c ! t))" "holding (snd (strands c ! t) ! j)"
  shows "s = t \<and> i = j"
  by (rule spin.exclusion[OF spin.one_holder_reachable[OF assms(1)] assms(2-7)])

definition spinning :: machine where
  "spinning = \<lparr>taken = True, was = False, strands = [(False, [Trying False True, Inside True False])]\<rparr>"

lemma spin_lock_self_deadlock:
  "(lstep SpinLock)\<^sup>*\<^sup>* (lstart [True]) spinning" "lstep SpinLock spinning c \<Longrightarrow> c = spinning"
proof -
  let ?m = "\<lambda>t x. \<lparr>taken = t, was = False, strands = [x]\<rparr>"
  have s1: "lstep SpinLock (lstart [True]) (?m False (True, [Trying True False]))"
    using lstep_exec[of 0 "lstart [True]" True Outside "[]" SpinLock, OF _ _ refl] by (simp add: lstart_def)
  have s2: "lstep SpinLock (?m False (True, [Trying True False])) (?m True (True, [Inside True False]))"
    using lstep_exec[of 0 "?m False (True, [Trying True False])" True "Trying True False" "[]" SpinLock, OF _ _ refl] by simp
  have s3: "lstep SpinLock (?m True (True, [Inside True False])) (?m True (False, [Outside, Inside True False]))"
    using lstep.interrupt[of 0 "?m True (True, [Inside True False])" "[Inside True False]" SpinLock] by simp
  have s4: "lstep SpinLock (?m True (False, [Outside, Inside True False])) spinning"
    using lstep_exec[of 0 "?m True (False, [Outside, Inside True False])" False Outside "[Inside True False]" SpinLock, OF _ _ refl]
    by (simp add: spinning_def)
  show "(lstep SpinLock)\<^sup>*\<^sup>* (lstart [True]) spinning"
    using s1 s2 s3 s4 by (meson rtranclp.rtrancl_into_rtrancl rtranclp.rtrancl_refl)
  show "lstep SpinLock spinning c \<Longrightarrow> c = spinning"
    by (erule lstep.cases) (auto simp: spinning_def)
qed

subsection \<open>Witnesses\<close>

text \<open>A thread with interrupts on and nobody else: its run through one critical section.\<close>

primrec lone :: "nat \<Rightarrow> (position \<Rightarrow> position linstr) \<Rightarrow> bool \<times> bool \<times> bool \<times> position \<Rightarrow> bool \<times> bool \<times> bool \<times> position" where
  "lone 0 L x = x"
| "lone (Suc n) L x = (case lone n L x of (t, w, f, l) \<Rightarrow> lexec (L l) t w f)"

definition lone_machine :: "bool \<times> bool \<times> bool \<times> position \<Rightarrow> machine" where
  "lone_machine x = (case x of (t, w, f, l) \<Rightarrow> \<lparr>taken = t, was = w, strands = [(f, [l])]\<rparr>)"

lemma lone_run: "(lstep L)\<^sup>*\<^sup>* (lstart [True]) (lone_machine (lone n L (False, False, True, Outside)))"
proof (induction n)
  case 0
  show ?case by (simp add: lstart_def lone_machine_def)
next
  case (Suc n)
  obtain t w f l where x: "lone n L (False, False, True, Outside) = (t, w, f, l)" by (metis prod_cases4)
  have "lstep L (lone_machine (t, w, f, l)) (lone_machine (lexec (L l) t w f))"
    using lstep_exec[of 0 "lone_machine (t, w, f, l)" f l "[]" L, OF _ _ refl] by (auto simp: lone_machine_def split: prod.splits)
  with Suc x show ?case by (simp add: rtranclp.rtrancl_into_rtrancl)
qed

lemma lone_inside: "lone 5 InterruptSafeLock (False, False, True, Outside) = (True, False, False, Inside True False)"
  "lone 4 ISL (False, False, True, Outside) = (True, False, False, Inside True False)"
  "lone 9 InterruptSafeLock (False, False, True, Outside) = (False, False, True, Back True)"
  by (simp_all add: eval_nat_numeral disable_def restore_def)

theorem interrupt_locks_exclude_witness:
  "\<exists>c. (lstep InterruptSafeLock)\<^sup>*\<^sup>* (lstart [True]) c \<and> strands c = [(False, [Inside True False])] \<and> \<not> fst (strands c ! 0)"
proof -
  let ?c = "lone_machine (True, False, False, Inside True False)"
  have r: "(lstep InterruptSafeLock)\<^sup>*\<^sup>* (lstart [True]) ?c" using lone_run[of InterruptSafeLock 5] by (simp only: lone_inside)
  have c: "strands ?c = [(False, [Inside True False])]" by (simp add: lone_machine_def)
  have "\<not> fst (strands ?c ! 0)" using interrupt_locks_exclude[OF disjI1[OF refl] r, of 0 False "[Inside True False]" 0] c by simp
  with r c show ?thesis by blast
qed

theorem interrupt_locks_restore_witness:
  "\<exists>c f. (lstep InterruptSafeLock)\<^sup>*\<^sup>* (lstart [True]) c \<and> strands c = [(f, [Back True])] \<and> f = True"
proof -
  let ?c = "lone_machine (False, False, True, Back True)"
  have r: "(lstep InterruptSafeLock)\<^sup>*\<^sup>* (lstart [True]) ?c" using lone_run[of InterruptSafeLock 9] by (simp only: lone_inside)
  have c: "strands ?c = [(True, [Back True])]" by (simp add: lone_machine_def)
  have "True = True" using interrupt_locks_restore[OF disjI1[OF refl] r, of 0 True True "[]"] c by simp
  with r c show ?thesis by blast
qed

end
