(* ===== verification/Threads.thy ===== *)
theory Threads
  imports LinkedQueue "HOL-Library.Multiset"
begin

text \<open>
  The scheduler: \<open>kernel/threads.h\<close> and \<open>kernel/threads.cc\<close>, with the timer interrupt of \<open>kernel/pit.cc\<close>. Threads are numbered in the order of their creation; \<open>threadsInit\<close>
  creates the idle thread of core \<open>i\<close> as number \<open>i\<close>, so the idle threads are the numbers below the number of cores.
  A core runs its active thread, or is inside \<open>block\<close>: before the choice of the next thread, or behind the switch, where the
  action given to \<open>block\<close> runs on the new stack for the thread that was left. Each access to a queue is one
  step. Threads that wait on a semaphore or a condition are \<open>parked\<close>; their \<open>next\<close> fields belong to
  those queues. \<open>enqueued\<close> and \<open>dispatched\<close> are ghost logs of what enters and leaves the ready queue.
\<close>

subsection \<open>State and operations\<close>

datatype BlockOption = MustBlock | CanReturn

text \<open>The actions: that of \<open>yield\<close>, that of \<open>stop\<close>, and putting the thread on another queue.\<close>

datatype action = Schedule | Zombie | Park

datatype phase = Running | Picking BlockOption action | Switching nat action

record core =
  active :: nat
  phase :: phase

record sched =
  cores :: "core list"
  readyQ :: queue
  zombies :: queue
  next_of :: nexts
  parked :: "nat list"
  created :: nat
  deleted :: "nat list"
  no_preempt :: "nat \<Rightarrow> bool"
  jiffies :: u32
  enqueued :: "nat list"
  dispatched :: "nat list"

definition isIdle :: "sched \<Rightarrow> nat \<Rightarrow> bool" where
  "isIdle s t \<longleftrightarrow> t < length (cores s)"

definition set_core :: "nat \<Rightarrow> core \<Rightarrow> sched \<Rightarrow> sched" where
  "set_core c x s = s\<lparr>cores := (cores s)[c := x]\<rparr>"

definition schedule :: "nat \<Rightarrow> sched \<Rightarrow> sched option" where
  "schedule tcb s =
     (if \<not> isIdle s tcb
      then (case queue_add tcb (readyQ s, next_of s) of
              None \<Rightarrow> None
            | Some (q, nx) \<Rightarrow> Some (s\<lparr>readyQ := q, next_of := nx, enqueued := enqueued s @ [tcb]\<rparr>))
      else Some s)"

text \<open>The start of \<open>block\<close>, on a core that runs code.\<close>

definition block_enter :: "nat \<Rightarrow> BlockOption \<Rightarrow> action \<Rightarrow> sched \<Rightarrow> sched" where
  "block_enter core_id blockOption f s =
     (let me = active (cores s ! core_id)
      in set_core core_id \<lparr>active = me, phase = Picking blockOption f\<rparr> (s\<lparr>no_preempt := (no_preempt s)(me := True)\<rparr>))"

text \<open>The switch of \<open>context.s\<close>: \<open>no_preempt\<close> is cleared for both threads.\<close>

definition contextSwitch :: "nat \<Rightarrow> nat \<Rightarrow> action \<Rightarrow> sched \<Rightarrow> sched" where
  "contextSwitch core_id next_tcb f s =
     (let me = active (cores s ! core_id)
      in set_core core_id \<lparr>active = next_tcb, phase = Switching me f\<rparr> (s\<lparr>no_preempt := (no_preempt s)(me := False, next_tcb := False)\<rparr>))"

text \<open>The choice of the next thread; \<open>None\<close> is an assertion that fails.\<close>

definition block_pick :: "nat \<Rightarrow> BlockOption \<Rightarrow> action \<Rightarrow> sched \<Rightarrow> sched option" where
  "block_pick core_id blockOption f s =
     (let me = active (cores s ! core_id);
          (next_tcb, (q, nx)) = queue_remove (readyQ s, next_of s);
          s = s\<lparr>readyQ := q, next_of := nx\<rparr>
      in case next_tcb of
           None \<Rightarrow>
             if blockOption = CanReturn then Some (set_core core_id \<lparr>active = me, phase = Running\<rparr> s)
             else if isIdle s me then (if me = core_id then Some s else None)
             else Some (contextSwitch core_id core_id f s)
         | Some tcb \<Rightarrow> Some (contextSwitch core_id tcb f (s\<lparr>dispatched := dispatched s @ [tcb]\<rparr>)))"

text \<open>The timer interrupt of a core: \<open>yield\<close>, unless the core is idle or must not be preempted.\<close>

definition apitHandler :: "nat \<Rightarrow> sched \<Rightarrow> sched" where
  "apitHandler c s =
     (let s = (if c = 0 then s\<lparr>jiffies := jiffies s + 1\<rparr> else s);
          me = active (cores s ! c)
      in if isIdle s me \<or> no_preempt s me then s else block_enter c CanReturn Schedule s)"

text \<open>The action on the thread that was left: the bodies passed by \<open>yield\<close> and \<open>stop\<close>, and \<open>Park\<close>.\<close>

definition run_action :: "action \<Rightarrow> nat \<Rightarrow> sched \<Rightarrow> sched option" where
  "run_action f me s =
     (case f of
        Schedule \<Rightarrow> schedule me s
      | Zombie \<Rightarrow>
          if \<not> isIdle s me
          then map_option (\<lambda>(q, nx). s\<lparr>zombies := q, next_of := nx\<rparr>) (queue_add me (zombies s, next_of s))
          else Some s
      | Park \<Rightarrow> Some (s\<lparr>parked := me # parked s\<rparr>))"

definition switched :: "nat \<Rightarrow> nat \<Rightarrow> action \<Rightarrow> sched \<Rightarrow> sched option" where
  "switched core_id me f s =
     run_action f me (set_core core_id \<lparr>active = active (cores s ! core_id), phase = Running\<rparr> s)"

text \<open>\<open>thread\<close>: a new number, put on the ready queue.\<close>

definition new_thread :: "sched \<Rightarrow> sched option" where
  "new_thread s = schedule (created s) (s\<lparr>created := created s + 1\<rparr>)"

text \<open>One round of \<open>delete_zombies\<close>.\<close>

definition delete_zombie :: "sched \<Rightarrow> sched" where
  "delete_zombie s =
     (let (it, (q, nx)) = queue_remove (zombies s, next_of s);
          s = s\<lparr>zombies := q, next_of := nx\<rparr>
      in case it of None \<Rightarrow> s | Some t \<Rightarrow> s\<lparr>deleted := t # deleted s\<rparr>)"

text \<open>\<open>threadsInit\<close>, before the reaper is created.\<close>

definition threadsInit :: "nat \<Rightarrow> sched" where
  "threadsInit totalProcs = \<lparr>cores = map (\<lambda>i. \<lparr>active = i, phase = Running\<rparr>) [0..<totalProcs], readyQ = queue_new, zombies = queue_new,
     next_of = (\<lambda>_. None), parked = [], created = totalProcs, deleted = [], no_preempt = (\<lambda>_. False), jiffies = 0, enqueued = [], dispatched = []\<rparr>"

text \<open>
  A step of core \<open>c\<close>. Running code calls \<open>block\<close> (\<open>yield\<close>: \<open>CanReturn\<close> and \<open>Schedule\<close>; \<open>stop\<close>: \<open>MustBlock\<close> and \<open>Zombie\<close>; a
  semaphore: \<open>MustBlock\<close> and \<open>Park\<close>, never from an idle thread), is interrupted by the timer, creates a thread, deletes a zombie, or wakes a
  parked thread; other queues write the fields of parked threads.
\<close>

inductive tstep :: "sched \<Rightarrow> sched \<Rightarrow> bool" where
  yields: "c < length (cores s) \<Longrightarrow> cores s ! c = \<lparr>active = me, phase = Running\<rparr> \<Longrightarrow>
    tstep s (block_enter c CanReturn Schedule s)"
| stops: "c < length (cores s) \<Longrightarrow> cores s ! c = \<lparr>active = me, phase = Running\<rparr> \<Longrightarrow>
    tstep s (block_enter c MustBlock Zombie s)"
| parks: "c < length (cores s) \<Longrightarrow> cores s ! c = \<lparr>active = me, phase = Running\<rparr> \<Longrightarrow> \<not> isIdle s me \<Longrightarrow>
    tstep s (block_enter c MustBlock Park s)"
| timer: "c < length (cores s) \<Longrightarrow> cores s ! c = \<lparr>active = me, phase = Running\<rparr> \<Longrightarrow> tstep s (apitHandler c s)"
| picks: "c < length (cores s) \<Longrightarrow> cores s ! c = \<lparr>active = me, phase = Picking opt f\<rparr> \<Longrightarrow> block_pick c opt f s = Some s' \<Longrightarrow> tstep s s'"
| switches: "c < length (cores s) \<Longrightarrow> cores s ! c = \<lparr>active = next, phase = Switching me f\<rparr> \<Longrightarrow> switched c me f s = Some s' \<Longrightarrow> tstep s s'"
| creates: "c < length (cores s) \<Longrightarrow> cores s ! c = \<lparr>active = me, phase = Running\<rparr> \<Longrightarrow> new_thread s = Some s' \<Longrightarrow> tstep s s'"
| reaps: "c < length (cores s) \<Longrightarrow> cores s ! c = \<lparr>active = me, phase = Running\<rparr> \<Longrightarrow> tstep s (delete_zombie s)"
| wakes: "t \<in> set (parked s) \<Longrightarrow> schedule t (s\<lparr>parked := remove1 t (parked s)\<rparr>) = Some s' \<Longrightarrow> tstep s s'"
| other_queue: "t \<in> set (parked s) \<Longrightarrow> tstep s (s\<lparr>next_of := (next_of s)(t := p)\<rparr>)"

subsection \<open>The invariant\<close>

text \<open>The threads a core has in hand: the one it runs and the one it has left but not yet disposed of.\<close>

definition in_hand :: "core \<Rightarrow> nat list" where
  "in_hand x = active x # (case phase x of Switching p _ \<Rightarrow> [p] | _ \<Rightarrow> [])"

definition on_cores :: "sched \<Rightarrow> nat multiset" where
  "on_cores s = filter_mset (\<lambda>t. \<not> isIdle s t) (mset (concat (map in_hand (cores s))))"

definition core_ok :: "nat \<Rightarrow> nat \<Rightarrow> core \<Rightarrow> bool" where
  "core_ok n c x \<longleftrightarrow> (\<forall>t \<in> set (in_hand x). t < n \<longrightarrow> t = c)
     \<and> (case phase x of Running \<Rightarrow> True | Picking _ f \<Rightarrow> f = Park \<longrightarrow> \<not> active x < n
        | Switching p f \<Rightarrow> f = Park \<longrightarrow> \<not> p < n)"

definition sched_inv :: "sched \<Rightarrow> nat list \<Rightarrow> nat list \<Rightarrow> bool" where
  "sched_inv s xs zs \<longleftrightarrow> queue_rep (readyQ s, next_of s) xs \<and> queue_rep (zombies s, next_of s) zs
     \<and> on_cores s + mset xs + mset zs + mset (parked s) + mset (deleted s) = mset [length (cores s)..<created s]
     \<and> length (cores s) \<le> created s \<and> (\<forall>c < length (cores s). core_ok (length (cores s)) c (cores s ! c))
     \<and> enqueued s = dispatched s @ xs"

lemma sched_invD:
  assumes "sched_inv s xs zs"
  shows "queue_rep (readyQ s, next_of s) xs" "queue_rep (zombies s, next_of s) zs"
    "on_cores s + mset xs + mset zs + mset (parked s) + mset (deleted s) = mset [length (cores s)..<created s]"
    "length (cores s) \<le> created s" "c < length (cores s) \<Longrightarrow> core_ok (length (cores s)) c (cores s ! c)"
    "enqueued s = dispatched s @ xs"
  using assms by (simp_all add: sched_inv_def)

lemma length_set_core [simp]: "length (cores (set_core c x s)) = length (cores s)"
  by (simp add: set_core_def)

lemma set_core_simps [simp]:
  "readyQ (set_core c x s) = readyQ s" "zombies (set_core c x s) = zombies s" "next_of (set_core c x s) = next_of s"
  "parked (set_core c x s) = parked s" "created (set_core c x s) = created s" "deleted (set_core c x s) = deleted s"
  "enqueued (set_core c x s) = enqueued s" "dispatched (set_core c x s) = dispatched s" "isIdle (set_core c x s) = isIdle s"
  "cores (set_core c x s) = (cores s)[c := x]" "no_preempt (set_core c x s) = no_preempt s" "jiffies (set_core c x s) = jiffies s"
  by (simp_all add: set_core_def isIdle_def fun_eq_iff)

text \<open>How a core's threads change.\<close>

lemma mset_concat_update:
  "c < length xs \<Longrightarrow> mset (concat (map f (xs[c := x]))) + mset (f (xs ! c)) = mset (concat (map f xs)) + mset (f x)"
proof -
  assume c: "c < length xs"
  have "xs = take c xs @ xs ! c # drop (Suc c) xs" by (rule id_take_nth_drop[OF c])
  then have "mset (concat (map f xs)) = mset (concat (map f (take c xs @ xs ! c # drop (Suc c) xs)))" by simp
  then show ?thesis using c by (simp add: upd_conv_take_nth_drop)
qed

lemma on_cores_update:
  assumes "c < length (cores s)"
  shows "on_cores (set_core c x s) + filter_mset (\<lambda>t. \<not> isIdle s t) (mset (in_hand (cores s ! c)))
    = on_cores s + filter_mset (\<lambda>t. \<not> isIdle s t) (mset (in_hand x))"
  using arg_cong[OF mset_concat_update[OF assms, of in_hand x], of "filter_mset (\<lambda>t. \<not> isIdle s t)"]
  by (simp add: on_cores_def)

lemma on_cores_cong: "cores s' = cores s \<Longrightarrow> on_cores s' = on_cores s"
  by (simp add: on_cores_def isIdle_def)

lemma on_cores_fields [simp]:
  "on_cores (s\<lparr>readyQ := q\<rparr>) = on_cores s" "on_cores (s\<lparr>zombies := q\<rparr>) = on_cores s" "on_cores (s\<lparr>next_of := nx\<rparr>) = on_cores s"
  "on_cores (s\<lparr>parked := ps\<rparr>) = on_cores s" "on_cores (s\<lparr>created := n\<rparr>) = on_cores s" "on_cores (s\<lparr>deleted := ps\<rparr>) = on_cores s"
  "on_cores (s\<lparr>no_preempt := np\<rparr>) = on_cores s" "on_cores (s\<lparr>jiffies := j\<rparr>) = on_cores s"
  "on_cores (s\<lparr>enqueued := ps\<rparr>) = on_cores s" "on_cores (s\<lparr>dispatched := ps\<rparr>) = on_cores s"
  by (rule on_cores_cong; simp)+

text \<open>Each thread has one place only.\<close>

lemma inv_count:
  assumes "sched_inv s xs zs"
  shows "count (on_cores s) t + count (mset xs) t + count (mset zs) t + count (mset (parked s)) t + count (mset (deleted s)) t
    = (if length (cores s) \<le> t \<and> t < created s then 1 else 0)"
proof -
  have "count (mset [length (cores s)..<created s]) t = (if length (cores s) \<le> t \<and> t < created s then 1 else 0)"
    using distinct_count_atmost_1[of "[length (cores s)..<created s]"] by simp
  then show ?thesis by (simp only: count_union flip: sched_invD(3)[OF assms])
qed

lemma in_count: "t \<in> set xs \<Longrightarrow> 1 \<le> count (mset xs) t"
  by (simp add: Suc_le_eq)

lemma count_disjoint: "count A t + count B t \<le> 1 \<Longrightarrow> t \<in># A \<Longrightarrow> t \<notin># B"
  using count_greater_zero_iff[of A t] count_greater_zero_iff[of B t] by linarith

lemma inv_disjoint:
  assumes "sched_inv s xs zs"
  shows "set xs \<inter> set zs = {}" "t \<in> set (parked s) \<Longrightarrow> t \<notin> set xs \<and> t \<notin> set zs \<and> \<not> isIdle s t"
    "t \<in># on_cores s \<Longrightarrow> t \<notin> set xs \<and> t \<notin> set zs" "created s \<notin> set xs \<and> created s \<notin> set zs"
    "t \<in> set xs \<Longrightarrow> \<not> isIdle s t"
proof -
  note n = inv_count[OF assms]
  have le: "count (on_cores s) t + count (mset xs) t + count (mset zs) t + count (mset (parked s)) t + count (mset (deleted s)) t \<le> 1" for t
    unfolding n[of t] by simp
  have pair: "count (mset xs) t + count (mset zs) t \<le> 1" "count (mset (parked s)) t + count (mset xs) t \<le> 1"
    "count (mset (parked s)) t + count (mset zs) t \<le> 1" "count (on_cores s) t + count (mset xs) t \<le> 1"
    "count (on_cores s) t + count (mset zs) t \<le> 1" for t using le[of t] by linarith+
  show "set xs \<inter> set zs = {}" using count_disjoint[OF pair(1)] by auto
  have nz: "count (mset ys) t \<noteq> 0" if "t \<in> set ys" for ys and t :: nat using that by simp
  have idle: "\<not> isIdle s t" "t \<noteq> created s" if "count (mset xs) t + count (mset zs) t + count (mset (parked s)) t \<noteq> 0" for t
    using n[of t] that by (auto simp: isIdle_def split: if_splits)
  show "t \<in> set (parked s) \<Longrightarrow> t \<notin> set xs \<and> t \<notin> set zs \<and> \<not> isIdle s t"
    using count_disjoint[OF pair(2)] count_disjoint[OF pair(3)] idle(1)[of t] by simp
  show "t \<in># on_cores s \<Longrightarrow> t \<notin> set xs \<and> t \<notin> set zs"
    using count_disjoint[OF pair(4)] count_disjoint[OF pair(5)] by simp
  show "created s \<notin> set xs \<and> created s \<notin> set zs" using idle(2)[of "created s"] by auto
  show "t \<in> set xs \<Longrightarrow> \<not> isIdle s t" using idle(1)[of t] by simp
qed

text \<open>Adding to one of the two queues leaves the other alone.\<close>

lemma schedule_rep:
  assumes "queue_rep (readyQ s, next_of s) xs" "queue_rep (zombies s, next_of s) zs" "set xs \<inter> set zs = {}"
    and "tcb \<notin> set xs" "tcb \<notin> set zs" "\<not> isIdle s tcb"
  obtains q nx where "schedule tcb s = Some (s\<lparr>readyQ := q, next_of := nx, enqueued := enqueued s @ [tcb]\<rparr>)"
    "queue_rep (q, nx) (xs @ [tcb])" "queue_rep (zombies s, nx) zs"
proof -
  obtain q nx where q: "queue_add tcb (readyQ s, next_of s) = Some (q, nx)" "queue_rep (q, nx) (xs @ [tcb])"
    "\<forall>x. x \<noteq> tcb \<and> x \<notin> set xs \<longrightarrow> nx x = next_of s x" using queue_add_rep[OF assms(1,4)] by blast
  have z: "queue_rep (zombies s, nx) zs"
  proof (rule queue_rep_frame[OF assms(2)])
    fix x assume "x \<in> set zs"
    then have "x \<noteq> tcb \<and> x \<notin> set xs" using assms(3,5) by blast
    then show "nx x = next_of s x" using q(3) by simp
  qed
  show ?thesis by (rule that[OF _ q(2) z]) (use q(1) assms(6) in \<open>simp add: schedule_def\<close>)
qed

lemma zombie_rep:
  assumes "queue_rep (readyQ s, next_of s) xs" "queue_rep (zombies s, next_of s) zs" "set xs \<inter> set zs = {}"
    and "tcb \<notin> set xs" "tcb \<notin> set zs"
  obtains q nx where "queue_add tcb (zombies s, next_of s) = Some (q, nx)"
    "queue_rep (q, nx) (zs @ [tcb])" "queue_rep (readyQ s, nx) xs"
proof -
  obtain q nx where q: "queue_add tcb (zombies s, next_of s) = Some (q, nx)" "queue_rep (q, nx) (zs @ [tcb])"
    "\<forall>x. x \<noteq> tcb \<and> x \<notin> set zs \<longrightarrow> nx x = next_of s x" using queue_add_rep[OF assms(2,5)] by blast
  have r: "queue_rep (readyQ s, nx) xs"
  proof (rule queue_rep_frame[OF assms(1)])
    fix x assume "x \<in> set xs"
    then have "x \<noteq> tcb \<and> x \<notin> set zs" using assms(3,4) by blast
    then show "nx x = next_of s x" using q(3) by simp
  qed
  show ?thesis by (rule that[OF q(1,2) r])
qed

lemma sched_inv_fields [simp]:
  "sched_inv (s\<lparr>no_preempt := np\<rparr>) xs zs = sched_inv s xs zs" "sched_inv (s\<lparr>jiffies := j\<rparr>) xs zs = sched_inv s xs zs"
  by (simp_all add: sched_inv_def)

lemma set_core_no_preempt: "set_core c x (s\<lparr>no_preempt := np\<rparr>) = (set_core c x s)\<lparr>no_preempt := np\<rparr>"
  by (simp add: set_core_def)

lemma contextSwitch_inv:
  assumes "sched_inv (set_core c \<lparr>active = next, phase = Switching (active (cores s ! c)) f\<rparr> s) xs zs"
  shows "sched_inv (contextSwitch c next f s) xs zs"
  using assms by (simp add: contextSwitch_def set_core_no_preempt Let_def)

text \<open>A core that changes its phase but not its threads.\<close>

lemma same_hand_inv:
  assumes "sched_inv s xs zs" "c < length (cores s)" "in_hand x = in_hand (cores s ! c)" "core_ok (length (cores s)) c x"
  shows "sched_inv (set_core c x s) xs zs"
proof -
  have on: "on_cores (set_core c x s) = on_cores s" using on_cores_update[OF assms(2), of x] assms(3) by simp
  show ?thesis
    using assms(1,2,4) on by (simp add: sched_inv_def nth_list_update)
qed

lemma block_pick_inv:
  assumes "sched_inv s xs zs" "c < length (cores s)" "cores s ! c = \<lparr>active = me, phase = Picking opt f\<rparr>"
  shows "\<exists>s' xs'. block_pick c opt f s = Some s' \<and> sched_inv s' xs' zs"
proof -
  note d = sched_invD[OF assms(1)]
  have co: "core_ok (length (cores s)) c (cores s ! c)" by (rule d(5)[OF assms(2)])
  have hand: "in_hand (cores s ! c) = [me]" by (simp add: assms(3) in_hand_def)
  show ?thesis
  proof (cases xs)
    case Nil
    have r: "queue_remove (readyQ s, next_of s) = (None, (readyQ s, next_of s))" by (rule queue_remove_rep(1)[OF d(1) Nil])
    have same: "s\<lparr>readyQ := readyQ s, next_of := next_of s\<rparr> = s" by simp
    consider "opt = CanReturn" | "opt \<noteq> CanReturn" "isIdle s me" | "opt \<noteq> CanReturn" "\<not> isIdle s me" by blast
    then show ?thesis
    proof cases
      case 1
      have "sched_inv (set_core c \<lparr>active = me, phase = Running\<rparr> s) xs zs"
        by (rule same_hand_inv[OF assms(1,2)]) (use co in \<open>simp_all add: assms(3) in_hand_def core_ok_def\<close>)
      with r 1 show ?thesis by (auto simp: block_pick_def assms(3))
    next
      case 2
      have "me = c" using co 2(2) hand by (simp add: core_ok_def isIdle_def)
      with r 2 assms(1) show ?thesis by (auto simp: block_pick_def assms(3))
    next
      case 3
      let ?s = "set_core c \<lparr>active = c, phase = Switching me f\<rparr> s"
      have "on_cores ?s = on_cores s"
        using on_cores_update[OF assms(2), of "\<lparr>active = c, phase = Switching me f\<rparr>"] assms(2) 3(2)
        unfolding hand by (simp add: in_hand_def isIdle_def)
      moreover have "core_ok (length (cores s)) c \<lparr>active = c, phase = Switching me f\<rparr>"
        using co 3(2) by (simp add: core_ok_def in_hand_def assms(3) isIdle_def)
      ultimately have "sched_inv ?s xs zs" using assms(1,2) by (simp add: sched_inv_def nth_list_update)
      then have "sched_inv (contextSwitch c c f s) xs zs" by (intro contextSwitch_inv) (simp add: assms(3))
      with r 3 show ?thesis by (auto simp: block_pick_def assms(3))
    qed
  next
    case (Cons tcb ys)
    obtain q where q: "queue_remove (readyQ s, next_of s) = (Some tcb, (q, next_of s))" "queue_rep (q, next_of s) ys"
      using queue_remove_rep(2)[OF d(1) Cons] by blast
    have ni: "\<not> isIdle s tcb" using inv_disjoint(5)[OF assms(1)] Cons by simp
    let ?x = "\<lparr>active = tcb, phase = Switching me f\<rparr>"
    let ?s = "set_core c ?x (s\<lparr>readyQ := q, next_of := next_of s, dispatched := dispatched s @ [tcb]\<rparr>)"
    have "on_cores ?s = on_cores (set_core c ?x s)" by (rule on_cores_cong) simp
    then have on: "on_cores ?s = add_mset tcb (on_cores s)"
      using on_cores_update[OF assms(2), of ?x] ni unfolding hand by (simp add: in_hand_def)
    have "core_ok (length (cores s)) c ?x" using co ni by (simp add: core_ok_def in_hand_def assms(3) isIdle_def)
    then have "sched_inv ?s ys zs"
      using d q(2) assms(2) on Cons by (simp add: sched_inv_def nth_list_update)
    then have "sched_inv (contextSwitch c tcb f (s\<lparr>readyQ := q, next_of := next_of s, dispatched := dispatched s @ [tcb]\<rparr>)) ys zs"
      by (intro contextSwitch_inv) (simp add: assms(3))
    with q show ?thesis by (auto simp: block_pick_def assms(3))
  qed
qed

lemma block_enter_inv:
  assumes "sched_inv s xs zs" "c < length (cores s)" "cores s ! c = \<lparr>active = me, phase = Running\<rparr>" "f = Park \<longrightarrow> \<not> isIdle s me"
  shows "sched_inv (block_enter c opt f s) xs zs"
proof -
  have "sched_inv (set_core c \<lparr>active = me, phase = Picking opt f\<rparr> s) xs zs"
    by (rule same_hand_inv[OF assms(1,2)])
      (use sched_invD(5)[OF assms(1,2)] assms(3,4) in \<open>simp_all add: in_hand_def core_ok_def isIdle_def\<close>)
  then show ?thesis by (simp add: block_enter_def set_core_no_preempt assms(3))
qed

lemma apitHandler_inv:
  assumes "sched_inv s xs zs" "c < length (cores s)" "cores s ! c = \<lparr>active = me, phase = Running\<rparr>"
  shows "sched_inv (apitHandler c s) xs zs"
proof -
  define s1 where "s1 = (if c = 0 then s\<lparr>jiffies := jiffies s + 1\<rparr> else s)"
  have "sched_inv s1 xs zs" "cores s1 = cores s" using assms(1) by (simp_all add: s1_def)
  then have "sched_inv (block_enter c CanReturn Schedule s1) xs zs" "sched_inv s1 xs zs"
    using block_enter_inv[of s1 xs zs c me Schedule] assms(2,3) by simp_all
  then show ?thesis unfolding apitHandler_def Let_def s1_def[symmetric] by simp
qed

text \<open>Behind the switch the thread that was left is in hand and on no queue.\<close>

lemma left_thread:
  assumes "sched_inv s xs zs" "c < length (cores s)" "cores s ! c = \<lparr>active = next, phase = Switching me f\<rparr>"
  defines "s1 \<equiv> set_core c \<lparr>active = next, phase = Running\<rparr> s"
  shows "on_cores s = on_cores s1 + (if isIdle s me then {#} else {#me#})" "core_ok (length (cores s)) c \<lparr>active = next, phase = Running\<rparr>"
    "\<not> isIdle s me \<Longrightarrow> me \<notin> set xs \<and> me \<notin> set zs" "f = Park \<Longrightarrow> \<not> isIdle s me"
proof -
  have hand: "in_hand (cores s ! c) = [next, me]" by (simp add: assms(3) in_hand_def)
  have "on_cores s1 + filter_mset (\<lambda>t. \<not> isIdle s t) {#next, me#} = on_cores s + filter_mset (\<lambda>t. \<not> isIdle s t) {#next#}"
    using on_cores_update[OF assms(2), of "\<lparr>active = next, phase = Running\<rparr>"] unfolding hand s1_def
    by (simp add: in_hand_def)
  then show on: "on_cores s = on_cores s1 + (if isIdle s me then {#} else {#me#})" by (auto split: if_splits)
  have co: "core_ok (length (cores s)) c (cores s ! c)" by (rule sched_invD(5)[OF assms(1,2)])
  then show "core_ok (length (cores s)) c \<lparr>active = next, phase = Running\<rparr>" by (simp add: core_ok_def in_hand_def assms(3))
  show "\<not> isIdle s me \<Longrightarrow> me \<notin> set xs \<and> me \<notin> set zs" using inv_disjoint(3)[OF assms(1), of me] on by simp
  show "f = Park \<Longrightarrow> \<not> isIdle s me" using co by (simp add: core_ok_def assms(3) isIdle_def)
qed

lemma switched_inv:
  assumes "sched_inv s xs zs" "c < length (cores s)" "cores s ! c = \<lparr>active = next, phase = Switching me f\<rparr>"
  shows "\<exists>s' xs' zs'. switched c me f s = Some s' \<and> sched_inv s' xs' zs'"
proof -
  define s1 where "s1 = set_core c \<lparr>active = next, phase = Running\<rparr> s"
  note d = sched_invD[OF assms(1)] and l = left_thread[OF assms, folded s1_def]
  have sw: "switched c me f s = run_action f me s1" by (simp add: switched_def assms(3) s1_def)
  have same: "readyQ s1 = readyQ s" "zombies s1 = zombies s" "next_of s1 = next_of s" "parked s1 = parked s" "created s1 = created s"
    "deleted s1 = deleted s" "enqueued s1 = enqueued s" "dispatched s1 = dispatched s" "isIdle s1 = isIdle s"
    "length (cores s1) = length (cores s)" by (simp_all add: s1_def)
  have cores: "\<forall>k < length (cores s). core_ok (length (cores s)) k (cores s1 ! k)"
    using d(5) l(2) assms(2) by (simp add: s1_def nth_list_update)
  have q: "queue_rep (readyQ s1, next_of s1) xs" "queue_rep (zombies s1, next_of s1) zs" using d(1,2) same by simp_all
  have idle: ?thesis if "isIdle s me" "run_action f me s1 = Some s1"
  proof -
    have "sched_inv s1 xs zs" using d l(1) cores that(1) unfolding sched_inv_def by (simp add: same)
    with sw that(2) show ?thesis by auto
  qed
  show ?thesis
  proof (cases "isIdle s me")
    case True
    with l(4) have "run_action f me s1 = Some s1" by (cases f) (simp_all add: run_action_def schedule_def same)
    with idle True show ?thesis by blast
  next
    case False
    note n = l(3)[OF False]
    have ni: "\<not> isIdle s1 me" using False same by simp
    have on: "on_cores s = add_mset me (on_cores s1)" using l(1) False by simp
    note dis = inv_disjoint(1)[OF assms(1)]
    show ?thesis
    proof (cases f)
      case Schedule
      obtain qq nx where r: "schedule me s1 = Some (s1\<lparr>readyQ := qq, next_of := nx, enqueued := enqueued s1 @ [me]\<rparr>)"
        "queue_rep (qq, nx) (xs @ [me])" "queue_rep (zombies s1, nx) zs"
        using schedule_rep[OF q dis] n ni by blast
      have "sched_inv (s1\<lparr>readyQ := qq, next_of := nx, enqueued := enqueued s1 @ [me]\<rparr>) (xs @ [me]) zs"
        using d(3,4,6) r(2,3) cores on unfolding sched_inv_def by (simp add: same)
      with r(1) Schedule sw show ?thesis by (auto simp: run_action_def)
    next
      case Zombie
      obtain qq nx where r: "queue_add me (zombies s1, next_of s1) = Some (qq, nx)" "queue_rep (qq, nx) (zs @ [me])" "queue_rep (readyQ s1, nx) xs"
        using zombie_rep[OF q dis] n by blast
      have "sched_inv (s1\<lparr>zombies := qq, next_of := nx\<rparr>) xs (zs @ [me])"
        using d(3,4,6) r(2,3) cores on unfolding sched_inv_def by (simp add: same)
      with r(1) Zombie sw ni show ?thesis by (auto simp: run_action_def)
    next
      case Park
      have "sched_inv (s1\<lparr>parked := me # parked s1\<rparr>) xs zs"
        using d(3,4,6) q cores on unfolding sched_inv_def by (simp add: same)
      with Park sw show ?thesis by (auto simp: run_action_def)
    qed
  qed
qed

lemma new_thread_inv:
  assumes "sched_inv s xs zs"
  shows "\<exists>s'. new_thread s = Some s' \<and> sched_inv s' (xs @ [created s]) zs"
proof -
  note d = sched_invD[OF assms]
  let ?s = "s\<lparr>created := created s + 1\<rparr>"
  have ni: "\<not> isIdle ?s (created s)" using d(4) by (simp add: isIdle_def)
  have q: "queue_rep (readyQ ?s, next_of ?s) xs" "queue_rep (zombies ?s, next_of ?s) zs" using d(1,2) by simp_all
  obtain qq nx where r: "schedule (created s) ?s = Some (?s\<lparr>readyQ := qq, next_of := nx, enqueued := enqueued ?s @ [created s]\<rparr>)"
    "queue_rep (qq, nx) (xs @ [created s])" "queue_rep (zombies ?s, nx) zs"
    using schedule_rep[OF q inv_disjoint(1)[OF assms]] inv_disjoint(4)[OF assms] ni by blast
  have "mset [length (cores s)..<Suc (created s)] = add_mset (created s) (mset [length (cores s)..<created s])" using d(4) by simp
  then have "sched_inv (?s\<lparr>readyQ := qq, next_of := nx, enqueued := enqueued ?s @ [created s]\<rparr>) (xs @ [created s]) zs"
    using d r(2,3) unfolding sched_inv_def by (simp del: upt_Suc flip: d(3))
  with r(1) show ?thesis unfolding new_thread_def by simp
qed

lemma delete_zombie_inv:
  assumes "sched_inv s xs zs"
  shows "\<exists>zs'. sched_inv (delete_zombie s) xs zs'"
proof (cases zs)
  case Nil
  have r: "queue_remove (zombies s, next_of s) = (None, (zombies s, next_of s))" by (rule queue_remove_rep(1)[OF sched_invD(2)[OF assms] Nil])
  have "delete_zombie s = s" unfolding delete_zombie_def r by simp
  with assms show ?thesis by auto
next
  case (Cons z ys)
  obtain q where q: "queue_remove (zombies s, next_of s) = (Some z, (q, next_of s))" "queue_rep (q, next_of s) ys"
    using queue_remove_rep(2)[OF sched_invD(2)[OF assms] Cons] by blast
  have "delete_zombie s = s\<lparr>zombies := q, next_of := next_of s, deleted := z # deleted s\<rparr>" unfolding delete_zombie_def q(1) by simp
  moreover have "sched_inv (s\<lparr>zombies := q, next_of := next_of s, deleted := z # deleted s\<rparr>) xs ys"
    using sched_invD[OF assms] q(2) Cons unfolding sched_inv_def by simp
  ultimately show ?thesis by auto
qed

lemma wake_inv:
  assumes "sched_inv s xs zs" "t \<in> set (parked s)"
  shows "\<exists>s'. schedule t (s\<lparr>parked := remove1 t (parked s)\<rparr>) = Some s' \<and> sched_inv s' (xs @ [t]) zs"
proof -
  note d = sched_invD[OF assms(1)]
  let ?s = "s\<lparr>parked := remove1 t (parked s)\<rparr>"
  have q: "queue_rep (readyQ ?s, next_of ?s) xs" "queue_rep (zombies ?s, next_of ?s) zs" using d(1,2) by simp_all
  have ni: "\<not> isIdle ?s t" "t \<notin> set xs" "t \<notin> set zs" using inv_disjoint(2)[OF assms] by (simp_all add: isIdle_def)
  obtain qq nx where r: "schedule t ?s = Some (?s\<lparr>readyQ := qq, next_of := nx, enqueued := enqueued ?s @ [t]\<rparr>)"
    "queue_rep (qq, nx) (xs @ [t])" "queue_rep (zombies ?s, nx) zs"
    using schedule_rep[OF q inv_disjoint(1)[OF assms(1)] ni(2,3,1)] by blast
  have m: "mset (parked s) = add_mset t (mset (remove1 t (parked s)))" using assms(2) by simp
  have "sched_inv (?s\<lparr>readyQ := qq, next_of := nx, enqueued := enqueued ?s @ [t]\<rparr>) (xs @ [t]) zs"
    using d r(2,3) m unfolding sched_inv_def by (simp del: mset_remove1)
  with r(1) show ?thesis by simp
qed

lemma other_queue_inv:
  assumes "sched_inv s xs zs" "t \<in> set (parked s)"
  shows "sched_inv (s\<lparr>next_of := (next_of s)(t := p)\<rparr>) xs zs"
proof -
  note d = sched_invD[OF assms(1)] and n = inv_disjoint(2)[OF assms]
  have "queue_rep (readyQ s, (next_of s)(t := p)) xs" by (rule queue_rep_frame[OF d(1)]) (use n in auto)
  moreover have "queue_rep (zombies s, (next_of s)(t := p)) zs" by (rule queue_rep_frame[OF d(2)]) (use n in auto)
  ultimately show ?thesis using d unfolding sched_inv_def by simp
qed

lemma tstep_inv:
  assumes "tstep s s'" "sched_inv s xs zs"
  shows "\<exists>xs' zs'. sched_inv s' xs' zs'"
  using assms(1)
proof (cases rule: tstep.cases)
  case (yields c me)
  then show ?thesis using block_enter_inv[OF assms(2) yields(2,3)] by blast
next
  case (stops c me)
  then show ?thesis using block_enter_inv[OF assms(2) stops(2,3)] by blast
next
  case (parks c me)
  then show ?thesis using block_enter_inv[OF assms(2) parks(2,3)] by blast
next
  case (timer c me)
  then show ?thesis using apitHandler_inv[OF assms(2) timer(2,3)] by blast
next
  case (picks c me opt f)
  then show ?thesis using block_pick_inv[OF assms(2) picks(1,2)] by auto
next
  case (switches c n me f)
  then show ?thesis using switched_inv[OF assms(2) switches(1,2)] by auto
next
  case (creates c me)
  then show ?thesis using new_thread_inv[OF assms(2)] by auto
next
  case (reaps c me)
  then show ?thesis using delete_zombie_inv[OF assms(2)] by blast
next
  case (wakes t)
  then show ?thesis using wake_inv[OF assms(2) wakes(1)] by auto
next
  case (other_queue t p)
  then show ?thesis using other_queue_inv[OF assms(2)] by blast
qed

lemma filter_upt_idle: "filter (\<lambda>t. \<not> t < n) [0..<n] = []"
  by (simp add: filter_empty_conv)

lemma threadsInit_inv: "sched_inv (threadsInit n) [] []"
proof -
  have "concat (map in_hand (cores (threadsInit n))) = [0..<n]"
    by (simp add: threadsInit_def in_hand_def comp_def)
  then have "on_cores (threadsInit n) = mset (filter (\<lambda>t. \<not> t < n) [0..<n])"
    unfolding on_cores_def isIdle_def by (simp add: threadsInit_def flip: mset_filter)
  then have "on_cores (threadsInit n) = {#}" unfolding filter_upt_idle by simp
  then show ?thesis using queue_new_rep by (simp add: sched_inv_def threadsInit_def core_ok_def in_hand_def)
qed

lemma reachable_inv: "tstep\<^sup>*\<^sup>* (threadsInit n) s \<Longrightarrow> \<exists>xs zs. sched_inv s xs zs"
proof (induction rule: rtranclp_induct)
  case base
  show ?case using threadsInit_inv by blast
next
  case (step s s')
  then show ?case using tstep_inv by blast
qed

subsection \<open>What the scheduler guarantees\<close>

text \<open>C12. No thread is lost or in two places. In every state the scheduler reaches, on any number of cores, each thread that was created
  and is not an idle thread is at exactly one place: on a core, on the ready queue, on the zombie queue, on another
  queue, or deleted. An idle thread is on its own core only.\<close>

theorem threads_in_one_place:
  assumes "tstep\<^sup>*\<^sup>* (threadsInit n) s"
  shows "\<exists>xs zs. queue_rep (readyQ s, next_of s) xs \<and> queue_rep (zombies s, next_of s) zs
    \<and> (\<forall>t. length (cores s) \<le> t \<and> t < created s
        \<longrightarrow> count (on_cores s) t + count_list xs t + count_list zs t + count_list (parked s) t + count_list (deleted s) t = 1)
    \<and> (\<forall>c < length (cores s). \<forall>t \<in> set (in_hand (cores s ! c)). isIdle s t \<longrightarrow> t = c)"
proof -
  obtain xs zs where inv: "sched_inv s xs zs" using reachable_inv[OF assms] by blast
  have "\<forall>c < length (cores s). \<forall>t \<in> set (in_hand (cores s ! c)). isIdle s t \<longrightarrow> t = c"
    using sched_invD(5)[OF inv] by (simp add: core_ok_def isIdle_def)
  then show ?thesis using sched_invD(1,2)[OF inv] inv_count[OF inv] by (intro exI[of _ xs] exI[of _ zs]) (simp add: count_mset)
qed

text \<open>C28. A thread's stack is freed only when no core uses it. When \<open>delete_zombies\<close> deletes a thread, and ever after, no
  core runs it or is still leaving it, and it is on no queue from which it could be chosen again.\<close>

theorem deleted_threads_are_gone:
  assumes "tstep\<^sup>*\<^sup>* (threadsInit n) s" "t \<in> set (deleted (delete_zombie s))" "c < length (cores s)"
  shows "t \<notin> set (in_hand (cores s ! c)) \<and> (\<forall>xs. queue_rep (readyQ s, next_of s) xs \<longrightarrow> t \<notin> set xs) \<and> t \<notin> set (parked s)"
proof -
  obtain xs zs where inv: "sched_inv s xs zs" using reachable_inv[OF assms(1)] by blast
  note n = inv_count[OF inv, of t]
  have "t \<in> set (deleted s) \<or> t \<in> set zs"
    using assms(2) queue_remove_rep[OF sched_invD(2)[OF inv]] by (cases zs) (auto simp: delete_zombie_def)
  then have one: "1 \<le> count (mset zs) t + count (mset (deleted s)) t" using in_count[of t zs] in_count[of t "deleted s"] by linarith
  have range: "length (cores s) \<le> t \<and> t < created s"
  proof (rule ccontr)
    assume "\<not> (length (cores s) \<le> t \<and> t < created s)"
    with n have "count (mset zs) t + count (mset (deleted s)) t = 0" by simp
    with one show False by linarith
  qed
  from n range have "count (on_cores s) t + count (mset xs) t + count (mset zs) t + count (mset (parked s)) t + count (mset (deleted s)) t = 1"
    by (simp only: simp_thms if_True)
  with one have "count (on_cores s) t = 0" "count (mset xs) t = 0" "count (mset (parked s)) t = 0" by linarith+
  then have off: "t \<notin># on_cores s" "t \<notin># mset xs" "t \<notin># mset (parked s)" and ni: "length (cores s) \<le> t"
    using range by (simp_all only: not_in_iff)
  have "set (in_hand (cores s ! c)) \<subseteq> set (concat (map in_hand (cores s)))" using nth_mem[OF assms(3)] by auto
  then have "t \<notin> set (in_hand (cores s ! c))" using off(1) ni by (auto simp: on_cores_def isIdle_def)
  moreover have "xs' = xs" if "queue_rep (readyQ s, next_of s) xs'" for xs'
    using queue_rep_unique[OF that sched_invD(1)[OF inv]] .
  ultimately show ?thesis using off by auto
qed

text \<open>No step fails: the assertions of \<open>block\<close> hold and no queue operation faults.\<close>

lemma block_never_fails:
  assumes "tstep\<^sup>*\<^sup>* (threadsInit n) s" "c < length (cores s)"
  shows "cores s ! c = \<lparr>active = me, phase = Picking opt f\<rparr> \<Longrightarrow> block_pick c opt f s \<noteq> None"
    "cores s ! c = \<lparr>active = next, phase = Switching me f\<rparr> \<Longrightarrow> switched c me f s \<noteq> None" "new_thread s \<noteq> None"
proof -
  obtain xs zs where inv: "sched_inv s xs zs" using reachable_inv[OF assms(1)] by blast
  show "cores s ! c = \<lparr>active = me, phase = Picking opt f\<rparr> \<Longrightarrow> block_pick c opt f s \<noteq> None"
    using block_pick_inv[OF inv assms(2)] by auto
  show "cores s ! c = \<lparr>active = next, phase = Switching me f\<rparr> \<Longrightarrow> switched c me f s \<noteq> None"
    using switched_inv[OF inv assms(2)] by auto
  show "new_thread s \<noteq> None" using new_thread_inv[OF inv] by auto
qed

lemma schedule_enqueued: "schedule t s = Some s' \<Longrightarrow> \<exists>ys. enqueued s' = enqueued s @ ys"
  by (auto simp: schedule_def split: if_splits option.splits)

lemma enqueued_step:
  assumes "tstep s s'"
  shows "\<exists>ys. enqueued s' = enqueued s @ ys"
  using assms
proof (cases rule: tstep.cases)
  case (timer c me)
  then show ?thesis by (auto simp: apitHandler_def block_enter_def Let_def)
next
  case (picks c me opt f)
  then show ?thesis by (auto simp: block_pick_def contextSwitch_def Let_def split: if_splits option.splits prod.splits)
next
  case (switches c n me f)
  then show ?thesis
    using schedule_enqueued[of me "set_core c \<lparr>active = active (cores s ! c), phase = Running\<rparr> s" s']
    by (auto simp: switched_def run_action_def split: action.splits if_splits)
next
  case (creates c me)
  then show ?thesis using schedule_enqueued[of "created s" "s\<lparr>created := created s + 1\<rparr>" s'] by (simp add: new_thread_def)
next
  case (reaps c me)
  then show ?thesis by (auto simp: delete_zombie_def Let_def split: option.splits prod.splits)
next
  case (wakes t)
  then show ?thesis using schedule_enqueued[of t "s\<lparr>parked := remove1 t (parked s)\<rparr>" s'] by simp
qed (simp_all add: block_enter_def Let_def)

lemma enqueued_steps: "tstep\<^sup>*\<^sup>* s s' \<Longrightarrow> \<exists>ys. enqueued s' = enqueued s @ ys"
proof (induction rule: rtranclp_induct)
  case (step s1 s2)
  then show ?case using enqueued_step[OF step(2)] by auto
qed simp

text \<open>C24. Ready threads run in order. The thread behind \<open>k\<close> others on the ready queue is the one chosen after exactly
  \<open>k\<close> more choices, whatever is created, woken or put back meanwhile and whichever cores choose, so no ready
  thread starves while cores keep switching.\<close>

theorem ready_threads_run_in_order:
  assumes "tstep\<^sup>*\<^sup>* (threadsInit n) s" "queue_rep (readyQ s, next_of s) xs" "k < length xs"
    and "tstep\<^sup>*\<^sup>* s s'" "length (dispatched s) + k < length (dispatched s')"
  shows "dispatched s' ! (length (dispatched s) + k) = xs ! k"
proof -
  have log: "\<exists>zs. enqueued s = dispatched s @ zs \<and> queue_rep (readyQ s, next_of s) zs" if "tstep\<^sup>*\<^sup>* (threadsInit n) s" for s
    using reachable_inv[OF that] sched_invD(1,6) by blast
  obtain zs where s: "enqueued s = dispatched s @ zs" "queue_rep (readyQ s, next_of s) zs" using log[OF assms(1)] by blast
  obtain ys where s': "enqueued s' = dispatched s' @ ys" using log assms(1,4) by (meson rtranclp_trans)
  obtain us where g: "enqueued s' = enqueued s @ us" using enqueued_steps[OF assms(4)] by blast
  let ?i = "length (dispatched s) + k"
  have "dispatched s' ! ?i = enqueued s' ! ?i" using s' assms(5) by (simp add: nth_append)
  also have "\<dots> = xs ! k" using g s queue_rep_unique[OF s(2) assms(2)] assms(3) by (simp add: nth_append)
  finally show ?thesis .
qed

text \<open>Two cores have no thread in common, unless it is idle.\<close>

lemma cores_disjoint:
  assumes "sched_inv s xs zs" "c < length (cores s)" "d < length (cores s)" "c \<noteq> d" "\<not> isIdle s t"
    and "t \<in> set (in_hand (cores s ! c))"
  shows "t \<notin> set (in_hand (cores s ! d))"
proof
  assume td: "t \<in> set (in_hand (cores s ! d))"
  let ?P = "filter_mset (\<lambda>t. \<not> isIdle s t)" and ?x = "\<lparr>active = c, phase = Running\<rparr>" and ?y = "\<lparr>active = d, phase = Running\<rparr>"
  have e: "?P (mset (in_hand ?x)) = {#}" "?P (mset (in_hand ?y)) = {#}" using assms(2,3) by (simp_all add: in_hand_def isIdle_def)
  have "on_cores (set_core c ?x s) + ?P (mset (in_hand (cores s ! c))) = on_cores s"
    using on_cores_update[OF assms(2), of ?x] by (simp only: e add_0_right)
  moreover have "on_cores (set_core d ?y (set_core c ?x s)) + ?P (mset (in_hand (cores s ! d))) = on_cores (set_core c ?x s)"
    using on_cores_update[of d "set_core c ?x s" ?y] assms(3,4) by (simp add: e del: filter_mset_eq_conv)
  ultimately have "on_cores s = on_cores (set_core d ?y (set_core c ?x s)) + ?P (mset (in_hand (cores s ! d))) + ?P (mset (in_hand (cores s ! c)))"
    by simp
  then have "count (on_cores s) t = count (on_cores (set_core d ?y (set_core c ?x s))) t
    + count (mset (in_hand (cores s ! d))) t + count (mset (in_hand (cores s ! c))) t"
    using assms(5) by simp
  then have "2 \<le> count (on_cores s) t" using in_count[OF td] in_count[OF assms(6)] by linarith
  moreover have "count (on_cores s) t \<le> 1" using inv_count[OF assms(1), of t] by (simp split: if_splits)
  ultimately show False by linarith
qed

lemma schedule_flags: "schedule t s = Some s' \<Longrightarrow> no_preempt s' = no_preempt s \<and> length (cores s') = length (cores s)"
  by (auto simp: schedule_def split: if_splits option.splits)

text \<open>\<open>no_preempt\<close> of a running thread is cleared only by a switch on its own core.\<close>

lemma contextSwitch_keeps:
  assumes "sched_inv s xs zs" "c < length (cores s)" "cores s ! c = \<lparr>active = me, phase = Running\<rparr>" "\<not> isIdle s me" "no_preempt s me"
    and "d < length (cores s)" "d \<noteq> c" "n = d \<or> n \<in> set xs" "cores s1 = cores s" "no_preempt s1 = no_preempt s"
  shows "no_preempt (contextSwitch d n f s1) me"
proof -
  have hand: "me \<in> set (in_hand (cores s ! c))" by (simp add: assms(3) in_hand_def)
  have "me \<noteq> active (cores s ! d)"
    using cores_disjoint[OF assms(1,2,6) assms(7)[symmetric] assms(4) hand] by (auto simp: in_hand_def)
  moreover have "me \<noteq> n"
  proof
    assume n: "me = n"
    have "set (in_hand (cores s ! c)) \<subseteq> set (concat (map in_hand (cores s)))" using nth_mem[OF assms(2)] by auto
    then have "me \<in># on_cores s" using hand assms(4) by (auto simp: on_cores_def)
    with inv_disjoint(3)[OF assms(1)] n assms(4,6,8) show False by (auto simp: isIdle_def)
  qed
  ultimately show ?thesis using assms(5,9,10) by (simp add: contextSwitch_def Let_def)
qed

lemma keeps_no_preempt:
  assumes "sched_inv s xs zs" "c < length (cores s)" "cores s ! c = \<lparr>active = me, phase = Running\<rparr>" "\<not> isIdle s me" "no_preempt s me"
    and "tstep s s'"
  shows "no_preempt s' me"
  using assms(6)
proof (cases rule: tstep.cases)
  case (picks d me' opt f)
  have dc: "d \<noteq> c" using picks(2) assms(3) by auto
  show ?thesis
  proof (cases xs)
    case Nil
    have r: "queue_remove (readyQ s, next_of s) = (None, (readyQ s, next_of s))"
      by (rule queue_remove_rep(1)[OF sched_invD(1)[OF assms(1)] Nil])
    then show ?thesis using picks(3) assms(5) contextSwitch_keeps[OF assms(1-5) picks(1) dc, of d s f]
      by (auto simp: block_pick_def Let_def split: if_splits)
  next
    case (Cons t ys)
    obtain q where "queue_remove (readyQ s, next_of s) = (Some t, (q, next_of s))"
      using queue_remove_rep(2)[OF sched_invD(1)[OF assms(1)] Cons] by blast
    then show ?thesis
      using picks(3) contextSwitch_keeps[OF assms(1-5) picks(1) dc, of t "s\<lparr>readyQ := q, next_of := next_of s, dispatched := dispatched s @ [t]\<rparr>" f] Cons
      by (auto simp: block_pick_def Let_def)
  qed
next
  case (switches d n me' f)
  then show ?thesis
    using schedule_flags[of me' "set_core d \<lparr>active = active (cores s ! d), phase = Running\<rparr> s" s'] assms(5)
    by (auto simp: switched_def run_action_def set_core_def split: action.splits if_splits)
next
  case (creates d me')
  then show ?thesis using schedule_flags[of "created s" "s\<lparr>created := created s + 1\<rparr>" s'] assms(5) by (simp add: new_thread_def)
next
  case (wakes t)
  then show ?thesis using schedule_flags[of t "s\<lparr>parked := remove1 t (parked s)\<rparr>" s'] assms(5) by simp
next
  case (reaps d me')
  then show ?thesis using assms(5) by (auto simp: delete_zombie_def Let_def split: option.splits prod.splits)
qed (use assms(5) in \<open>auto simp: block_enter_def apitHandler_def set_core_def Let_def\<close>)

lemma cores_step:
  assumes "tstep s s'"
  shows "length (cores s') = length (cores s)"
  using assms
proof (cases rule: tstep.cases)
  case (switches c n me f)
  then show ?thesis
    using schedule_flags[of me "set_core c \<lparr>active = active (cores s ! c), phase = Running\<rparr> s" s']
    by (auto simp: switched_def run_action_def set_core_def split: action.splits if_splits)
next
  case (creates c me)
  then show ?thesis using schedule_flags[of "created s" "s\<lparr>created := created s + 1\<rparr>" s'] by (simp add: new_thread_def)
next
  case (wakes t)
  then show ?thesis using schedule_flags[of t "s\<lparr>parked := remove1 t (parked s)\<rparr>" s'] by simp
qed (auto simp: block_enter_def apitHandler_def set_core_def block_pick_def contextSwitch_def delete_zombie_def Let_def
    split: option.splits prod.splits if_splits)

lemma no_preempt_stays:
  assumes "(\<lambda>a b. tstep a b \<and> cores b ! c = \<lparr>active = me, phase = Running\<rparr>)\<^sup>*\<^sup>* s s'" "\<exists>xs zs. sched_inv s xs zs"
    and "c < length (cores s)" "cores s ! c = \<lparr>active = me, phase = Running\<rparr>" "\<not> isIdle s me" "no_preempt s me"
  shows "(\<exists>xs zs. sched_inv s' xs zs) \<and> length (cores s') = length (cores s)
    \<and> cores s' ! c = \<lparr>active = me, phase = Running\<rparr> \<and> no_preempt s' me"
  using assms(1)
proof (induction rule: rtranclp_induct)
  case base
  show ?case using assms by simp
next
  case (step a b)
  from step.IH obtain xs zs where inv: "sched_inv a xs zs" by blast
  from step.IH have len: "length (cores a) = length (cores s)" and a: "cores a ! c = \<lparr>active = me, phase = Running\<rparr>" "no_preempt a me"
    by blast+
  have st: "tstep a b" and b: "cores b ! c = \<lparr>active = me, phase = Running\<rparr>" using step.hyps(2) by blast+
  have "c < length (cores a)" "\<not> isIdle a me" using assms(3,5) len by (simp_all add: isIdle_def)
  note np = keeps_no_preempt[OF inv this(1) a(1) this(2) a(2) st]
  show ?case using tstep_inv[OF st inv] cores_step[OF st] len b np by (intro conjI) simp_all
qed

text \<open>A thread that yields alone is never preempted again. \<open>block\<close> sets \<open>no_preempt\<close>, and when the ready queue is empty
  \<open>yield\<close> returns without clearing it. From then on, however many threads become ready and whatever the other cores
  do, the timer interrupt changes no core: the thread keeps its core until it blocks by itself.\<close>

theorem lone_yield_ends_preemption:
  assumes "tstep\<^sup>*\<^sup>* (threadsInit n) s" "c < length (cores s)" "cores s ! c = \<lparr>active = me, phase = Running\<rparr>" "\<not> isIdle s me"
    and "queue_rep (readyQ s, next_of s) []"
  shows "\<exists>s1. tstep\<^sup>*\<^sup>* s s1 \<and> cores s1 = cores s
    \<and> (\<forall>s2. (\<lambda>a b. tstep a b \<and> cores b ! c = \<lparr>active = me, phase = Running\<rparr>)\<^sup>*\<^sup>* s1 s2 \<longrightarrow> cores (apitHandler c s2) = cores s2)"
proof -
  let ?e = "block_enter c CanReturn Schedule s"
  let ?s = "s\<lparr>no_preempt := (no_preempt s)(me := True)\<rparr>"
  have e: "tstep s ?e" by (rule tstep.yields[OF assms(2,3)])
  have ce: "cores ?e ! c = \<lparr>active = me, phase = Picking CanReturn Schedule\<rparr>" "c < length (cores ?e)"
    using assms(2,3) by (simp_all add: block_enter_def Let_def set_core_def)
  have r: "queue_remove (readyQ ?e, next_of ?e) = (None, (readyQ ?e, next_of ?e))"
    by (rule queue_remove_rep(1)[of _ _ "[]"]) (use assms(5) in \<open>simp_all add: block_enter_def Let_def\<close>)
  have same: "(cores s)[c := \<lparr>active = me, phase = Running\<rparr>] = cores s" using assms(2) by (simp flip: assms(3))
  have "block_pick c CanReturn Schedule ?e = Some ?s"
    using r ce assms(2) by (simp add: block_pick_def block_enter_def Let_def set_core_def assms(3) same)
  then have "tstep ?e ?s" by (rule tstep.picks[OF ce(2,1)])
  with e have run: "tstep\<^sup>*\<^sup>* s ?s" by (meson rtranclp.rtrancl_into_rtrancl rtranclp.rtrancl_refl)
  have inv: "\<exists>xs zs. sched_inv ?s xs zs" by (rule reachable_inv[of n]) (use assms(1) run in \<open>rule rtranclp_trans\<close>)
  have "cores (apitHandler c s2) = cores s2"
    if "(\<lambda>a b. tstep a b \<and> cores b ! c = \<lparr>active = me, phase = Running\<rparr>)\<^sup>*\<^sup>* ?s s2" for s2
  proof -
    have "cores s2 ! c = \<lparr>active = me, phase = Running\<rparr> \<and> no_preempt s2 me"
      using no_preempt_stays[OF that inv] assms(2-4) by (simp add: isIdle_def)
    then show ?thesis by (cases "c = 0") (simp_all add: apitHandler_def Let_def)
  qed
  with run show ?thesis by (intro exI[of _ ?s]) simp
qed

subsection \<open>Witnesses\<close>

text \<open>One core: its idle thread 0 creates thread 1 and yields to it; thread 1 stops, and thread 0 deletes it.\<close>

definition one_core :: "core \<Rightarrow> (nat \<Rightarrow> bool) \<Rightarrow> queue \<Rightarrow> queue \<Rightarrow> nat list \<Rightarrow> nat list \<Rightarrow> nat list \<Rightarrow> sched" where
  "one_core x np rq zq del enq dis = \<lparr>cores = [x], readyQ = rq, zombies = zq, next_of = (\<lambda>_. None), parked = [], created = 2,
     deleted = del, no_preempt = np, jiffies = 0, enqueued = enq, dispatched = dis\<rparr>"

definition only :: "nat \<Rightarrow> queue" where
  "only t = \<lparr>q_first = Some t, q_last = Some t\<rparr>"

lemma one_core_run:
  shows "tstep\<^sup>*\<^sup>* (threadsInit 1) (one_core \<lparr>active = 0, phase = Running\<rparr> (\<lambda>_. False) (only 1) queue_new [] [1] [])" (is "tstep\<^sup>*\<^sup>* _ ?a")
    and "tstep\<^sup>*\<^sup>* (one_core \<lparr>active = 0, phase = Running\<rparr> (\<lambda>_. False) (only 1) queue_new [] [1] [])
      (one_core \<lparr>active = 0, phase = Running\<rparr> (\<lambda>_. False) queue_new (only 1) [] [1] [1])" (is "tstep\<^sup>*\<^sup>* ?a ?z")
    and "tstep\<^sup>*\<^sup>* (threadsInit 1) (one_core \<lparr>active = 1, phase = Running\<rparr> (\<lambda>_. False) queue_new queue_new [] [1] [1])"
proof -
  have start: "tstep (threadsInit 1) ?a"
    by (rule tstep.creates[of 0 _ 0])
      (simp_all add: threadsInit_def new_thread_def schedule_def isIdle_def queue_add_def queue_new_def only_def one_core_def fun_upd_idem)
  then show "tstep\<^sup>*\<^sup>* (threadsInit 1) ?a" by simp
  let ?b = "one_core \<lparr>active = 0, phase = Picking CanReturn Schedule\<rparr> ((\<lambda>_. False)(0 := True)) (only 1) queue_new [] [1] []"
  let ?c = "one_core \<lparr>active = 1, phase = Switching 0 Schedule\<rparr> (\<lambda>_. False) queue_new queue_new [] [1] [1]"
  let ?d = "one_core \<lparr>active = 1, phase = Running\<rparr> (\<lambda>_. False) queue_new queue_new [] [1] [1]"
  let ?e = "one_core \<lparr>active = 1, phase = Picking MustBlock Zombie\<rparr> ((\<lambda>_. False)(1 := True)) queue_new queue_new [] [1] [1]"
  let ?f = "one_core \<lparr>active = 0, phase = Switching 1 Zombie\<rparr> (\<lambda>_. False) queue_new queue_new [] [1] [1]"
  note defs = one_core_def set_core_def isIdle_def only_def queue_new_def queue_remove_def queue_add_def block_pick_def
    switched_def run_action_def schedule_def
    block_enter_def contextSwitch_def
  have "?b = block_enter 0 CanReturn Schedule ?a" by (simp add: defs)
  then have ab: "tstep ?a ?b" using tstep.yields[of 0 ?a 0] by (simp add: one_core_def defs)
  have bc: "tstep ?b ?c" by (rule tstep.picks[of 0 _ 0 CanReturn Schedule]) (simp_all add: defs fun_upd_idem)
  have cd: "tstep ?c ?d" by (rule tstep.switches[of 0 _ 1 0 Schedule]) (simp_all add: defs fun_upd_idem)
  have "?e = block_enter 0 MustBlock Zombie ?d" by (simp add: defs)
  then have de: "tstep ?d ?e" using tstep.stops[of 0 ?d 1] by (simp add: one_core_def defs)
  have ef: "tstep ?e ?f" by (rule tstep.picks[of 0 _ 1 MustBlock Zombie]) (simp_all add: defs fun_upd_idem)
  have fz: "tstep ?f ?z" by (rule tstep.switches[of 0 _ 0 1 Zombie]) (simp_all add: defs fun_upd_idem)
  show "tstep\<^sup>*\<^sup>* (threadsInit 1) ?d" using start ab bc cd by (meson rtranclp.rtrancl_into_rtrancl rtranclp.rtrancl_refl)
  show "tstep\<^sup>*\<^sup>* ?a ?z" using ab bc cd de ef fz by (meson rtranclp.rtrancl_into_rtrancl rtranclp.rtrancl_refl)
qed

theorem threads_in_one_place_witness:
  "\<exists>s xs. tstep\<^sup>*\<^sup>* (threadsInit 1) s \<and> queue_rep (readyQ s, next_of s) xs \<and> count_list xs 1 = 1"
proof -
  let ?a = "one_core \<lparr>active = 0, phase = Running\<rparr> (\<lambda>_. False) (only 1) queue_new [] [1] []"
  obtain xs zs where q: "queue_rep (readyQ ?a, next_of ?a) xs" "queue_rep (zombies ?a, next_of ?a) zs"
    and one: "\<forall>t. length (cores ?a) \<le> t \<and> t < created ?a
      \<longrightarrow> count (on_cores ?a) t + count_list xs t + count_list zs t + count_list (parked ?a) t + count_list (deleted ?a) t = 1"
    using threads_in_one_place[OF one_core_run(1)] by blast
  have "zs = []" using queue_rep_unique[OF q(2)] queue_new_rep by (simp add: one_core_def)
  then have "count_list xs 1 = 1"
    using one[rule_format, of 1] by (simp add: one_core_def on_cores_def in_hand_def isIdle_def)
  with q(1) one_core_run(1) show ?thesis by blast
qed

theorem deleted_threads_are_gone_witness:
  "\<exists>s. tstep\<^sup>*\<^sup>* (threadsInit 1) s \<and> deleted (delete_zombie s) = [1] \<and> 1 \<notin> set (in_hand (cores s ! 0))"
proof -
  let ?z = "one_core \<lparr>active = 0, phase = Running\<rparr> (\<lambda>_. False) queue_new (only 1) [] [1] [1]"
  have r: "tstep\<^sup>*\<^sup>* (threadsInit 1) ?z" using one_core_run(1,2) by (rule rtranclp_trans)
  have d: "deleted (delete_zombie ?z) = [1]" by (simp add: delete_zombie_def one_core_def only_def queue_remove_def)
  have "1 \<notin> set (in_hand (cores ?z ! 0))" using deleted_threads_are_gone[OF r, of 1 0] d by (simp add: one_core_def)
  with r d show ?thesis by blast
qed

theorem ready_threads_run_in_order_witness:
  "\<exists>s s'. tstep\<^sup>*\<^sup>* (threadsInit 1) s \<and> queue_rep (readyQ s, next_of s) [1] \<and> tstep\<^sup>*\<^sup>* s s' \<and> dispatched s' ! 0 = 1"
proof -
  let ?a = "one_core \<lparr>active = 0, phase = Running\<rparr> (\<lambda>_. False) (only 1) queue_new [] [1] []"
  let ?z = "one_core \<lparr>active = 0, phase = Running\<rparr> (\<lambda>_. False) queue_new (only 1) [] [1] [1]"
  have q: "queue_rep (readyQ ?a, next_of ?a) [1]" by (simp add: queue_rep_def one_core_def only_def)
  have "dispatched ?z ! 0 = 1"
    using ready_threads_run_in_order[OF one_core_run(1) q _ one_core_run(2), of 0] by (simp add: one_core_def)
  with q one_core_run show ?thesis by blast
qed

theorem lone_yield_ends_preemption_witness:
  "\<exists>s. tstep\<^sup>*\<^sup>* (threadsInit 1) s \<and> cores s = [\<lparr>active = 1, phase = Running\<rparr>] \<and> cores (apitHandler 0 s) = cores s"
proof -
  let ?d = "one_core \<lparr>active = 1, phase = Running\<rparr> (\<lambda>_. False) queue_new queue_new [] [1] [1]"
  have "queue_rep (readyQ ?d, next_of ?d) []" by (simp add: queue_rep_def one_core_def queue_new_def)
  moreover have "0 < length (cores ?d)" "cores ?d ! 0 = \<lparr>active = 1, phase = Running\<rparr>" "\<not> isIdle ?d 1"
    by (simp_all add: one_core_def isIdle_def)
  ultimately obtain s where "tstep\<^sup>*\<^sup>* ?d s" "cores s = cores ?d" "cores (apitHandler 0 s) = cores s"
    using lone_yield_ends_preemption[OF one_core_run(3), of 0 1] by blast
  moreover have "cores ?d = [\<lparr>active = 1, phase = Running\<rparr>]" by (simp add: one_core_def)
  ultimately show ?thesis using one_core_run(3) by (metis rtranclp_trans)
qed

end
