(* ===== verification/Config.thy ===== *)
theory Config
  imports Bytes
begin

text \<open>
  \<open>kernel/config.h\<close> and \<open>config.cc\<close>: what the firmware's tables say of the machine, and the redirection entries of the I/O
  APIC. The tables are read from a memory of bytes, before paging is on: every address can be read. \<open>None\<close> is a
  failed assertion, a loop without end or a store outside the sixteen slots of \<open>apicInfo\<close>.
\<close>

subsection \<open>The configuration\<close>

record ApicInfo =
  info_processorId :: u8
  info_apicId :: u8
  info_flags :: u32

definition MAX_PROCS :: nat where "MAX_PROCS = 16"

record Config =
  memSize :: u32
  nOtherProcs :: u32
  totalProcs :: u32
  localAPIC :: u32
  madtFlags :: u32
  ioAPIC :: u32
  apicInfo :: "ApicInfo list"
  oemid :: "u8 list"

record MemInfo =
  mi_ax :: u16
  mi_bx :: u16
  mi_cx :: u16
  mi_dx :: u16

definition memAbove1M :: "MemInfo \<Rightarrow> u32 option" where
  "memAbove1M i =
     (if mi_cx i = 15 * 1024 \<or> mi_dx i = 0
      then Some (push_bit 10 (ucast (mi_ax i OR mi_cx i)) + push_bit 16 (ucast (mi_bx i OR mi_dx i)))
      else None)"

subsection \<open>Finding the tables\<close>

text \<open>Sizes and offsets of the packed structures: \<open>SDT\<close> 36 bytes, \<open>MADT\<close> 44, \<open>RSD\<close> with the root table's address at 16.\<close>

definition iseq :: "(u32 \<Rightarrow> u8) \<Rightarrow> u32 \<Rightarrow> u8 list \<Rightarrow> bool" where
  "iseq m a b \<longleftrightarrow> (\<forall>i \<in> set [0..<length b]. m (a + of_nat i) = b ! i)"

definition RSD_PTR :: "u8 list" where "RSD_PTR = [0x52, 0x53, 0x44, 0x20, 0x50, 0x54, 0x52, 0x20]"

definition APIC_name :: "u8 list" where "APIC_name = [0x41, 0x50, 0x49, 0x43]"

partial_function (option) findRSDInRange :: "(u32 \<Rightarrow> u8) \<Rightarrow> u32 \<Rightarrow> u32 \<Rightarrow> u32 option" where
  "findRSDInRange m i end =
     (if i < end then (if iseq m i RSD_PTR then Some i else findRSDInRange m (i + 16) end) else Some 0)"

definition findRSD :: "(u32 \<Rightarrow> u8) \<Rightarrow> u32 option" where
  "findRSD m =
     Option.bind (findRSDInRange m 0x000E0000 0x00100000) (\<lambda>it.
       if it = 0
       then let base = push_bit 4 (ucast (le16 [m 0x40E, m 0x40F] 0))
            in findRSDInRange m base (base + push_bit 10 1)
       else Some it)"

primrec findSDT_loop :: "(u32 \<Rightarrow> u8) \<Rightarrow> u32 \<Rightarrow> u8 list \<Rightarrow> nat \<Rightarrow> u32" where
  "findSDT_loop m others name 0 = 0"
| "findSDT_loop m others name (Suc n) =
     (let h = load_word m others in if iseq m h name then h else findSDT_loop m (others + 4) name n)"

text \<open>\<open>entries\<close> is the unsigned quotient, which is below \<open>2 ^ 30\<close> and so not negative as an \<open>int\<close>.\<close>

definition findSDT :: "(u32 \<Rightarrow> u8) \<Rightarrow> u32 \<Rightarrow> u8 list \<Rightarrow> u32" where
  "findSDT m rsdp name =
     (let rsdt = load_word m (rsdp + 16);
          entries = (load_word m (rsdt + 4) - 36) div 4
      in findSDT_loop m (rsdt + 36) name (unat entries))"

subsection \<open>The processors and the I/O APIC\<close>

text \<open>What one entry of the MADT means for the configuration; \<open>continue\<close> is no change.\<close>

definition madt_entry :: "(u32 \<Rightarrow> u8) \<Rightarrow> u32 \<Rightarrow> Config \<Rightarrow> Config option" where
  "madt_entry m p config =
     (if m p = 0 then
        if m (p + 2) = 0 then Some config
        else if unat (nOtherProcs config) < MAX_PROCS
        then Some (config\<lparr>nOtherProcs := nOtherProcs config + 1,
               apicInfo := (apicInfo config)[unat (nOtherProcs config) :=
                 \<lparr>info_processorId = m (p + 2), info_apicId = m (p + 3), info_flags = load_word m (p + 4)\<rparr>]\<rparr>)
        else None
      else if m p = 1 then Some (config\<lparr>ioAPIC := load_word m (p + 4)\<rparr>)
      else Some config)"

text \<open>The loop: the pointer moves on before the entry is looked at.\<close>

partial_function (option) madt_loop :: "(u32 \<Rightarrow> u8) \<Rightarrow> u32 \<Rightarrow> u32 \<Rightarrow> Config \<Rightarrow> Config option" where
  "madt_loop m entryPtr bytesForEntries config =
     (if 0 < sint bytesForEntries
      then let len = ucast (m (entryPtr + 1));
               entryPtr = entryPtr + len;
               bytesForEntries = bytesForEntries - len
           in Option.bind (madt_entry m entryPtr config) (\<lambda>config. madt_loop m entryPtr bytesForEntries config)
      else Some config)"

definition configInit :: "MemInfo \<Rightarrow> (u32 \<Rightarrow> u8) \<Rightarrow> Config \<Rightarrow> Config option" where
  "configInit memInfo m config =
     Option.bind (memAbove1M memInfo) (\<lambda>above.
     Option.bind (findRSD m) (\<lambda>rsdp.
       let config = config\<lparr>memSize := above + push_bit 20 1\<rparr>;
           config = (if rsdp \<noteq> 0 then config\<lparr>oemid := map (\<lambda>i. m (rsdp + 9 + of_nat i)) [0..<6] @ [0]\<rparr> else config);
           madt = findSDT m rsdp APIC_name;
           config = config\<lparr>localAPIC := load_word m (madt + 36), madtFlags := load_word m (madt + 40), nOtherProcs := 0\<rparr>
       in Option.bind (madt_loop m (madt + 44) (load_word m (madt + 4) - 44) config) (\<lambda>config.
            Some (config\<lparr>totalProcs := nOtherProcs config + 1\<rparr>))))"

subsection \<open>Redirection entries\<close>

record RedirectionEntry =
  lower :: u32
  upper :: u32

definition re_vector :: "RedirectionEntry \<Rightarrow> u8" where
  "re_vector re = ucast (lower re AND 0xFF)"

definition re_mask :: "RedirectionEntry \<Rightarrow> u8" where
  "re_mask re = ucast (drop_bit 16 (lower re AND 0x10000))"

definition pinPolarity :: "RedirectionEntry \<Rightarrow> u8" where
  "pinPolarity re = ucast (drop_bit 12 (lower re AND 0x2000))"

definition setVector :: "u8 \<Rightarrow> RedirectionEntry \<Rightarrow> RedirectionEntry" where
  "setVector v re = re\<lparr>lower := (lower re AND 0xFFFFFF00) OR ucast v\<rparr>"

definition delvMode :: "RedirectionEntry \<Rightarrow> u8" where
  "delvMode re = ucast (drop_bit 8 (lower re AND 0x700))"

definition setDelvMode :: "u8 \<Rightarrow> RedirectionEntry \<Rightarrow> RedirectionEntry" where
  "setDelvMode m re = re\<lparr>lower := (lower re AND 0xFFF8FF) OR push_bit 8 (ucast m)\<rparr>"

definition destMode :: "RedirectionEntry \<Rightarrow> u8" where
  "destMode re = ucast (drop_bit 8 (lower re AND 0x800))"

definition delvStat :: "RedirectionEntry \<Rightarrow> u8" where
  "delvStat re = ucast (drop_bit 12 (lower re AND 0x1000))"

definition remoteIRR :: "RedirectionEntry \<Rightarrow> u8" where
  "remoteIRR re = ucast (drop_bit 12 (lower re AND 0x4000))"

definition triggerMode :: "RedirectionEntry \<Rightarrow> u8" where
  "triggerMode re = ucast (drop_bit 12 (lower re AND 0x8000))"

definition re_destination :: "RedirectionEntry \<Rightarrow> u8" where
  "re_destination re = ucast (drop_bit 24 (upper re AND 0xFF000000))"

definition setMask :: "u8 \<Rightarrow> RedirectionEntry \<Rightarrow> RedirectionEntry" where
  "setMask b re = (let b = b AND 1 in re\<lparr>lower := (lower re AND 0xFEFFFF) OR push_bit 16 (ucast b)\<rparr>)"

text \<open>The I/O APIC: the store to the select register chooses the register that the window reads and writes.\<close>

type_synonym ioapic = "u8 \<Rightarrow> u32"

definition readIOApic :: "u32 \<Rightarrow> ioapic \<Rightarrow> u32" where
  "readIOApic reg a = a (ucast (reg AND 0xFF))"

definition writeIOApic :: "u32 \<Rightarrow> u32 \<Rightarrow> ioapic \<Rightarrow> ioapic" where
  "writeIOApic reg value a = a(ucast (reg AND 0xFF) := value)"

definition getRedirectionEntry :: "u32 \<Rightarrow> ioapic \<Rightarrow> RedirectionEntry" where
  "getRedirectionEntry reg a = \<lparr>lower = readIOApic reg a, upper = readIOApic (reg + 1) a\<rparr>"

definition writeRedirectionEntry :: "u32 \<Rightarrow> RedirectionEntry \<Rightarrow> ioapic \<Rightarrow> ioapic" where
  "writeRedirectionEntry reg newRE a = writeIOApic (reg + 1) (upper newRE) (writeIOApic reg (lower newRE) a)"

definition openIRQ :: "u32 \<Rightarrow> ioapic \<Rightarrow> ioapic" where
  "openIRQ irq a =
     (let reg = 0x10 + irq * 2 in writeRedirectionEntry reg (setMask 0 (getRedirectionEntry reg a)) a)"

definition closeIRQ :: "u32 \<Rightarrow> ioapic \<Rightarrow> ioapic" where
  "closeIRQ irq a =
     (let reg = 0x10 + irq * 2 in writeRedirectionEntry reg (setMask 1 (getRedirectionEntry reg a)) a)"

subsection \<open>The loop over the MADT\<close>

text \<open>Where the entries of a table start, given their lengths, and the address behind the last one.\<close>

fun entry_starts :: "u32 \<Rightarrow> u8 list \<Rightarrow> u32 list" where
  "entry_starts p [] = []"
| "entry_starts p (l # ls) = p # entry_starts (p + ucast l) ls"

definition entry_end :: "u32 \<Rightarrow> u8 list \<Rightarrow> u32" where
  "entry_end p ls = p + of_nat (sum_list (map unat ls))"

fun madt_entries :: "(u32 \<Rightarrow> u8) \<Rightarrow> u32 list \<Rightarrow> Config \<Rightarrow> Config option" where
  "madt_entries m [] config = Some config"
| "madt_entries m (p # ps) config = Option.bind (madt_entry m p config) (madt_entries m ps)"

text \<open>A table at \<open>p\<close> whose entries have the lengths \<open>ls\<close>, none of them 0.\<close>

definition madt_table_at :: "(u32 \<Rightarrow> u8) \<Rightarrow> u32 \<Rightarrow> u8 list \<Rightarrow> bool" where
  "madt_table_at m p ls \<longleftrightarrow> 0 \<notin> set ls \<and> list_all2 (\<lambda>q l. m (q + 1) = l) (entry_starts p ls) ls"

lemma madt_table_at_Cons: "madt_table_at m p (l # ls) \<longleftrightarrow> l \<noteq> 0 \<and> m (p + 1) = l \<and> madt_table_at m (p + ucast l) ls"
  by (auto simp: madt_table_at_def)

lemma entry_end_Cons: "entry_end p (l # ls) = entry_end (p + ucast l) ls"
  by (simp add: entry_end_def)

lemma madt_loop_walks:
  assumes "madt_table_at m p ls" "sum_list (map unat ls) < 2 ^ 31"
  shows "madt_loop m p (of_nat (sum_list (map unat ls))) config = madt_entries m (tl (entry_starts p ls @ [entry_end p ls])) config"
  using assms
proof (induction ls arbitrary: p config)
  case Nil
  show ?case by (simp add: madt_loop.simps)
next
  case (Cons l ls)
  let ?n = "sum_list (map unat (l # ls))"
  have l: "m (p + 1) = l" "l \<noteq> 0" "madt_table_at m (p + ucast l) ls" using Cons.prems(1) by (simp_all add: madt_table_at_Cons)
  have pos: "0 < unat l" using l(2) by (simp add: unat_gt_0)
  have "0 < ?n" using pos by simp
  then have gt: "0 < sint (of_nat ?n :: u32)" by (simp only: sint_small[OF Cons.prems(2)] of_nat_0_less_iff)
  have rest: "of_nat ?n - ucast l = (of_nat (sum_list (map unat ls)) :: u32)" by simp
  have tl: "tl (entry_starts p (l # ls) @ [entry_end p (l # ls)]) = entry_starts (p + ucast l) ls @ [entry_end (p + ucast l) ls]"
    by (simp add: entry_end_Cons)
  have hd: "entry_starts q ls @ [entry_end q ls] = q # tl (entry_starts q ls @ [entry_end q ls])" for q
    by (cases ls) (simp_all add: entry_end_def)
  have "madt_loop m p (of_nat ?n) config
    = Option.bind (madt_entry m (p + ucast l) config) (madt_loop m (p + ucast l) (of_nat (sum_list (map unat ls))))"
    using gt rest l(1) by (subst madt_loop.simps) (simp only: if_True Let_def)
  also have "\<dots> = Option.bind (madt_entry m (p + ucast l) config) (madt_entries m (tl (entry_starts (p + ucast l) ls @ [entry_end (p + ucast l) ls])))"
    using Cons.IH[OF l(3)] Cons.prems(2) by (cases "madt_entry m (p + ucast l) config") simp_all
  finally show ?case unfolding tl by (subst hd) simp
qed


text \<open>A list of two processors and an I/O APIC, cut off behind the second processor's entry.\<close>

definition demo_madt :: "u32 \<Rightarrow> u8" where
  "demo_madt a = [0, 8, 0, 0, 1, 0, 0, 0,  0, 8, 1, 1, 1, 0, 0, 0,  0xFF] ! unat (min a 16)"

definition no_config :: Config where
  "no_config = \<lparr>memSize = 0, nOtherProcs = 0, totalProcs = 0, localAPIC = 0, madtFlags = 0, ioAPIC = 0,
     apicInfo = replicate 16 \<lparr>info_processorId = 0, info_apicId = 0, info_flags = 0\<rparr>, oemid = replicate 7 0\<rparr>"


subsection \<open>Masking an interrupt\<close>

text \<open>The two halves of an entry are different registers, since the first one is even.\<close>

lemma halves_differ: "(ucast ((0x10 + irq * 2 + 1) AND 0xFF :: u32) :: u8) \<noteq> ucast ((0x10 + irq * 2) AND 0xFF :: u32)"
proof
  assume eq: "(ucast ((0x10 + irq * 2 + 1) AND 0xFF :: u32) :: u8) = ucast ((0x10 + irq * 2) AND 0xFF :: u32)"
  have "bit (ucast (w AND 0xFF :: u32) :: u8) 0 = bit w 0" for w :: u32
    by (simp add: bit_unsigned_iff bit_and_iff del: bit_0)
  then have "bit (ucast (w AND 0xFF :: u32) :: u8) 0 = odd w" for w :: u32 unfolding bit_0 .
  with arg_cong[OF eq, of "\<lambda>r. bit r 0"] show False by simp
qed

definition irq_register :: "u32 \<Rightarrow> u8" where
  "irq_register irq = ucast ((0x10 + irq * 2) AND 0xFF :: u32)"

text \<open>\<open>openIRQ\<close> and \<open>closeIRQ\<close> change the mask bit of one entry. Every other register of the I/O APIC keeps its value, the
  entry's mask is 0 or 1 afterwards, and of its other bits only the reserved top byte is lost.\<close>

theorem irq_mask_exact:
  "openIRQ irq a = a(irq_register irq := a (irq_register irq) AND 0xFEFFFF)
    \<and> closeIRQ irq a = a(irq_register irq := (a (irq_register irq) AND 0xFEFFFF) OR 0x10000)
    \<and> re_mask (getRedirectionEntry (0x10 + irq * 2) (openIRQ irq a)) = 0
    \<and> re_mask (getRedirectionEntry (0x10 + irq * 2) (closeIRQ irq a)) = 1"
proof -
  have ne: "(ucast ((0x10 + irq * 2 + 1) AND 0xFF :: u32) :: u8) \<noteq> irq_register irq" unfolding irq_register_def by (rule halves_differ)
  have o: "openIRQ irq a = a(irq_register irq := a (irq_register irq) AND 0xFEFFFF)"
    "closeIRQ irq a = a(irq_register irq := (a (irq_register irq) AND 0xFEFFFF) OR 0x10000)"
    using ne by (auto simp: openIRQ_def closeIRQ_def writeRedirectionEntry_def getRedirectionEntry_def setMask_def
      writeIOApic_def readIOApic_def irq_register_def Let_def fun_eq_iff)
  have "drop_bit 16 ((x AND 0xFEFFFF) AND 0x10000) = (0 :: u32)" for x
    by (simp add: and.assoc)
  moreover have "drop_bit 16 (((x AND 0xFEFFFF) OR 0x10000) AND 0x10000) = (1 :: u32)" for x
    by (simp add: bit.conj_disj_distrib2 and.assoc)
  ultimately have "re_mask (getRedirectionEntry (0x10 + irq * 2) (openIRQ irq a)) = 0"
    "re_mask (getRedirectionEntry (0x10 + irq * 2) (closeIRQ irq a)) = 1"
    unfolding o by (simp_all add: re_mask_def getRedirectionEntry_def readIOApic_def irq_register_def)
  with o show ?thesis by blast
qed

text \<open>The accessors of single status bits shift by 12 whatever the bit, so bit 13 reads as 2.\<close>

lemma pinPolarity_shifted: "pinPolarity \<lparr>lower = 0x2000, upper = 0\<rparr> = 2"
  by (simp add: pinPolarity_def)

end
