(* ===== verification/Barriers.thy ===== *)
theory Barriers
  imports Semaphores
begin

text \<open>
  \<open>Barrier\<close> of \<open>kernel/barrier.h\<close>: a program over the threads of \<open>Semaphores\<close>, whose shared state is the counter; the
  atomic decrement and the test of its result are one step. \<open>ReusableBarrier\<close>, which rests on \<open>Condition\<close>, is in \<open>Conditions\<close>.
\<close>

subsection \<open>Barrier\<close>

text \<open>Positions in \<open>sync\<close>; the shared state is \<open>count\<close>.\<close>

datatype sync_label = Arrive | Open | Enter | Chain | Passed

definition barrier_arrive :: "u32 \<Rightarrow> (u32 \<times> sync_label) option" where
  "barrier_arrive count =
     (let x = count - 1 in if sint x < 0 then None else if x = 0 then Some (x, Open) else Some (x, Enter))"

fun barrier_sync :: "sync_label \<Rightarrow> (u32, sync_label) instr" where
  "barrier_sync Arrive = Local barrier_arrive"
| "barrier_sync Open = Up 0 Passed"
| "barrier_sync Enter = Down 0 Chain"
| "barrier_sync Chain = Up 0 Passed"
| "barrier_sync Passed = Halt"

definition barrier_start :: "nat \<Rightarrow> (u32, sync_label) tsys" where
  "barrier_start n = sys_start (of_nat n) (\<lambda>_. Semaphore_new 0) (replicate n Arrive)"

text \<open>The permit that is handed from thread to thread once the last one has arrived.\<close>

fun has_pass :: "sync_label \<Rightarrow> int" where
  "has_pass Open = 1" | "has_pass Chain = 1" | "has_pass _ = 0"

definition pass_left :: "u32 \<Rightarrow> int" where
  "pass_left count = (if count = 0 then 0 else 1)"

interpretation pass: permits barrier_sync 0 has_pass pass_left 1 "\<lambda>_. True"
proof
  show "0 \<le> has_pass l" for l by (cases l) auto
  show "has_pass l' = has_pass l + (if j = 0 then 1 else 0)" if "barrier_sync l = Down j l'" for l j l'
    using that by (cases l) auto
  show "has_pass l' = has_pass l - (if j = 0 then 1 else 0)" if "barrier_sync l = Up j l'" for l j l'
    using that by (cases l) auto
  show "has_pass l' + pass_left s' = has_pass l + pass_left s" if "barrier_sync l = Local f" "f s = Some (s', l')" for l f s s' l'
  proof -
    have "l = Arrive" "f = barrier_arrive" using that(1) by (cases l; simp)+
    moreover have "s \<noteq> 0" if "\<not> sint (s - 1) < 0" using that by auto
    ultimately show ?thesis using that(2) by (auto simp: barrier_arrive_def pass_left_def Let_def split: if_splits)
  qed
  show "1 - pass_left s < 2 ^ 64" for s by (simp add: pass_left_def)
qed

definition arriving :: "(u32, sync_label) tsys \<Rightarrow> nat" where
  "arriving c = length (filter (\<lambda>x. x = Run Arrive) (threads c))"

fun sync_state :: "sync_label tstate \<Rightarrow> bool" where
  "sync_state (Run l) = True" | "sync_state (Wait i l) = (i = 0 \<and> l = Chain)"

definition barrier_inv :: "nat \<Rightarrow> (u32, sync_label) tsys \<Rightarrow> bool" where
  "barrier_inv n c \<longleftrightarrow> pass.permit_inv c \<and> length (threads c) = n \<and> unat (shared c) = arriving c \<and> arriving c \<le> n
     \<and> (\<forall>x \<in> set (threads c). sync_state x) \<and> (shared c \<noteq> 0 \<longrightarrow> Run Passed \<notin> set (threads c))"

lemma sync_laws:
  "barrier_sync l = Down i l' \<Longrightarrow> l = Enter \<and> i = 0 \<and> l' = Chain"
  "barrier_sync l = Up i l' \<Longrightarrow> (l = Open \<or> l = Chain) \<and> i = 0 \<and> l' = Passed"
  "barrier_sync l = Local f \<Longrightarrow> l = Arrive \<and> f = barrier_arrive"
  by (cases l; auto)+

lemma pass_after_all:
  assumes "pass.permit_inv c" "t < length (threads c)" "threads c ! t = Run l" "has_pass l = 1"
  shows "shared c = 0"
proof -
  have "uint (sem_count (sems c 0)) + 1 \<le> 1 - pass_left (shared c)"
    using pass.count_bound[OF assms(1,2)] assms(3,4) by simp
  moreover have "0 \<le> uint (sem_count (sems c 0))" by simp
  ultimately have "pass_left (shared c) \<le> 0" by linarith
  then show ?thesis by (simp add: pass_left_def split: if_splits)
qed

lemma barrier_inv_update:
  assumes "barrier_inv n c" "pass.permit_inv c'" "shared c' = shared c" "t < length (threads c)" "threads c' = (threads c)[t := x]"
    and "threads c ! t \<noteq> Run Arrive" "x \<noteq> Run Arrive" "sync_state x" "x = Run Passed \<longrightarrow> shared c = 0"
  shows "barrier_inv n c'"
proof -
  have "arriving c' = arriving c"
    using filter_update[OF assms(4), of "\<lambda>x. x = Run Arrive" x] assms(5-7) by (simp add: arriving_def)
  then show ?thesis
    using assms set_update_subset_insert[of "threads c" t x] unfolding barrier_inv_def by (auto simp: subset_iff)
qed

lemma barrier_inv_step:
  assumes "sstep barrier_sync c c'" "barrier_inv n c" "n < 2 ^ 31"
  shows "barrier_inv n c'"
proof -
  have pi: "pass.permit_inv c" using assms(2) by (simp add: barrier_inv_def)
  have pi': "pass.permit_inv c'" by (rule pass.permit_step[OF assms(1) pi]) simp
  show ?thesis
    using assms(1)
  proof (cases rule: sstep.cases)
    case (pass t l i l' s nx)
    show ?thesis by (rule barrier_inv_update[OF assms(2) pi', of t "Run l'"]) (use pass sync_laws(1)[OF pass(4)] in simp_all)
  next
    case (suspend t l i l' s nx)
    show ?thesis by (rule barrier_inv_update[OF assms(2) pi', of t "Wait i l'"]) (use suspend sync_laws(1)[OF suspend(4)] in simp_all)
  next
    case (release t l i l' s nx)
    have "shared c = 0" by (rule pass_after_all[OF pi release(2,3)]) (use sync_laws(2)[OF release(4)] in auto)
    then show ?thesis
      by (intro barrier_inv_update[OF assms(2) pi', of t "Run l'"]) (use release sync_laws(2)[OF release(4)] in auto)
  next
    case (wake t l i l' u s nx j m)
    have z: "shared c = 0" by (rule pass_after_all[OF pi wake(2,3)]) (use sync_laws(2)[OF wake(4)] in auto)
    have "sync_state (threads c ! u)" using assms(2) wake(6) by (auto simp: barrier_inv_def)
    then have m: "j = 0" "m = Chain" using wake(7) by simp_all
    have tu: "t \<noteq> u" using wake(3,7) by auto
    have a: "arriving c' = arriving c"
      using filter_update[OF wake(2), of "\<lambda>x. x = Run Arrive" "Run l'"] filter_update[of u "(threads c)[t := Run l']" "\<lambda>x. x = Run Arrive" "Run m"]
        wake(1,3,6,7) tu m sync_laws(2)[OF wake(4)] by (auto simp: arriving_def)
    have "\<forall>x \<in> set ((threads c)[t := Run l', u := Run m]). sync_state x"
      using assms(2) set_update_subset_insert[of "(threads c)[t := Run l']" u "Run m"] set_update_subset_insert[of "threads c" t "Run l'"]
      by (fastforce simp: barrier_inv_def)
    then show ?thesis using assms(2) pi' a z unfolding barrier_inv_def wake(1) by simp
  next
    case (work t l f sh l')
    have l: "l = Arrive" "f = barrier_arrive" using sync_laws(3)[OF work(4)] by simp_all
    have new: "sh = shared c - 1" "l' = (if sh = 0 then Open else Enter)"
      using work(5) by (auto simp: l barrier_arrive_def Let_def split: if_splits)
    have a: "arriving c' + 1 = arriving c"
      using filter_update[OF work(2), of "\<lambda>x. x = Run Arrive" "Run l'"] work(3) new(2) by (simp add: work(1) l(1) arriving_def)
    then have "unat (shared c) = arriving c" "shared c \<noteq> 0" using assms(2) by (auto simp: barrier_inv_def)
    then have "unat sh = arriving c'" using a by (simp add: new(1) unat_minus_one)
    moreover have "\<forall>x \<in> set ((threads c)[t := Run l']). sync_state x"
      using assms(2) set_update_subset_insert[of "threads c" t "Run l'"] by (fastforce simp: barrier_inv_def)
    moreover have "Run Passed \<notin> set ((threads c)[t := Run l'])"
      using assms(2) \<open>shared c \<noteq> 0\<close> new(2) set_update_subset_insert[of "threads c" t "Run l'"] by (auto simp: barrier_inv_def)
    ultimately show ?thesis using assms(2) pi' a unfolding barrier_inv_def work(1) by simp
  qed
qed

lemma barrier_inv_start:
  assumes "0 < n" "n < 2 ^ 31"
  shows "barrier_inv n (barrier_start n)"
proof -
  have u: "unat (of_nat n :: u32) = n" using assms(2) by (simp add: unsigned_of_nat take_bit_nat_eq_self)
  then have nz: "(of_nat n :: u32) \<noteq> 0" using assms(1) by (metis unat_0 less_numeral_extra(3))
  have ok: "sys_ok (barrier_start n)" unfolding barrier_start_def by (rule sys_start_ok) (simp add: Semaphore_new_def)
  have "permits_in has_pass pass_left 0 (barrier_start n) = 1"
    using nz by (simp add: permits_in_def barrier_start_def sys_start_def Semaphore_new_def pass_left_def sum_list_replicate)
  with ok have "pass.permit_inv (barrier_start n)" by (auto simp: pass.permit_inv_def barrier_start_def sys_start_def)
  then show ?thesis
    using u by (simp add: barrier_inv_def barrier_start_def sys_start_def arriving_def)
qed

lemma barrier_inv_reachable:
  assumes "(sstep barrier_sync)\<^sup>*\<^sup>* (barrier_start n) c" "0 < n" "n < 2 ^ 31"
  shows "barrier_inv n c"
  using assms(1) by (induction rule: rtranclp_induct) (use barrier_inv_start barrier_inv_step assms(2,3) in blast)+

text \<open>What remains to be done.\<close>

fun todo :: "sync_label tstate \<Rightarrow> nat" where
  "todo (Run Arrive) = 4" | "todo (Run Enter) = 3" | "todo (Wait i l) = 2" | "todo (Run Open) = 1" | "todo (Run Chain) = 1"
| "todo (Run Passed) = 0"

definition work_left :: "(u32, sync_label) tsys \<Rightarrow> nat" where
  "work_left c = sum_list (map todo (threads c))"

lemma work_update: "t < length xs \<Longrightarrow> sum_list (map todo (xs[t := x])) + todo (xs ! t) = sum_list (map todo xs) + todo x"
proof -
  assume t: "t < length xs"
  have "xs = take t xs @ xs ! t # drop (Suc t) xs" by (rule id_take_nth_drop[OF t])
  then have "sum_list (map todo xs) = sum_list (map todo (take t xs @ xs ! t # drop (Suc t) xs))" by simp
  then show ?thesis using t by (simp add: upd_conv_take_nth_drop)
qed

lemma work_left_step:
  assumes "sstep barrier_sync c c'" "barrier_inv n c"
  shows "work_left c' < work_left c"
  using assms(1)
proof (cases rule: sstep.cases)
  case (pass t l i l' s nx)
  then show ?thesis using work_update[OF pass(2), of "Run l'"] sync_laws(1)[OF pass(4)] by (simp add: work_left_def)
next
  case (suspend t l i l' s nx)
  then show ?thesis using work_update[OF suspend(2), of "Wait i l'"] sync_laws(1)[OF suspend(4)] by (simp add: work_left_def)
next
  case (release t l i l' s nx)
  then show ?thesis using work_update[OF release(2), of "Run l'"] sync_laws(2)[OF release(4)] by (auto simp: work_left_def)
next
  case (wake t l i l' u s nx j m)
  have "sync_state (threads c ! u)" using assms(2) wake(6) by (auto simp: barrier_inv_def)
  then have m: "m = Chain" using wake(7) by simp
  have tu: "t \<noteq> u" using wake(3,7) by auto
  then show ?thesis
    using work_update[OF wake(2), of "Run l'"] work_update[of u "(threads c)[t := Run l']" "Run m"] wake m sync_laws(2)[OF wake(4)]
    by (auto simp: work_left_def)
next
  case (work t l f sh l')
  have l: "l = Arrive" "f = barrier_arrive" using sync_laws(3)[OF work(4)] by simp_all
  then have "l' = Open \<or> l' = Enter" using work(5) by (auto simp: barrier_arrive_def Let_def split: if_splits)
  then show ?thesis using work_update[OF work(2), of "Run l'"] work l by (auto simp: work_left_def)
qed

text \<open>A thread that has not passed can step, or waits for one that can.\<close>

lemma down_steps:
  assumes "pass.permit_inv c" "t < length (threads c)" "threads c ! t = Run l" "prog l = Down i l'"
  shows "\<exists>c'. sstep prog c c'"
proof -
  have ok: "sys_ok c" using assms(1) by (simp add: pass.permit_inv_def)
  obtain xs where xs: "queue_rep (sem_waiting (sems c i), links_of c) xs" "set xs = waits_on c i"
    using ok unfolding sys_ok_def waiting_ok_def by blast
  have "t \<notin> set xs" using running_not_waiting[OF assms(3), of i] xs(2) by simp
  from sem_down_total[OF xs(1) this] obtain b s nx where d: "sem_down t (sems c i) (links_of c) = Some (b, s, nx)" by blast
  show ?thesis
  proof (cases b)
    case True
    then have "sem_down t (sems c i) (links_of c) = Some (True, s, nx)" using d by simp
    then show ?thesis using sstep.pass[of t c l prog i l' s nx] assms(2-4) by blast
  next
    case False
    then have "sem_down t (sems c i) (links_of c) = Some (False, s, nx)" using d by simp
    then show ?thesis using sstep.suspend[of t c l prog i l' s nx] assms(2-4) by blast
  qed
qed

lemma up_steps:
  assumes "pass.permit_inv c" "t < length (threads c)" "threads c ! t = Run l" "prog l = Up i l'"
  shows "\<exists>c'. sstep prog c c'"
proof -
  have ok: "sys_ok c" using assms(1) by (simp add: pass.permit_inv_def)
  obtain r s nx where u: "sem_up (sems c i) (links_of c) = (r, s, nx)" by (metis prod_cases3)
  show ?thesis
  proof (cases r)
    case None
    with sstep.release[of t c l prog i l' s nx] assms(2-4) u show ?thesis by blast
  next
    case (Some v)
    then have "v \<in> waits_on c i" using woken_waits[OF ok] u by blast
    then obtain m where "v < length (threads c)" "threads c ! v = Wait i m" by (auto simp: waits_on_def)
    with sstep.wake[of t c l prog i l' v s nx i m] assms(2-4) u Some show ?thesis by blast
  qed
qed

lemma barrier_progress:
  assumes "barrier_inv n c" "n < 2 ^ 31" "\<nexists>c'. sstep barrier_sync c c'" "t < n"
  shows "threads c ! t = Run Passed"
proof -
  have pi: "pass.permit_inv c" and len: "length (threads c) = n" using assms(1) by (simp_all add: barrier_inv_def)
  have arrive: "\<exists>c'. sstep barrier_sync c c'" if u: "u < n" "threads c ! u = Run Arrive" for u
  proof -
    have "Run Arrive \<in> set (threads c)" using u len by (metis nth_mem)
    then have "arriving c \<noteq> 0" by (auto simp: arriving_def filter_empty_conv)
    then have pos: "0 < unat (shared c)" "unat (shared c) \<le> n" using assms(1) by (simp_all add: barrier_inv_def)
    then have "unat (shared c - 1) < 2 ^ 31" using assms(2) by (simp add: unat_minus_one unat_gt_0)
    from sint_small[OF this] have nn: "0 \<le> sint (shared c - 1)" by simp
    have "\<exists>sh l'. barrier_arrive (shared c) = Some (sh, l')" using nn by (simp add: barrier_arrive_def Let_def)
    then obtain sh l' where "barrier_arrive (shared c) = Some (sh, l')" by blast
    then show ?thesis using sstep.work[of u c Arrive barrier_sync barrier_arrive sh l'] u len by auto
  qed
  have run: "l = Passed" if "u < n" "threads c ! u = Run l" for u l
  proof -
    have u: "u < length (threads c)" using that(1) len by simp
    show ?thesis
    proof (cases l)
      case Arrive
      with that arrive assms(3) show ?thesis by blast
    next
      case Open
      with that(2) up_steps[OF pi u, of Open barrier_sync 0 Passed] assms(3) show ?thesis by simp
    next
      case Enter
      with that(2) down_steps[OF pi u, of Enter barrier_sync 0 Chain] assms(3) show ?thesis by simp
    next
      case Chain
      with that(2) up_steps[OF pi u, of Chain barrier_sync 0 Passed] assms(3) show ?thesis by simp
    qed
  qed
  show ?thesis
  proof (cases "threads c ! t")
    case (Run l)
    with run assms(4) show ?thesis by simp
  next
    case (Wait i l)
    have "sync_state (threads c ! t)" using assms(1,4) len by (auto simp: barrier_inv_def)
    then have i: "i = 0" using Wait by simp
    then have w: "waits_on c 0 \<noteq> {}" using Wait assms(4) len by (auto simp: waits_on_def)
    have "Run Arrive \<notin> set (threads c)"
    proof
      assume "Run Arrive \<in> set (threads c)"
      then obtain u where "u < n" "threads c ! u = Run Arrive" using len by (metis in_set_conv_nth)
      with run[of u Arrive] show False by simp
    qed
    then have "arriving c = 0" by (auto simp: arriving_def filter_empty_conv)
    then have z: "shared c = 0" using assms(1) by (simp add: barrier_inv_def unat_eq_0)
    have cnt: "sem_count (sems c 0) = 0" using waited_on_empty[OF _ w] pi by (simp add: pass.permit_inv_def)
    have "held_by has_pass 0 x \<le> 0" if x: "x \<in> set (threads c)" for x
    proof -
      obtain u where u: "u < n" "threads c ! u = x" using x len by (metis in_set_conv_nth)
      show ?thesis
      proof (cases x)
        case (Run l)
        with run[OF u(1)] u(2) show ?thesis by simp
      next
        case (Wait i l)
        have "sync_state x" using assms(1) x by (simp add: barrier_inv_def)
        then show ?thesis using Wait by simp
      qed
    qed
    then have "sum_list (map (held_by has_pass 0) (threads c)) \<le> 0" by (intro sum_list_nonpos) auto
    then show ?thesis using pi cnt z by (simp add: pass.permit_inv_def permits_in_def pass_left_def)
  qed
qed

text \<open>C27. Nobody passes a \<open>Barrier\<close> before everyone has arrived. While one of the \<open>n\<close> threads has not arrived, none of them has
  come out of \<open>sync\<close>, however they are scheduled.\<close>

theorem barrier_holds_back:
  assumes "(sstep barrier_sync)\<^sup>*\<^sup>* (barrier_start n) c" "0 < n" "n < 2 ^ 31" "u < n" "threads c ! u = Run Arrive" "t < n"
  shows "threads c ! t \<noteq> Run Passed"
proof -
  have inv: "barrier_inv n c" by (rule barrier_inv_reachable[OF assms(1-3)])
  have "Run Arrive \<in> set (threads c)" using assms(4,5) inv by (metis barrier_inv_def nth_mem)
  then have "arriving c \<noteq> 0" by (auto simp: arriving_def filter_empty_conv)
  then have "Run Passed \<notin> set (threads c)" using inv by (auto simp: barrier_inv_def)
  then show ?thesis using inv assms(6) by (metis barrier_inv_def nth_mem)
qed

text \<open>C26. A \<open>Barrier\<close> lets everyone through. Every run of \<open>n\<close> threads has at most \<open>4 n\<close> steps, and one that cannot go on has all
  threads behind the barrier: the last one wakes the first sleeper, and each of them the next.\<close>

theorem barrier_releases_all:
  assumes "((sstep barrier_sync) ^^ k) (barrier_start n) c" "0 < n" "n < 2 ^ 31"
  shows "k \<le> 4 * n \<and> ((\<nexists>c'. sstep barrier_sync c c') \<longrightarrow> (\<forall>t < n. threads c ! t = Run Passed))"
proof -
  have "barrier_inv n c \<and> k + work_left c \<le> 4 * n"
    using assms(1)
  proof (induction k arbitrary: c)
    case 0
    then have "c = barrier_start n" by simp
    moreover have "work_left (barrier_start n) \<le> 4 * n"
      by (simp add: work_left_def barrier_start_def sys_start_def sum_list_replicate)
    ultimately show ?case using barrier_inv_start[OF assms(2,3)] by simp
  next
    case (Suc k)
    then obtain b where b: "((sstep barrier_sync) ^^ k) (barrier_start n) b" "sstep barrier_sync b c" by auto
    with Suc.IH have "barrier_inv n b" "k + work_left b \<le> 4 * n" by blast+
    then show ?case using barrier_inv_step[OF b(2)] work_left_step[OF b(2)] assms(3) by fastforce
  qed
  then show ?thesis using barrier_progress[OF _ assms(3)] by auto
qed

theorem barrier_holds_back_witness:
  "threads (barrier_start 2) ! 1 = Run Arrive \<and> threads (barrier_start 2) ! 0 \<noteq> Run Passed"
proof -
  have a: "threads (barrier_start 2) ! 1 = Run Arrive" by (simp add: barrier_start_def sys_start_def eval_nat_numeral)
  have "threads (barrier_start 2) ! 0 \<noteq> Run Passed"
    by (rule barrier_holds_back[of 2 _ 1]) (use a in simp_all)
  with a show ?thesis by blast
qed

theorem barrier_releases_all_witness:
  "\<exists>c. sstep barrier_sync (barrier_start 1) c \<and> (\<exists>d. sstep barrier_sync c d)"
proof -
  have t: "threads (barrier_start 1) ! 0 = Run Arrive" "length (threads (barrier_start 1)) = 1" "shared (barrier_start 1) = 1"
    by (simp_all add: barrier_start_def sys_start_def)
  have f: "barrier_arrive 1 = Some (0, Open)" by (simp add: barrier_arrive_def)
  obtain c where c: "sstep barrier_sync (barrier_start 1) c" "threads c = [Run Open]"
    using sstep.work[of 0 "barrier_start 1" Arrive barrier_sync barrier_arrive 0 Open] t f
    by (auto simp: barrier_start_def sys_start_def)
  have "(sstep barrier_sync ^^ 1) (barrier_start 1) c" using c(1) unfolding relpowp_1 .
  from barrier_releases_all[OF this] c(2) have "\<exists>d. sstep barrier_sync c d" by auto
  with c(1) show ?thesis by blast
qed

end
