(* ===== verification/Conditions.thy ===== *)
theory Conditions
  imports LinkedQueue
begin

text \<open>
  \<open>kernel/condition.h\<close>, and \<open>ReusableBarrier\<close> of \<open>kernel/barrier.h\<close>, which is built on it. Both work under one
  \<open>InterruptSafeLock\<close>, which excludes (see \<open>Locks\<close>), so the code between taking the lock and giving it up is one step; \<open>wait\<close> gives it up
  twice, once before \<open>block\<close> and once in the action of \<open>block\<close>. A woken thread takes the lock again later.
  \<open>None\<close> is a failed assertion or a fault of the queue.
\<close>

subsection \<open>Condition\<close>

record condition =
  c_epoch :: u64
  c_queue :: queue

definition Condition_new :: condition where
  "Condition_new = \<lparr>c_epoch = 0, c_queue = queue_new\<rparr>"

text \<open>The action of \<open>block\<close> in \<open>wait\<close>: \<open>True\<close> when the thread sleeps on the queue, \<open>False\<close> when it is scheduled again.\<close>

definition wait_action :: "nat \<Rightarrow> u64 \<Rightarrow> condition \<times> nexts \<Rightarrow> (bool \<times> condition \<times> nexts) option" where
  "wait_action me old_epoch = (\<lambda>(c, nx).
     if c_epoch c = old_epoch
     then map_option (\<lambda>(q, nx). (True, c\<lparr>c_queue := q\<rparr>, nx)) (queue_add me (c_queue c, nx))
     else if c_epoch c > old_epoch then Some (False, c, nx) else None)"

text \<open>The loop of \<open>notify\<close>: the threads to schedule, in order.\<close>

primrec notify_loop :: "nat \<Rightarrow> queue \<times> nexts \<Rightarrow> nat list \<times> queue \<times> nexts" where
  "notify_loop 0 s = ([], s)"
| "notify_loop (Suc n) s =
     (case queue_remove s of
        (None, s) \<Rightarrow> ([], s)
      | (Some t, s) \<Rightarrow> let (ts, s) = notify_loop n s in (t # ts, s))"

definition notify :: "u64 \<Rightarrow> condition \<times> nexts \<Rightarrow> nat list \<times> condition \<times> nexts" where
  "notify limit = (\<lambda>(c, nx).
     let (ts, (q, nx)) = notify_loop (unat limit) (c_queue c, nx)
     in (ts, c\<lparr>c_epoch := c_epoch c + 1, c_queue := q\<rparr>, nx))"

definition notifyOne :: "condition \<times> nexts \<Rightarrow> nat list \<times> condition \<times> nexts" where
  "notifyOne = notify 1"

definition notifyAll :: "condition \<times> nexts \<Rightarrow> nat list \<times> condition \<times> nexts" where
  "notifyAll = notify (NOT 0)"

lemma notify_loop_rep:
  "queue_rep (q, nx) xs \<Longrightarrow> \<exists>q'. notify_loop n (q, nx) = (take n xs, q', nx) \<and> queue_rep (q', nx) (drop n xs)"
proof (induction n arbitrary: q xs)
  case (Suc n)
  show ?case
  proof (cases xs)
    case Nil
    with Suc.prems queue_remove_rep(1)[OF Suc.prems] show ?thesis by simp
  next
    case (Cons x ys)
    obtain q1 where q1: "queue_remove (q, nx) = (Some x, (q1, nx))" "queue_rep (q1, nx) ys"
      using queue_remove_rep(2)[OF Suc.prems Cons] by blast
    obtain q2 where "notify_loop n (q1, nx) = (take n ys, q2, nx)" "queue_rep (q2, nx) (drop n ys)" using Suc.IH[OF q1(2)] by blast
    with q1(1) Cons show ?thesis by simp
  qed
qed simp

lemma notifyAll_rep:
  assumes "queue_rep (c_queue c, nx) xs" "length xs < 2 ^ 32"
  shows "\<exists>q. notifyAll (c, nx) = (xs, c\<lparr>c_epoch := c_epoch c + 1, c_queue := q\<rparr>, nx) \<and> queue_rep (q, nx) []"
proof -
  have "unat (NOT 0 :: u64) = 2 ^ 64 - 1" by (simp add: unsigned_minus_1_eq_mask mask_eq_exp_minus_1)
  then have "length xs \<le> unat (NOT 0 :: u64)" using assms(2) by simp
  with notify_loop_rep[OF assms(1), of "unat (NOT 0 :: u64)"] show ?thesis
    by (auto simp: notifyAll_def notify_def)
qed

subsection \<open>ReusableBarrier\<close>

record rbarrier =
  initial_count :: u32
  rb_count :: u32
  rb_epoch :: u64
  newEpoch :: condition

definition ReusableBarrier_new :: "u32 \<Rightarrow> rbarrier" where
  "ReusableBarrier_new count = \<lparr>initial_count = count, rb_count = count, rb_epoch = 0, newEpoch = Condition_new\<rparr>"

text \<open>
  Where a thread is: outside \<open>sync\<close>; in \<open>wait\<close> with the lock given up and its \<open>old_epoch\<close>; asleep; scheduled and about to
  take the lock. The last word is the local \<open>t\<close> of \<open>sync\<close>. With each thread goes a ghost: how often it has come out of \<open>sync\<close>.
\<close>

datatype rb_pc = Outside | Waiting u64 u64 | Asleep u64 | Ready u64

text \<open>\<open>gen\<close> is a ghost, the number of epochs without the wrap-around.\<close>

record rbsys =
  rb :: rbarrier
  rb_nexts :: nexts
  rb_threads :: "(rb_pc \<times> nat) list"
  gen :: nat

text \<open>The test of the loop, under the lock: another \<open>wait\<close>, or out.\<close>

definition rb_loop :: "nat \<Rightarrow> u64 \<Rightarrow> nat \<Rightarrow> rbsys \<Rightarrow> rbsys" where
  "rb_loop i t p s =
     (if rb_epoch (rb s) \<le> t then s\<lparr>rb_threads := (rb_threads s)[i := (Waiting (c_epoch (newEpoch (rb s))) t, p)]\<rparr>
      else s\<lparr>rb_threads := (rb_threads s)[i := (Outside, p + 1)]\<rparr>)"

fun awake :: "rb_pc \<times> nat \<Rightarrow> rb_pc \<times> nat" where
  "awake (Asleep t, p) = (Ready t, p)"
| "awake x = x"

definition wake_all :: "nat list \<Rightarrow> (rb_pc \<times> nat) list \<Rightarrow> (rb_pc \<times> nat) list" where
  "wake_all ts xs = map (\<lambda>i. if i \<in> set ts then awake (xs ! i) else xs ! i) [0..<length xs]"

definition rb_sync :: "nat \<Rightarrow> nat \<Rightarrow> rbsys \<Rightarrow> rbsys option" where
  "rb_sync i p s =
     (let b = rb s
      in if rb_count b = 0 then None
         else
           let t = rb_epoch b;
               b = b\<lparr>rb_count := rb_count b - 1\<rparr>
           in if rb_count b = 0
              then (let (ts, c, nx) = notifyAll (newEpoch b, rb_nexts s);
                        b = b\<lparr>rb_epoch := rb_epoch b + 1, rb_count := initial_count b, newEpoch := c\<rparr>
                    in Some (s\<lparr>rb := b, rb_nexts := nx, gen := gen s + 1,
                             rb_threads := (wake_all ts (rb_threads s))[i := (Outside, p + 1)]\<rparr>))
              else Some (rb_loop i t p (s\<lparr>rb := b\<rparr>)))"

definition rb_block :: "nat \<Rightarrow> u64 \<Rightarrow> u64 \<Rightarrow> nat \<Rightarrow> rbsys \<Rightarrow> rbsys option" where
  "rb_block i old t p s =
     map_option (\<lambda>(asleep, c, nx). s\<lparr>rb := (rb s)\<lparr>newEpoch := c\<rparr>, rb_nexts := nx,
         rb_threads := (rb_threads s)[i := (if asleep then Asleep t else Ready t, p)]\<rparr>)
       (wait_action i old (newEpoch (rb s), rb_nexts s))"

inductive rbstep :: "rbsys \<Rightarrow> rbsys \<Rightarrow> bool" where
  enter: "i < length (rb_threads s) \<Longrightarrow> rb_threads s ! i = (Outside, p) \<Longrightarrow> rb_sync i p s = Some s' \<Longrightarrow> rbstep s s'"
| block: "i < length (rb_threads s) \<Longrightarrow> rb_threads s ! i = (Waiting old t, p) \<Longrightarrow> rb_block i old t p s = Some s' \<Longrightarrow> rbstep s s'"
| again: "i < length (rb_threads s) \<Longrightarrow> rb_threads s ! i = (Ready t, p) \<Longrightarrow> rbstep s (rb_loop i t p s)"

definition rb_start :: "nat \<Rightarrow> rbsys" where
  "rb_start n = \<lparr>rb = ReusableBarrier_new (of_nat n), rb_nexts = (\<lambda>_. None), rb_threads = replicate n (Outside, 0), gen = 0\<rparr>"

subsection \<open>The invariant\<close>

fun pc_ok :: "nat \<Rightarrow> rb_pc \<times> nat \<Rightarrow> bool" where
  "pc_ok g (Outside, p) = (p = g)"
| "pc_ok g (Waiting old t, p) = (old = of_nat p \<and> t = of_nat p \<and> (p = g \<or> p + 1 = g))"
| "pc_ok g (Asleep t, p) = (t = of_nat p \<and> p = g)"
| "pc_ok g (Ready t, p) = (t = of_nat p \<and> p + 1 = g)"

definition arrived :: "nat \<Rightarrow> (rb_pc \<times> nat) list \<Rightarrow> nat set" where
  "arrived g ts = {i. i < length ts \<and> fst (ts ! i) \<noteq> Outside \<and> snd (ts ! i) = g}"

definition asleep :: "(rb_pc \<times> nat) list \<Rightarrow> nat set" where
  "asleep ts = {i. i < length ts \<and> (\<exists>t. fst (ts ! i) = Asleep t)}"

definition rb_inv :: "nat \<Rightarrow> rbsys \<Rightarrow> bool" where
  "rb_inv n s \<longleftrightarrow> length (rb_threads s) = n \<and> initial_count (rb s) = of_nat n
     \<and> rb_epoch (rb s) = of_nat (gen s) \<and> c_epoch (newEpoch (rb s)) = of_nat (gen s)
     \<and> (\<exists>xs. queue_rep (c_queue (newEpoch (rb s)), rb_nexts s) xs \<and> set xs = asleep (rb_threads s))
     \<and> (\<forall>i < n. pc_ok (gen s) (rb_threads s ! i))
     \<and> unat (rb_count (rb s)) + card (arrived (gen s) (rb_threads s)) = n \<and> 0 < unat (rb_count (rb s))"

lemma rb_invD:
  assumes "rb_inv n s"
  shows "length (rb_threads s) = n" "initial_count (rb s) = of_nat n"
    "rb_epoch (rb s) = of_nat (gen s)" "c_epoch (newEpoch (rb s)) = of_nat (gen s)"
    "\<exists>xs. queue_rep (c_queue (newEpoch (rb s)), rb_nexts s) xs \<and> set xs = asleep (rb_threads s)"
    "i < n \<Longrightarrow> pc_ok (gen s) (rb_threads s ! i)"
    "unat (rb_count (rb s)) + card (arrived (gen s) (rb_threads s)) = n" "0 < unat (rb_count (rb s))"
  using assms by (simp_all add: rb_inv_def)

lemma arrived_update:
  "i < length ts \<Longrightarrow> arrived g (ts[i := x]) = (if fst x \<noteq> Outside \<and> snd x = g then insert i (arrived g ts) else arrived g ts - {i})"
  by (auto simp: arrived_def nth_list_update split: if_splits)

lemma arrived_same:
  "i < length ts \<Longrightarrow> (fst x \<noteq> Outside \<and> snd x = g) = (fst (ts ! i) \<noteq> Outside \<and> snd (ts ! i) = g) \<Longrightarrow> arrived g (ts[i := x]) = arrived g ts"
  unfolding arrived_update by (auto simp: arrived_def)

lemma asleep_update:
  "i < length ts \<Longrightarrow> asleep (ts[i := x]) = (if \<exists>t. fst x = Asleep t then insert i (asleep ts) else asleep ts - {i})"
  by (auto simp: asleep_def nth_list_update split: if_splits)

lemma arrived_finite [simp]: "finite (arrived g ts)"
  by (simp add: arrived_def)

lemma u64_of_nat: "n < 2 ^ 64 \<Longrightarrow> unat (of_nat n :: u64) = n"
  by (simp add: unsigned_of_nat take_bit_nat_eq_self)

lemma u64_less: "a < 2 ^ 64 \<Longrightarrow> b < 2 ^ 64 \<Longrightarrow> (of_nat a :: u64) < of_nat b \<longleftrightarrow> a < b"
  by (simp add: word_less_nat_alt u64_of_nat)

lemma u64_eq: "a < 2 ^ 64 \<Longrightarrow> b < 2 ^ 64 \<Longrightarrow> (of_nat a :: u64) = of_nat b \<longleftrightarrow> a = b"
  by (simp add: word_unat_eq_iff u64_of_nat)

lemma pc_ok_update:
  "\<forall>i < n. pc_ok g (ts ! i) \<Longrightarrow> pc_ok g x \<Longrightarrow> length ts = n \<Longrightarrow> \<forall>j < n. pc_ok g (ts[i := x] ! j)"
  by (metis nth_list_update_eq nth_list_update_neq)

lemma rb_block_inv:
  assumes "rb_inv n s" "gen s < 2 ^ 64" "i < n" "rb_threads s ! i = (Waiting old t, p)"
  shows "\<exists>s'. rb_block i old t p s = Some s' \<and> rb_inv n s' \<and> gen s' = gen s"
proof -
  note d = rb_invD[OF assms(1)]
  let ?ts = "rb_threads s" and ?b = "rb s"
  have i: "i < length ?ts" using assms(3) d(1) by simp
  have pc: "old = of_nat p" "t = of_nat p" "p = gen s \<or> p + 1 = gen s" using d(6)[OF assms(3)] by (simp_all add: assms(4))
  have ok: "\<forall>i < n. pc_ok (gen s) (?ts ! i)" using d(6) by blast
  obtain xs where xs: "queue_rep (c_queue (newEpoch ?b), rb_nexts s) xs" "set xs = asleep ?ts" using d(5) by blast
  have ni: "i \<notin> set xs" by (simp add: xs(2) asleep_def assms(4))
  show ?thesis
  proof (cases "p = gen s")
    case True
    obtain q nx where q: "queue_add i (c_queue (newEpoch ?b), rb_nexts s) = Some (q, nx)" "queue_rep (q, nx) (xs @ [i])"
      using queue_add_rep[OF xs(1) ni] by blast
    have "arrived (gen s) (?ts[i := (Asleep t, p)]) = arrived (gen s) ?ts"
      using True assms(4) by (intro arrived_same[OF i]) simp
    moreover have "asleep (?ts[i := (Asleep t, p)]) = set (xs @ [i])" using i xs(2) by (simp add: asleep_update)
    moreover have "\<forall>j < n. pc_ok (gen s) (?ts[i := (Asleep t, p)] ! j)" using pc True by (intro pc_ok_update[OF ok _ d(1)]) simp
    ultimately show ?thesis using q d pc True by (auto simp: rb_block_def wait_action_def rb_inv_def)
  next
    case False
    then have g: "p + 1 = gen s" using pc by simp
    then have gt: "c_epoch (newEpoch ?b) > old" using assms(2) d(4) pc(1) by (simp add: u64_less)
    then have ne: "c_epoch (newEpoch ?b) \<noteq> old" by simp
    have "arrived (gen s) (?ts[i := (Ready t, p)]) = arrived (gen s) ?ts"
      using False assms(4) by (intro arrived_same[OF i]) simp
    moreover have "asleep (?ts[i := (Ready t, p)]) = set xs" using i xs(2) ni by (simp add: asleep_update)
    moreover have "\<forall>j < n. pc_ok (gen s) (?ts[i := (Ready t, p)] ! j)" using pc g by (intro pc_ok_update[OF ok _ d(1)]) simp
    ultimately show ?thesis using gt ne d xs(1) by (auto simp: rb_block_def wait_action_def rb_inv_def)
  qed
qed

lemma rb_again_inv:
  assumes "rb_inv n s" "gen s < 2 ^ 64" "i < n" "rb_threads s ! i = (Ready t, p)"
  shows "rb_loop i t p s = s\<lparr>rb_threads := (rb_threads s)[i := (Outside, p + 1)]\<rparr>" "rb_inv n (rb_loop i t p s)"
proof -
  note d = rb_invD[OF assms(1)]
  let ?ts = "rb_threads s"
  have i: "i < length ?ts" using assms(3) d(1) by simp
  have pc: "t = of_nat p" "p + 1 = gen s" using d(6)[OF assms(3)] by (simp_all add: assms(4))
  have ok: "\<forall>i < n. pc_ok (gen s) (?ts ! i)" using d(6) by blast
  have "\<not> rb_epoch (rb s) \<le> t" using assms(2) pc d(3) u64_less[of p "gen s"] by simp
  then show l: "rb_loop i t p s = s\<lparr>rb_threads := ?ts[i := (Outside, p + 1)]\<rparr>" by (simp add: rb_loop_def)
  have "arrived (gen s) (?ts[i := (Outside, p + 1)]) = arrived (gen s) ?ts"
    using pc assms(4) by (intro arrived_same[OF i]) simp
  moreover have "asleep (?ts[i := (Outside, p + 1)]) = asleep ?ts" using i assms(4) by (simp add: asleep_update) (simp add: asleep_def)
  moreover have "\<forall>j < n. pc_ok (gen s) (?ts[i := (Outside, p + 1)] ! j)" using pc by (intro pc_ok_update[OF ok _ d(1)]) simp
  ultimately show "rb_inv n (rb_loop i t p s)" using d unfolding l rb_inv_def by simp
qed

text \<open>The last thread to arrive finds all others inside.\<close>

lemma last_arrives:
  assumes "length ts = n" "card (arrived g ts) + 1 = n" "i < n" "fst (ts ! i) = Outside" "j < n" "j \<noteq> i"
  shows "fst (ts ! j) \<noteq> Outside \<and> snd (ts ! j) = g"
proof -
  have "arrived g ts \<subseteq> {..<n} - {i}" using assms(1,4) by (auto simp: arrived_def)
  moreover have "card ({..<n} - {i}) = card (arrived g ts)" using assms(2,3) by simp
  ultimately have "arrived g ts = {..<n} - {i}" by (intro card_subset_eq) simp_all
  then have "j \<in> arrived g ts" using assms(5,6) by simp
  then show ?thesis by (simp add: arrived_def)
qed

lemma wake_all_nth: "j < length ts \<Longrightarrow> wake_all ws ts ! j = (if j \<in> set ws then awake (ts ! j) else ts ! j)"
  by (simp add: wake_all_def)

lemma length_wake_all [simp]: "length (wake_all ws ts) = length ts"
  by (simp add: wake_all_def)

text \<open>One generation ends: everyone inside is awake afterwards.\<close>

lemma generation_ends:
  assumes "length ts = n" "card (arrived g ts) + 1 = n" "i < n" "fst (ts ! i) = Outside" "\<forall>j < n. pc_ok g (ts ! j)" "set ws = asleep ts"
    and "snd (ts ! i) = p"
  defines "ts' \<equiv> (wake_all ws ts)[i := (Outside, p + 1)]"
  shows "\<forall>j < n. pc_ok (g + 1) (ts' ! j)" "arrived (g + 1) ts' = {}" "asleep ts' = {}"
proof -
  have p: "p = g" using assms(3,4,5,7) by (cases "ts ! i") auto
  have each: "pc_ok (g + 1) (ts' ! j) \<and> (fst (ts' ! j) = Outside \<or> snd (ts' ! j) \<noteq> g + 1) \<and> (\<forall>t. fst (ts' ! j) \<noteq> Asleep t)" if j: "j < n" for j
  proof (cases "j = i")
    case True
    then show ?thesis using j assms(1) p by (simp add: ts'_def)
  next
    case False
    have inside: "fst (ts ! j) \<noteq> Outside" "snd (ts ! j) = g" using last_arrives[OF assms(1-4) j False] by simp_all
    have eq: "ts' ! j = (if j \<in> asleep ts then awake (ts ! j) else ts ! j)"
      using j False assms(1,6) by (simp add: ts'_def wake_all_nth)
    obtain pc k where x: "ts ! j = (pc, k)" by fastforce
    have ok: "pc_ok g (pc, k)" using assms(5) j x by metis
    have sl: "j \<in> asleep ts \<longleftrightarrow> (\<exists>t. pc = Asleep t)" using j assms(1) by (simp add: asleep_def x)
    show ?thesis using inside ok unfolding eq sl x by (cases pc) auto
  qed
  then show "\<forall>j < n. pc_ok (g + 1) (ts' ! j)" by blast
  have "length ts' = n" using assms(1) by (simp add: ts'_def)
  with each show "arrived (g + 1) ts' = {}" "asleep ts' = {}" by (auto simp: arrived_def asleep_def)
qed

lemma rb_sync_inv:
  assumes "rb_inv n s" "gen s < 2 ^ 64" "n < 2 ^ 32" "i < n" "rb_threads s ! i = (Outside, p)"
  shows "\<exists>s'. rb_sync i p s = Some s' \<and> rb_inv n s' \<and> gen s \<le> gen s'"
proof -
  note d = rb_invD[OF assms(1)]
  let ?ts = "rb_threads s" and ?b = "rb s"
  have i: "i < length ?ts" using assms(4) d(1) by simp
  have p: "p = gen s" using d(6)[OF assms(4)] by (simp add: assms(5))
  have ok: "\<forall>i < n. pc_ok (gen s) (?ts ! i)" using d(6) by blast
  have nz: "rb_count ?b \<noteq> 0" using d(8) by auto
  have cnt: "unat (rb_count ?b - 1) + 1 = unat (rb_count ?b)" using d(8) nz by (simp add: unat_minus_one)
  obtain xs where xs: "queue_rep (c_queue (newEpoch ?b), rb_nexts s) xs" "set xs = asleep ?ts" using d(5) by blast
  show ?thesis
  proof (cases "rb_count ?b - 1 = 0")
    case True
    then have all: "card (arrived (gen s) ?ts) + 1 = n" using cnt d(7) by simp
    have "card (set xs) \<le> n" unfolding xs(2) using card_mono[of "{..<n}" "asleep ?ts"] d(1) by (auto simp: asleep_def)
    moreover have "distinct xs" using xs(1) by (simp add: queue_rep_def)
    ultimately have "length xs < 2 ^ 32" using assms(3) by (simp add: distinct_card)
    then obtain q where q: "notifyAll (newEpoch ?b, rb_nexts s) = (xs, (newEpoch ?b)\<lparr>c_epoch := c_epoch (newEpoch ?b) + 1, c_queue := q\<rparr>, rb_nexts s)"
      "queue_rep (q, rb_nexts s) []" using notifyAll_rep[OF xs(1)] by blast
    note ge = generation_ends[OF d(1) all assms(4) _ ok xs(2), of p]
    have n: "unat (of_nat n :: u32) = n" using assms(3) by (simp add: unsigned_of_nat take_bit_nat_eq_self)
    show ?thesis
      using nz True q ge d n assms(4,5) by (auto simp: rb_sync_def rb_inv_def Let_def)
  next
    case False
    let ?x = "(Waiting (c_epoch (newEpoch ?b)) (rb_epoch ?b), p)"
    have "i \<notin> arrived (gen s) ?ts" by (simp add: arrived_def assms(5))
    then have ar: "card (arrived (gen s) (?ts[i := ?x])) = card (arrived (gen s) ?ts) + 1" using i p by (simp add: arrived_update)
    have sl: "asleep (?ts[i := ?x]) = asleep ?ts" using i assms(5) by (simp add: asleep_update) (simp add: asleep_def)
    have pcs: "\<forall>j < n. pc_ok (gen s) (?ts[i := ?x] ! j)" using d(3,4) p by (intro pc_ok_update[OF ok _ d(1)]) simp
    have "0 < unat (rb_count ?b - 1)" using False by (simp add: unat_gt_0)
    then show ?thesis
      using nz False ar sl pcs d cnt xs by (auto simp: rb_sync_def rb_loop_def rb_inv_def Let_def)
  qed
qed

lemma gen_mono: "rbstep s s' \<Longrightarrow> gen s \<le> gen s'"
  by (erule rbstep.cases) (auto simp: rb_sync_def rb_loop_def rb_block_def Let_def split: if_splits prod.splits)

lemma rbstep_inv:
  assumes "rbstep s s'" "rb_inv n s" "gen s < 2 ^ 64" "n < 2 ^ 32"
  shows "rb_inv n s'"
proof -
  have len: "length (rb_threads s) = n" by (rule rb_invD(1)[OF assms(2)])
  show ?thesis
    using assms(1)
  proof (cases rule: rbstep.cases)
    case (enter i p)
    then show ?thesis using rb_sync_inv[OF assms(2-4), of i p] len by auto
  next
    case (block i old t p)
    then show ?thesis using rb_block_inv[OF assms(2,3), of i old t p] len by auto
  next
    case (again i t p)
    then show ?thesis using rb_again_inv(2)[OF assms(2,3), of i t p] len by auto
  qed
qed

lemma rb_start_inv:
  assumes "0 < n" "n < 2 ^ 32"
  shows "rb_inv n (rb_start n)"
proof -
  have "unat (of_nat n :: u32) = n" using assms(2) by (simp add: unsigned_of_nat take_bit_nat_eq_self)
  moreover have "arrived 0 (replicate n (Outside, 0)) = {}" "asleep (replicate n (Outside, 0)) = {}"
    by (auto simp: arrived_def asleep_def)
  ultimately show ?thesis
    using assms(1) queue_new_rep by (auto simp: rb_inv_def rb_start_def ReusableBarrier_new_def Condition_new_def)
qed

lemma rb_reachable:
  assumes "rbstep\<^sup>*\<^sup>* (rb_start n) s" "gen s < 2 ^ 64" "0 < n" "n < 2 ^ 32"
  shows "rb_inv n s"
  using assms(1,2)
proof (induction rule: rtranclp_induct)
  case base
  show ?case by (rule rb_start_inv[OF assms(3,4)])
next
  case (step a b)
  have "gen a < 2 ^ 64" using gen_mono[OF step(2)] step(4) by simp
  with step.IH rbstep_inv[OF step(2)] assms(4) show ?case by blast
qed

subsection \<open>What the barrier guarantees\<close>

text \<open>C13. Nobody runs ahead of a \<open>ReusableBarrier\<close>. However the \<open>n\<close> threads are scheduled and wherever they give up the lock in
  \<open>wait\<close>, no thread has come out of \<open>sync\<close> more often than any other has gone in, over all rounds that the 64-bit
  epoch can count.\<close>

theorem reusable_barrier_keeps_step:
  assumes "rbstep\<^sup>*\<^sup>* (rb_start n) s" "gen s < 2 ^ 64" "0 < n" "n < 2 ^ 32" "i < n" "j < n"
  shows "snd (rb_threads s ! i) \<le> snd (rb_threads s ! j) + (if fst (rb_threads s ! j) = Outside then 0 else 1)"
proof -
  note ok = rb_invD(6)[OF rb_reachable[OF assms(1-4)]]
  have "snd (rb_threads s ! i) \<le> gen s"
    using ok[OF assms(5)] by (cases "(gen s, rb_threads s ! i)" rule: pc_ok.cases) auto
  moreover have "gen s \<le> snd (rb_threads s ! j) + (if fst (rb_threads s ! j) = Outside then 0 else 1)"
    using ok[OF assms(6)] by (cases "(gen s, rb_threads s ! j)" rule: pc_ok.cases) auto
  ultimately show ?thesis by simp
qed

text \<open>A thread that is not asleep can step, and somebody is not asleep.\<close>

lemma awake_steps:
  assumes "rb_inv n s" "gen s < 2 ^ 64" "n < 2 ^ 32" "i < n" "\<forall>t. fst (rb_threads s ! i) \<noteq> Asleep t"
  shows "\<exists>s'. rbstep s s' \<and> rb_threads s' ! i \<noteq> rb_threads s ! i"
proof -
  obtain pc p where x: "rb_threads s ! i = (pc, p)" by fastforce
  have len: "i < length (rb_threads s)" using assms(4) rb_invD(1)[OF assms(1)] by simp
  show ?thesis
  proof (cases pc)
    case Outside
    obtain s' where s': "rb_sync i p s = Some s'" using rb_sync_inv[OF assms(1-4)] x Outside by blast
    have "rb_threads s' ! i \<noteq> (Outside, p)"
      using s' len by (auto simp: rb_sync_def rb_loop_def Let_def split: if_splits prod.splits)
    then show ?thesis using rbstep.enter[OF len _ s'] x Outside by auto
  next
    case (Waiting old t)
    obtain s' where s': "rb_block i old t p s = Some s'" using rb_block_inv[OF assms(1,2,4)] x Waiting by blast
    have "rb_threads s' ! i \<noteq> (Waiting old t, p)" using s' len by (auto simp: rb_block_def split: if_splits)
    then show ?thesis using rbstep.block[OF len _ s'] x Waiting by auto
  next
    case (Asleep t)
    with assms(5) x show ?thesis by simp
  next
    case (Ready t)
    note a = rb_again_inv(1)[OF assms(1,2,4), of t p]
    have "rb_threads (rb_loop i t p s) ! i \<noteq> (Ready t, p)" using a x Ready len by simp
    then show ?thesis using rbstep.again[OF len, of t p] x Ready by auto
  qed
qed

lemma somebody_awake:
  assumes "rb_inv n s"
  shows "\<exists>i < n. \<forall>t. fst (rb_threads s ! i) \<noteq> Asleep t"
proof (rule ccontr)
  assume "\<not> ?thesis"
  then have all: "\<exists>t. fst (rb_threads s ! i) = Asleep t" if "i < n" for i using that by blast
  note d = rb_invD[OF assms]
  have "{..<n} \<subseteq> arrived (gen s) (rb_threads s)"
  proof
    fix i assume "i \<in> {..<n}"
    then have i: "i < n" by simp
    with all obtain t p where "rb_threads s ! i = (Asleep t, p)" by (metis prod.collapse)
    with d(6)[OF i] i d(1) show "i \<in> arrived (gen s) (rb_threads s)" by (simp add: arrived_def)
  qed
  from card_mono[OF arrived_finite this] d(7,8) show False by simp
qed

text \<open>C14. A \<open>Condition\<close> loses no signal here. A thread that is asleep waits for a round that is not over, even if the notification
  came between its \<open>unlock\<close> and its way to the queue; there is always a thread that is not asleep, and every such
  thread can take its next step without a failed assertion.\<close>

theorem reusable_barrier_no_lost_wakeup:
  assumes "rbstep\<^sup>*\<^sup>* (rb_start n) s" "gen s < 2 ^ 64" "0 < n" "n < 2 ^ 32"
  shows "(\<forall>i < n. \<forall>t p. rb_threads s ! i = (Asleep t, p) \<longrightarrow> p = gen s)
    \<and> (\<exists>i < n. \<forall>t. fst (rb_threads s ! i) \<noteq> Asleep t)
    \<and> (\<forall>i < n. (\<forall>t. fst (rb_threads s ! i) \<noteq> Asleep t) \<longrightarrow> (\<exists>s'. rbstep s s' \<and> rb_threads s' ! i \<noteq> rb_threads s ! i))"
proof (intro conjI)
  have inv: "rb_inv n s" by (rule rb_reachable[OF assms])
  show "\<forall>i < n. \<forall>t p. rb_threads s ! i = (Asleep t, p) \<longrightarrow> p = gen s"
    using rb_invD(6)[OF inv] by (metis pc_ok.simps(3))
  show "\<exists>i < n. \<forall>t. fst (rb_threads s ! i) \<noteq> Asleep t" by (rule somebody_awake[OF inv])
  show "\<forall>i < n. (\<forall>t. fst (rb_threads s ! i) \<noteq> Asleep t) \<longrightarrow> (\<exists>s'. rbstep s s' \<and> rb_threads s' ! i \<noteq> rb_threads s ! i)"
    using awake_steps[OF inv assms(2,4)] by blast
qed

subsection \<open>Witnesses\<close>

text \<open>Two threads; the first one enters and gives up the lock.\<close>

lemma rb_two:
  "rbstep (rb_start 2) ((rb_start 2)\<lparr>rb := (ReusableBarrier_new 2)\<lparr>rb_count := 1\<rparr>, rb_threads := [(Waiting 0 0, 0), (Outside, 0)]\<rparr>)"
  by (rule rbstep.enter[of 0 _ 0])
    (simp_all add: rb_start_def rb_sync_def rb_loop_def ReusableBarrier_new_def Condition_new_def eval_nat_numeral)

theorem reusable_barrier_keeps_step_witness:
  "\<exists>s. rbstep\<^sup>*\<^sup>* (rb_start 2) s \<and> rb_threads s = [(Waiting 0 0, 0), (Outside, 0)] \<and> snd (rb_threads s ! 0) \<le> snd (rb_threads s ! 1)"
proof -
  let ?s = "(rb_start 2)\<lparr>rb := (ReusableBarrier_new 2)\<lparr>rb_count := 1\<rparr>, rb_threads := [(Waiting 0 0, 0), (Outside, 0)]\<rparr>"
  have r: "rbstep\<^sup>*\<^sup>* (rb_start 2) ?s" using rb_two by blast
  have "snd (rb_threads ?s ! 0) \<le> snd (rb_threads ?s ! 1)"
    using reusable_barrier_keeps_step[OF r, of 0 1] by (simp add: rb_start_def)
  then show ?thesis using r by (intro exI[of _ ?s]) simp
qed

theorem reusable_barrier_no_lost_wakeup_witness:
  "\<exists>s. rbstep\<^sup>*\<^sup>* (rb_start 2) s \<and> rb_threads s ! 0 = (Waiting 0 0, 0) \<and> (\<exists>s'. rbstep s s')"
proof -
  let ?s = "(rb_start 2)\<lparr>rb := (ReusableBarrier_new 2)\<lparr>rb_count := 1\<rparr>, rb_threads := [(Waiting 0 0, 0), (Outside, 0)]\<rparr>"
  have r: "rbstep\<^sup>*\<^sup>* (rb_start 2) ?s" using rb_two by blast
  have "\<forall>t. fst (rb_threads ?s ! 0) \<noteq> Asleep t" by simp
  then have "\<exists>s'. rbstep ?s s'"
    using reusable_barrier_no_lost_wakeup[OF r] by (auto simp: rb_start_def)
  then show ?thesis using r by (intro exI[of _ ?s]) simp
qed

end
