(* ===== verification/SharedPtr.thy ===== *)
theory SharedPtr
  imports Prelude
begin

text \<open>
  \<open>kernel/shared.h\<close>: \<open>Shared<T>\<close>, a pointer that counts the references to its object. Handles and objects are numbered; a
  handle that is constructed holds a pointer, perhaps null. The counts are in the objects, whose memory an operation must
  not touch once they are deleted: \<open>None\<close> is such an access.
\<close>

subsection \<open>Handles\<close>

record sharing =
  handles :: "nat \<Rightarrow> nat option option"
  ref_count :: "nat \<Rightarrow> u32"
  alive :: "nat \<Rightarrow> bool"
  next_obj :: nat

definition ptr_of :: "nat \<Rightarrow> sharing \<Rightarrow> nat option" where
  "ptr_of h s = (case handles s h of None \<Rightarrow> None | Some p \<Rightarrow> p)"

definition set_ptr :: "nat \<Rightarrow> nat option \<Rightarrow> sharing \<Rightarrow> sharing" where
  "set_ptr h p s = s\<lparr>handles := (handles s)(h \<mapsto> p)\<rparr>"

definition drop_ref :: "nat \<Rightarrow> sharing \<Rightarrow> sharing option" where
  "drop_ref h s =
     (case ptr_of h s of
        None \<Rightarrow> Some s
      | Some p \<Rightarrow>
          if \<not> alive s p then None
          else
            let new_count = ref_count s p - 1;
                s = s\<lparr>ref_count := (ref_count s)(p := new_count)\<rparr>
            in if new_count = 0 then Some (set_ptr h None (s\<lparr>alive := (alive s)(p := False)\<rparr>)) else Some s)"

definition add_ref :: "nat \<Rightarrow> sharing \<Rightarrow> sharing option" where
  "add_ref h s =
     (case ptr_of h s of
        None \<Rightarrow> Some s
      | Some p \<Rightarrow> if \<not> alive s p then None else Some (s\<lparr>ref_count := (ref_count s)(p := ref_count s p + 1)\<rparr>))"

text \<open>\<open>new T\<close>: \<open>ref_count\<close> starts at 0.\<close>

definition new_object :: "sharing \<Rightarrow> nat \<times> sharing" where
  "new_object s = (next_obj s, s\<lparr>alive := (alive s)(next_obj s := True), ref_count := (ref_count s)(next_obj s := 0), next_obj := next_obj s + 1\<rparr>)"

definition Shared_ptr :: "nat \<Rightarrow> nat option \<Rightarrow> sharing \<Rightarrow> sharing option" where
  "Shared_ptr h it s = add_ref h (set_ptr h it s)"

definition Shared_null :: "nat \<Rightarrow> sharing \<Rightarrow> sharing" where
  "Shared_null h s = set_ptr h None s"

definition Shared_copy :: "nat \<Rightarrow> nat \<Rightarrow> sharing \<Rightarrow> sharing option" where
  "Shared_copy h rhs s = add_ref h (set_ptr h (ptr_of rhs s) s)"

definition Shared_move :: "nat \<Rightarrow> nat \<Rightarrow> sharing \<Rightarrow> sharing" where
  "Shared_move h rhs s = set_ptr rhs None (set_ptr h (ptr_of rhs s) s)"

definition Shared_destroy :: "nat \<Rightarrow> sharing \<Rightarrow> sharing option" where
  "Shared_destroy h s = map_option (\<lambda>s. s\<lparr>handles := (handles s)(h := None)\<rparr>) (drop_ref h s)"

definition assign_ptr :: "nat \<Rightarrow> nat option \<Rightarrow> sharing \<Rightarrow> sharing option" where
  "assign_ptr h rhs s =
     (if ptr_of h s \<noteq> rhs then Option.bind (drop_ref h s) (\<lambda>s. add_ref h (set_ptr h rhs s)) else Some s)"

definition assign_copy :: "nat \<Rightarrow> nat \<Rightarrow> sharing \<Rightarrow> sharing option" where
  "assign_copy h rhs s =
     (let other_ptr = ptr_of rhs s
      in if ptr_of h s \<noteq> other_ptr then Option.bind (drop_ref h s) (\<lambda>s. add_ref h (set_ptr h other_ptr s)) else Some s)"

definition assign_move :: "nat \<Rightarrow> nat \<Rightarrow> sharing \<Rightarrow> sharing option" where
  "assign_move h rhs s = map_option (\<lambda>s. set_ptr rhs None (set_ptr h (ptr_of rhs s) s)) (drop_ref h s)"

definition Shared_make :: "nat \<Rightarrow> sharing \<Rightarrow> sharing option" where
  "Shared_make h s = (let (it, s) = new_object s in Shared_ptr h (Some it) s)"

text \<open>\<open>d = new Thing\<close>.\<close>

definition assign_new :: "nat \<Rightarrow> sharing \<Rightarrow> sharing option" where
  "assign_new h s = (let (it, s) = new_object s in assign_ptr h (Some it) s)"

text \<open>A program with at most \<open>n\<close> handles: it constructs, assigns and destroys them in any order, self-assignment included.\<close>

definition constructed :: "nat \<Rightarrow> sharing \<Rightarrow> bool" where
  "constructed h s \<longleftrightarrow> handles s h \<noteq> None"

datatype shared_op = Make nat | Null nat | Copy nat nat | Move nat nat | Destroy nat | AssignNew nat | AssignNull nat
  | AssignCopy nat nat | AssignMove nat nat

fun legal :: "nat \<Rightarrow> shared_op \<Rightarrow> sharing \<Rightarrow> bool" where
  "legal n (Make h) s = (h < n \<and> \<not> constructed h s)"
| "legal n (Null h) s = (h < n \<and> \<not> constructed h s)"
| "legal n (Copy h r) s = (h < n \<and> \<not> constructed h s \<and> constructed r s)"
| "legal n (Move h r) s = (h < n \<and> \<not> constructed h s \<and> constructed r s)"
| "legal n (Destroy h) s = constructed h s"
| "legal n (AssignNew h) s = constructed h s"
| "legal n (AssignNull h) s = constructed h s"
| "legal n (AssignCopy h r) s = (constructed h s \<and> constructed r s)"
| "legal n (AssignMove h r) s = (constructed h s \<and> constructed r s)"

fun run_op :: "shared_op \<Rightarrow> sharing \<Rightarrow> sharing option" where
  "run_op (Make h) s = Shared_make h s"
| "run_op (Null h) s = Some (Shared_null h s)"
| "run_op (Copy h r) s = Shared_copy h r s"
| "run_op (Move h r) s = Some (Shared_move h r s)"
| "run_op (Destroy h) s = Shared_destroy h s"
| "run_op (AssignNew h) s = assign_new h s"
| "run_op (AssignNull h) s = assign_ptr h None s"
| "run_op (AssignCopy h r) s = assign_copy h r s"
| "run_op (AssignMove h r) s = assign_move h r s"

inductive shared_step :: "nat \<Rightarrow> sharing \<Rightarrow> sharing \<Rightarrow> bool" for n where
  "legal n x s \<Longrightarrow> run_op x s = Some s' \<Longrightarrow> shared_step n s s'"

definition no_handles :: sharing where
  "no_handles = \<lparr>handles = (\<lambda>_. None), ref_count = (\<lambda>_. 0), alive = (\<lambda>_. False), next_obj = 0\<rparr>"

subsection \<open>The counts\<close>

definition owners :: "nat \<Rightarrow> sharing \<Rightarrow> nat set" where
  "owners p s = {h. handles s h = Some (Some p)}"

definition shared_inv :: "nat \<Rightarrow> sharing \<Rightarrow> bool" where
  "shared_inv n s \<longleftrightarrow> (\<forall>h. constructed h s \<longrightarrow> h < n) \<and> (\<forall>p. alive s p \<longleftrightarrow> owners p s \<noteq> {})
     \<and> (\<forall>p. alive s p \<longrightarrow> unat (ref_count s p) = card (owners p s)) \<and> (\<forall>p. alive s p \<longrightarrow> p < next_obj s)"

lemma owners_set_ptr: "owners p (set_ptr h q s) = (if q = Some p then insert h (owners p s) else owners p s - {h})"
  by (auto simp: owners_def set_ptr_def)

lemma constructed_set_ptr [simp]: "constructed k (set_ptr h q s) \<longleftrightarrow> k = h \<or> constructed k s"
  by (simp add: constructed_def set_ptr_def)

lemma set_ptr_simps [simp]:
  "ref_count (set_ptr h q s) = ref_count s" "alive (set_ptr h q s) = alive s" "next_obj (set_ptr h q s) = next_obj s"
  "ptr_of k (set_ptr h q s) = (if k = h then q else ptr_of k s)" "set_ptr h q (set_ptr h r s) = set_ptr h q s"
  by (simp_all add: set_ptr_def ptr_of_def)

lemma owner_iff: "h \<in> owners p s \<longleftrightarrow> ptr_of h s = Some p"
  by (simp add: owners_def ptr_of_def split: option.splits)

lemma owners_finite:
  assumes "shared_inv n s"
  shows "finite (owners p s)" "card (owners p s) \<le> n"
proof -
  have "owners p s \<subseteq> {..<n}" using assms by (auto simp: shared_inv_def owners_def constructed_def)
  then show "finite (owners p s)" "card (owners p s) \<le> n"
    using finite_subset card_mono[of "{..<n}" "owners p s"] by auto
qed

lemma shared_invI:
  assumes "\<And>h. constructed h s \<Longrightarrow> h < n" "\<And>p. alive s p \<longleftrightarrow> owners p s \<noteq> {}"
    and "\<And>p. alive s p \<Longrightarrow> unat (ref_count s p) = card (owners p s)" "\<And>p. alive s p \<Longrightarrow> p < next_obj s"
  shows "shared_inv n s"
  using assms unfolding shared_inv_def by blast

lemma shared_invD:
  assumes "shared_inv n s"
  shows "constructed h s \<Longrightarrow> h < n" "alive s p \<longleftrightarrow> owners p s \<noteq> {}"
    "alive s p \<Longrightarrow> unat (ref_count s p) = card (owners p s)" "alive s p \<Longrightarrow> p < next_obj s"
  using assms unfolding shared_inv_def by blast+

text \<open>Dropping: as if the handle were null afterwards.\<close>

lemma drop_ref_inv:
  assumes "shared_inv n s" "constructed h s"
  shows "\<exists>s'. drop_ref h s = Some s' \<and> shared_inv n (set_ptr h None s') \<and> (\<forall>k. constructed k s' = constructed k s)
    \<and> (ptr_of h s' = None \<or> ptr_of h s' = ptr_of h s) \<and> (\<forall>r. r \<noteq> h \<longrightarrow> ptr_of r s' = ptr_of r s) \<and> next_obj s' = next_obj s"
proof (cases "ptr_of h s")
  case None
  have same: "owners p (set_ptr h None s) = owners p s" for p using None by (auto simp: owners_set_ptr owner_iff)
  have "shared_inv n (set_ptr h None s)"
    using shared_invD[OF assms(1)] assms(2) by (intro shared_invI) (auto simp: same)
  then show ?thesis using None by (simp add: drop_ref_def)
next
  case (Some p)
  note d = shared_invD[OF assms(1)]
  have h: "h \<in> owners p s" using Some by (simp add: owner_iff)
  then have al: "alive s p" using d(2) by blast
  have cnt: "unat (ref_count s p) = card (owners p s)" by (rule d(3)[OF al])
  have fin: "finite (owners p s)" by (rule owners_finite(1)[OF assms(1)])
  have "card (owners p s) \<noteq> 0" using h fin by auto
  then have nz: "ref_count s p \<noteq> 0" using cnt by auto
  have cnt': "unat (ref_count s p - 1) = card (owners p s - {h})" using cnt h fin nz by (simp add: unat_minus_one)
  define s1 where "s1 = s\<lparr>ref_count := (ref_count s)(p := ref_count s p - 1)\<rparr>"
  define dead where "dead \<longleftrightarrow> ref_count s p - 1 = 0"
  define s2 where "s2 = (if dead then set_ptr h None (s1\<lparr>alive := (alive s1)(p := False)\<rparr>) else s1)"
  have r: "drop_ref h s = Some s2" using Some al by (simp add: drop_ref_def s1_def s2_def dead_def Let_def)
  have s2: "alive s2 = (alive s)(p := \<not> dead)" "ref_count s2 = (ref_count s)(p := ref_count s p - 1)" "next_obj s2 = next_obj s"
    using al by (auto simp: s2_def s1_def fun_eq_iff)
  have own: "owners q (set_ptr h None s2) = owners q s - {h}" for q
    by (auto simp: s2_def s1_def owners_set_ptr owners_def set_ptr_def)
  have dead: "dead \<longleftrightarrow> owners p s - {h} = {}" 
  proof -
    have "dead \<longleftrightarrow> card (owners p s - {h}) = 0" unfolding dead_def cnt'[symmetric] by (rule unat_eq_0[symmetric])
    then show ?thesis using card_0_eq[of "owners p s - {h}"] fin by blast
  qed
  have other: "owners q s - {h} = owners q s" if "q \<noteq> p" for q using that Some by (auto simp: owner_iff)
  have con: "constructed k s2 = constructed k s" for k
    using assms(2) by (auto simp: s2_def s1_def constructed_def set_ptr_def)
  have "shared_inv n (set_ptr h None s2)"
  proof (rule shared_invI)
    show "k < n" if "constructed k (set_ptr h None s2)" for k using that con d(1) assms(2) by auto
    show "alive (set_ptr h None s2) q \<longleftrightarrow> owners q (set_ptr h None s2) \<noteq> {}" for q
      using d(2)[of q] dead other[of q] al by (cases "q = p") (simp_all add: own s2)
    show "unat (ref_count (set_ptr h None s2) q) = card (owners q (set_ptr h None s2))" if "alive (set_ptr h None s2) q" for q
      using that d(3)[of q] other[of q] cnt' by (cases "q = p") (simp_all add: own s2)
    show "q < next_obj (set_ptr h None s2)" if "alive (set_ptr h None s2) q" for q
      using that d(4)[of q] d(4)[OF al] by (cases "q = p") (simp_all add: s2)
  qed
  moreover have "ptr_of h s2 = None \<or> ptr_of h s2 = ptr_of h s" "\<forall>r. r \<noteq> h \<longrightarrow> ptr_of r s2 = ptr_of r s"
    by (auto simp: s2_def s1_def ptr_of_def set_ptr_def)
  ultimately show ?thesis using r con s2(3) by simp
qed

text \<open>Taking a pointer to an object that is alive.\<close>

lemma add_ref_inv:
  assumes "shared_inv n (set_ptr h None s)" "h < n" "n < 2 ^ 32" "q = None \<or> (\<exists>p. q = Some p \<and> alive s p)"
  shows "\<exists>s'. add_ref h (set_ptr h q s) = Some s' \<and> shared_inv n s'"
proof (cases q)
  case None
  then show ?thesis using assms(1) by (simp add: add_ref_def)
next
  case (Some p)
  note d = shared_invD[OF assms(1)]
  have al: "alive s p" using assms(4) Some by simp
  let ?s = "(set_ptr h q s)\<lparr>ref_count := (ref_count s)(p := ref_count s p + 1)\<rparr>"
  have o: "owners r ?s = (if r = p then insert h (owners r (set_ptr h None s)) else owners r (set_ptr h None s))" for r
    by (auto simp: owners_def set_ptr_def Some)
  have nh: "h \<notin> owners r (set_ptr h None s)" for r by (simp add: owner_iff)
  have fin: "finite (owners p (set_ptr h None s))" "card (insert h (owners p (set_ptr h None s))) \<le> n"
  proof -
    show f: "finite (owners p (set_ptr h None s))" by (rule owners_finite(1)[OF assms(1)])
    have "insert h (owners p (set_ptr h None s)) \<subseteq> {..<n}" using assms(2) d(1) by (auto simp: owners_def constructed_def)
    then show "card (insert h (owners p (set_ptr h None s))) \<le> n" using card_mono[of "{..<n}"] by fastforce
  qed
  have "unat (ref_count s p) = card (owners p (set_ptr h None s))" using d(3)[of p] al by simp
  then have "unat (ref_count s p) + 1 \<le> n" using fin nh by simp
  then have cnt: "unat (ref_count s p + 1) = unat (ref_count s p) + 1" using assms(3) by (simp add: unat_add_no_wrap)
  have "shared_inv n ?s"
  proof (rule shared_invI)
    show "k < n" if "constructed k ?s" for k using that d(1)[of k] assms(2) by (auto simp: constructed_def set_ptr_def split: if_splits)
    show "alive ?s r \<longleftrightarrow> owners r ?s \<noteq> {}" for r using d(2)[of r] al by (auto simp: o)
    show "unat (ref_count ?s r) = card (owners r ?s)" if "alive ?s r" for r
      using that d(3)[of r] cnt fin(1) nh[of p] by (cases "r = p") (simp_all add: o)
    show "r < next_obj ?s" if "alive ?s r" for r using that d(4)[of r] by simp
  qed
  then show ?thesis using al Some by (auto simp: add_ref_def)
qed

text \<open>A new object, behind a handle that is null or not constructed yet.\<close>

lemma ptr_of_new [simp]: "ptr_of h (snd (new_object s)) = ptr_of h s"
  by (simp add: new_object_def ptr_of_def)

lemma make_inv:
  assumes "shared_inv n (set_ptr h None s)" "h < n"
  shows "\<exists>s'. add_ref h (set_ptr h (Some (next_obj s)) (snd (new_object s))) = Some s' \<and> shared_inv n s'"
proof -
  note d = shared_invD[OF assms(1)]
  let ?o = "next_obj s"
  let ?s = "(set_ptr h (Some ?o) (snd (new_object s)))\<lparr>ref_count := (ref_count s)(?o := 1)\<rparr>"
  have dead: "\<not> alive s ?o" using d(4)[of ?o] by auto
  then have none: "owners ?o (set_ptr h None s) = {}" using d(2)[of ?o] by simp
  have o: "owners r ?s = (if r = ?o then {h} else owners r (set_ptr h None s))" for r
    using none by (auto simp: owners_def set_ptr_def new_object_def split: if_splits)
  have f: "alive ?s = (alive s)(?o := True)" "ref_count ?s = (ref_count s)(?o := 1)" "next_obj ?s = ?o + 1"
    by (simp_all add: new_object_def)
  have "shared_inv n ?s"
  proof (rule shared_invI)
    show "k < n" if "constructed k ?s" for k
      using that d(1)[of k] assms(2) by (auto simp: constructed_def set_ptr_def new_object_def split: if_splits)
    show "alive ?s r \<longleftrightarrow> owners r ?s \<noteq> {}" for r using d(2)[of r] by (simp add: o f)
    show "unat (ref_count ?s r) = card (owners r ?s)" if "alive ?s r" for r using that d(3)[of r] by (simp add: o f split: if_splits)
    show "r < next_obj ?s" if "alive ?s r" for r using that d(4)[of r] by (auto simp: f split: if_splits)
  qed
  moreover have "add_ref h (set_ptr h (Some ?o) (snd (new_object s))) = Some ?s"
    by (simp add: add_ref_def new_object_def set_ptr_def ptr_of_def)
  ultimately show ?thesis by blast
qed

lemma drop_ref_new:
  assumes "ptr_of h s \<noteq> Some (next_obj s)"
  shows "drop_ref h (snd (new_object s)) = map_option (\<lambda>s. snd (new_object s)) (drop_ref h s)"
  using assms by (auto simp: drop_ref_def new_object_def ptr_of_def set_ptr_def Let_def fun_upd_twist split: option.splits)

lemma null_inv: "shared_inv n s \<Longrightarrow> \<not> constructed h s \<Longrightarrow> h < n \<Longrightarrow> shared_inv n (set_ptr h None s)"
proof (rule shared_invI)
  assume i: "shared_inv n s" and c: "\<not> constructed h s" and h: "h < n"
  note d = shared_invD[OF i]
  have "h \<notin> owners p s" for p using c by (simp add: owners_def constructed_def)
  then have same: "owners p (set_ptr h None s) = owners p s" for p by (simp add: owners_set_ptr)
  show "k < n" if "constructed k (set_ptr h None s)" for k using that d(1) h by auto
  show "alive (set_ptr h None s) p \<longleftrightarrow> owners p (set_ptr h None s) \<noteq> {}" for p using d(2)[of p] by (simp add: same)
  show "unat (ref_count (set_ptr h None s) p) = card (owners p (set_ptr h None s))" if "alive (set_ptr h None s) p" for p
    using that d(3)[of p] by (simp add: same)
  show "p < next_obj (set_ptr h None s)" if "alive (set_ptr h None s) p" for p using that d(4)[of p] by simp
qed

text \<open>A pointer goes from one handle to another that is null.\<close>

lemma move_inv:
  assumes "shared_inv n (set_ptr h None s)" "constructed r s" "h < n"
  shows "shared_inv n (set_ptr r None (set_ptr h (ptr_of r s) s))"
proof (cases "r = h")
  case True
  then show ?thesis using assms(1) by simp
next
  case False
  let ?nulled = "set_ptr h None s" and ?s = "set_ptr r None (set_ptr h (ptr_of r s) s)"
  note d = shared_invD[OF assms(1)]
  have o: "owners p ?s = (if ptr_of r s = Some p then insert h (owners p ?nulled - {r}) else owners p ?nulled)" for p
    using False by (auto simp: owners_set_ptr owner_iff)
  have c: "card (owners p ?s) = card (owners p ?nulled)" for p
  proof (cases "ptr_of r s = Some p")
    case True
    have fin: "finite (owners p ?nulled)" by (rule owners_finite(1)[OF assms(1)])
    have "r \<in> owners p ?nulled" "h \<notin> owners p ?nulled" using True False by (simp_all add: owner_iff)
    then have "card (insert h (owners p ?nulled - {r})) = card (owners p ?nulled)" using fin card_Suc_Diff1[OF fin] by simp
    then show ?thesis unfolding o using True by simp
  qed (simp add: o)
  show ?thesis
  proof (rule shared_invI)
    show "k < n" if "constructed k ?s" for k using that d(1)[of k] assms(2,3) by auto
    have "r \<in> owners p ?nulled" if "ptr_of r s = Some p" for p using that False by (simp add: owner_iff)
    then have "owners p ?s \<noteq> {} \<longleftrightarrow> owners p ?nulled \<noteq> {}" for p unfolding o by auto
    then show "alive ?s p \<longleftrightarrow> owners p ?s \<noteq> {}" for p using d(2)[of p] by simp
    show "unat (ref_count ?s p) = card (owners p ?s)" if "alive ?s p" for p using that d(3)[of p] c[of p] by simp
    show "p < next_obj ?s" if "alive ?s p" for p using that d(4)[of p] by simp
  qed
qed

lemma alive_ptr: "shared_inv n s \<Longrightarrow> ptr_of h s = Some p \<Longrightarrow> alive s p"
  using shared_invD(2)[of n s p] owner_iff[of h p s] by auto

lemma run_op_inv:
  assumes "shared_inv n s" "legal n x s" "n < 2 ^ 32"
  shows "\<exists>s'. run_op x s = Some s' \<and> shared_inv n s'"
proof -
  have bound: "constructed h s \<Longrightarrow> h < n" for h by (rule shared_invD(1)[OF assms(1)])
  have dropped: "\<exists>s'. Option.bind (drop_ref h s) (\<lambda>s. add_ref h (set_ptr h q s)) = Some s' \<and> shared_inv n s'"
    if h: "constructed h s" and q: "ptr_of h s \<noteq> q" "q = None \<or> (\<exists>r. ptr_of r s = q)" for h q
  proof -
    obtain s1 where s1: "drop_ref h s = Some s1" "shared_inv n (set_ptr h None s1)" "\<forall>r. r \<noteq> h \<longrightarrow> ptr_of r s1 = ptr_of r s"
      using drop_ref_inv[OF assms(1) h] by blast
    have "q = None \<or> (\<exists>p. q = Some p \<and> alive s1 p)"
    proof (cases q)
      case (Some p)
      with q obtain r where r: "ptr_of r s = q" "r \<noteq> h" by auto
      have "alive (set_ptr h None s1) p" by (rule alive_ptr[OF s1(2), of r]) (use r s1(3) Some in simp)
      with Some show ?thesis by simp
    qed simp
    with add_ref_inv[OF s1(2) bound[OF h] assms(3)] s1(1) show ?thesis by simp
  qed
  show ?thesis
  proof (cases x)
    case (Make h)
    have "shared_inv n (set_ptr h None s)" "h < n" using assms(2) null_inv[OF assms(1)] Make by simp_all
    from make_inv[OF this] Make show ?thesis by (simp add: Shared_make_def Shared_ptr_def new_object_def)
  next
    case (Null h)
    then show ?thesis using null_inv[OF assms(1)] assms(2) by (simp add: Shared_null_def)
  next
    case (Copy h r)
    have i: "shared_inv n (set_ptr h None s)" "h < n" using assms(2) null_inv[OF assms(1)] Copy by simp_all
    have "ptr_of r s = None \<or> (\<exists>p. ptr_of r s = Some p \<and> alive s p)" using alive_ptr[OF assms(1), of r] by (cases "ptr_of r s") auto
    from add_ref_inv[OF i assms(3) this] Copy show ?thesis by (simp add: Shared_copy_def)
  next
    case (Move h r)
    have i: "shared_inv n (set_ptr h None s)" "h < n" "constructed r s" using assms(2) null_inv[OF assms(1)] Move by simp_all
    from move_inv[OF i(1,3,2)] Move show ?thesis by (simp add: Shared_move_def)
  next
    case (Destroy h)
    obtain s1 where s1: "drop_ref h s = Some s1" "shared_inv n (set_ptr h None s1)" using drop_ref_inv[OF assms(1), of h] assms(2) Destroy by (metis legal.simps(5))
    note d = shared_invD[OF s1(2)]
    let ?s = "s1\<lparr>handles := (handles s1)(h := None)\<rparr>"
    have o: "owners p ?s = owners p (set_ptr h None s1)" for p by (auto simp: owners_def set_ptr_def)
    have "shared_inv n ?s"
      by (rule shared_invI) (use d in \<open>auto simp: o constructed_def set_ptr_def split: if_splits\<close>)
    with s1(1) Destroy show ?thesis by (simp add: Shared_destroy_def)
  next
    case (AssignNew h)
    have h: "constructed h s" using assms(2) AssignNew by simp
    have ne: "ptr_of h s \<noteq> Some (next_obj s)" using alive_ptr[OF assms(1), of h] shared_invD(4)[OF assms(1)] by fastforce
    obtain s1 where s1: "drop_ref h s = Some s1" "shared_inv n (set_ptr h None s1)" "next_obj s1 = next_obj s"
      using drop_ref_inv[OF assms(1) h] by blast
    from make_inv[OF s1(2) bound[OF h]] obtain s2 where
      s2: "add_ref h (set_ptr h (Some (next_obj s)) (snd (new_object s1))) = Some s2" "shared_inv n s2" unfolding s1(3) by blast
    have "assign_new h s = Some s2"
      using drop_ref_new[OF ne] s1(1) s2(1) ne unfolding assign_new_def assign_ptr_def
      by (simp add: new_object_def ptr_of_def split: option.splits)
    with s2(2) AssignNew show ?thesis by simp
  next
    case (AssignNull h)
    then show ?thesis using dropped[of h None] assms(1,2) by (auto simp: assign_ptr_def)
  next
    case (AssignCopy h r)
    then show ?thesis using dropped[of h "ptr_of r s"] assms(1,2) by (auto simp: assign_copy_def Let_def)
  next
    case (AssignMove h r)
    have h: "constructed h s" "constructed r s" using assms(2) AssignMove by simp_all
    obtain s1 where s1: "drop_ref h s = Some s1" "shared_inv n (set_ptr h None s1)" "\<forall>k. constructed k s1 = constructed k s"
      using drop_ref_inv[OF assms(1) h(1)] by blast
    from move_inv[OF s1(2) _ bound[OF h(1)], of r] s1 h(2) AssignMove show ?thesis by (simp add: assign_move_def)
  qed
qed

subsection \<open>What the counts guarantee\<close>

lemma shared_reachable: "(shared_step n)\<^sup>*\<^sup>* no_handles s \<Longrightarrow> n < 2 ^ 32 \<Longrightarrow> shared_inv n s"
proof (induction rule: rtranclp_induct)
  case base
  show ?case by (rule shared_invI) (simp_all add: no_handles_def owners_def constructed_def)
next
  case (step a b)
  from step(2) obtain x where "legal n x a" "run_op x a = Some b" by (auto elim: shared_step.cases)
  with run_op_inv[of n a x] step show ?case by auto
qed

text \<open>C25. An object lives exactly as long as a handle points to it. Whatever a program constructs, copies, moves, assigns, to
  itself too, and destroys, the objects that are not deleted are those some handle points to, their counts are the numbers of these
  handles, and no operation touches an object that is deleted.\<close>

theorem shared_lives_as_long_as_owned:
  assumes "(shared_step n)\<^sup>*\<^sup>* no_handles s" "n < 2 ^ 32"
  shows "(alive s p \<longleftrightarrow> (\<exists>h. ptr_of h s = Some p)) \<and> (alive s p \<longrightarrow> unat (ref_count s p) = card {h. ptr_of h s = Some p})
    \<and> (legal n x s \<longrightarrow> run_op x s \<noteq> None)"
proof -
  have inv: "shared_inv n s" by (rule shared_reachable[OF assms])
  have o: "owners p s = {h. ptr_of h s = Some p}" by (auto simp: owner_iff)
  have "legal n x s \<longrightarrow> run_op x s \<noteq> None" using run_op_inv[OF inv _ assms(2), of x] by auto
  then show ?thesis using shared_invD(2,3)[OF inv, of p] unfolding o by auto
qed

theorem shared_lives_as_long_as_owned_witness:
  "\<exists>s. (shared_step 2)\<^sup>*\<^sup>* no_handles s \<and> ptr_of 0 s = Some 0 \<and> alive s 0 \<and> run_op (AssignMove 0 0) s \<noteq> None"
proof -
  obtain s where s: "run_op (Make 0) no_handles = Some s" "ptr_of 0 s = Some 0" "legal 2 (AssignMove 0 0) s"
    by (simp add: Shared_make_def Shared_ptr_def new_object_def no_handles_def add_ref_def set_ptr_def ptr_of_def constructed_def)
  have "shared_step 2 no_handles s" by (rule shared_step.intros[OF _ s(1)]) (simp add: constructed_def no_handles_def)
  then have r: "(shared_step 2)\<^sup>*\<^sup>* no_handles s" by blast
  have "alive s 0" "run_op (AssignMove 0 0) s \<noteq> None"
    using shared_lives_as_long_as_owned[OF r, of 0 "AssignMove 0 0"] s(2,3) by auto
  with r s(2) show ?thesis by blast
qed

end
