(* ===== verification/Spec2Isabelle.thy ===== *)
theory Spec2Isabelle
  imports Prelude Graphics Rng Shapes Fonts Fifo Keyboard Tetris TetrisGame UserHeap HeapRep Allocator HeapOps HeapProps
    KernelHeap Printf PrintfProps LibK Snprintf LinkedQueue Semaphores BoundedBuffer Bytes BlockIO Ide Ext2 Ext2Props Elf Vmm VmmRep VmmFork VmmProps Processes ProcessProps Exec Sys SysProps
    Locks Threads Config Barriers Conditions SharedPtr
begin

text \<open>
  \<^bold>\<open>A verified model of Basic-Tetris.\<close> The program is a small x86 kernel that boots, starts its threads and
  plays Tetris on the VGA screen (\<open>src/kernel\<close>), with a few user programs (\<open>src/tetris.dir/sbin\<close>). The
  kernel's \<open>main\<close> builds a \<open>Tetris\<close> object and calls \<open>play\<close>; the keyboard interrupt fills a ring of
  characters that \<open>play\<close> reads; the timer moves \<open>jiffies\<close>, which decides when the piece falls; pieces are
  drawn through \<open>Graphics\<close> on the screen and on a second frame that serves as the game's board; the status
  display writes text with \<open>Fonts\<close>. Both heaps, the formatters and the synchronisation primitives serve
  the rest of the system.

  \<^bold>\<open>Theories and code.\<close>
  \<^item> \<open>Prelude\<close>: the machine's types (\<open>u8\<close>, \<open>u16\<close>, \<open>u32\<close>, \<open>u64\<close>), hints and lemmas the components share.
  \<^item> \<open>Graphics\<close>: \<open>graphics.h\<close>, \<open>graphics.cc\<close>, \<open>mathfncs.h\<close>. The state is the record of the two frames and a fault
    flag that any access outside them sets. Each drawing function is one definition over that record.
  \<^item> \<open>Rng\<close>: \<open>random.h\<close>. The pair of 32-bit words of the multiply-with-carry generator.
  \<^item> \<open>Shapes\<close>: \<open>shapes.h\<close>, \<open>shapes.cc\<close>. A piece with its 16-cell template; constructors, moves, rotation, drawing.
  \<^item> \<open>Fonts\<close>: \<open>fonts.h\<close>, \<open>fonts.cc\<close>. The font file is a byte function; glyph lookup and text output.
  \<^item> \<open>Fifo\<close>, \<open>Keyboard\<close>: \<open>keyboard.h\<close>, \<open>keyboard.cc\<close>, \<open>scancode.h\<close>. The handler of a scan code, the 128-byte ring as
    an interpretation of the locale \<open>fifo\<close>, the status display.
  \<^item> \<open>Tetris\<close>, \<open>TetrisGame\<close>: \<open>tetris.h\<close> and \<open>kernelMain\<close> of \<open>kernel.cc\<close>. Constructor, collision tests, moves; the game loop
    is the step relation \<open>game_step\<close>, in which keys and ticks arrive between any two rounds.
  \<^item> \<open>UserHeap\<close>, \<open>HeapRep\<close>, \<open>Allocator\<close>, \<open>HeapOps\<close>, \<open>HeapProps\<close>: \<open>sbin/heap.c\<close>. The array of words with boundary tags and
    a doubly linked free list; \<open>rep\<close> relates it to a list of blocks; the locale \<open>allocator\<close> states what a
    client may rely on and is interpreted by both heaps.
  \<^item> \<open>KernelHeap\<close>: \<open>kernel/heap.cc\<close>, on the same representation.
  \<^item> \<open>Printf\<close>, \<open>PrintfProps\<close>: \<open>sbin/printf.c\<close>; \<open>Snprintf\<close>: \<open>kernel/snprintf.cc\<close>, \<open>libk.cc\<close>, \<open>debug.cc\<close>. The formatter's state
    machine, one definition per conversion; the processor's floating point is the parameter \<open>fpu\<close>.
  \<^item> \<open>LinkedQueue\<close>: \<open>queue.h\<close>, the kernel's queue threaded through the \<open>next\<close> fields of its elements.
  \<^item> \<open>Semaphores\<close>: \<open>semaphore.cc\<close>, \<open>blocking_lock.h\<close>. Threads as programs of instructions, the step relation \<open>sstep\<close>,
    and the locale \<open>permits\<close>: a semaphore's permits are never lost or made up.
  \<^item> \<open>BoundedBuffer\<close>: \<open>bb.h\<close>, three semaphores and a ring, with any number of producers and consumers.

  \<^bold>\<open>What the lemmas show.\<close> For the game: an invariant of all reachable states, freedom from faults in the columns of
  the screen, exactness of the collision test, that pieces land, and what a drop does; lines and glyphs
  against their mathematical meaning. For the heaps: each operation against the list of blocks,
  coalescing, isolation of clients in arbitrary sessions, termination. For the formatters: they print
  the meaning of every format, integers read back, and the two copies agree. For the keyboard: any
  session is a queue's. For threads: mutual exclusion, first-in first-out through the bounded buffer under every
  interleaving, and no two sides waiting at once. Where the code does not do what it means to, a theorem shows it.

  \<^bold>\<open>Conventions.\<close> A machine word is a word of its width, and its operations wrap. \<open>None\<close> stands for undefined
  behaviour: a fault, a failed assertion or a call that stops the machine. The loops are total functions;
  where the source's loop is not structural the definition has its termination proof. An operation that runs with
  interrupts off or under its lock is one step of a step relation.

  \<^bold>\<open>Not modelled.\<close> Assembly and start-up (\<open>mbr.S\<close>, \<open>machine.S\<close>, \<open>context.s\<close>, \<open>init.cc\<close>, the C runtime hooks); the
  interrupt and task tables, whose content only the processor reads (\<open>idt\<close>, \<open>tss\<close>, \<open>smp\<close>); the serial port.
\<close>

end
